(* ===== verification/Prelude.thy ===== *)
theory Prelude
  imports Main "HOL-Library.Word" "HOL-Library.Monad_Syntax" "HOL-Library.Multiset"
begin

text \<open>
  Shared vocabulary of the development.

  \<^item> C arrays are lists that stand for the whole allocated buffer; \<open>aget\<close>, \<open>aset\<close> and
    \<open>memmove\<close> are the array accesses of the source, with \<open>None\<close> for an access outside the
    buffer (undefined behaviour in C).  A function of the model that performs such accesses
    returns an option, so that \<open>\<noteq> None\<close> reads: no out-of-bounds access.
  \<^item> \<open>for_loop lo hi\<close> is \<^verbatim>\<open>for (int i = lo; i < hi; i++)\<close> over an explicit loop state.
  \<^item> \<open>permutation_upto n xs\<close> says that \<open>xs\<close> is a permutation of \<open>0, \<dots>, n - 1\<close>.
\<close>

type_synonym byte = "8 word"
type_synonym u16 = "16 word"
type_synonym u32 = "32 word"
type_synonym u64 = "64 word"

named_theorems array_simps \<open>rewriting of in-bounds array accesses\<close>
named_theorems inv_intros \<open>preservation of component invariants\<close>

section \<open>Array accesses\<close>

definition aget :: "'a list \<Rightarrow> int \<Rightarrow> 'a option" where
  "aget xs i = (if 0 \<le> i \<and> i < int (length xs) then Some (xs ! nat i) else None)"

definition aset :: "'a list \<Rightarrow> int \<Rightarrow> 'a \<Rightarrow> 'a list option" where
  "aset xs i v = (if 0 \<le> i \<and> i < int (length xs) then Some (xs[nat i := v]) else None)"

definition memmove :: "'a list \<Rightarrow> int \<Rightarrow> int \<Rightarrow> int \<Rightarrow> 'a list option" where
  "memmove xs dst src n =
     (if 0 \<le> n \<and> 0 \<le> dst \<and> 0 \<le> src \<and> src + n \<le> int (length xs) \<and> dst + n \<le> int (length xs)
      then Some (take (nat dst) xs @ take (nat n) (drop (nat src) xs) @ drop (nat (dst + n)) xs)
      else None)"

text \<open>The first \<open>n\<close> elements, as \<^verbatim>\<open>memcpy\<close> reads them into a fresh buffer.\<close>

definition memcpy_out :: "'a list \<Rightarrow> int \<Rightarrow> 'a list option" where
  "memcpy_out xs n = (if 0 \<le> n \<and> n \<le> int (length xs) then Some (take (nat n) xs) else None)"

text \<open>A \<^verbatim>\<open>realloc\<close> to \<open>n\<close> elements: the common prefix is kept, new elements are \<open>fill\<close>.\<close>

definition resize :: "int \<Rightarrow> 'a \<Rightarrow> 'a list \<Rightarrow> 'a list" where
  "resize n fill xs = take (nat n) xs @ replicate (nat n - length xs) fill"

lemma aget_Some [array_simps]: "0 \<le> i \<Longrightarrow> i < int (length xs) \<Longrightarrow> aget xs i = Some (xs ! nat i)"
  by (simp add: aget_def)

lemma aset_Some [array_simps]: "0 \<le> i \<Longrightarrow> i < int (length xs) \<Longrightarrow> aset xs i v = Some (xs[nat i := v])"
  by (simp add: aset_def)

lemma aget_eq_Some_iff: "aget xs i = Some v \<longleftrightarrow> 0 \<le> i \<and> i < int (length xs) \<and> xs ! nat i = v"
  by (auto simp: aget_def)

lemma aget_None_iff: "aget xs i = None \<longleftrightarrow> i < 0 \<or> int (length xs) \<le> i"
  by (auto simp: aget_def)

lemma length_resize [simp]: "0 \<le> n \<Longrightarrow> length (resize n fill xs) = nat n"
  by (simp add: resize_def)

lemma take_resize: "0 \<le> n \<Longrightarrow> n \<le> m \<Longrightarrow> n \<le> int (length xs) \<Longrightarrow>
    take (nat n) (resize m fill xs) = take (nat n) xs"
  by (simp add: resize_def min_def take_append)

lemma nth_eq_take: "i < n \<Longrightarrow> take n xs ! i = xs ! i"
  by simp

section \<open>Counted loops\<close>

function for_loop :: "int \<Rightarrow> int \<Rightarrow> (int \<Rightarrow> 's \<Rightarrow> 's option) \<Rightarrow> 's \<Rightarrow> 's option" where
  "for_loop lo hi f s =
     (if lo < hi then (case f lo s of None \<Rightarrow> None | Some s' \<Rightarrow> for_loop (lo + 1) hi f s')
      else Some s)"
  by pat_completeness auto
termination
  by (relation "measure (\<lambda>(lo, hi, f, s). nat (hi - lo))") auto

declare for_loop.simps [simp del]

lemma for_loop_empty [simp]: "hi \<le> lo \<Longrightarrow> for_loop lo hi f s = Some s"
  by (simp add: for_loop.simps[of lo])

text \<open>The proof rule for counted loops: an invariant indexed by the loop counter.\<close>

lemma for_loop_rule:
  assumes "I lo s" and "lo \<le> hi"
    and "\<And>i s. lo \<le> i \<Longrightarrow> i < hi \<Longrightarrow> I i s \<Longrightarrow> \<exists>s'. f i s = Some s' \<and> I (i + 1) s'"
  shows "\<exists>s'. for_loop lo hi f s = Some s' \<and> I hi s'"
  using assms
proof (induction lo hi f s rule: for_loop.induct)
  case (1 lo hi f s)
  show ?case
  proof (cases "lo < hi")
    case True
    obtain s' where s': "f lo s = Some s'" "I (lo + 1) s'"
      using "1.prems"(1) "1.prems"(3)[of lo s] True by auto
    have "\<exists>s''. for_loop (lo + 1) hi f s' = Some s'' \<and> I hi s''"
      using "1.IH"[OF True s'(1)] s'(2) True "1.prems"(3) by auto
    then show ?thesis using True s'(1) by (simp add: for_loop.simps[of lo])
  next
    case False
    then have "lo = hi" using "1.prems"(2) by simp
    then show ?thesis using "1.prems"(1) by simp
  qed
qed

lemma for_loop_cong:
  "(\<And>i s. lo \<le> i \<Longrightarrow> i < hi \<Longrightarrow> f i s = g i s) \<Longrightarrow> for_loop lo hi f s = for_loop lo hi g s"
proof (induction lo hi f s rule: for_loop.induct)
  case (1 lo hi f s)
  show ?case
  proof (cases "lo < hi")
    case True
    have "f lo s = g lo s" using "1.prems" True by simp
    moreover have "for_loop (lo + 1) hi f s' = for_loop (lo + 1) hi g s'" if "f lo s = Some s'" for s'
      using "1.IH"[OF True that] "1.prems" by simp
    ultimately show ?thesis using True by (simp add: for_loop.simps[of lo] split: option.split)
  qed simp
qed

text \<open>A loop that rewrites the first \<open>n\<close> elements of an array, element by element.\<close>

lemma for_loop_map:
  assumes "0 \<le> n" and "n \<le> int (length xs)"
  shows "for_loop 0 n (\<lambda>i ys. do { v \<leftarrow> aget ys i; aset ys i (g v) }) xs
       = Some (map g (take (nat n) xs) @ drop (nat n) xs)"
proof -
  let ?f = "\<lambda>i ys. do { v \<leftarrow> aget ys i; aset ys i (g v) }"
  let ?I = "\<lambda>i ys. 0 \<le> i \<and> ys = map g (take (nat i) xs) @ drop (nat i) xs"
  have "\<exists>s'. for_loop 0 n ?f xs = Some s' \<and> ?I n s'"
  proof (rule for_loop_rule)
    fix i s assume i: "0 \<le> i" "i < n" and I: "?I i s"
    define k where "k = nat i"
    have k: "k < length xs" "i = int k" using i assms k_def by auto
    have "s = map g (take k xs) @ drop k xs" using I k by simp
    then have s: "s = map g (take k xs) @ xs ! k # drop (Suc k) xs"
      by (simp only: Cons_nth_drop_Suc[OF k(1)])
    have len: "length s = length xs" using s k by simp
    have "s ! k = xs ! k" using s k by (simp add: nth_append)
    moreover have "s[k := g (xs ! k)] = map g (take (Suc k) xs) @ drop (Suc k) xs"
      using s k by (simp add: list_update_append take_Suc_conv_app_nth)
    moreover have "nat (i + 1) = Suc k" using k by simp
    ultimately show "\<exists>s'. ?f i s = Some s' \<and> ?I (i + 1) s'"
      using k len i by (simp add: array_simps)
  qed (use assms in auto)
  then show ?thesis by blast
qed

text \<open>A loop that writes \<open>n\<close> consecutive cells.\<close>

lemma for_loop_fill:
  assumes "0 \<le> n" and "0 \<le> a" and "a + n \<le> int (length xs)"
  shows "for_loop 0 n (\<lambda>i ys. aset ys (a + i) (g i)) xs
       = Some (take (nat a) xs @ map g [0..n - 1] @ drop (nat (a + n)) xs)"
proof -
  let ?f = "\<lambda>i ys. aset ys (a + i) (g i)"
  let ?I = "\<lambda>i ys. 0 \<le> i \<and> ys = take (nat a) xs @ map g [0..i - 1] @ drop (nat (a + i)) xs"
  have "\<exists>s'. for_loop 0 n ?f xs = Some s' \<and> ?I n s'"
  proof (rule for_loop_rule)
    fix i s assume i: "0 \<le> i" "i < n" and I: "?I i s"
    have b: "nat (a + i) < length xs" using i assms by auto
    have s: "s = take (nat a) xs @ map g [0..i - 1] @ xs ! nat (a + i) # drop (Suc (nat (a + i))) xs"
      using I b by (simp add: Cons_nth_drop_Suc)
    have la: "length (take (nat a) xs) = nat a" using assms by simp
    have lu: "length (map g [0..i - 1]) = nat i" using i by simp
    have sum: "nat (a + i) = nat a + nat i" using i assms by simp
    have len: "length s = length xs" using s la lu b sum by simp
    have up: "[0..i] = [0..i - 1] @ [i]" using i upto_rec2[of 0 i] by simp
    have "s[nat (a + i) := g i] = take (nat a) xs @ map g [0..i] @ drop (nat (a + (i + 1))) xs"
      using la lu s sum i assms by (simp add: up list_update_append nat_add_distrib)
    then show "\<exists>s'. ?f i s = Some s' \<and> ?I (i + 1) s'"
      using i assms len b by (simp add: array_simps)
  qed (use assms in auto)
  then show ?thesis by blast
qed

text \<open>
  \<open>find_loop\<close> is \<^verbatim>\<open>for (i = lo; i < hi; i++) if (p(i)) break;\<close>: the first index that
  satisfies the test, \<open>None\<close> when the loop runs to its end.
\<close>

function find_loop :: "int \<Rightarrow> int \<Rightarrow> (int \<Rightarrow> bool) \<Rightarrow> int option" where
  "find_loop lo hi p = (if lo < hi then (if p lo then Some lo else find_loop (lo + 1) hi p) else None)"
  by pat_completeness auto
termination
  by (relation "measure (\<lambda>(lo, hi, p). nat (hi - lo))") auto

declare find_loop.simps [simp del]

lemma find_loop_Some:
  "find_loop lo hi p = Some i \<Longrightarrow> lo \<le> i \<and> i < hi \<and> p i \<and> (\<forall>j. lo \<le> j \<and> j < i \<longrightarrow> \<not> p j)"
proof (induction lo hi p rule: find_loop.induct)
  case (1 lo hi p)
  show ?case
  proof (cases "lo < hi \<and> \<not> p lo")
    case True
    then have rec: "find_loop (lo + 1) hi p = Some i"
      using "1.prems" by (simp add: find_loop.simps[of lo])
    have IH: "lo + 1 \<le> i \<and> i < hi \<and> p i \<and> (\<forall>j. lo + 1 \<le> j \<and> j < i \<longrightarrow> \<not> p j)"
      using "1.IH" True rec by simp
    have "\<not> p j" if "lo \<le> j" "j < i" for j
    proof (cases "j = lo")
      case False
      then have "lo + 1 \<le> j" using that by simp
      then show ?thesis using IH that by blast
    qed (use True in simp)
    with IH show ?thesis by auto
  next
    case False
    then show ?thesis using "1.prems" by (auto simp: find_loop.simps[of lo] split: if_splits)
  qed
qed

lemma find_loop_None: "find_loop lo hi p = None \<longleftrightarrow> (\<forall>j. lo \<le> j \<and> j < hi \<longrightarrow> \<not> p j)"
proof (induction lo hi p rule: find_loop.induct)
  case (1 lo hi p)
  show ?case
  proof (cases "lo < hi \<and> \<not> p lo")
    case True
    then have "find_loop lo hi p = None \<longleftrightarrow> (\<forall>j. lo + 1 \<le> j \<and> j < hi \<longrightarrow> \<not> p j)"
      using "1.IH" by (simp add: find_loop.simps[of lo])
    also have "\<dots> \<longleftrightarrow> (\<forall>j. lo \<le> j \<and> j < hi \<longrightarrow> \<not> p j)"
      using True by (metis add1_zle_eq order_le_less)
    finally show ?thesis .
  next
    case False
    then show ?thesis by (auto simp: find_loop.simps[of lo])
  qed
qed

text \<open>The same search where the test itself performs an array access.\<close>

function find_loopM :: "int \<Rightarrow> int \<Rightarrow> (int \<Rightarrow> bool option) \<Rightarrow> int option option" where
  "find_loopM lo hi p =
     (if lo < hi then (case p lo of None \<Rightarrow> None
        | Some b \<Rightarrow> if b then Some (Some lo) else find_loopM (lo + 1) hi p)
      else Some None)"
  by pat_completeness auto
termination
  by (relation "measure (\<lambda>(lo, hi, p). nat (hi - lo))") auto

declare find_loopM.simps [simp del]

lemma find_loopM_pure:
  "(\<And>i. lo \<le> i \<Longrightarrow> i < hi \<Longrightarrow> p i = Some (q i)) \<Longrightarrow> find_loopM lo hi p = Some (find_loop lo hi q)"
proof (induction lo hi p rule: find_loopM.induct)
  case (1 lo hi p)
  then show ?case
    by (cases "lo < hi"; cases "q lo") (simp_all add: find_loopM.simps[of lo] find_loop.simps[of lo])
qed

lemma find_loop_cong:
  assumes "\<And>i. lo \<le> i \<Longrightarrow> i < hi \<Longrightarrow> p i = q i"
  shows "find_loop lo hi p = find_loop lo hi q"
proof -
  have "Some (find_loop lo hi p) = find_loopM lo hi (\<lambda>i. Some (p i))"
    by (rule find_loopM_pure[symmetric]) simp
  also have "\<dots> = Some (find_loop lo hi q)" by (rule find_loopM_pure) (simp add: assms)
  finally show ?thesis by simp
qed

lemma find_loopM_aget:
  assumes "hi \<le> int (length xs)"
  shows "find_loopM 0 hi (\<lambda>i. map_option P (aget xs i)) = Some (find_loop 0 hi (\<lambda>i. P (xs ! nat i)))"
  using assms by (intro find_loopM_pure) (simp add: array_simps)

text \<open>A conditional element-wise rewrite is an unconditional one.\<close>

lemma for_loop_map_if:
  assumes "0 \<le> n" and "n \<le> int (length xs)"
  shows "for_loop 0 n (\<lambda>i ys. do { v \<leftarrow> aget ys i; if P v then aset ys i (g v) else Some ys }) xs
       = Some (map (\<lambda>v. if P v then g v else v) (take (nat n) xs) @ drop (nat n) xs)"
proof -
  have eq: "(\<lambda>i ys. do { v \<leftarrow> aget ys i; if P v then aset ys i (g v) else Some ys })
     = (\<lambda>i ys. do { v \<leftarrow> aget ys i; aset ys i (if P v then g v else v) })"
    by (auto simp: fun_eq_iff aget_def aset_def)
  show ?thesis by (simp only: eq for_loop_map[OF assms])
qed

section \<open>Permutations of an initial segment\<close>

definition permutation_upto :: "int \<Rightarrow> int list \<Rightarrow> bool" where
  "permutation_upto n xs \<longleftrightarrow> distinct xs \<and> set xs = {0..<n}"

lemma permutation_upto_length: "permutation_upto n xs \<Longrightarrow> length xs = nat n"
  by (metis card_atLeastZeroLessThan_int distinct_card permutation_upto_def)

lemma permutation_upto_nth:
  "permutation_upto n xs \<Longrightarrow> i < length xs \<Longrightarrow> 0 \<le> xs ! i \<and> xs ! i < n"
  by (metis atLeastLessThan_iff nth_mem permutation_upto_def)

lemma permutation_upto_mset: "permutation_upto n xs \<longleftrightarrow> mset xs = mset [0..n - 1]"
proof -
  have "set [0..n - 1] = {0..<n}" by auto
  moreover have "distinct [0..n - 1]" by simp
  ultimately show ?thesis
    by (metis permutation_upto_def mset_eq_imp_distinct_iff mset_eq_setD set_eq_iff_mset_eq_distinct)
qed

lemma permutation_upto_cong: "mset xs = mset ys \<Longrightarrow> permutation_upto n xs \<longleftrightarrow> permutation_upto n ys"
  by (simp add: permutation_upto_mset)

lemma permutation_upto_upt [simp]: "permutation_upto n [0..n - 1]"
  by (simp add: permutation_upto_mset)

lemma mset_splice: "mset (take n xs @ ys @ drop n xs) = mset xs + mset ys"
  by (metis append_take_drop_id mset_append union_assoc union_commute)

lemma permutation_upto_0_iff: "n \<le> 0 \<Longrightarrow> permutation_upto n xs \<longleftrightarrow> xs = []"
  by (auto simp: permutation_upto_def)

section \<open>State machines\<close>

text \<open>
  The contract of a component that is driven by commands: from a state that satisfies the
  invariant every allowed command is executed (the model's \<open>None\<close>, an access outside a buffer,
  does not occur) and leads to a state that satisfies it again.
\<close>

inductive reachable_by :: "('s \<Rightarrow> bool) \<Rightarrow> ('c \<Rightarrow> 's \<Rightarrow> bool) \<Rightarrow> ('c \<Rightarrow> 's \<Rightarrow> 's option) \<Rightarrow> 's \<Rightarrow> bool"
  for start :: "'s \<Rightarrow> bool" and allowed :: "'c \<Rightarrow> 's \<Rightarrow> bool" and exec :: "'c \<Rightarrow> 's \<Rightarrow> 's option"
where
  reach_start: "start s \<Longrightarrow> reachable_by start allowed exec s"
| reach_exec: "reachable_by start allowed exec s \<Longrightarrow> allowed c s \<Longrightarrow> exec c s = Some s' \<Longrightarrow>
    reachable_by start allowed exec s'"

locale safe_machine =
  fixes start :: "'s \<Rightarrow> bool" and allowed :: "'c \<Rightarrow> 's \<Rightarrow> bool" and exec :: "'c \<Rightarrow> 's \<Rightarrow> 's option"
    and inv :: "'s \<Rightarrow> bool"
  assumes start_inv: "start s \<Longrightarrow> inv s"
    and exec_inv: "inv s \<Longrightarrow> allowed c s \<Longrightarrow> \<exists>s'. exec c s = Some s' \<and> inv s'"
begin

lemma reachable_inv: "reachable_by start allowed exec s \<Longrightarrow> inv s"
proof (induction rule: reachable_by.induct)
  case (reach_exec s c s')
  then show ?case using exec_inv by fastforce
qed (rule start_inv)

lemma reachable_safe:
  "reachable_by start allowed exec s \<Longrightarrow> allowed c s \<Longrightarrow>
     \<exists>s'. exec c s = Some s' \<and> reachable_by start allowed exec s' \<and> inv s'"
  using exec_inv[OF reachable_inv] reach_exec[of start allowed exec s c] by blast

end

end
