(* ===== verification/Playback_Order.thy ===== *)
theory Playback_Order
  imports Prelude
begin

text \<open>
  The shuffle-bag primitives of \<^verbatim>\<open>src/src/library/playback_order.h\<close>: inserting and removing
  physical playlist slots in a permutation, and resequencing paths into display order.

  The bag is the prefix of length \<open>cnt\<close> (\<^verbatim>\<open>count\<close> in the source) of the buffer \<open>order\<close>.  \<open>bag_insert\<close> and
  \<open>bag_remove\<close> are the abstract operations on the bag; the locale \<open>bag_store\<close> is the
  interface the play queue relies on, and its interpretation shows that the buffer code
  implements it without an out-of-bounds access.
\<close>

section \<open>The operations of the source\<close>

definition playback_order_insert :: "int list \<Rightarrow> int \<Rightarrow> int \<Rightarrow> int \<Rightarrow> int \<Rightarrow> int list option" where
  "playback_order_insert order cnt physical at added = do {
     order \<leftarrow> for_loop 0 cnt (\<lambda>i order. do {
        v \<leftarrow> aget order i;
        if physical \<le> v then aset order i (v + added) else Some order }) order;
     order \<leftarrow> memmove order (at + added) at (cnt - at);
     for_loop 0 added (\<lambda>i order. aset order (at + i) (physical + i)) order
   }"

definition playback_order_remove :: "int list \<Rightarrow> int \<Rightarrow> int \<Rightarrow> (int \<times> int list) option" where
  "playback_order_remove order cnt physical = do {
     found \<leftarrow> find_loopM 0 cnt (\<lambda>i. map_option (\<lambda>v. v = physical) (aget order i));
     case found of
       None \<Rightarrow> Some (-1, order)
     | Some removed \<Rightarrow> do {
         order \<leftarrow> memmove order removed (removed + 1) (cnt - removed - 1);
         order \<leftarrow> for_loop 0 (cnt - 1) (\<lambda>i order. do {
            v \<leftarrow> aget order i;
            if physical < v then aset order i (v - 1) else Some order }) order;
         Some (removed, order) }
   }"

text \<open>
  The pointers \<open>order\<close>, \<open>order_count\<close> and \<open>pos\<close> may be NULL (\<open>None\<close>).  The result is the
  return value and the three pointed-to values after the call.
\<close>

definition playback_order_note_removed ::
    "int list option \<Rightarrow> int option \<Rightarrow> int option \<Rightarrow> int \<Rightarrow> int
     \<Rightarrow> (int \<times> int list option \<times> int option \<times> int option) option" where
  "playback_order_note_removed order order_count pos physical playlist_count =
     (case (order, order_count) of
        (Some ord, Some oc) \<Rightarrow>
          if oc \<noteq> playlist_count \<or> playlist_count \<le> 0 then Some (-1, order, order_count, pos)
          else do {
            (removed, ord') \<leftarrow> playback_order_remove ord playlist_count physical;
            if removed < 0 then Some (-1, Some ord', order_count, pos)
            else Some (removed, Some ord', Some (oc - 1),
                       map_option (\<lambda>p. if removed \<le> p then p - 1 else p) pos)
          }
      | _ \<Rightarrow> Some (-1, order, order_count, pos))"

text \<open>
  Resequencing.  \<open>alloc_seen\<close>, \<open>alloc_paths\<close> and \<open>alloc_ranks\<close> are the outcomes of the three
  allocations.  The result is the return value and what \<^verbatim>\<open>*out_paths\<close> and \<^verbatim>\<open>*out_ranks\<close> hold
  afterwards; \<open>out_ok = False\<close> stands for a NULL output pointer, in which case (as for a
  negative count) nothing is written and the last component is \<open>None\<close>.
\<close>

type_synonym 'p reseq = "bool list option \<times> 'p list \<times> int list option"

function resequence_loop ::
    "int list option \<Rightarrow> int \<Rightarrow> 'p list \<Rightarrow> int list option \<Rightarrow> int \<Rightarrow> 'p reseq \<Rightarrow> 'p reseq option option" where
  "resequence_loop display cnt paths ranks i st =
     (if i < cnt then do {
        let (seen, next_paths, next_ranks) = st;
        src \<leftarrow> (case display of None \<Rightarrow> Some i | Some d \<Rightarrow> aget d i);
        if src < 0 \<or> cnt \<le> src then Some None
        else do {
          dup \<leftarrow> (case seen of None \<Rightarrow> Some False | Some sn \<Rightarrow> aget sn src);
          if dup then Some None
          else do {
            seen' \<leftarrow> (case seen of None \<Rightarrow> Some None | Some sn \<Rightarrow> map_option Some (aset sn src True));
            p \<leftarrow> aget paths src;
            next_paths' \<leftarrow> aset next_paths i p;
            next_ranks' \<leftarrow> (case next_ranks of None \<Rightarrow> Some None
                | Some nr \<Rightarrow> (case ranks of None \<Rightarrow> None
                    | Some rs \<Rightarrow> do { r \<leftarrow> aget rs src; nr' \<leftarrow> aset nr i r; Some (Some nr') }));
            resequence_loop display cnt paths ranks (i + 1) (seen', next_paths', next_ranks')
          } } }
      else Some (Some st))"
  by pat_completeness auto
termination
  by (relation "measure (\<lambda>(display, cnt, paths, ranks, i, st). nat (cnt - i))") auto

declare resequence_loop.simps [simp del]

definition playback_order_resequence ::
    "bool \<Rightarrow> bool \<Rightarrow> bool \<Rightarrow> bool \<Rightarrow> 'p \<Rightarrow> int list option \<Rightarrow> int \<Rightarrow> 'p list option \<Rightarrow> int list option
     \<Rightarrow> (bool \<times> ('p list option \<times> int list option) option) option" where
  "playback_order_resequence out_ok alloc_seen alloc_paths alloc_ranks null display cnt paths ranks =
     (if \<not> out_ok \<or> cnt < 0 then Some (False, None)
      else if cnt = 0 then Some (True, Some (None, None))
      else (case paths of None \<Rightarrow> Some (False, Some (None, None))
        | Some ps \<Rightarrow>
          if (display \<noteq> None \<and> \<not> alloc_seen) \<or> \<not> alloc_paths \<or> (ranks \<noteq> None \<and> \<not> alloc_ranks)
          then Some (False, Some (None, None))
          else do {
            res \<leftarrow> resequence_loop display cnt ps ranks 0
                     (map_option (\<lambda>_. replicate (nat cnt) False) display,
                      replicate (nat cnt) null,
                      map_option (\<lambda>_. replicate (nat cnt) 0) ranks);
            case res of None \<Rightarrow> Some (False, Some (None, None))
            | Some (_, next_paths, next_ranks) \<Rightarrow> Some (True, Some (Some next_paths, next_ranks))
          }))"

section \<open>The abstract bag\<close>

definition bag_insert :: "int list \<Rightarrow> int \<Rightarrow> int \<Rightarrow> int \<Rightarrow> int list" where
  "bag_insert bag physical at added =
     (let shifted = map (\<lambda>v. if physical \<le> v then v + added else v) bag
      in take (nat at) shifted @ [physical..physical + added - 1] @ drop (nat at) shifted)"

definition bag_remove :: "int list \<Rightarrow> int \<Rightarrow> int list" where
  "bag_remove bag physical = map (\<lambda>v. if physical < v then v - 1 else v) (remove1 physical bag)"

lemma bag_insert_permutation:
  assumes "permutation_upto n bag" and "0 \<le> physical" and "physical \<le> n" and "0 \<le> added"
  shows "permutation_upto (n + added) (bag_insert bag physical at added)"
proof -
  let ?sh = "\<lambda>v. if physical \<le> v then v + added else v"
  have bag: "distinct bag" "set bag = {0..<n}" using assms(1) by (auto simp: permutation_upto_def)
  have ms: "mset (bag_insert bag physical at added) = mset (map ?sh bag) + mset [physical..physical + added - 1]"
    by (simp only: bag_insert_def Let_def mset_splice)
  have "inj_on ?sh (set bag)" using assms(4) by (auto simp: inj_on_def split: if_splits)
  then have d: "distinct (map ?sh bag)" using bag by (simp add: distinct_map)
  have img: "?sh ` {0..<n} = {0..<physical} \<union> {physical + added..<n + added}"
  proof
    show "{0..<physical} \<union> {physical + added..<n + added} \<subseteq> ?sh ` {0..<n}"
    proof
      fix x assume x: "x \<in> {0..<physical} \<union> {physical + added..<n + added}"
      then show "x \<in> ?sh ` {0..<n}"
        using assms by (cases "x < physical") (auto intro: image_eqI[of _ _ x] image_eqI[of _ _ "x - added"])
    qed
  qed (use assms in auto)
  let ?l = "map ?sh bag @ [physical..physical + added - 1]"
  have "distinct ?l" using d bag img assms by (auto simp: bag)
  moreover have "set ?l = {0..<n + added}" using bag img assms by auto
  ultimately have "permutation_upto (n + added) ?l" by (simp add: permutation_upto_def)
  moreover have "mset ?l = mset (bag_insert bag physical at added)" by (simp add: ms)
  ultimately show ?thesis by (simp add: permutation_upto_mset)
qed

lemma bag_remove_permutation:
  assumes "permutation_upto n bag" and "0 \<le> physical" and "physical < n"
  shows "permutation_upto (n - 1) (bag_remove bag physical)"
proof -
  let ?sh = "\<lambda>v. if physical < v then v - 1 else v"
  have bag: "distinct bag" "set bag = {0..<n}" using assms(1) by (auto simp: permutation_upto_def)
  have rem: "distinct (remove1 physical bag)" "set (remove1 physical bag) = {0..<n} - {physical}"
    using bag by (auto simp: distinct_remove1)
  have "inj_on ?sh ({0..<n} - {physical})" by (auto simp: inj_on_def split: if_splits)
  then have "distinct (bag_remove bag physical)" using rem by (simp add: bag_remove_def distinct_map)
  moreover have "?sh ` ({0..<n} - {physical}) = {0..<n - 1}"
  proof
    show "{0..<n - 1} \<subseteq> ?sh ` ({0..<n} - {physical})"
    proof
      fix x assume "x \<in> {0..<n - 1}"
      then show "x \<in> ?sh ` ({0..<n} - {physical})"
        by (cases "x < physical") (auto intro: image_eqI[of _ _ x] image_eqI[of _ _ "x + 1"])
    qed
  qed (use assms in auto)
  ultimately show ?thesis by (simp add: permutation_upto_def bag_remove_def rem)
qed

lemma length_bag_insert: "0 \<le> added \<Longrightarrow> length (bag_insert bag physical at added) = length bag + nat added"
  by (simp add: bag_insert_def Let_def)

section \<open>The buffer code implements the abstract bag\<close>

lemma take_drop_insert:
  assumes "length xs = n" and "a \<le> c" and "c + k \<le> n"
  shows "take (a + k) (take (a + k) xs @ take (c - a) (drop a xs) @ drop (c + k) xs) = take (a + k) xs"
    and "take (c - a) (drop (a + k) (take (a + k) xs @ take (c - a) (drop a xs) @ drop (c + k) xs))
         = take (c - a) (drop a xs)"
  using assms by auto

lemma playback_order_insert_refines:
  assumes "0 \<le> cnt" and "cnt + added \<le> int (length order)" and "0 \<le> at" and "at \<le> cnt" and "0 \<le> added"
  shows "\<exists>order'. playback_order_insert order cnt physical at added = Some order' \<and>
           length order' = length order \<and>
           take (nat (cnt + added)) order' = bag_insert (take (nat cnt) order) physical at added"
proof -
  define sh where "sh = (\<lambda>v. if physical \<le> v then v + added else v)"
  obtain c a k where ck: "cnt = int c" "at = int a" "added = int k" "a \<le> c" "c + k \<le> length order"
    using assms by (metis nonneg_int_cases of_nat_add of_nat_le_iff)
  define o1 where "o1 = map sh (take c order) @ drop c order"
  have l1: "length o1 = length order" using ck by (simp add: o1_def)
  have t1: "take c o1 = map sh (take c order)" using ck by (simp add: o1_def)
  have step1: "for_loop 0 cnt (\<lambda>i order. do { v \<leftarrow> aget order i;
        if physical \<le> v then aset order i (v + added) else Some order }) order = Some o1"
    using for_loop_map_if[of cnt order "\<lambda>v. physical \<le> v" "\<lambda>v. v + added"] ck
    by (simp add: o1_def sh_def)
  define o2 where "o2 = take (a + k) o1 @ take (c - a) (drop a o1) @ drop (c + k) o1"
  have idx: "nat (at + added) = a + k" "nat (cnt - at) = c - a" "nat (at + added + (cnt - at)) = c + k"
    using ck by auto
  have step2: "memmove o1 (at + added) at (cnt - at) = Some o2"
    using ck l1 idx by (simp add: memmove_def o2_def)
  have l2: "length o2 = length order" using ck l1 by (simp add: o2_def)
  define o3 where "o3 = take a o2 @ [physical..physical + added - 1] @ drop (a + k) o2"
  have "map (\<lambda>i. physical + i) [0..added - 1] = [physical..physical + added - 1]"
    by (rule nth_equalityI) auto
  then have step3: "for_loop 0 added (\<lambda>i order. aset order (at + i) (physical + i)) o2 = Some o3"
    using for_loop_fill[of added at o2 "\<lambda>i. physical + i"] ck l2 idx by (simp add: o3_def)
  have l3: "length o3 = length order" using ck l2 by (simp add: o3_def)
  have ta: "take a o2 = take a (map sh (take c order))"
    using ck l1 by (simp add: o2_def o1_def)
  have da: "take (c - a) (drop (a + k) o2) = drop a (map sh (take c order))"
  proof -
    have "take (c - a) (drop (a + k) o2) = take (c - a) (drop a o1)"
      using take_drop_insert(2)[of o1 "length o1" a c k] ck l1 by (simp add: o2_def)
    also have "\<dots> = drop a (take c o1)" using ck by (simp add: drop_take)
    finally show ?thesis by (simp add: t1)
  qed
  have "take (c + k) o3 = take a o2 @ [physical..physical + added - 1] @ take (c - a) (drop (a + k) o2)"
  proof -
    have "min (c + k) a = a" "c + k - a - k = c - a" "k \<le> c + k - a" using ck by auto
    then show ?thesis using ck l2 by (simp add: o3_def)
  qed
  also have "\<dots> = bag_insert (take (nat cnt) order) physical at added"
    unfolding ta da bag_insert_def Let_def sh_def by (simp add: ck(1,2))
  finally have "take (nat (cnt + added)) o3 = bag_insert (take (nat cnt) order) physical at added"
    using ck by (simp add: nat_int_add)
  then show ?thesis
    using l3 step1 step2 step3 by (simp add: playback_order_insert_def)
qed

lemma find_loop_index:
  assumes "distinct xs" and "i < length xs" and "length xs = nat n"
  shows "find_loop 0 n (\<lambda>j. xs ! nat j = xs ! i) = Some (int i)"
proof -
  have ex: "0 \<le> int i \<and> int i < n \<and> xs ! nat (int i) = xs ! i" using assms by auto
  then obtain j where j: "find_loop 0 n (\<lambda>j. xs ! nat j = xs ! i) = Some j"
    using find_loop_None[of 0 n "\<lambda>j. xs ! nat j = xs ! i"] by fastforce
  from find_loop_Some[OF j] have "0 \<le> j" "j < n" "xs ! nat j = xs ! i" by auto
  then have "nat j = i" using assms nth_eq_iff_index_eq[of xs "nat j" i] by auto
  then show ?thesis using j \<open>0 \<le> j\<close> by auto
qed

lemma remove1_nth:
  "distinct xs \<Longrightarrow> i < length xs \<Longrightarrow> remove1 (xs ! i) xs = take i xs @ drop (Suc i) xs"
proof (induction xs arbitrary: i)
  case (Cons x xs)
  then show ?case by (cases i) auto
qed simp

lemma playback_order_remove_refines:
  assumes "permutation_upto cnt (take (nat cnt) order)" and "cnt \<le> int (length order)"
    and "0 \<le> physical" and "physical < cnt"
  shows "\<exists>removed order'. playback_order_remove order cnt physical = Some (removed, order') \<and>
           0 \<le> removed \<and> removed < cnt \<and> order ! nat removed = physical \<and>
           length order' = length order \<and>
           take (nat (cnt - 1)) order' = bag_remove (take (nat cnt) order) physical"
proof -
  define bag where "bag = take (nat cnt) order"
  define dec where "dec = (\<lambda>v. if physical < v then v - 1 else v)"
  have perm: "distinct bag" "set bag = {0..<cnt}" "length bag = nat cnt"
    using assms(1) permutation_upto_length[OF assms(1)] by (auto simp: bag_def permutation_upto_def)
  obtain i where i: "i < length bag" "bag ! i = physical"
    using perm assms by (metis atLeastLessThan_iff in_set_conv_nth)
  have c: "cnt = int (nat cnt)" "Suc i \<le> nat cnt" "nat cnt \<le> length order" using i perm assms by auto
  have "find_loop 0 cnt (\<lambda>j. order ! nat j = physical) = find_loop 0 cnt (\<lambda>j. bag ! nat j = bag ! i)"
    by (rule find_loop_cong) (simp add: i(2), simp add: bag_def)
  then have found: "find_loopM 0 cnt (\<lambda>i. map_option (\<lambda>v. v = physical) (aget order i)) = Some (Some (int i))"
    using find_loopM_aget[of cnt order "\<lambda>v. v = physical"] find_loop_index[of bag i cnt] perm i assms by simp
  define o1 where "o1 = take i order @ take (nat cnt - Suc i) (drop (Suc i) order) @ drop (nat cnt - 1) order"
  have idx: "nat (int i + 1) = Suc i" "nat (cnt - int i - 1) = nat cnt - Suc i"
      "nat (int i + (cnt - int i - 1)) = nat cnt - 1" "nat (cnt - 1) = nat cnt - 1" "int i < cnt" using c by auto
  have step: "memmove order (int i) (int i + 1) (cnt - int i - 1) = Some o1"
    using c assms by (simp add: memmove_def o1_def idx)
  have l1: "length o1 = length order" using c by (simp add: o1_def)
  have t1: "take (nat cnt - 1) o1 = remove1 physical bag"
  proof -
    have "take (nat cnt - 1) o1 = take i order @ take (nat cnt - Suc i) (drop (Suc i) order)"
    proof -
      have "min (nat cnt - 1) i = i" "nat cnt - 1 - i = nat cnt - Suc i"
        "min (length order) i = i" "min (length order - Suc i) (nat cnt - Suc i) = nat cnt - Suc i"
        using c by auto
      then show ?thesis by (simp add: o1_def)
    qed
    also have "\<dots> = take i bag @ drop (Suc i) bag" using c by (simp add: bag_def drop_take min_def)
    finally show ?thesis using remove1_nth[of bag i] perm i by simp
  qed
  define o2 where "o2 = map dec (take (nat (cnt - 1)) o1) @ drop (nat (cnt - 1)) o1"
  have loop: "for_loop 0 (cnt - 1) (\<lambda>i order. do { v \<leftarrow> aget order i;
        if physical < v then aset order i (v - 1) else Some order }) o1 = Some o2"
    using for_loop_map_if[of "cnt - 1" o1 "\<lambda>v. physical < v" "\<lambda>v. v - 1"] assms l1 by (simp add: dec_def o2_def)
  have l2: "length o2 = length order" using l1 c(2,3) unfolding o2_def idx by (simp add: min_def)
  have "take (nat (cnt - 1)) o2 = bag_remove bag physical"
  proof -
    have "length (remove1 physical bag) = nat cnt - 1" using i perm nth_mem[OF i(1)] by (simp add: length_remove1)
    then show ?thesis using t1 idx by (simp add: bag_remove_def dec_def o2_def)
  qed
  moreover have "order ! i = physical" using i c by (simp add: bag_def)
  ultimately show ?thesis
    using found step loop l2 idx
    by (simp add: playback_order_remove_def flip: bag_def)
qed

lemma playback_order_remove_absent:
  assumes "physical \<notin> set (take (nat cnt) order)" and "cnt \<le> int (length order)"
  shows "playback_order_remove order cnt physical = Some (-1, order)"
proof -
  have "order ! nat i \<noteq> physical" if "0 \<le> i" "i < cnt" for i
  proof -
    have "order ! nat i = take (nat cnt) order ! nat i" using that by simp
    moreover have "nat i < length (take (nat cnt) order)" using that assms(2) by auto
    ultimately show ?thesis using assms(1) nth_mem by metis
  qed
  then have "find_loop 0 cnt (\<lambda>i. order ! nat i = physical) = None" by (simp add: find_loop_None)
  then show ?thesis using find_loopM_aget[OF assms(2), of "\<lambda>v. v = physical"]
    by (simp add: playback_order_remove_def)
qed

section \<open>The interface of the shuffle bag\<close>

text \<open>
  What the play queue relies on: an insertion and a removal on a buffer with a live prefix,
  which implement \<open>bag_insert\<close> and \<open>bag_remove\<close> on that prefix and keep the buffer's size.
\<close>

locale bag_store =
  fixes ins :: "int list \<Rightarrow> int \<Rightarrow> int \<Rightarrow> int \<Rightarrow> int \<Rightarrow> int list option"
    and del :: "int list \<Rightarrow> int \<Rightarrow> int \<Rightarrow> (int \<times> int list) option"
  assumes ins_law: "0 \<le> cnt \<Longrightarrow> cnt + added \<le> int (length order) \<Longrightarrow> 0 \<le> at \<Longrightarrow> at \<le> cnt \<Longrightarrow> 0 \<le> added \<Longrightarrow>
      \<exists>order'. ins order cnt physical at added = Some order' \<and> length order' = length order \<and>
        take (nat (cnt + added)) order' = bag_insert (take (nat cnt) order) physical at added"
    and del_law: "permutation_upto cnt (take (nat cnt) order) \<Longrightarrow> cnt \<le> int (length order) \<Longrightarrow>
      0 \<le> physical \<Longrightarrow> physical < cnt \<Longrightarrow>
      \<exists>removed order'. del order cnt physical = Some (removed, order') \<and>
        0 \<le> removed \<and> removed < cnt \<and> order ! nat removed = physical \<and> length order' = length order \<and>
        take (nat (cnt - 1)) order' = bag_remove (take (nat cnt) order) physical"
    and del_absent: "physical \<notin> set (take (nat cnt) order) \<Longrightarrow> cnt \<le> int (length order) \<Longrightarrow>
      del order cnt physical = Some (-1, order)"
begin

lemma ins_permutation:
  assumes "permutation_upto cnt (take (nat cnt) order)" and "0 \<le> cnt" and "cnt + added \<le> int (length order)"
    and "0 \<le> at" and "at \<le> cnt" and "0 \<le> added" and "0 \<le> physical" and "physical \<le> cnt"
  shows "\<exists>order'. ins order cnt physical at added = Some order' \<and> length order' = length order \<and>
           permutation_upto (cnt + added) (take (nat (cnt + added)) order')"
  using ins_law[OF assms(2-6), of physical] bag_insert_permutation[OF assms(1,7,8,6), of at] by fastforce

lemma del_permutation:
  assumes "permutation_upto cnt (take (nat cnt) order)" and "cnt \<le> int (length order)"
    and "0 \<le> physical" and "physical < cnt"
  shows "\<exists>removed order'. del order cnt physical = Some (removed, order') \<and> 0 \<le> removed \<and> removed < cnt \<and>
           length order' = length order \<and> permutation_upto (cnt - 1) (take (nat (cnt - 1)) order')"
  using del_law[OF assms] bag_remove_permutation[OF assms(1,3,4)] by fastforce

lemma ins_places:
  assumes "permutation_upto cnt (take (nat cnt) order)" and "0 \<le> cnt" and "cnt + added \<le> int (length order)"
    and "0 \<le> at" and "at \<le> cnt" and "0 \<le> i" and "i < added"
  shows "\<exists>order'. ins order cnt physical at added = Some order' \<and> order' ! nat (at + i) = physical + i"
proof -
  obtain order' where o: "ins order cnt physical at added = Some order'" "length order' = length order"
      "take (nat (cnt + added)) order' = bag_insert (take (nat cnt) order) physical at added"
    using ins_law[OF assms(2-5), of physical] assms(6,7) by auto
  have len: "length (take (nat cnt) order) = nat cnt" using permutation_upto_length[OF assms(1)] .
  have "order' ! nat (at + i) = bag_insert (take (nat cnt) order) physical at added ! nat (at + i)"
  proof -
    have "nat (at + i) < nat (cnt + added)" using assms by simp
    then show ?thesis by (metis o(3) nth_take)
  qed
  also have "\<dots> = physical + i"
  proof -
    have n: "nat (at + i) = nat at + nat i" "nat at \<le> nat cnt" using assms by auto
    let ?sh = "map (\<lambda>v. if physical \<le> v then v + added else v) (take (nat cnt) order)"
    have l: "length (take (nat at) ?sh) = nat at" using len n by simp
    have "bag_insert (take (nat cnt) order) physical at added ! (nat at + nat i)
        = ([physical..physical + added - 1] @ drop (nat at) ?sh) ! nat i"
      unfolding bag_insert_def Let_def using nth_append_length_plus[of "take (nat at) ?sh"] unfolding l by blast
    also have "\<dots> = physical + i" using assms by (simp add: nth_append)
    finally show ?thesis by (simp only: n)
  qed
  finally show ?thesis using o(1) by blast
qed

end

interpretation po: bag_store playback_order_insert playback_order_remove
  by unfold_locales
    (blast intro: playback_order_insert_refines playback_order_remove_refines playback_order_remove_absent)+

section \<open>Removing a slot from the live bag\<close>

lemma note_removed_live:
  assumes "permutation_upto n (take (nat n) order)" and "n \<le> int (length order)"
    and "0 \<le> physical" and "physical < n"
  shows "\<exists>removed order'.
           playback_order_note_removed (Some order) (Some n) (Some pos) physical n
             = Some (removed, Some order', Some (n - 1), Some (if removed \<le> pos then pos - 1 else pos)) \<and>
           0 \<le> removed \<and> removed < n \<and> order ! nat removed = physical \<and> length order' = length order \<and>
           take (nat (n - 1)) order' = bag_remove (take (nat n) order) physical"
  using po.del_law[OF assms] assms(3,4) by (auto simp: playback_order_note_removed_def)

lemma note_removed_stale:
  "order = None \<or> oc \<noteq> n \<Longrightarrow>
     playback_order_note_removed order (Some oc) (Some pos) physical n = Some (-1, order, Some oc, Some pos)"
  by (cases order) (auto simp: playback_order_note_removed_def)

section \<open>Resequencing\<close>

text \<open>
  The abstract outcome of the loop from index \<open>i\<close> on, with the display indices still to come:
  it succeeds exactly when they are in range, distinct and not yet seen.
\<close>

definition ranks_moved :: "int list \<Rightarrow> nat \<Rightarrow> nat \<Rightarrow> int list option \<Rightarrow> int list option \<Rightarrow> bool" where
  "ranks_moved d n i ranks nr \<longleftrightarrow> (case ranks of None \<Rightarrow> nr = None
     | Some rs \<Rightarrow> n \<le> length rs \<and> (\<exists>l. nr = Some l \<and> length l = n \<and> (\<forall>k < i. l ! k = rs ! nat (d ! k))))"

lemma ranks_moved_step:
  assumes "ranks_moved d n k ranks nr" and "k < n" and "0 \<le> d ! k" and "d ! k < int n"
  obtains nr' where "(case nr of None \<Rightarrow> Some None | Some nr \<Rightarrow> (case ranks of None \<Rightarrow> None
        | Some rs \<Rightarrow> do { r \<leftarrow> aget rs (d ! k); nr' \<leftarrow> aset nr (int k) r; Some (Some nr') })) = Some nr'"
    and "ranks_moved d n (Suc k) ranks nr'"
proof (cases ranks)
  case None
  then show ?thesis using assms that[of None] by (simp add: ranks_moved_def)
next
  case (Some rs)
  then obtain l where l: "nr = Some l" "length l = n" "\<forall>j < k. l ! j = rs ! nat (d ! j)" "n \<le> length rs"
    using assms(1) by (auto simp: ranks_moved_def)
  have "ranks_moved d n (Suc k) ranks (Some (l[k := rs ! nat (d ! k)]))"
    using Some l assms(2) by (auto simp: ranks_moved_def less_Suc_eq nth_list_update)
  then show ?thesis using that[of "Some (l[k := rs ! nat (d ! k)])"] Some l assms by (simp add: aget_def aset_def)
qed

lemma ranks_moved_all:
  assumes "ranks_moved d n n ranks nr" and "length d = n"
  shows "nr = map_option (\<lambda>rs. map (\<lambda>k. rs ! nat k) d) ranks"
proof (cases ranks)
  case (Some rs)
  then obtain l where "nr = Some l" "length l = n" "\<forall>j < n. l ! j = rs ! nat (d ! j)"
    using assms(1) by (auto simp: ranks_moved_def)
  moreover have "l = map (\<lambda>k. rs ! nat k) d" by (rule nth_equalityI) (use calculation assms in auto)
  ultimately show ?thesis using Some by simp
qed (use assms in \<open>simp add: ranks_moved_def\<close>)

lemma resequence_loop_display:
  assumes "n \<le> int (length paths)" and "length d = nat n" and "0 \<le> i" and "i \<le> n"
    and "length sn = nat n" and "length np = nat n"
    and "\<forall>k. 0 \<le> k \<and> k < n \<longrightarrow> (sn ! nat k \<longleftrightarrow> k \<in> set (take (nat i) d))"
    and "\<forall>k < nat i. np ! k = paths ! nat (d ! k)" and "ranks_moved d (nat n) (nat i) ranks nr"
  shows "\<exists>res. resequence_loop (Some d) n paths ranks i (Some sn, np, nr) = Some res \<and>
     (case res of
        None \<Rightarrow> \<not> (distinct d \<and> set d \<subseteq> {0..<n})
      | Some (_, np', nr') \<Rightarrow> (distinct (take (nat i) d) \<and> set (take (nat i) d) \<subseteq> {0..<n} \<longrightarrow> distinct d \<and> set d \<subseteq> {0..<n}) \<and>
           np' = map (\<lambda>k. paths ! nat k) d \<and> nr' = map_option (\<lambda>rs. map (\<lambda>k. rs ! nat k) d) ranks)"
  using assms
proof (induction "nat (n - i)" arbitrary: i sn np nr)
  case 0
  then have i: "i = n" by simp
  then have "np = map (\<lambda>k. paths ! nat k) d" using 0 by (intro nth_equalityI) auto
  moreover have "nr = map_option (\<lambda>rs. map (\<lambda>k. rs ! nat k) d) ranks" using ranks_moved_all 0 i by blast
  ultimately show ?case using 0 i by (simp add: resequence_loop.simps)
next
  case (Suc m)
  then have lt: "i < n" by simp
  define k where "k = nat i"
  have k: "i = int k" "k < length d" "k < length np" "nat (i + 1) = Suc k" using Suc.prems lt k_def by auto
  define src where "src = d ! k"
  have get: "aget d i = Some src" using k by (simp add: aget_def src_def)
  have dk: "take (Suc k) d = take k d @ [src]" using k by (simp add: take_Suc_conv_app_nth src_def)
  have mem: "src \<in> set d" using k by (simp add: src_def)
  show ?case
  proof (cases "src < 0 \<or> n \<le> src")
    case True
    then have "\<not> set d \<subseteq> {0..<n}" using mem by auto
    then show ?thesis using True lt get by (simp add: resequence_loop.simps[of _ _ _ _ i])
  next
    case ok: False
    have sget: "aget sn src = Some (sn ! nat src)" using ok Suc.prems(5) by (simp add: aget_def)
    show ?thesis
    proof (cases "sn ! nat src")
      case True
      then have "src \<in> set (take k d)" using Suc.prems(7) ok k by auto
      then have "\<not> distinct (take (Suc k) d)" by (simp add: dk)
      then have "\<not> distinct d" using distinct_take by blast
      then show ?thesis using True ok lt get sget by (simp add: resequence_loop.simps[of _ _ _ _ i])
    next
      case False
      let ?sn = "sn[nat src := True]" and ?np = "np[k := paths ! nat src]"
      have mv: "ranks_moved d (nat n) k ranks nr" using Suc.prems(9) by (simp add: k_def)
      have kd: "k < nat n" "0 \<le> d ! k" "d ! k < int (nat n)" using ok lt k(1) unfolding src_def by linarith+
      obtain nr' where nr: "(case nr of None \<Rightarrow> Some None | Some nr \<Rightarrow> (case ranks of None \<Rightarrow> None
        | Some rs \<Rightarrow> do { r \<leftarrow> aget rs src; nr' \<leftarrow> aset nr i r; Some (Some nr') })) = Some nr'"
        "ranks_moved d (nat n) (Suc k) ranks nr'"
        using ranks_moved_step[OF mv kd] unfolding src_def[symmetric] k(1)[symmetric] by blast
      have step: "resequence_loop (Some d) n paths ranks i (Some sn, np, nr)
          = resequence_loop (Some d) n paths ranks (i + 1) (Some ?sn, ?np, nr')"
      proof -
        have "aset sn src True = Some ?sn" "aget paths src = Some (paths ! nat src)"
          "aset np i (paths ! nat src) = Some ?np"
          using ok Suc.prems(1,5) k(1,3) by (auto simp: aget_def aset_def)
        then show ?thesis using ok False lt get sget nr(1) by (simp add: resequence_loop.simps[of _ _ _ _ i])
      qed
      have seen: "\<forall>j. 0 \<le> j \<and> j < n \<longrightarrow> (?sn ! nat j \<longleftrightarrow> j \<in> set (take (nat (i + 1)) d))"
      proof (intro allI impI)
        fix j assume j: "0 \<le> j \<and> j < n"
        have "?sn ! nat j \<longleftrightarrow> (j = src \<or> sn ! nat j)"
          using j ok Suc.prems(5) by (auto simp: nth_list_update)
        also have "\<dots> \<longleftrightarrow> j \<in> set (take (Suc k) d)" using Suc.prems(7) j k by (auto simp: dk)
        finally show "?sn ! nat j \<longleftrightarrow> j \<in> set (take (nat (i + 1)) d)" by (simp only: k(4))
      qed
      have np: "\<forall>j < nat (i + 1). ?np ! j = paths ! nat (d ! j)"
        using Suc.prems(8) k by (auto simp: nth_list_update src_def less_Suc_eq)
      have fresh: "src \<notin> set (take k d)" using False Suc.prems(7) ok k by auto
      obtain res where res: "resequence_loop (Some d) n paths ranks (i + 1) (Some ?sn, ?np, nr') = Some res"
        and post: "case res of None \<Rightarrow> \<not> (distinct d \<and> set d \<subseteq> {0..<n})
          | Some (_, np', nr') \<Rightarrow> (distinct (take (nat (i + 1)) d) \<and> set (take (nat (i + 1)) d) \<subseteq> {0..<n}
               \<longrightarrow> distinct d \<and> set d \<subseteq> {0..<n}) \<and> np' = map (\<lambda>k. paths ! nat k) d \<and>
               nr' = map_option (\<lambda>rs. map (\<lambda>k. rs ! nat k) d) ranks"
      proof -
        have "m = nat (n - (i + 1))" "0 \<le> i + 1" "i + 1 \<le> n" "length ?sn = nat n" "length ?np = nat n"
          using Suc.hyps(2) Suc.prems(3,5,6) lt by auto
        from Suc.hyps(1)[OF this(1) Suc.prems(1,2) this(2-5) seen np nr(2)[folded k(4)]] that show ?thesis by blast
      qed
      have grow: "distinct (take (nat i) d) \<and> set (take (nat i) d) \<subseteq> {0..<n} \<Longrightarrow>
            distinct (take (nat (i + 1)) d) \<and> set (take (nat (i + 1)) d) \<subseteq> {0..<n}"
        using fresh ok by (simp add: k(4) dk flip: k_def)
      show ?thesis
      proof (cases res)
        case None
        then show ?thesis using post by (simp only: step res option.case option.inject ex_simps simp_thms)
      next
        case (Some r)
        obtain a b c where r: "r = (a, b, c)" by (cases r)
        have "(distinct (take (nat i) d) \<and> set (take (nat i) d) \<subseteq> {0..<n} \<longrightarrow> distinct d \<and> set d \<subseteq> {0..<n}) \<and>
            b = map (\<lambda>k. paths ! nat k) d \<and> c = map_option (\<lambda>rs. map (\<lambda>k. rs ! nat k) d) ranks"
          using post grow unfolding Some r option.case prod.case by blast
        then show ?thesis
          by (intro exI[of _ res] conjI) (rule trans[OF step res], unfold Some r option.case prod.case, blast)
      qed
    qed
  qed
qed

lemma resequence_display:
  assumes "0 < n" and "n \<le> int (length paths)" and "length d = nat n"
    and "\<And>rs. ranks = Some rs \<Longrightarrow> n \<le> int (length rs)"
  shows "playback_order_resequence True True True True null (Some d) n (Some paths) ranks =
     Some (if permutation_upto n d
           then (True, Some (Some (map (\<lambda>k. paths ! nat k) d), map_option (\<lambda>rs. map (\<lambda>k. rs ! nat k) d) ranks))
           else (False, Some (None, None)))"
proof -
  have perm: "permutation_upto n d \<longleftrightarrow> distinct d \<and> set d \<subseteq> {0..<n}"
  proof
    assume h: "distinct d \<and> set d \<subseteq> {0..<n}"
    have "card (set d) = card {0..<n}" using h assms(3) by (simp add: distinct_card)
    then have "set d = {0..<n}" using h by (simp add: card_subset_eq)
    then show "permutation_upto n d" using h by (simp add: permutation_upto_def)
  qed (auto simp: permutation_upto_def)
  have mv: "ranks_moved d (nat n) (nat 0) ranks (map_option (\<lambda>_. replicate (nat n) 0) ranks)"
    using assms(1,4) by (cases ranks) (auto simp: ranks_moved_def)
  obtain res where res: "resequence_loop (Some d) n paths ranks 0
        (Some (replicate (nat n) False), replicate (nat n) null, map_option (\<lambda>_. replicate (nat n) 0) ranks) = Some res"
    and post: "case res of None \<Rightarrow> \<not> (distinct d \<and> set d \<subseteq> {0..<n})
        | Some (_, np', nr') \<Rightarrow> (distinct (take (nat 0) d) \<and> set (take (nat 0) d) \<subseteq> {0..<n}
             \<longrightarrow> distinct d \<and> set d \<subseteq> {0..<n}) \<and> np' = map (\<lambda>k. paths ! nat k) d \<and>
             nr' = map_option (\<lambda>rs. map (\<lambda>k. rs ! nat k) d) ranks"
    using resequence_loop_display[OF assms(2,3) _ _ _ _ _ _ mv, of "replicate (nat n) False" "replicate (nat n) null"] assms(1)
    by fastforce
  show ?thesis using assms(1) res post perm
    by (cases res) (auto simp: playback_order_resequence_def)
qed

text \<open>A refused request writes no array.\<close>

lemma resequence_refused:
  assumes "0 < n" and "\<not> a1 \<or> \<not> a2 \<or> (ranks \<noteq> None \<and> \<not> a3)"
  shows "playback_order_resequence True a1 a2 a3 null (Some d) n (Some paths) ranks = Some (False, Some (None, None))"
  using assms by (auto simp: playback_order_resequence_def)

end
