(* ===== verification/Audio_Helpers.thy ===== *)
theory Audio_Helpers
  imports Playback_Order
begin

text \<open>
  The pure helpers of \<^verbatim>\<open>src/src/audio/audio_helpers.h\<close>: the byte readers every demuxer uses,
  the premature end-of-file test, and the planner that decides which track to play after a
  decoder failure (\<open>compute_decoder_failure_advance_plan\<close>).
\<close>

unbundle bit_operations_syntax

section \<open>Byte readers\<close>

text \<open>The readers take the bytes at the pointer; \<open>b i\<close> is \<^verbatim>\<open>b[i]\<close>.\<close>

definition audio_read_u16le :: "(nat \<Rightarrow> byte) \<Rightarrow> u16" where
  "audio_read_u16le b = (ucast (b 0)) OR (push_bit 8 (ucast (b 1)))"

definition audio_read_u32le :: "(nat \<Rightarrow> byte) \<Rightarrow> u32" where
  "audio_read_u32le b = (ucast (b 0)) OR (push_bit 8 (ucast (b 1))) OR
     (push_bit 16 (ucast (b 2))) OR (push_bit 24 (ucast (b 3)))"

definition audio_read_u64le :: "(nat \<Rightarrow> byte) \<Rightarrow> u64" where
  "audio_read_u64le b = fold (\<lambda>i v. (push_bit 8 v) OR (ucast (b i))) [7, 6, 5, 4, 3, 2, 1, 0] 0"

definition audio_read_u32be :: "(nat \<Rightarrow> byte) \<Rightarrow> u32" where
  "audio_read_u32be b = (push_bit 24 (ucast (b 0))) OR (push_bit 16 (ucast (b 1))) OR
     (push_bit 8 (ucast (b 2))) OR (ucast (b 3))"

definition audio_read_u16be :: "(nat \<Rightarrow> byte) \<Rightarrow> u16" where
  "audio_read_u16be b = (push_bit 8 (ucast (b 0))) OR (ucast (b 1))"

definition audio_read_u64be :: "(nat \<Rightarrow> byte) \<Rightarrow> u64" where
  "audio_read_u64be b = fold (\<lambda>i v. (push_bit 8 v) OR (ucast (b i))) [0, 1, 2, 3, 4, 5, 6, 7] 0"

section \<open>Premature end of file\<close>

definition MAX_EOF_TOLERANCE_FRAMES :: u64 where
  "MAX_EOF_TOLERANCE_FRAMES = 8192"

definition is_premature_eof :: "u64 \<Rightarrow> u64 \<Rightarrow> bool \<Rightarrow> bool" where
  "is_premature_eof frames_played_local total_frames is_stream =
     (if is_stream \<or> total_frames = 0 then False
      else if total_frames \<le> frames_played_local then False
      else MAX_EOF_TOLERANCE_FRAMES < total_frames - frames_played_local)"

definition should_abort_write_retry :: "bool \<Rightarrow> bool \<Rightarrow> bool \<Rightarrow> bool" where
  "should_abort_write_retry allow_during_stop_restart stop_req restart_req =
     (if allow_during_stop_restart then False else stop_req \<or> restart_req)"

section \<open>The decoder-failure planner\<close>

record failure_advance_plan_t =
  target_index :: int
  queued_consumed :: int
  shuffle_steps :: int
  shuffle_wrapped :: bool

definition no_plan :: failure_advance_plan_t where
  "no_plan = \<lparr>target_index = -1, queued_consumed = 0, shuffle_steps = 0, shuffle_wrapped = False\<rparr>"

text \<open>\<open>is_failed_fn\<close> is the callback, \<open>None\<close> for a NULL pointer.\<close>

definition usable :: "(int \<Rightarrow> bool) option \<Rightarrow> int \<Rightarrow> bool" where
  "usable is_failed_fn cand = (case is_failed_fn of None \<Rightarrow> True | Some f \<Rightarrow> \<not> f cand)"

text \<open>The candidate examined at one step of the shuffle walk, with whether it lies in the next bag.\<close>

definition shuffle_candidate :: "int \<Rightarrow> int list \<Rightarrow> int \<Rightarrow> int list option \<Rightarrow> int \<Rightarrow> (int \<times> bool) option" where
  "shuffle_candidate playlist_count shuffle_order shuffle_pos pending_shuffle_order step =
     (let pos = shuffle_pos + step in
      if pos < playlist_count then map_option (\<lambda>c. (c, False)) (aget shuffle_order pos)
      else (case pending_shuffle_order of None \<Rightarrow> Some (-1, False)
        | Some pending \<Rightarrow>
            let wrap_pos = pos - playlist_count in
            if wrap_pos < playlist_count then map_option (\<lambda>c. (c, True)) (aget pending wrap_pos)
            else Some (-1, False)))"

function shuffle_walk ::
    "(int \<Rightarrow> bool) option \<Rightarrow> int \<Rightarrow> int list \<Rightarrow> int \<Rightarrow> int list option \<Rightarrow> int \<Rightarrow> int \<Rightarrow> int \<Rightarrow> int
     \<Rightarrow> (int \<times> int \<times> bool) option option" where
  "shuffle_walk is_failed_fn playlist_count shuffle_order shuffle_pos pending orig failed step max_steps =
     (if step \<le> max_steps then do {
        (cand, wrapped) \<leftarrow> shuffle_candidate playlist_count shuffle_order shuffle_pos pending step;
        if 0 \<le> cand \<and> cand < playlist_count \<and> cand \<noteq> orig \<and> cand \<noteq> failed \<and> usable is_failed_fn cand
        then Some (Some (cand, step, wrapped))
        else shuffle_walk is_failed_fn playlist_count shuffle_order shuffle_pos pending orig failed (step + 1) max_steps }
      else Some None)"
  by pat_completeness auto
termination
  by (relation "measure (\<lambda>(f, n, so, sp, p, og, fl, step, ms). nat (ms + 1 - step))") auto

declare shuffle_walk.simps [simp del]

text \<open>
  How many steps the walk may take: what is left of the current bag, plus the whole next bag
  when it has been precomputed.
\<close>

definition max_shuffle_steps :: "int \<Rightarrow> int \<Rightarrow> int list option \<Rightarrow> int" where
  "max_shuffle_steps playlist_count shuffle_pos pending_shuffle_order =
     (let remaining_current_steps =
            (if shuffle_pos \<le> playlist_count - 1 then playlist_count - 1 - shuffle_pos else 0)
      in if pending_shuffle_order \<noteq> None then remaining_current_steps + playlist_count
         else remaining_current_steps)"

text \<open>
  The play modes are the source's integers: 0 sequential, 1 repeat all, 2 repeat one, 3 shuffle.
  \<open>%\<close> on the non-negative operands of the source is \<open>mod\<close>.
\<close>

definition advance_by_mode ::
    "failure_advance_plan_t \<Rightarrow> int \<Rightarrow> int \<Rightarrow> int \<Rightarrow> int \<Rightarrow> int list option \<Rightarrow> int \<Rightarrow> int list option
     \<Rightarrow> (int \<Rightarrow> bool) option \<Rightarrow> failure_advance_plan_t option" where
  "advance_by_mode plan orig_failed_index failed_index playlist_count play_mode shuffle_order shuffle_pos
       pending_shuffle_order is_failed_fn =
     (if playlist_count \<le> 1 then Some (plan\<lparr>target_index := -1\<rparr>)
      else if play_mode = 3 then
        (case shuffle_order of None \<Rightarrow> Some (plan\<lparr>target_index := -1\<rparr>)
         | Some so \<Rightarrow>
           do {
             r \<leftarrow> shuffle_walk is_failed_fn playlist_count so shuffle_pos pending_shuffle_order
                    orig_failed_index failed_index 1
                    (max_shuffle_steps playlist_count shuffle_pos pending_shuffle_order);
             case r of
               Some (cand, step, wrapped) \<Rightarrow>
                 Some (plan\<lparr>target_index := cand, shuffle_steps := step, shuffle_wrapped := wrapped\<rparr>)
             | None \<Rightarrow> Some (plan\<lparr>target_index := -1\<rparr>) })
      else if play_mode = 2 \<or> play_mode = 1 then
        (case find_loop 1 playlist_count (\<lambda>step.
            let cand = (failed_index + step) mod playlist_count
            in cand \<noteq> orig_failed_index \<and> cand \<noteq> failed_index \<and> usable is_failed_fn cand) of
           Some step \<Rightarrow> Some (plan\<lparr>target_index := (failed_index + step) mod playlist_count\<rparr>)
         | None \<Rightarrow> Some (plan\<lparr>target_index := -1\<rparr>))
      else
        (case find_loop (failed_index + 1) playlist_count
            (\<lambda>cand. cand \<noteq> orig_failed_index \<and> usable is_failed_fn cand) of
           Some cand \<Rightarrow> Some (plan\<lparr>target_index := cand\<rparr>)
         | None \<Rightarrow> Some (plan\<lparr>target_index := -1\<rparr>)))"

definition compute_decoder_failure_advance_plan ::
    "int \<Rightarrow> int \<Rightarrow> int \<Rightarrow> int \<Rightarrow> int list option \<Rightarrow> int \<Rightarrow> int list option \<Rightarrow> (int \<Rightarrow> bool) option
     \<Rightarrow> failure_advance_plan_t option" where
  "compute_decoder_failure_advance_plan failed_index playlist_count play_mode queued_pending_count
       shuffle_order shuffle_pos pending_shuffle_order is_failed_fn =
     (if failed_index < 0 \<or> playlist_count \<le> 0 then Some no_plan
      else if 0 < queued_pending_count then
        (let queued_limit = (if failed_index + queued_pending_count < playlist_count
                             then queued_pending_count else playlist_count - 1 - failed_index)
         in case find_loop 1 (queued_limit + 1) (\<lambda>q. usable is_failed_fn (failed_index + q)) of
              Some q \<Rightarrow> Some (no_plan\<lparr>target_index := failed_index + q, queued_consumed := q\<rparr>)
            | None \<Rightarrow>
                let moved = failed_index + queued_pending_count
                in advance_by_mode (no_plan\<lparr>queued_consumed := queued_pending_count\<rparr>) failed_index
                     (if playlist_count \<le> moved then playlist_count - 1 else moved) playlist_count play_mode
                     shuffle_order shuffle_pos pending_shuffle_order is_failed_fn)
      else advance_by_mode no_plan failed_index failed_index playlist_count play_mode
             shuffle_order shuffle_pos pending_shuffle_order is_failed_fn)"

section \<open>Correctness of the planner\<close>

text \<open>The shuffle walk reads inside the bags, and its result is a usable candidate of a bag.\<close>

lemma shuffle_candidate_safe:
  assumes "-1 \<le> shuffle_pos" and "1 \<le> step" and "n \<le> int (length so)"
    and "\<forall>p. pending = Some p \<longrightarrow> n \<le> int (length p)"
  shows "shuffle_candidate n so shuffle_pos pending step \<noteq> None"
  using assms by (auto simp: shuffle_candidate_def Let_def aget_def split: option.splits)

lemma shuffle_walk_safe:
  assumes "-1 \<le> shuffle_pos" and "1 \<le> step" and "n \<le> int (length so)"
    and "\<forall>p. pending = Some p \<longrightarrow> n \<le> int (length p)"
  shows "\<exists>r. shuffle_walk f n so shuffle_pos pending og fl step ms = Some r \<and>
     (\<forall>cand st w. r = Some (cand, st, w) \<longrightarrow>
        step \<le> st \<and> st \<le> ms \<and> 0 \<le> cand \<and> cand < n \<and> cand \<noteq> og \<and> cand \<noteq> fl \<and> usable f cand \<and>
        shuffle_candidate n so shuffle_pos pending st = Some (cand, w)) \<and>
     (r = None \<longrightarrow> (\<forall>st cand w. step \<le> st \<and> st \<le> ms \<and> shuffle_candidate n so shuffle_pos pending st = Some (cand, w)
        \<longrightarrow> \<not> (0 \<le> cand \<and> cand < n \<and> cand \<noteq> og \<and> cand \<noteq> fl \<and> usable f cand)))"
  using assms
proof (induction f n so shuffle_pos pending og fl step ms rule: shuffle_walk.induct)
  case (1 f n so sp p og fl step ms)
  show ?case
  proof (cases "step \<le> ms")
    case False
    then show ?thesis by (simp add: shuffle_walk.simps[of _ _ _ _ _ _ _ step])
  next
    case True
    obtain c w where cw: "shuffle_candidate n so sp p step = Some (c, w)"
      using shuffle_candidate_safe[OF "1.prems"] by fastforce
    show ?thesis
    proof (cases "0 \<le> c \<and> c < n \<and> c \<noteq> og \<and> c \<noteq> fl \<and> usable f c")
      case good: True
      then show ?thesis using True cw by (simp add: shuffle_walk.simps[of _ _ _ _ _ _ _ step])
    next
      case bad: False
      have unf: "shuffle_walk f n so sp p og fl step ms = shuffle_walk f n so sp p og fl (step + 1) ms"
        using True bad cw by (auto simp: shuffle_walk.simps[of _ _ _ _ _ _ _ step])
      have "1 \<le> step + 1" using "1.prems"(2) by simp
      from "1.IH"[OF True cw refl bad "1.prems"(1) this "1.prems"(3,4)] obtain r where
        r: "shuffle_walk f n so sp p og fl (step + 1) ms = Some r"
        and p1: "\<forall>cand st w. r = Some (cand, st, w) \<longrightarrow> step + 1 \<le> st \<and> st \<le> ms \<and> 0 \<le> cand \<and> cand < n \<and>
          cand \<noteq> og \<and> cand \<noteq> fl \<and> usable f cand \<and> shuffle_candidate n so sp p st = Some (cand, w)"
        and p2: "r = None \<longrightarrow> (\<forall>st cand w. step + 1 \<le> st \<and> st \<le> ms \<and> shuffle_candidate n so sp p st = Some (cand, w)
          \<longrightarrow> \<not> (0 \<le> cand \<and> cand < n \<and> cand \<noteq> og \<and> cand \<noteq> fl \<and> usable f cand))"
        by blast
      have p1': "\<forall>cand st w. r = Some (cand, st, w) \<longrightarrow> step \<le> st \<and> st \<le> ms \<and> 0 \<le> cand \<and> cand < n \<and>
          cand \<noteq> og \<and> cand \<noteq> fl \<and> usable f cand \<and> shuffle_candidate n so sp p st = Some (cand, w)"
        using p1 by auto
      have p2': "r = None \<longrightarrow> (\<forall>st cand w. step \<le> st \<and> st \<le> ms \<and> shuffle_candidate n so sp p st = Some (cand, w)
          \<longrightarrow> \<not> (0 \<le> cand \<and> cand < n \<and> cand \<noteq> og \<and> cand \<noteq> fl \<and> usable f cand))"
      proof (intro impI allI)
        fix st cand w assume n: "r = None"
          and h: "step \<le> st \<and> st \<le> ms \<and> shuffle_candidate n so sp p st = Some (cand, w)"
        show "\<not> (0 \<le> cand \<and> cand < n \<and> cand \<noteq> og \<and> cand \<noteq> fl \<and> usable f cand)"
        proof (cases "st = step")
          case True
          then show ?thesis using h cw bad by simp
        next
          case False
          then have "step + 1 \<le> st" using h by simp
          then show ?thesis using h n p2 by blast
        qed
      qed
      show ?thesis unfolding unf using r p1' p2' by blast
    qed
  qed
qed

text \<open>
  \<open>bags_ok\<close>: what the planner needs of the two shuffle bags to stay inside them.
\<close>

definition bags_ok :: "int \<Rightarrow> int list option \<Rightarrow> int \<Rightarrow> int list option \<Rightarrow> bool" where
  "bags_ok n shuffle_order shuffle_pos pending \<longleftrightarrow>
     -1 \<le> shuffle_pos \<and> (\<forall>so. shuffle_order = Some so \<longrightarrow> n \<le> int (length so)) \<and>
     (\<forall>p. pending = Some p \<longrightarrow> n \<le> int (length p))"

lemma repeat_all_step:
  assumes "0 \<le> (i::int)" "i < n" "0 \<le> fi" "fi < n" "i \<noteq> fi"
  obtains step where "1 \<le> step" "step < n" "(fi + step) mod n = i"
proof
  let ?step = "(i - fi) mod n"
  have n: "0 < n" using assms by simp
  show "?step < n" using n by simp
  have "?step \<noteq> 0"
  proof
    assume "?step = 0"
    then have "n dvd (i - fi)" by (simp add: dvd_eq_mod_eq_0)
    then have "i mod n = fi mod n" by (simp add: mod_eq_dvd_iff)
    then show False using assms by simp
  qed
  moreover have "0 \<le> ?step" using n by (rule pos_mod_sign)
  ultimately show "1 \<le> ?step" by linarith
  show "(fi + ?step) mod n = i" using assms by (simp add: mod_add_right_eq)
qed

lemma advance_by_mode_correct:
  assumes "bags_ok n so sp pend" and "0 \<le> orig" and "orig \<le> fi" and "fi < n"
  shows "\<exists>p. advance_by_mode plan orig fi n mode so sp pend f = Some p \<and>
     queued_consumed p = queued_consumed plan \<and>
     (target_index p = -1 \<or>
        (0 \<le> target_index p \<and> target_index p < n \<and> target_index p \<noteq> orig \<and> target_index p \<noteq> fi \<and>
         usable f (target_index p)))"
proof -
  consider "n \<le> 1" | (sh) "1 < n" "mode = 3" | (ra) "1 < n" "mode \<noteq> 3" "mode = 2 \<or> mode = 1"
    | (sq) "1 < n" "mode \<noteq> 3" "\<not> (mode = 2 \<or> mode = 1)" by fastforce
  then show ?thesis
  proof cases
    case sh
    show ?thesis
    proof (cases so)
      case None
      then show ?thesis using sh by (simp add: advance_by_mode_def)
    next
      case (Some o1)
      let ?ms = "max_shuffle_steps n sp pend"
      have pre: "-1 \<le> sp" "(1::int) \<le> 1" "n \<le> int (length o1)" "\<forall>p. pend = Some p \<longrightarrow> n \<le> int (length p)"
        using assms(1) Some by (auto simp: bags_ok_def)
      from shuffle_walk_safe[OF pre, of f orig fi ?ms] obtain r where
        r: "shuffle_walk f n o1 sp pend orig fi 1 ?ms = Some r"
        and good: "\<forall>cand st w. r = Some (cand, st, w) \<longrightarrow> 0 \<le> cand \<and> cand < n \<and> cand \<noteq> orig \<and> cand \<noteq> fi \<and> usable f cand"
        by blast
      have adv: "advance_by_mode plan orig fi n mode so sp pend f =
          (case r of Some (cand, step, wrapped) \<Rightarrow>
                 Some (plan\<lparr>target_index := cand, shuffle_steps := step, shuffle_wrapped := wrapped\<rparr>)
             | None \<Rightarrow> Some (plan\<lparr>target_index := -1\<rparr>))"
        using sh Some r by (simp add: advance_by_mode_def)
      show ?thesis unfolding adv using good by (cases r) auto
    qed
  next
    case ra
    let ?p = "\<lambda>step. (let cand = (fi + step) mod n in cand \<noteq> orig \<and> cand \<noteq> fi \<and> usable f cand)"
    show ?thesis
    proof (cases "find_loop 1 n ?p")
      case None
      then show ?thesis using ra by (auto simp: advance_by_mode_def)
    next
      case (Some st)
      then have "?p st" using find_loop_Some[OF Some] by simp
      then show ?thesis using ra Some by (auto simp: advance_by_mode_def Let_def)
    qed
  next
    case sq
    show ?thesis
    proof (cases "find_loop (fi + 1) n (\<lambda>cand. cand \<noteq> orig \<and> usable f cand)")
      case None
      then show ?thesis using sq by (auto simp: advance_by_mode_def)
    next
      case (Some c)
      from find_loop_Some[OF Some] show ?thesis using sq Some assms by (auto simp: advance_by_mode_def)
    qed
  qed (auto simp: advance_by_mode_def)
qed

lemma failure_plan_correct:
  assumes "bags_ok n so sp pend" and "failed < n"
  shows "\<exists>p. compute_decoder_failure_advance_plan failed n mode queued so sp pend f = Some p \<and>
     (target_index p = -1 \<or>
        (0 \<le> target_index p \<and> target_index p < n \<and> target_index p \<noteq> failed \<and> usable f (target_index p)))"
proof -
  consider (none) "failed < 0" | (q) "0 \<le> failed" "0 < queued" | (nq) "0 \<le> failed" "\<not> 0 < queued"
    by fastforce
  then show ?thesis
  proof cases
    case nq
    then show ?thesis using advance_by_mode_correct[OF assms(1) nq(1) order_refl assms(2), of no_plan mode f] assms(2)
      by (auto simp: compute_decoder_failure_advance_plan_def)
  next
    case q
    let ?lim = "if failed + queued < n then queued else n - 1 - failed"
    show ?thesis
    proof (cases "find_loop 1 (?lim + 1) (\<lambda>q. usable f (failed + q))")
      case (Some c)
      then show ?thesis using find_loop_Some[OF Some] q assms(2)
        by (auto simp: compute_decoder_failure_advance_plan_def Let_def split: if_splits)
    next
      case None
      let ?fi = "if n \<le> failed + queued then n - 1 else failed + queued"
      have "failed \<le> ?fi" "?fi < n" using q assms(2) by auto
      from advance_by_mode_correct[OF assms(1) q(1) this, of "no_plan\<lparr>queued_consumed := queued\<rparr>" mode f]
      show ?thesis using q None assms(2) by (auto simp: compute_decoder_failure_advance_plan_def Let_def)
    qed
  qed (auto simp: compute_decoder_failure_advance_plan_def no_plan_def)
qed

text \<open>
  Completeness: when the planner gives up, no other track is playable.  In shuffle mode this
  needs the precomputed next bag, which the error handler provides.
\<close>

lemma advance_by_mode_complete:
  assumes perm: "permutation_upto n (take (nat n) so)" "permutation_upto n (take (nat n) pend)"
    and len: "n \<le> int (length so)" "n \<le> int (length pend)" and sp: "-1 \<le> sp" "sp < n"
    and "0 \<le> orig" and "orig \<le> fi" and "fi < n" and mode: "mode \<in> {1, 2, 3}"
    and give_up: "advance_by_mode plan orig fi n mode (Some so) sp (Some pend) f = Some p" "target_index p = -1"
    and i: "0 \<le> i" "i < n" "i \<noteq> orig" "i \<noteq> fi"
  shows "\<not> usable f i"
proof (cases "n \<le> 1")
  case True
  then show ?thesis using assms by auto
next
  case n: False
  show ?thesis
  proof (cases "mode = 3")
    case True
    let ?ms = "max_shuffle_steps n sp (Some pend)"
    have pre: "-1 \<le> sp" "(1::int) \<le> 1" "n \<le> int (length so)" "\<forall>q. Some pend = Some q \<longrightarrow> n \<le> int (length q)"
      using assms by auto
    from shuffle_walk_safe[OF pre, of f orig fi ?ms] obtain r where
      r: "shuffle_walk f n so sp (Some pend) orig fi 1 ?ms = Some r"
      and pos: "\<forall>cand st w. r = Some (cand, st, w) \<longrightarrow> 0 \<le> cand"
      and neg: "r = None \<longrightarrow> (\<forall>st cand w. 1 \<le> st \<and> st \<le> ?ms \<and> shuffle_candidate n so sp (Some pend) st = Some (cand, w)
        \<longrightarrow> \<not> (0 \<le> cand \<and> cand < n \<and> cand \<noteq> orig \<and> cand \<noteq> fi \<and> usable f cand))" by blast
    have "r = None" using give_up r pos n True by (cases r) (auto simp: advance_by_mode_def)
    obtain k where k: "k < nat n" "pend ! k = i"
      using perm(2) i len by (auto simp: permutation_upto_def in_set_conv_nth set_eq_iff)
         (metis atLeastLessThan_iff in_set_conv_nth length_take min_less_iff_conj nth_take)
    define st where "st = n - sp + int k"
    have "1 \<le> st" "st \<le> ?ms" using k sp by (auto simp: st_def max_shuffle_steps_def Let_def)
    moreover have "shuffle_candidate n so sp (Some pend) st = Some (i, True)"
      using k len by (auto simp: shuffle_candidate_def Let_def st_def aget_def)
    ultimately show ?thesis using neg \<open>r = None\<close> i by blast
  next
    case False
    then have ra: "mode = 2 \<or> mode = 1" using mode by auto
    have "find_loop 1 n (\<lambda>step. let cand = (fi + step) mod n in cand \<noteq> orig \<and> cand \<noteq> fi \<and> usable f cand) = None"
    proof (rule ccontr)
      assume "\<not> ?thesis"
      then obtain st where "find_loop 1 n (\<lambda>step. let cand = (fi + step) mod n
          in cand \<noteq> orig \<and> cand \<noteq> fi \<and> usable f cand) = Some st" by blast
      then have "target_index p = (fi + st) mod n"
        using give_up(1) ra n False by (auto simp: advance_by_mode_def)
      moreover have "0 \<le> (fi + st) mod n" using n by simp
      ultimately show False using give_up(2) by simp
    qed
    moreover obtain step where "1 \<le> step" "step < n" "(fi + step) mod n = i"
      using repeat_all_step[of i n fi] i assms by auto
    ultimately show ?thesis using i by (auto simp: find_loop_None Let_def)
  qed
qed

text \<open>
  The same for the whole planner.  With a queued block the planner has already rejected every
  track of the block, the one it moves to included.
\<close>

lemma failure_plan_gives_up:
  assumes perm: "permutation_upto n (take (nat n) so)" "permutation_upto n (take (nat n) pend)"
    and len: "n \<le> int (length so)" "n \<le> int (length pend)" and sp: "-1 \<le> sp" "sp < n"
    and failed: "0 \<le> failed" "failed < n" and mode: "mode \<in> {1, 2, 3}"
    and give_up: "compute_decoder_failure_advance_plan failed n mode queued (Some so) sp (Some pend) f = Some p"
      "target_index p = -1"
    and i: "0 \<le> i" "i < n" "i \<noteq> failed"
  shows "\<not> usable f i"
proof (cases "0 < queued")
  case False
  then show ?thesis
    using advance_by_mode_complete[OF perm len sp failed(1) order_refl failed(2) mode _ give_up(2) i(1,2,3) i(3)]
      give_up(1) failed by (auto simp: compute_decoder_failure_advance_plan_def)
next
  case True
  define lim where "lim = (if failed + queued < n then queued else n - 1 - failed)"
  define fi where "fi = (if n \<le> failed + queued then n - 1 else failed + queued)"
  have fi: "failed \<le> fi" "fi < n" "fi = failed + lim" using True failed by (auto simp: fi_def lim_def)
  have unf: "compute_decoder_failure_advance_plan failed n mode queued (Some so) sp (Some pend) f =
      (case find_loop 1 (lim + 1) (\<lambda>q. usable f (failed + q)) of
         Some q \<Rightarrow> Some (no_plan\<lparr>target_index := failed + q, queued_consumed := q\<rparr>)
       | None \<Rightarrow> advance_by_mode (no_plan\<lparr>queued_consumed := queued\<rparr>) failed fi n mode (Some so) sp (Some pend) f)"
    using True failed unfolding compute_decoder_failure_advance_plan_def lim_def fi_def Let_def by simp
  have none: "find_loop 1 (lim + 1) (\<lambda>q. usable f (failed + q)) = None"
    using give_up failed by (cases "find_loop 1 (lim + 1) (\<lambda>q. usable f (failed + q))")
      (auto simp: unf dest!: find_loop_Some)
  show ?thesis
  proof (cases "i = fi")
    case True
    show ?thesis
    proof
      assume "usable f i"
      moreover have "1 \<le> lim" using True fi i by simp
      ultimately show False using none True fi by (auto simp: find_loop_None)
    qed
  next
    case False
    then show ?thesis
      using advance_by_mode_complete[OF perm len sp failed(1) fi(1,2) mode _ give_up(2) i(1,2,3)] give_up(1) none
      by (auto simp: unf)
  qed
qed

end
