(* ===== verification/Player_State.thy ===== *)
theory Player_State
  imports Audio_Helpers Complex_Main
begin

text \<open>
  The state of the player (\<^verbatim>\<open>src/src/ui/gui_player.c\<close>) and of the part of the audio engine it talks
  to (\<^verbatim>\<open>src/src/audio/audio.c\<close>), and the operations that maintain the shuffle bag.

  \<^item> \<open>playlist\<close>, \<open>playlist_lazy_sort_order\<close>, \<open>shuffle_order\<close> and \<open>pending_shuffle_order\<close> are the
    allocated buffers (a NULL pointer is \<open>None\<close>, a NULL \<open>playlist\<close> the empty buffer; a slot that
    a lazy queue has not resolved is \<open>None\<close>).  An operation returns \<open>None\<close> when the C code would
    access a buffer outside its bounds.
  \<^item> What the environment decides is part of the state: \<open>alloc_ok\<close> and \<open>rand_seq\<close> are the outcomes
    of the coming allocations and of the coming calls of \<^verbatim>\<open>rand()\<close>; \<open>lazy_lookup\<close> is the open
    database snapshot or folder index of a lazy queue, \<open>''''\<close> for a miss.
  \<^item> \<open>events\<close> logs the calls into the user interface, the plugin host and the settings store,
    the last one first.
\<close>

datatype audio_error_t = AUDIO_ERROR_NONE | AUDIO_ERROR_DECODER_FAILED | AUDIO_ERROR_OUTPUT_FAILED

record audio_state =
  restart_path :: "string option"
  restart_start_seconds :: real
  restart_requested :: bool
  stop_requested :: bool
  paused :: bool
  next_path :: "string option"
  next_track_generation :: u64
  active_path :: "string option"
  playback_generation :: u64
  track_finished :: bool
  track_advanced :: bool
  last_playback_error :: audio_error_t
  last_playback_error_generation :: u64
  seek_pending :: bool

datatype ui_event =
    Error_toast string | Info_toast string | Play_button bool | Show_track int | Song_count int int
  | Nav_push_player | Nav_pop | Track_started string | Plugin_stopped | Queue_exhausted int
  | Settings_save | Added_to_queue int | Airplay_disconnect | Clear_source | Unlink string

record player =
  playlist :: "string option list"
  playlist_count :: int
  playlist_index :: int
  playlist_lazy_sort_order :: "int list option"
  lazy_lookup :: "int \<Rightarrow> string"
  queued_pending_count :: int
  queue_next_insert_index :: int
  shuffle_order :: "int list option"
  shuffle_order_count :: int
  shuffle_pos :: int
  pending_shuffle_order :: "int list option"
  queue_revision :: u64
  consecutive_decoder_failure_skips :: int
  failed_physical_paths :: "string list"
  current_playback_generation :: u64
  deferred_resume_pending :: bool
  deferred_resume_position :: real
  play_mode :: int
  gapless_enabled :: bool
  bt_dac_mode_enabled :: bool
  bt_is_powered_cached :: bool
  usb_mode_dac :: bool
  last_track :: string
  last_position :: real
  on_player_screen :: bool
  audio :: audio_state
  alloc_ok :: "nat \<Rightarrow> bool"
  rand_seq :: "nat \<Rightarrow> nat"
  events :: "ui_event list"

text \<open>The enumeration of \<^verbatim>\<open>gui.h\<close>; the setting itself is stored as an int.\<close>

definition PLAY_MODE_SEQUENTIAL :: int where "PLAY_MODE_SEQUENTIAL = 0"
definition PLAY_MODE_REPEAT_ALL :: int where "PLAY_MODE_REPEAT_ALL = 1"
definition PLAY_MODE_REPEAT_ONE :: int where "PLAY_MODE_REPEAT_ONE = 2"
definition PLAY_MODE_SHUFFLE :: int where "PLAY_MODE_SHUFFLE = 3"

lemmas play_mode_defs = PLAY_MODE_SEQUENTIAL_def PLAY_MODE_REPEAT_ALL_def PLAY_MODE_REPEAT_ONE_def
  PLAY_MODE_SHUFFLE_def

definition PATH_MAX :: nat where "PATH_MAX = 4096"
definition MAX_FAILED_PHYSICAL_PATHS :: nat where "MAX_FAILED_PHYSICAL_PATHS = 5"
definition INT_MAX :: int where "INT_MAX = 2147483647"

definition emit :: "ui_event \<Rightarrow> player \<Rightarrow> player" where
  "emit e s = s\<lparr>events := e # events s\<rparr>"

text \<open>One allocation: its outcome, and the outcomes that remain.\<close>

definition malloc_ok :: "player \<Rightarrow> bool \<times> player" where
  "malloc_ok s = (alloc_ok s 0, s\<lparr>alloc_ok := (\<lambda>k. alloc_ok s (Suc k))\<rparr>)"

section \<open>The audio engine's mailbox\<close>

text \<open>The ReplayGain values that travel with a path are not modelled.\<close>

definition audio_play_file_at :: "string \<Rightarrow> real \<Rightarrow> audio_state \<Rightarrow> audio_state" where
  "audio_play_file_at path start_seconds a = a\<lparr>
     restart_path := Some path, restart_start_seconds := start_seconds, next_path := None,
     restart_requested := True, stop_requested := False, paused := False,
     track_finished := False, track_advanced := False,
     last_playback_error := AUDIO_ERROR_NONE, last_playback_error_generation := 0,
     playback_generation := playback_generation a + 1, seek_pending := False, active_path := Some path\<rparr>"

definition audio_stop :: "audio_state \<Rightarrow> audio_state" where
  "audio_stop a = a\<lparr>stop_requested := True\<rparr>"

definition audio_set_next_track :: "string option \<Rightarrow> audio_state \<Rightarrow> audio_state" where
  "audio_set_next_track path a = a\<lparr>next_path := path, next_track_generation := next_track_generation a + 1\<rparr>"

definition audio_consume_track_finished :: "audio_state \<Rightarrow> bool \<times> audio_state" where
  "audio_consume_track_finished a = (track_finished a, a\<lparr>track_finished := False\<rparr>)"

definition audio_consume_track_advanced :: "audio_state \<Rightarrow> bool \<times> audio_state" where
  "audio_consume_track_advanced a = (track_advanced a, a\<lparr>track_advanced := False\<rparr>)"

definition audio_consume_error_ex :: "audio_state \<Rightarrow> (audio_error_t \<times> u64) \<times> audio_state" where
  "audio_consume_error_ex a = ((last_playback_error a, last_playback_error_generation a),
     a\<lparr>last_playback_error := AUDIO_ERROR_NONE, last_playback_error_generation := 0\<rparr>)"

definition audio_get_playback_generation :: "audio_state \<Rightarrow> u64" where
  "audio_get_playback_generation a = playback_generation a"

text \<open>
  What the playback thread publishes when it moves on to the armed track by itself (the three
  promotion sites of \<^verbatim>\<open>audio_thread_func\<close> perform the same updates).
\<close>

definition audio_thread_promote :: "audio_state \<Rightarrow> audio_state" where
  "audio_thread_promote a = a\<lparr>active_path := next_path a, next_path := None,
     playback_generation := playback_generation a + 1, seek_pending := False, track_advanced := True\<rparr>"

section \<open>Failure tracking\<close>

definition reset_decoder_failure_tracking :: "player \<Rightarrow> player" where
  "reset_decoder_failure_tracking s = s\<lparr>consecutive_decoder_failure_skips := 0, failed_physical_paths := []\<rparr>"

definition is_failed_physical_path :: "player \<Rightarrow> string \<Rightarrow> bool" where
  "is_failed_physical_path s path = (if path = '''' then False else path \<in> set (failed_physical_paths s))"

definition record_failed_physical_path :: "string \<Rightarrow> player \<Rightarrow> player" where
  "record_failed_physical_path path s =
     (if path = '''' then s
      else if is_failed_physical_path s path then s
      else if length (failed_physical_paths s) < MAX_FAILED_PHYSICAL_PATHS then
        (if length path < PATH_MAX then s\<lparr>failed_physical_paths := failed_physical_paths s @ [path]\<rparr> else s)
      else s)"

section \<open>The playlist\<close>

definition free_playlist :: "player \<Rightarrow> player" where
  "free_playlist s = reset_decoder_failure_tracking (s\<lparr>
     queue_revision := queue_revision s + 1,
     queued_pending_count := 0, queue_next_insert_index := -1,
     shuffle_order := None, shuffle_order_count := 0, shuffle_pos := -1,
     pending_shuffle_order := None\<rparr>)\<lparr>
     current_playback_generation := 0,
     playlist := [], playlist_count := 0, playlist_index := -1,
     playlist_lazy_sort_order := None, lazy_lookup := (\<lambda>_. '''')\<rparr>"

text \<open>
  The path of a slot.  The source also stores a resolved lazy path back into its slot;
  \<open>playlist_path_memo\<close> is that write, and \<open>memo_path\<close> below shows that it cannot be observed
  through \<open>playlist_path_at\<close>.
\<close>

definition playlist_path_at :: "player \<Rightarrow> int \<Rightarrow> string option" where
  "playlist_path_at s index =
     (if index < 0 \<or> playlist_count s \<le> index then Some ''''
      else do {
        slot \<leftarrow> aget (playlist s) index;
        case slot of Some path \<Rightarrow> Some path
        | None \<Rightarrow> (case playlist_lazy_sort_order s of None \<Rightarrow> Some ''''
            | Some order \<Rightarrow> do { sort_pos \<leftarrow> aget order index; Some (lazy_lookup s sort_pos) }) })"

definition playlist_path_memo :: "int \<Rightarrow> player \<Rightarrow> player option" where
  "playlist_path_memo index s =
     (if index < 0 \<or> playlist_count s \<le> index then Some s
      else do {
        slot \<leftarrow> aget (playlist s) index;
        path \<leftarrow> playlist_path_at s index;
        if slot \<noteq> None \<or> path = '''' then Some s
        else (let (ok, s) = malloc_ok s in
              if ok then do { pl \<leftarrow> aset (playlist s) index (Some path); Some (s\<lparr>playlist := pl\<rparr>) }
              else Some s) })"

definition gui_player_has_active_track :: "player \<Rightarrow> bool" where
  "gui_player_has_active_track s \<longleftrightarrow> 0 \<le> playlist_index s \<and> playlist_index s < playlist_count s"

definition gui_player_get_current_track_path :: "player \<Rightarrow> string option" where
  "gui_player_get_current_track_path s =
     (if playlist_index s < 0 \<or> playlist_count s \<le> playlist_index s then Some ''''
      else playlist_path_at s (playlist_index s))"

definition gui_player_get_queued_path_at :: "player \<Rightarrow> int \<Rightarrow> string option" where
  "gui_player_get_queued_path_at s offset =
     (if offset < 0 \<or> queued_pending_count s \<le> offset \<or> playlist_index s < 0 then Some ''''
      else let pos = playlist_index s + 1 + offset
           in if playlist_count s \<le> pos then Some '''' else playlist_path_at s pos)"

section \<open>Shuffling\<close>

function fisher_yates_loop :: "int \<Rightarrow> int list \<Rightarrow> (nat \<Rightarrow> nat) \<Rightarrow> (int list \<times> (nat \<Rightarrow> nat)) option" where
  "fisher_yates_loop i arr rs =
     (if 0 < i then do {
        let j = int (rs 0) mod (i + 1);
        tmp \<leftarrow> aget arr i;
        v \<leftarrow> aget arr j;
        arr \<leftarrow> aset arr i v;
        arr \<leftarrow> aset arr j tmp;
        fisher_yates_loop (i - 1) arr (\<lambda>k. rs (Suc k)) }
      else Some (arr, rs))"
  by pat_completeness auto
termination
  by (relation "measure (\<lambda>(i, arr, rs). nat i)") auto

declare fisher_yates_loop.simps [simp del]

definition fisher_yates_shuffle :: "int list \<Rightarrow> int \<Rightarrow> (nat \<Rightarrow> nat) \<Rightarrow> (int list \<times> (nat \<Rightarrow> nat)) option" where
  "fisher_yates_shuffle arr cnt rs = fisher_yates_loop (cnt - 1) arr rs"

text \<open>The two placement loops of \<open>ensure_shuffle_order_current\<close>.\<close>

definition place_current :: "int list \<Rightarrow> int \<Rightarrow> int \<Rightarrow> int list option" where
  "place_current order n index = do {
     found \<leftarrow> find_loopM 0 n (\<lambda>i. map_option (\<lambda>v. v = index) (aget order i));
     case found of None \<Rightarrow> Some order
     | Some i \<Rightarrow> do {
         first \<leftarrow> aget order 0;
         v \<leftarrow> aget order i;
         order \<leftarrow> aset order 0 v;
         aset order i first } }"

definition place_queued :: "int \<Rightarrow> int \<Rightarrow> int \<Rightarrow> int list \<times> int \<Rightarrow> (int list \<times> int) option" where
  "place_queued cnt index n st = do {
     let (order, pos) = st;
     let physical = index + 1 + n;
     found \<leftarrow> find_loopM 0 cnt (\<lambda>i. map_option (\<lambda>v. v = physical) (aget order i));
     case found of None \<Rightarrow> Some (order, pos)
     | Some found \<Rightarrow> do {
         order \<leftarrow> memmove order found (found + 1) (cnt - found - 1);
         let pos = (if found \<le> pos then pos - 1 else pos);
         let at0 = pos + 1 + n;
         order \<leftarrow> memmove order (at0 + 1) at0 (cnt - at0 - 1);
         order \<leftarrow> aset order at0 physical;
         Some (order, pos) } }"

definition ensure_shuffle_order_current :: "player \<Rightarrow> player option" where
  "ensure_shuffle_order_current s =
     (if shuffle_order s \<noteq> None \<and> shuffle_order_count s = playlist_count s then Some s
      else let (ok, s) = malloc_ok s; n = playlist_count s in
        if \<not> ok then Some (s\<lparr>shuffle_order := None, shuffle_order_count := 0, shuffle_pos := -1\<rparr>)
        else do {
          order \<leftarrow> for_loop 0 n (\<lambda>i order. aset order i i) (replicate (nat n) 0);
          (order, rs) \<leftarrow> fisher_yates_shuffle order n (rand_seq s);
          order \<leftarrow> (if 0 \<le> playlist_index s then place_current order n (playlist_index s) else Some order);
          (order, pos) \<leftarrow> for_loop 0 (queued_pending_count s) (place_queued n (playlist_index s)) (order, 0);
          Some (s\<lparr>shuffle_order := Some order, shuffle_order_count := n, shuffle_pos := pos,
                  pending_shuffle_order := None, rand_seq := rs\<rparr>) })"

definition queue_shuffle_insert :: "int \<Rightarrow> int \<Rightarrow> player \<Rightarrow> player option" where
  "queue_shuffle_insert physical added s = do {
     let old_count = playlist_count s - added;
     s \<leftarrow> (case shuffle_order s of
        Some order \<Rightarrow>
          if shuffle_order_count s = old_count then
            (let (ok, s) = malloc_ok s in
             if ok then do {
               let at0 = shuffle_pos s + 1 + physical - playlist_index s - 1;
               let at0 = (if at0 < 0 then 0 else at0);
               let at0 = (if old_count < at0 then old_count else at0);
               order \<leftarrow> playback_order_insert (resize (playlist_count s) 0 order) old_count physical at0 added;
               Some (s\<lparr>shuffle_order := Some order, shuffle_order_count := playlist_count s\<rparr>) }
             else Some (s\<lparr>shuffle_order := None, shuffle_order_count := 0\<rparr>))
          else Some s
      | None \<Rightarrow> Some s);
     Some (s\<lparr>pending_shuffle_order := None\<rparr>) }"

definition queue_shuffle_remove :: "int \<Rightarrow> player \<Rightarrow> player option" where
  "queue_shuffle_remove physical s = do {
     (_, order, cnt, pos) \<leftarrow> playback_order_note_removed (shuffle_order s) (Some (shuffle_order_count s))
        (Some (shuffle_pos s)) physical (playlist_count s);
     Some (s\<lparr>shuffle_order := order, shuffle_order_count := the cnt, shuffle_pos := the pos,
             pending_shuffle_order := None\<rparr>) }"

end
