(* ===== verification/Player_Shuffle.thy ===== *)
theory Player_Shuffle
  imports Player_State
begin

text \<open>
  Correctness of the shuffle-bag maintenance: the shuffle is a permutation, a fresh bag starts
  with the current track followed by the queued tracks, and the operations stay inside their
  buffers.  The player's invariant is stated here, component by component.
\<close>

section \<open>Fisher-Yates\<close>

lemma mset_swap_nth: "i < length xs \<Longrightarrow> j < length xs \<Longrightarrow> mset (xs[i := xs ! j, j := xs ! i]) = mset xs"
  by (rule mset_swap)

lemma fisher_yates_loop_mset:
  assumes "i < int (length xs)"
  shows "\<exists>xs' rs'. fisher_yates_loop i (xs @ ys) rs = Some (xs' @ ys, rs') \<and> mset xs' = mset xs"
  using assms
proof (induction "nat i" arbitrary: i xs rs)
  case 0
  then show ?case by (simp add: fisher_yates_loop.simps)
next
  case (Suc m)
  define a where "a = nat i"
  define b where "b = nat (int (rs 0) mod (i + 1))"
  have i: "0 < i" using Suc.hyps(2) by simp
  have jb: "0 \<le> int (rs 0) mod (i + 1)" "int (rs 0) mod (i + 1) < i + 1"
    using i pos_mod_bound[of "i + 1" "int (rs 0)"] by auto
  have a: "a < length xs" "i = int a" using i Suc.prems a_def by auto
  have b: "b < length xs" "int (rs 0) mod (i + 1) = int b" "b \<le> a"
    using jb a b_def by auto
  let ?xs = "xs[a := xs ! b, b := xs ! a]"
  have get: "aget (xs @ ys) i = Some (xs ! a)" "aget (xs @ ys) (int b) = Some (xs ! b)"
    "aset (xs @ ys) i (xs ! b) = Some (xs[a := xs ! b] @ ys)"
    "aset (xs[a := xs ! b] @ ys) (int b) (xs ! a) = Some (?xs @ ys)"
    using a b by (auto simp: aget_def aset_def nth_append list_update_append)
  have step: "fisher_yates_loop i (xs @ ys) rs = fisher_yates_loop (i - 1) (?xs @ ys) (\<lambda>k. rs (Suc k))"
    using i b(2) get by (simp add: fisher_yates_loop.simps[of i] Let_def)
  have "m = nat (i - 1)" "i - 1 < int (length ?xs)" using Suc.hyps(2) Suc.prems by auto
  from Suc.hyps(1)[OF this, of "\<lambda>k. rs (Suc k)"] show ?case
    using step mset_swap_nth[OF a(1) b(1)] by auto
qed

lemma fisher_yates_shuffle_mset:
  assumes "cnt \<le> int (length arr)"
  shows "\<exists>arr' rs'. fisher_yates_shuffle arr cnt rs = Some (arr', rs') \<and> length arr' = length arr \<and>
           mset (take (nat cnt) arr') = mset (take (nat cnt) arr) \<and> drop (nat cnt) arr' = drop (nat cnt) arr"
proof (cases "0 < cnt")
  case False
  then show ?thesis by (auto simp: fisher_yates_shuffle_def fisher_yates_loop.simps)
next
  case True
  have len: "length (take (nat cnt) arr) = nat cnt" using assms by simp
  have "cnt - 1 < int (length (take (nat cnt) arr))" using True len by simp
  from fisher_yates_loop_mset[OF this, of "drop (nat cnt) arr" rs] obtain xs rs' where
    xs: "fisher_yates_loop (cnt - 1) arr rs = Some (xs @ drop (nat cnt) arr, rs')" "mset xs = mset (take (nat cnt) arr)"
    by auto
  have "length xs = nat cnt" using mset_eq_length[OF xs(2)] len by simp
  then show ?thesis using xs assms by (simp add: fisher_yates_shuffle_def)
qed

corollary fisher_yates_shuffle_permutation:
  assumes "cnt \<le> int (length arr)" and "permutation_upto cnt (take (nat cnt) arr)"
  shows "\<exists>arr' rs'. fisher_yates_shuffle arr cnt rs = Some (arr', rs') \<and> length arr' = length arr \<and>
           permutation_upto cnt (take (nat cnt) arr')"
  using fisher_yates_shuffle_mset[OF assms(1), of rs] assms(2) permutation_upto_cong by metis

section \<open>Placing the current and the queued tracks\<close>

lemma permutation_find:
  assumes "permutation_upto n (take (nat n) order)" and "n \<le> int (length order)" and "0 \<le> v" and "v < n"
  obtains k where "k < nat n" and "order ! k = v"
    and "find_loopM 0 n (\<lambda>i. map_option (\<lambda>w. w = v) (aget order i)) = Some (Some (int k))"
proof -
  let ?bag = "take (nat n) order"
  have bag: "distinct ?bag" "set ?bag = {0..<n}" "length ?bag = nat n"
    using assms(1) permutation_upto_length[OF assms(1)] by (auto simp: permutation_upto_def)
  obtain k where k: "k < length ?bag" "?bag ! k = v"
    using bag assms(3,4) by (metis atLeastLessThan_iff in_set_conv_nth)
  have "find_loop 0 n (\<lambda>i. order ! nat i = v) = find_loop 0 n (\<lambda>i. ?bag ! nat i = ?bag ! k)"
    by (rule find_loop_cong) (simp only: k(2), simp)
  also have "\<dots> = Some (int k)" using find_loop_index[OF bag(1) k(1) bag(3)] .
  finally have "find_loopM 0 n (\<lambda>i. map_option (\<lambda>w. w = v) (aget order i)) = Some (Some (int k))"
    using find_loopM_aget[OF assms(2), of "\<lambda>w. w = v"] by simp
  moreover have "order ! k = v" "k < nat n" using k bag by auto
  ultimately show ?thesis using that by blast
qed

lemma permutation_index_unique:
  assumes "permutation_upto n (take (nat n) order)" and "n \<le> int (length order)"
    and "i < nat n" and "j < nat n" and "order ! i = order ! j"
  shows "i = j"
  using assms nth_eq_iff_index_eq[of "take (nat n) order" i j] permutation_upto_length[OF assms(1)]
  by (simp add: permutation_upto_def)

lemma place_current_ok:
  assumes "permutation_upto n order" and "0 \<le> index" and "index < n"
  shows "\<exists>order'. place_current order n index = Some order' \<and> permutation_upto n order' \<and> order' ! 0 = index"
proof -
  have len: "length order = nat n" using permutation_upto_length[OF assms(1)] .
  have take: "take (nat n) order = order" using len by simp
  obtain k where k: "k < nat n" "order ! k = index"
    "find_loopM 0 n (\<lambda>i. map_option (\<lambda>w. w = index) (aget order i)) = Some (Some (int k))"
    by (rule permutation_find[of n order index]) (use assms len in \<open>auto simp: take\<close>)
  let ?o = "order[0 := order ! k, k := order ! 0]"
  have kn: "k < length order" "0 < length order" using k len by auto
  have "place_current order n index = Some ?o"
    unfolding place_current_def k(3) using kn by (simp add: aget_def aset_def)
  moreover have "permutation_upto n ?o"
    using mset_swap_nth[of 0 order k] k len assms(1) permutation_upto_cong[of ?o order n] by simp
  moreover have "?o ! 0 = index" using k len by (cases "k = 0") auto
  ultimately show ?thesis by blast
qed

text \<open>Moving one element of an array forward by two block moves.\<close>

lemma memmove_forward:
  assumes "a \<le> f" and "f < length xs"
  shows "(do { ys \<leftarrow> memmove xs (int f) (int f + 1) (int (length xs) - int f - 1);
               zs \<leftarrow> memmove ys (int a + 1) (int a) (int (length xs) - int a - 1);
               aset zs (int a) (xs ! f) })
         = Some (take a xs @ [xs ! f] @ drop a (take f xs @ drop (Suc f) xs))"
proof -
  let ?N = "length xs"
  define l where "l = take f xs @ drop (Suc f) xs"
  have ll: "length l = ?N - 1" using assms by (simp add: l_def)
  define ys where "ys = l @ drop (?N - 1) xs"
  have ly: "length ys = ?N" using ll assms by (simp add: ys_def)
  have i1: "nat (int f + 1) = Suc f" "nat (int ?N - int f - 1) = ?N - Suc f"
    "nat (int f + (int ?N - int f - 1)) = ?N - 1" using assms by auto
  have m1: "memmove xs (int f) (int f + 1) (int ?N - int f - 1) = Some ys"
  proof -
    have "take (?N - Suc f) (drop (Suc f) xs) = drop (Suc f) xs" by simp
    then show ?thesis using assms unfolding memmove_def i1 ys_def l_def by simp
  qed
  have i2: "nat (int a + 1) = Suc a" "nat (int ?N - int a - 1) = ?N - Suc a"
    "nat (int a + 1 + (int ?N - int a - 1)) = ?N" using assms by auto
  have tk: "take (?N - Suc a) (drop a ys) = drop a l" using assms ll by (simp add: ys_def)
  have m2: "memmove ys (int a + 1) (int a) (int ?N - int a - 1) = Some (take (Suc a) ys @ drop a l)"
    using assms ly unfolding memmove_def i2 by (simp add: tk)
  have tn: "take a ys = take a xs" using assms by (simp add: ys_def l_def)
  have "take (Suc a) ys = take a xs @ [ys ! a]" using assms ly tn take_Suc_conv_app_nth[of a ys] by simp
  then have zs: "take (Suc a) ys @ drop a l = take a xs @ ys ! a # drop a l" by simp
  have lt: "length (take a xs) = a" using assms by simp
  have "aset (take (Suc a) ys @ drop a l) (int a) (xs ! f) = Some (take a xs @ [xs ! f] @ drop a l)"
    unfolding zs aset_def using lt by (simp add: list_update_append)
  then show ?thesis using m1 m2 by (simp add: l_def)
qed

lemma place_queued_ok:
  assumes perm: "permutation_upto n order" and ix: "0 \<le> index" "0 \<le> k" "index + 1 + k < n"
    and placed: "\<forall>i. 0 \<le> i \<and> i \<le> k \<longrightarrow> order ! nat i = index + i"
  shows "\<exists>order'. place_queued n index k (order, 0) = Some (order', 0) \<and> permutation_upto n order' \<and>
           (\<forall>i. 0 \<le> i \<and> i \<le> k + 1 \<longrightarrow> order' ! nat i = index + i)"
proof -
  have len: "length order = nat n" using permutation_upto_length[OF perm] .
  have take: "take (nat n) order = order" using len by simp
  obtain f where f: "f < nat n" "order ! f = index + 1 + k"
    "find_loopM 0 n (\<lambda>i. map_option (\<lambda>w. w = index + 1 + k) (aget order i)) = Some (Some (int f))"
    by (rule permutation_find[of n order "index + 1 + k"]) (use perm len ix in \<open>auto simp: take\<close>)
  define a where "a = nat (1 + k)"
  have af: "a \<le> f"
  proof (rule ccontr)
    assume "\<not> a \<le> f"
    then have "int f \<le> k" using a_def by auto
    then have "order ! nat (int f) = index + int f" using placed by (metis of_nat_0_le_iff)
    then show False using f(2) \<open>int f \<le> k\<close> by simp
  qed
  let ?o = "take a order @ [order ! f] @ drop a (take f order @ drop (Suc f) order)"
  have a: "int a = 1 + k" using ix a_def by simp
  have ln: "int (length order) = n" using len ix by simp
  have fl: "f < length order" using f len by simp
  have nz: "\<not> int f \<le> 0" using af a ix by linarith
  have "place_queued n index k (order, 0) = do {
      ys \<leftarrow> memmove order (int f) (int f + 1) (n - int f - 1);
      zs \<leftarrow> memmove ys (int a + 1) (int a) (n - int a - 1);
      ws \<leftarrow> aset zs (int a) (order ! f);
      Some (ws, 0) }"
    unfolding place_queued_def Let_def f(3) prod.case using nz by (simp add: f(2) a add.assoc)
  also have "\<dots> = do { ws \<leftarrow> (do { ys \<leftarrow> memmove order (int f) (int f + 1) (n - int f - 1);
      zs \<leftarrow> memmove ys (int a + 1) (int a) (n - int a - 1); aset zs (int a) (order ! f) }); Some (ws, 0) }"
    by simp
  also have "\<dots> = Some (?o, 0)" using memmove_forward[OF af fl] unfolding ln by simp
  finally have "place_queued n index k (order, 0) = Some (?o, 0)" .
  moreover have "mset ?o = mset order"
  proof -
    let ?l = "take f order @ drop (Suc f) order"
    have ta: "take a order = take a ?l" using af fl by simp
    have "mset ?o = {#order ! f#} + (mset (take a ?l) + mset (drop a ?l))" using ta by simp
    also have "\<dots> = {#order ! f#} + mset ?l" by (simp only: append_take_drop_id mset_append[symmetric])
    also have "\<dots> = mset (take f order @ order ! f # drop (Suc f) order)" by simp
    also have "\<dots> = mset order" by (simp only: id_take_nth_drop[OF fl, symmetric])
    finally show ?thesis .
  qed
  then have "permutation_upto n ?o" using perm permutation_upto_cong by blast
  moreover have "?o ! nat i = index + i" if "0 \<le> i" "i \<le> k + 1" for i
  proof (cases "i = k + 1")
    case True
    then have "nat i = a" using a_def by simp
    moreover have "length (take a order) = a" using af f len by simp
    ultimately show ?thesis using f(2) True by (simp add: nth_append)
  next
    case False
    then have "nat i < a" "i \<le> k" using that a by auto
    then have "?o ! nat i = order ! nat i" using af f len by (simp add: nth_append)
    then show ?thesis using placed that \<open>i \<le> k\<close> by simp
  qed
  ultimately show ?thesis by blast
qed

lemma place_all_queued_ok:
  assumes perm: "permutation_upto n order" and "order ! 0 = index" and "0 \<le> index" "0 \<le> q" "index + q < n"
  shows "\<exists>order'. for_loop 0 q (place_queued n index) (order, 0) = Some (order', 0) \<and> permutation_upto n order' \<and>
           (\<forall>i. 0 \<le> i \<and> i \<le> q \<longrightarrow> order' ! nat i = index + i)"
proof -
  let ?I = "\<lambda>k (order, pos). pos = (0::int) \<and> permutation_upto n order \<and> (\<forall>i. 0 \<le> i \<and> i \<le> k \<longrightarrow> order ! nat i = index + i)"
  have "\<exists>s'. for_loop 0 q (place_queued n index) (order, 0) = Some s' \<and> ?I q s'"
  proof (rule for_loop_rule)
    show "?I 0 (order, 0)"
      using perm assms(2) by (auto dest: order_antisym)
  next
    fix k st assume k: "0 \<le> k" "k < q" and I: "?I k st"
    obtain o1 where st: "st = (o1, 0)" using I by (cases st) auto
    from place_queued_ok[of n o1 index k] show "\<exists>s'. place_queued n index k st = Some s' \<and> ?I (k + 1) s'"
      using I k assms by (auto simp: st)
  qed (use assms in auto)
  then show ?thesis by auto
qed

section \<open>The invariant of the player\<close>

text \<open>
  \<^item> \<open>list_ok\<close>: the counters fit the buffers, the current index is \<open>-1\<close> or a slot;
  \<^item> \<open>queue_ok\<close>: the queued block lies behind the current track, and the next insertion point
    is the end of the block;
  \<^item> \<open>bag_ok\<close>: the shuffle bag, and the precomputed next one, are permutations of their size;
  \<^item> \<open>aligned\<close>: in shuffle mode the bag has the size of the playlist, its cursor is on the
    current track and the queued block comes next.
\<close>

definition list_ok :: "player \<Rightarrow> bool" where
  "list_ok s \<longleftrightarrow> 0 \<le> playlist_count s \<and> playlist_count s \<le> int (length (playlist s)) \<and>
     (\<forall>lo. playlist_lazy_sort_order s = Some lo \<longrightarrow> playlist_count s \<le> int (length lo)) \<and>
     -1 \<le> playlist_index s \<and> playlist_index s < max 0 (playlist_count s)"

definition queue_ok :: "player \<Rightarrow> bool" where
  "queue_ok s \<longleftrightarrow> 0 \<le> queued_pending_count s \<and>
     (if 0 < queued_pending_count s
      then 0 \<le> playlist_index s \<and> playlist_index s + queued_pending_count s < playlist_count s \<and>
           queue_next_insert_index s = playlist_index s + 1 + queued_pending_count s
      else queue_next_insert_index s = -1 \<or>
           (queue_next_insert_index s = 1 \<and> playlist_index s = 0 \<and> playlist_count s = 1))"

definition bag_live :: "player \<Rightarrow> bool" where
  "bag_live s \<longleftrightarrow> shuffle_order s \<noteq> None \<and> shuffle_order_count s = playlist_count s"

definition bag_of_size :: "int \<Rightarrow> int list \<Rightarrow> bool" where
  "bag_of_size n order \<longleftrightarrow> n \<le> int (length order) \<and> permutation_upto n (take (nat n) order)"

definition bag_ok :: "player \<Rightarrow> bool" where
  "bag_ok s \<longleftrightarrow> -1 \<le> shuffle_pos s \<and> (\<forall>order. shuffle_order s = Some order \<longrightarrow>
     (order = [] \<longrightarrow> playlist_count s = 0) \<and> 0 \<le> shuffle_order_count s \<and> bag_of_size (shuffle_order_count s) order \<and>
     (\<forall>p. pending_shuffle_order s = Some p \<longrightarrow> bag_of_size (shuffle_order_count s) p))"

definition block_at :: "int list \<Rightarrow> int \<Rightarrow> int \<Rightarrow> int \<Rightarrow> bool" where
  "block_at order pos index q \<longleftrightarrow> 0 \<le> pos \<and> (\<forall>i. 0 \<le> i \<and> i \<le> q \<longrightarrow> order ! nat (pos + i) = index + i)"

definition aligned :: "player \<Rightarrow> bool" where
  "aligned s \<longleftrightarrow>
     (0 \<le> playlist_index s \<and> play_mode s = PLAY_MODE_SHUFFLE \<and> shuffle_order s \<noteq> None \<longrightarrow>
        shuffle_order_count s = playlist_count s \<and>
        shuffle_pos s + queued_pending_count s < playlist_count s \<and>
        block_at (the (shuffle_order s)) (shuffle_pos s) (playlist_index s) (queued_pending_count s)) \<and>
     (playlist_index s < 0 \<and> 0 < playlist_count s \<and> shuffle_order s \<noteq> None \<longrightarrow>
        shuffle_order_count s = playlist_count s \<and> shuffle_pos s < playlist_count s)"

definition player_inv :: "player \<Rightarrow> bool" where
  "player_inv s \<longleftrightarrow> list_ok s \<and> queue_ok s \<and> bag_ok s \<and> aligned s"

text \<open>What the shuffle maintenance may change.\<close>

definition shuffle_frame :: "player \<Rightarrow> player \<Rightarrow> bool" where
  "shuffle_frame s s' \<longleftrightarrow> s' = s\<lparr>shuffle_order := shuffle_order s', shuffle_order_count := shuffle_order_count s',
     shuffle_pos := shuffle_pos s', pending_shuffle_order := pending_shuffle_order s',
     alloc_ok := alloc_ok s', rand_seq := rand_seq s'\<rparr>"

lemma shuffle_frameD:
  assumes "shuffle_frame s s'"
  shows "playlist s' = playlist s" "playlist_count s' = playlist_count s" "playlist_index s' = playlist_index s"
    "playlist_lazy_sort_order s' = playlist_lazy_sort_order s" "lazy_lookup s' = lazy_lookup s"
    "queued_pending_count s' = queued_pending_count s" "queue_next_insert_index s' = queue_next_insert_index s"
    "queue_revision s' = queue_revision s" "play_mode s' = play_mode s" "gapless_enabled s' = gapless_enabled s"
    "failed_physical_paths s' = failed_physical_paths s"
    "consecutive_decoder_failure_skips s' = consecutive_decoder_failure_skips s" "audio s' = audio s"
    "current_playback_generation s' = current_playback_generation s" "events s' = events s"
    "bt_dac_mode_enabled s' = bt_dac_mode_enabled s" "bt_is_powered_cached s' = bt_is_powered_cached s"
    "usb_mode_dac s' = usb_mode_dac s" "deferred_resume_pending s' = deferred_resume_pending s"
    "deferred_resume_position s' = deferred_resume_position s" "last_track s' = last_track s"
    "last_position s' = last_position s" "on_player_screen s' = on_player_screen s"
  by (subst assms[unfolded shuffle_frame_def], simp)+

lemma shuffle_frame_refl [simp]: "shuffle_frame s s"
  by (simp add: shuffle_frame_def)

lemma shuffle_frame_trans:
  assumes "shuffle_frame s t" and "shuffle_frame t u"
  shows "shuffle_frame s u"
  by (subst assms(2)[unfolded shuffle_frame_def], subst assms(1)[unfolded shuffle_frame_def])
    (simp add: shuffle_frame_def)

lemma shuffle_frame_list_ok: "shuffle_frame s s' \<Longrightarrow> list_ok s' = list_ok s"
  by (simp add: list_ok_def shuffle_frameD)

lemma shuffle_frame_queue_ok: "shuffle_frame s s' \<Longrightarrow> queue_ok s' = queue_ok s"
  by (simp add: queue_ok_def shuffle_frameD)

section \<open>Regenerating the bag\<close>

lemma identity_fill: "for_loop 0 n (\<lambda>i order. aset order i i) (replicate (nat n) 0) = Some [0..n - 1]"
proof (cases "0 \<le> n")
  case True
  then show ?thesis using for_loop_fill[of n 0 "replicate (nat n) 0" "\<lambda>i. i"] by simp
qed simp

lemma ensure_fresh:
  assumes "list_ok s" and "queue_ok s" and "\<not> bag_live s" and ok: "alloc_ok s 0"
  shows "\<exists>order rs. ensure_shuffle_order_current s = Some (s\<lparr>alloc_ok := \<lambda>k. alloc_ok s (Suc k),
      shuffle_order := Some order, shuffle_order_count := playlist_count s, shuffle_pos := 0,
      pending_shuffle_order := None, rand_seq := rs\<rparr>) \<and>
    permutation_upto (playlist_count s) order \<and>
    (0 \<le> playlist_index s \<longrightarrow> block_at order 0 (playlist_index s) (queued_pending_count s))"
proof -
  let ?n = "playlist_count s" and ?ix = "playlist_index s" and ?q = "queued_pending_count s"
  have n: "0 \<le> ?n" using assms(1) by (simp add: list_ok_def)
  have q: "0 \<le> ?q" "0 < ?q \<Longrightarrow> 0 \<le> ?ix \<and> ?ix + ?q < ?n" "0 \<le> ?ix \<Longrightarrow> ?ix < ?n"
    using assms(1,2) by (auto simp: queue_ok_def list_ok_def split: if_splits)
  have "permutation_upto ?n (take (nat ?n) [0..?n - 1])" using n by simp
  then obtain o1 rs where o1: "fisher_yates_shuffle [0..?n - 1] ?n (rand_seq s) = Some (o1, rs)"
      "length o1 = nat ?n" "permutation_upto ?n (take (nat ?n) o1)"
    using fisher_yates_shuffle_permutation[of ?n "[0..?n - 1]" "rand_seq s"] n by auto
  have p1: "permutation_upto ?n o1" using o1 by simp
  have nl: "\<not> (shuffle_order s \<noteq> None \<and> shuffle_order_count s = ?n)" using assms(3) by (simp add: bag_live_def)
  show ?thesis
  proof (cases "0 \<le> ?ix")
    case True
    obtain o2 where o2: "place_current o1 ?n ?ix = Some o2" "permutation_upto ?n o2" "o2 ! 0 = ?ix"
      using place_current_ok[OF p1 True q(3)[OF True]] by blast
    have "?ix + ?q < ?n" using q True by (cases "0 < ?q") auto
    from place_all_queued_ok[OF o2(2,3) True q(1) this] obtain o3 where
      o3: "for_loop 0 ?q (place_queued ?n ?ix) (o2, 0) = Some (o3, 0)" "permutation_upto ?n o3"
        "\<forall>i. 0 \<le> i \<and> i \<le> ?q \<longrightarrow> o3 ! nat i = ?ix + i" by blast
    then show ?thesis using nl ok o1 o2 True
      by (auto simp: ensure_shuffle_order_current_def malloc_ok_def identity_fill block_at_def)
  next
    case False
    then have "?q = 0" using q by (cases "0 < ?q") auto
    then show ?thesis using nl ok o1 p1 False
      by (auto simp: ensure_shuffle_order_current_def malloc_ok_def identity_fill)
  qed
qed

lemma ensure_no_memory:
  assumes "\<not> bag_live s" and "\<not> alloc_ok s 0"
  shows "ensure_shuffle_order_current s = Some (s\<lparr>alloc_ok := \<lambda>k. alloc_ok s (Suc k),
      shuffle_order := None, shuffle_order_count := 0, shuffle_pos := -1\<rparr>)"
  using assms by (auto simp: ensure_shuffle_order_current_def malloc_ok_def bag_live_def)

lemma ensure_live: "bag_live s \<Longrightarrow> ensure_shuffle_order_current s = Some s"
  by (simp add: ensure_shuffle_order_current_def bag_live_def)

lemma permutation_bag_of_size: "permutation_upto n order \<Longrightarrow> 0 \<le> n \<Longrightarrow> bag_of_size n order"
  using permutation_upto_length[of n order] by (simp add: bag_of_size_def)

lemma ensure_ok:
  assumes "list_ok s" and "queue_ok s" and "bag_ok s"
  obtains s' where "ensure_shuffle_order_current s = Some s'" and "shuffle_frame s s'" and "bag_ok s'"
    and "bag_live s \<Longrightarrow> s' = s"
    and "\<not> bag_live s \<Longrightarrow> bag_live s' \<Longrightarrow> shuffle_pos s' = 0 \<and> pending_shuffle_order s' = None \<and>
          (0 \<le> playlist_index s' \<longrightarrow>
             block_at (the (shuffle_order s')) (shuffle_pos s') (playlist_index s') (queued_pending_count s'))"
    and "\<not> bag_live s' \<Longrightarrow> shuffle_order s' = None"
proof -
  consider (live) "bag_live s" | (fresh) "\<not> bag_live s" "alloc_ok s 0" | (oom) "\<not> bag_live s" "\<not> alloc_ok s 0"
    by blast
  then show thesis
  proof cases
    case live
    then show ?thesis using ensure_live[OF live] assms by (intro that[of s]) auto
  next
    case fresh
    obtain order rs where *: "ensure_shuffle_order_current s = Some (s\<lparr>alloc_ok := \<lambda>k. alloc_ok s (Suc k),
        shuffle_order := Some order, shuffle_order_count := playlist_count s, shuffle_pos := 0,
        pending_shuffle_order := None, rand_seq := rs\<rparr>)"
      and p: "permutation_upto (playlist_count s) order"
      and b: "0 \<le> playlist_index s \<longrightarrow> block_at order 0 (playlist_index s) (queued_pending_count s)"
      using ensure_fresh[OF assms(1,2) fresh] by blast
    have n: "0 \<le> playlist_count s" using assms(1) by (simp add: list_ok_def)
    have "order = [] \<longrightarrow> playlist_count s = 0" using permutation_upto_length[OF p] n by auto
    with p b fresh n show ?thesis
      by (intro that[OF *]) (auto simp: shuffle_frame_def bag_ok_def bag_live_def permutation_bag_of_size)
  next
    case oom
    show ?thesis by (intro that[OF ensure_no_memory[OF oom]])
      (use oom in \<open>auto simp: shuffle_frame_def bag_ok_def bag_live_def\<close>)
  qed
qed

lemma ensure_inv:
  assumes "player_inv s"
  obtains s' where "ensure_shuffle_order_current s = Some s'" and "shuffle_frame s s'" and "player_inv s'"
    and "bag_live s \<Longrightarrow> s' = s" and "\<not> bag_live s' \<Longrightarrow> shuffle_order s' = None"
proof -
  from assms(1) have ok: "list_ok s" "queue_ok s" "bag_ok s" "aligned s" by (auto simp: player_inv_def)
  obtain s' where s': "ensure_shuffle_order_current s = Some s'" "shuffle_frame s s'" "bag_ok s'"
    "bag_live s \<Longrightarrow> s' = s" and fresh: "\<not> bag_live s \<Longrightarrow> bag_live s' \<Longrightarrow> shuffle_pos s' = 0 \<and>
          (0 \<le> playlist_index s' \<longrightarrow>
             block_at (the (shuffle_order s')) (shuffle_pos s') (playlist_index s') (queued_pending_count s'))"
    and none: "\<not> bag_live s' \<Longrightarrow> shuffle_order s' = None"
    by (rule ensure_ok[OF ok(1-3)]) blast
  have "aligned s'"
  proof (cases "bag_live s")
    case True
    then show ?thesis using s'(4) ok(4) by simp
  next
    case False
    have "0 \<le> playlist_index s' \<longrightarrow> playlist_index s' + queued_pending_count s' < playlist_count s'"
      using ok(1,2) s'(2) by (auto simp: list_ok_def queue_ok_def shuffle_frameD split: if_splits)
    moreover have "shuffle_order s' \<noteq> None \<longrightarrow> bag_live s'" using none by (cases "bag_live s'") auto
    ultimately show ?thesis unfolding aligned_def using fresh[OF False] by (auto simp: bag_live_def)
  qed
  then have "player_inv s'" using s' ok by (simp add: player_inv_def shuffle_frame_list_ok shuffle_frame_queue_ok)
  then show thesis using that s' none by blast
qed

section \<open>The bag follows insertions and removals\<close>

lemma nth_bag_insert:
  assumes "a \<le> length bag" and "j < length bag + k"
  shows "bag_insert bag phys (int a) (int k) ! j =
     (if j < a then (if phys \<le> bag ! j then bag ! j + int k else bag ! j)
      else if j < a + k then phys + int (j - a)
      else (if phys \<le> bag ! (j - k) then bag ! (j - k) + int k else bag ! (j - k)))"
proof -
  let ?sh = "map (\<lambda>v. if phys \<le> v then v + int k else v) bag"
  have l: "length (take a ?sh) = a" using assms by simp
  have u: "length [phys..phys + int k - 1] = k" by simp
  have e: "bag_insert bag phys (int a) (int k) = take a ?sh @ [phys..phys + int k - 1] @ drop a ?sh"
    by (simp add: bag_insert_def Let_def)
  consider "j < a" | "a \<le> j" "j < a + k" | "a + k \<le> j" by linarith
  then show ?thesis
  proof cases
    case 1
    then show ?thesis using assms by (simp add: e nth_append l)
  next
    case 2
    then have "j - a < k" by simp
    then show ?thesis using 2 assms by (simp add: e nth_append l u min_absorb2)
  next
    case 3
    then have "\<not> j - a < k" "a + (j - a - k) = j - k" "j - k < length bag" using assms by auto
    then show ?thesis using 3 assms by (simp add: e nth_append l u)
  qed
qed

lemma block_at_bag_insert:
  assumes "block_at bag pos index q" and "pos + q < int (length bag)" and "0 \<le> k" "k \<le> q" and "0 \<le> added" and "0 \<le> index"
  shows "block_at (bag_insert bag (index + 1 + k) (pos + 1 + k) added) pos index (q + added)"
proof -
  have b: "0 \<le> pos" "\<And>i. 0 \<le> i \<Longrightarrow> i \<le> q \<Longrightarrow> bag ! nat (pos + i) = index + i"
    using assms(1) by (auto simp: block_at_def)
  define a where "a = nat (pos + 1 + k)"
  define m where "m = nat added"
  have a: "pos + 1 + k = int a" "added = int m" "a \<le> length bag" using b assms by (auto simp: a_def m_def)
  have "bag_insert bag (index + 1 + k) (int a) (int m) ! nat (pos + i) = index + i"
    if i: "0 \<le> i" "i \<le> q + added" for i
  proof -
    have j: "nat (pos + i) < length bag + m" using i assms b a by auto
    consider (low) "i \<le> k" | (new) "k < i" "i \<le> k + added" | (high) "k + added < i" by linarith
    then show ?thesis
    proof cases
      case low
      then have "nat (pos + i) < a" using a b i by auto
      moreover have "bag ! nat (pos + i) = index + i" using b low i assms by auto
      ultimately show ?thesis using low by (simp add: nth_bag_insert[OF a(3) j])
    next
      case new
      then have "\<not> nat (pos + i) < a" "nat (pos + i) < a + m" "int (nat (pos + i) - a) = i - (1 + k)"
        using a b i by auto
      then show ?thesis by (simp add: nth_bag_insert[OF a(3) j])
    next
      case high
      then have "\<not> nat (pos + i) < a" "\<not> nat (pos + i) < a + m" "nat (pos + i) - m = nat (pos + (i - added))"
        using a b i by auto
      moreover have "bag ! nat (pos + (i - added)) = index + (i - added)" using b high i assms by auto
      ultimately show ?thesis using high a by (simp add: nth_bag_insert[OF a(3) j])
    qed
  qed
  then show ?thesis using b(1) by (simp add: block_at_def a(1,2))
qed

lemma nth_bag_remove:
  assumes "distinct bag" and "r < length bag" and "bag ! r = phys" and "j < length bag - 1"
  shows "bag_remove bag phys ! j =
     (let v = (if j < r then bag ! j else bag ! Suc j) in if phys < v then v - 1 else v)"
proof -
  have e: "remove1 phys bag = take r bag @ drop (Suc r) bag" using remove1_nth[OF assms(1,2)] assms(3) by simp
  have "(take r bag @ drop (Suc r) bag) ! j = (if j < r then bag ! j else bag ! Suc j)"
    using assms by (auto simp: nth_append min_def Suc_le_eq)
  moreover have "j < length (take r bag @ drop (Suc r) bag)" using assms by simp
  ultimately show ?thesis unfolding bag_remove_def e Let_def by (simp only: nth_map)
qed

lemma block_at_bag_remove:
  assumes perm: "distinct bag" and block: "block_at bag pos index q" and len: "pos + q < int (length bag)"
    and r: "r < length bag" "bag ! r = phys" and phys: "index < phys" and q: "0 \<le> q"
  shows "block_at (bag_remove bag phys) (if int r \<le> pos then pos - 1 else pos) index
           (if phys \<le> index + q then q - 1 else q)"
    and "(if int r \<le> pos then pos - 1 else pos) + (if phys \<le> index + q then q - 1 else q) < int (length bag) - 1"
proof -
  have b: "0 \<le> pos" "\<And>i. 0 \<le> i \<Longrightarrow> i \<le> q \<Longrightarrow> bag ! nat (pos + i) = index + i"
    using block by (auto simp: block_at_def)
  have at: "int r = pos + i" if "0 \<le> i" "i \<le> q" "index + i = phys" for i
  proof -
    have "bag ! nat (pos + i) = bag ! r" "nat (pos + i) < length bag" using b that r len by auto
    then have "nat (pos + i) = r" using perm r(1) by (simp add: nth_eq_iff_index_eq)
    then show ?thesis using b(1) that by auto
  qed
  have away: "int r < pos \<or> pos + q < int r" if "index + q < phys"
  proof (rule ccontr)
    assume "\<not> ?thesis"
    then have i: "0 \<le> int r - pos" "int r - pos \<le> q" by auto
    then have "bag ! nat (pos + (int r - pos)) = index + (int r - pos)" "int r - pos \<le> q" using b(2) by blast+
    then show False using r that by simp
  qed
  have pr: "int r \<noteq> pos"
  proof
    assume h: "int r = pos"
    have "bag ! nat (pos + 0) = index + 0" using b q by blast
    moreover have "nat (pos + 0) = r" using h by simp
    ultimately show False using r phys by simp
  qed
  show "(if int r \<le> pos then pos - 1 else pos) + (if phys \<le> index + q then q - 1 else q) < int (length bag) - 1"
    using at[of "phys - index"] away phys r(1) len by auto
  show "block_at (bag_remove bag phys) (if int r \<le> pos then pos - 1 else pos) index (if phys \<le> index + q then q - 1 else q)"
  proof (cases "phys \<le> index + q")
    case True
    have rr: "int r = pos + (phys - index)" using at[of "phys - index"] True phys by simp
    have "bag_remove bag phys ! nat (pos + i) = index + i" if i: "0 \<le> i" "i \<le> q - 1" for i
    proof -
      have j: "nat (pos + i) < length bag - 1" using i b len by auto
      have s: "Suc (nat (pos + i)) = nat (pos + (i + 1))" using i b by auto
      have v: "bag ! nat (pos + i) = index + i" "bag ! nat (pos + (i + 1)) = index + (i + 1)" using b i by auto
      have c: "nat (pos + i) < r \<longleftrightarrow> index + i < phys" using rr b i by auto
      show ?thesis unfolding nth_bag_remove[OF perm r j] s v c Let_def by auto
    qed
    then show ?thesis using True phys rr b by (auto simp: block_at_def)
  next
    case False
    then have aw: "int r < pos \<or> pos + q < int r" using away by simp
    have "bag_remove bag phys ! nat ((if int r \<le> pos then pos - 1 else pos) + i) = index + i" if i: "0 \<le> i" "i \<le> q" for i
    proof (cases "int r < pos")
      case True
      have j: "nat (pos - 1 + i) < length bag - 1" using i b len True by auto
      have s: "Suc (nat (pos - 1 + i)) = nat (pos + i)" and c: "\<not> nat (pos - 1 + i) < r" using i b True by auto
      show ?thesis using True False i b(2)[OF i] by (simp add: nth_bag_remove[OF perm r j] s c)
    next
      case nr: False
      have j: "nat (pos + i) < length bag - 1" and c: "nat (pos + i) < r" using i b len aw nr r(1) by auto
      show ?thesis using nr pr False i b(2)[OF i] by (simp add: nth_bag_remove[OF perm r j] c)
    qed
    then show ?thesis using False b aw q by (auto simp: block_at_def)
  qed
qed

lemma block_at_take: "pos + q < n \<Longrightarrow> block_at (take (nat n) order) pos index q = block_at order pos index q"
  by (auto simp: block_at_def)

lemma bag_of_size_length: "bag_of_size n order \<Longrightarrow> 0 \<le> n \<Longrightarrow> length (take (nat n) order) = nat n"
  by (auto simp: bag_of_size_def)

text \<open>
  Growing the bag: the playlist has already grown by \<open>added\<close> slots at \<open>physical\<close>, inside or at
  the end of the queued block.
\<close>

lemma queue_shuffle_insert_ok:
  assumes bag: "bag_ok s" and n: "0 < added" "added \<le> playlist_count s" and ix: "0 \<le> playlist_index s"
    and k: "0 \<le> k" "k \<le> q" "q = queued_pending_count s - added" "playlist_index s + q < playlist_count s - added"
    and al: "play_mode s = PLAY_MODE_SHUFFLE \<Longrightarrow> shuffle_order s \<noteq> None \<Longrightarrow>
      shuffle_order_count s = playlist_count s - added \<and> shuffle_pos s + q < playlist_count s - added \<and>
      block_at (the (shuffle_order s)) (shuffle_pos s) (playlist_index s) q"
  shows "\<exists>s'. queue_shuffle_insert (playlist_index s + 1 + k) added s = Some s' \<and> shuffle_frame s s' \<and>
           bag_ok s' \<and> aligned s'"
proof (cases "shuffle_order s \<noteq> None \<and> shuffle_order_count s = playlist_count s - added \<and> alloc_ok s 0")
  case False
  then consider (none) "shuffle_order s = None" | (stale) o1 where "shuffle_order s = Some o1" "shuffle_order_count s \<noteq> playlist_count s - added"
    | (oom) o1 where "shuffle_order s = Some o1" "shuffle_order_count s = playlist_count s - added" "\<not> alloc_ok s 0"
    by blast
  then show ?thesis
  proof cases
    case none
    then show ?thesis using bag ix by (simp add: queue_shuffle_insert_def shuffle_frame_def bag_ok_def aligned_def)
  next
    case stale
    then have "play_mode s \<noteq> PLAY_MODE_SHUFFLE" using al by auto
    then show ?thesis using stale bag ix by (simp add: queue_shuffle_insert_def shuffle_frame_def bag_ok_def aligned_def)
  next
    case oom
    then show ?thesis using bag ix
      by (simp add: queue_shuffle_insert_def malloc_ok_def shuffle_frame_def bag_ok_def aligned_def)
  qed
next
  case True
  then obtain o1 where o1: "shuffle_order s = Some o1" "shuffle_order_count s = playlist_count s - added" "alloc_ok s 0"
    by blast
  let ?n = "playlist_count s" and ?old = "playlist_count s - added" and ?ph = "playlist_index s + 1 + k"
  have b1: "bag_of_size ?old o1" "0 \<le> ?old" "o1 \<noteq> []" "-1 \<le> shuffle_pos s" using bag o1 n by (auto simp: bag_ok_def)
  define dst where "dst = min ?old (max 0 (shuffle_pos s + 1 + k))"
  let ?buf = "resize ?n 0 o1"
  have tk: "take (nat ?old) ?buf = take (nat ?old) o1"
    using b1 n by (intro take_resize) (auto simp: bag_of_size_def)
  have pre: "permutation_upto ?old (take (nat ?old) ?buf)" "0 \<le> ?old" "?old + added \<le> int (length ?buf)"
    "0 \<le> dst" "dst \<le> ?old" "0 \<le> added" "0 \<le> ?ph" "?ph \<le> ?old"
    using b1 n ix k tk by (auto simp: bag_of_size_def dst_def)
  from po.ins_law[OF pre(2-6), of ?ph] obtain o2 where
    o2: "playback_order_insert ?buf ?old ?ph dst added = Some o2" "length o2 = length ?buf"
      "take (nat ?n) o2 = bag_insert (take (nat ?old) o1) ?ph dst added" using tk by auto
  have perm2: "permutation_upto ?n (take (nat ?n) o2)"
    using bag_insert_permutation[OF pre(1,7,8,6), of dst] o2(3) tk by simp
  let ?s' = "s\<lparr>alloc_ok := \<lambda>k. alloc_ok s (Suc k), shuffle_order := Some o2, shuffle_order_count := ?n,
     pending_shuffle_order := None\<rparr>"
  have at0: "(let a = shuffle_pos s + 1 + ?ph - playlist_index s - 1; b = (if a < 0 then 0 else a)
      in (if ?old < b then ?old else b)) = dst" by (auto simp: dst_def Let_def)
  have "queue_shuffle_insert ?ph added s = Some ?s'"
    unfolding queue_shuffle_insert_def o1(1) option.case Let_def[of "playlist_count s - added"] malloc_ok_def
    using o1(2,3) at0 o2(1) by (auto simp: Let_def split: if_splits)
  moreover have "bag_ok ?s'"
    using perm2 o2(2) b1 n by (auto simp: bag_ok_def bag_of_size_def)
  moreover have "aligned ?s'"
  proof -
    have "shuffle_pos s + (q + added) < ?n \<and> block_at o2 (shuffle_pos s) (playlist_index s) (q + added)"
      if "play_mode s = PLAY_MODE_SHUFFLE"
    proof -
      have a: "shuffle_pos s + q < ?old" "block_at o1 (shuffle_pos s) (playlist_index s) q" using al that o1 by auto
      then have p0: "0 \<le> shuffle_pos s" by (simp add: block_at_def)
      have d: "dst = shuffle_pos s + 1 + k" using a p0 k by (auto simp: dst_def)
      have len: "length (take (nat ?old) o1) = nat ?old" using bag_of_size_length b1 by blast
      have "block_at (bag_insert (take (nat ?old) o1) ?ph dst added) (shuffle_pos s) (playlist_index s) (q + added)"
        unfolding d by (rule block_at_bag_insert) (use a k n ix len b1 block_at_take in auto)
      then have "block_at (take (nat ?n) o2) (shuffle_pos s) (playlist_index s) (q + added)" by (simp only: o2(3))
      moreover have "shuffle_pos s + (q + added) < ?n" using a by simp
      ultimately show ?thesis by (simp only: block_at_take simp_thms)
    qed
    then show ?thesis using ix k(3) by (simp add: aligned_def)
  qed
  ultimately show ?thesis by (auto simp: shuffle_frame_def)
qed

text \<open>
  Shrinking the bag before slot \<open>physical\<close>, behind the current track, is removed: \<open>t\<close> is the
  state after the caller has also decremented the playlist and, for a queued slot, the queue.
\<close>

lemma queue_shuffle_remove_ok:
  assumes bag: "bag_ok s" and phys: "playlist_index s < physical" "0 \<le> physical" "physical < playlist_count s"
    and ix: "-1 \<le> playlist_index s" and q: "0 \<le> queued_pending_count s" and al: "aligned s"
    and qn: "q' = (if physical \<le> playlist_index s + queued_pending_count s then queued_pending_count s - 1
                   else queued_pending_count s)"
  shows "\<exists>s'. queue_shuffle_remove physical s = Some s' \<and> shuffle_frame s s' \<and>
     (\<forall>t. shuffle_order t = shuffle_order s' \<and> shuffle_order_count t = shuffle_order_count s' \<and>
          shuffle_pos t = shuffle_pos s' \<and> pending_shuffle_order t = pending_shuffle_order s' \<and>
          playlist_index t = playlist_index s \<and> play_mode t = play_mode s \<and>
          playlist_count t = playlist_count s - 1 \<and> queued_pending_count t = q' \<longrightarrow> bag_ok t \<and> aligned t)"
proof (cases "bag_live s")
  case False
  then have st: "shuffle_order s = None \<or> shuffle_order_count s \<noteq> playlist_count s" by (simp add: bag_live_def)
  let ?s' = "s\<lparr>pending_shuffle_order := None\<rparr>"
  have rem: "queue_shuffle_remove physical s = Some ?s'"
    using note_removed_stale[OF st] by (simp add: queue_shuffle_remove_def)
  have n: "0 < playlist_count s" using phys by simp
  have "bag_ok t \<and> aligned t" if t: "shuffle_order t = shuffle_order ?s' \<and> shuffle_order_count t = shuffle_order_count ?s' \<and>
          shuffle_pos t = shuffle_pos ?s' \<and> pending_shuffle_order t = pending_shuffle_order ?s' \<and>
          playlist_index t = playlist_index s \<and> play_mode t = play_mode s \<and>
          playlist_count t = playlist_count s - 1 \<and> queued_pending_count t = q'" for t
  proof (cases "shuffle_order s")
    case None
    then show ?thesis using t bag by (auto simp: bag_ok_def aligned_def)
  next
    case (Some o1)
    then have "play_mode s \<noteq> PLAY_MODE_SHUFFLE" "0 \<le> playlist_index s"
      using al st n by (force simp: aligned_def)+
    then show ?thesis using t bag Some n by (auto simp: bag_ok_def aligned_def)
  qed
  then show ?thesis using rem by (intro exI[of _ ?s'] conjI) (auto simp: shuffle_frame_def)
next
  case True
  then obtain o1 where o1: "shuffle_order s = Some o1" "shuffle_order_count s = playlist_count s"
    by (auto simp: bag_live_def)
  let ?n = "playlist_count s" and ?pos = "shuffle_pos s"
  have b1: "?n \<le> int (length o1)" "permutation_upto ?n (take (nat ?n) o1)" "-1 \<le> ?pos" "0 \<le> ?n"
    using bag o1 phys by (auto simp: bag_ok_def bag_of_size_def)
  from note_removed_live[OF b1(2,1) phys(2,3), of ?pos] obtain r o2 where
    nr: "playback_order_note_removed (Some o1) (Some ?n) (Some ?pos) physical ?n
           = Some (r, Some o2, Some (?n - 1), Some (if r \<le> ?pos then ?pos - 1 else ?pos))"
    and r: "0 \<le> r" "r < ?n" "o1 ! nat r = physical" and l2: "length o2 = length o1"
    and t2: "take (nat (?n - 1)) o2 = bag_remove (take (nat ?n) o1) physical" by blast
  let ?p' = "if r \<le> ?pos then ?pos - 1 else ?pos"
  let ?s' = "s\<lparr>shuffle_order := Some o2, shuffle_order_count := ?n - 1, shuffle_pos := ?p', pending_shuffle_order := None\<rparr>"
  have rem: "queue_shuffle_remove physical s = Some ?s'"
    using nr by (simp add: queue_shuffle_remove_def o1)
  have perm2: "permutation_upto (?n - 1) (take (nat (?n - 1)) o2)"
    using bag_remove_permutation[OF b1(2) phys(2,3)] t2 by simp
  have p': "-1 \<le> ?p'" using r b1(3) by auto
  have bag2: "bag_of_size (?n - 1) o2" using perm2 l2 b1 by (simp add: bag_of_size_def)
  have ne: "o2 = [] \<longrightarrow> ?n - 1 = 0" using l2 b1 phys by auto
  have blk: "?p' + q' < ?n - 1 \<and> block_at o2 ?p' (playlist_index s) q'"
    if "0 \<le> playlist_index s" "play_mode s = PLAY_MODE_SHUFFLE"
  proof -
    let ?bag = "take (nat ?n) o1"
    have a: "?pos + queued_pending_count s < ?n" "block_at o1 ?pos (playlist_index s) (queued_pending_count s)"
      using al that o1 by (auto simp: aligned_def)
    have len: "length ?bag = nat ?n" using b1 by simp
    have pre: "distinct ?bag" "block_at ?bag ?pos (playlist_index s) (queued_pending_count s)"
      "?pos + queued_pending_count s < int (length ?bag)" "nat r < length ?bag" "?bag ! nat r = physical"
      using b1 a r len block_at_take[OF a(1)] by (auto simp: permutation_upto_def)
    have ri: "int (nat r) = r" using r by simp
    note b = block_at_bag_remove[OF pre phys(1) q, unfolded ri, folded qn]
    have sum: "?p' + q' < ?n - 1" using b(2) len b1(4) by simp
    moreover have "block_at o2 ?p' (playlist_index s) q'"
      using b(1) block_at_take[OF sum, of o2] by (simp only: t2 simp_thms)
    ultimately show ?thesis by blast
  qed
  have idle: "?p' < ?n - 1" if "playlist_index s < 0" "0 < ?n - 1"
    using al that o1 r by (auto simp: aligned_def)
  have "bag_ok t \<and> aligned t" if t: "shuffle_order t = shuffle_order ?s' \<and> shuffle_order_count t = shuffle_order_count ?s' \<and>
          shuffle_pos t = shuffle_pos ?s' \<and> pending_shuffle_order t = pending_shuffle_order ?s' \<and>
          playlist_index t = playlist_index s \<and> play_mode t = play_mode s \<and>
          playlist_count t = playlist_count s - 1 \<and> queued_pending_count t = q'" for t
    using t p' bag2 ne blk idle phys by (simp add: bag_ok_def aligned_def)
  then show ?thesis using rem by (intro exI[of _ ?s'] conjI) (auto simp: shuffle_frame_def)
qed

end
