(* ===== verification/Player_Advance.thy ===== *)
theory Player_Advance
  imports Player_Shuffle
begin

text \<open>
  Which track comes next, and how the player moves to it (\<^verbatim>\<open>src/src/ui/gui_player.c\<close>): the
  preview and commit of an automatic advance, manual steps, arming the gapless successor,
  starting a track, and the handlers of the audio engine's events and errors.
\<close>

section \<open>Choosing the next track\<close>

text \<open>
  The next bag is precomputed once per wrap.  A NULL \<open>shuffle_order\<close> under the \<^verbatim>\<open>memcpy\<close> is an
  access fault.
\<close>

definition precompute_wrap :: "player \<Rightarrow> player option" where
  "precompute_wrap s =
     (if pending_shuffle_order s \<noteq> None then Some s
      else let (ok, s) = malloc_ok s in
        if \<not> ok then Some s
        else do {
          order \<leftarrow> shuffle_order s;
          p \<leftarrow> memcpy_out order (playlist_count s);
          (p, rs) \<leftarrow> fisher_yates_shuffle p (playlist_count s) (rand_seq s);
          Some (s\<lparr>pending_shuffle_order := Some p, rand_seq := rs\<rparr>) })"

definition compute_auto_advance_index :: "int \<Rightarrow> player \<Rightarrow> (int \<times> player) option" where
  "compute_auto_advance_index index s =
     (if index < 0 \<or> playlist_count s \<le> 0 then Some (-1, s)
      else if 0 < queued_pending_count s \<and> index + 1 < playlist_count s then Some (index + 1, s)
      else if play_mode s = PLAY_MODE_REPEAT_ONE then Some (index, s)
      else if play_mode s = PLAY_MODE_REPEAT_ALL then Some ((index + 1) mod playlist_count s, s)
      else if play_mode s = PLAY_MODE_SHUFFLE then do {
        s \<leftarrow> ensure_shuffle_order_current s;
        case shuffle_order s of None \<Rightarrow> Some (-1, s)
        | Some order \<Rightarrow>
            let peek_pos = shuffle_pos s + 1 in
            if peek_pos < playlist_count s then do { v \<leftarrow> aget order peek_pos; Some (v, s) }
            else do {
              s \<leftarrow> precompute_wrap s;
              case pending_shuffle_order s of None \<Rightarrow> Some (-1, s)
              | Some p \<Rightarrow> do { v \<leftarrow> aget p 0; Some (v, s) } } }
      else Some (if index + 1 < playlist_count s then index + 1 else -1, s))"

definition is_failed_physical_track_cb :: "player \<Rightarrow> int \<Rightarrow> bool" where
  "is_failed_physical_track_cb s index =
     (case playlist_path_at s index of None \<Rightarrow> False | Some path \<Rightarrow> is_failed_physical_path s path)"

definition commit_decoder_failure_advance_plan :: "failure_advance_plan_t \<Rightarrow> player \<Rightarrow> player" where
  "commit_decoder_failure_advance_plan plan s =
     (if target_index plan < 0 then s
      else
        let s = (if 0 < queued_consumed plan then
                   (if queued_pending_count s \<le> queued_consumed plan
                    then s\<lparr>queued_pending_count := 0, queue_next_insert_index := -1\<rparr>
                    else s\<lparr>queued_pending_count := queued_pending_count s - queued_consumed plan\<rparr>)
                 else s)
        in if play_mode s = PLAY_MODE_SHUFFLE \<and> 0 < shuffle_steps plan then
             (if shuffle_wrapped plan \<and> pending_shuffle_order s \<noteq> None then
                s\<lparr>shuffle_order := pending_shuffle_order s, pending_shuffle_order := None,
                  shuffle_order_count := playlist_count s,
                  shuffle_pos := (shuffle_pos s + shuffle_steps plan) mod playlist_count s\<rparr>
              else s\<lparr>shuffle_pos := (if playlist_count s \<le> shuffle_pos s + shuffle_steps plan
                                   then playlist_count s - 1 else shuffle_pos s + shuffle_steps plan)\<rparr>)
           else s)"

definition commit_auto_advance :: "player \<Rightarrow> player" where
  "commit_auto_advance s =
     (if 0 < queued_pending_count s then
        (let s = (if bag_live s then s\<lparr>shuffle_pos := shuffle_pos s + 1\<rparr> else s);
             s = s\<lparr>queued_pending_count := queued_pending_count s - 1\<rparr>
         in if queued_pending_count s = 0 then s\<lparr>queue_next_insert_index := -1\<rparr> else s)
      else if play_mode s \<noteq> PLAY_MODE_SHUFFLE then s
      else if shuffle_pos s + 1 < playlist_count s then s\<lparr>shuffle_pos := shuffle_pos s + 1\<rparr>
      else if pending_shuffle_order s \<noteq> None then
        s\<lparr>shuffle_order := pending_shuffle_order s, pending_shuffle_order := None,
          shuffle_order_count := playlist_count s, shuffle_pos := 0\<rparr>
      else s)"

text \<open>\<open>direction\<close> is \<open>1\<close> or \<open>-1\<close>, so the operand of \<^verbatim>\<open>%\<close> is not negative.\<close>

definition compute_manual_step_index :: "int \<Rightarrow> int \<Rightarrow> player \<Rightarrow> (int \<times> player) option" where
  "compute_manual_step_index index direction s =
     (if index < 0 \<or> playlist_count s \<le> 0 then Some (-1, s)
      else
        let s = (if direction < 0 \<and> 0 < queued_pending_count s
                 then s\<lparr>queued_pending_count := 0, queue_next_insert_index := -1\<rparr> else s)
        in if 0 < direction \<and> 0 < queued_pending_count s \<and> index + 1 < playlist_count s then
             (let s = (if bag_live s then s\<lparr>shuffle_pos := shuffle_pos s + 1\<rparr> else s);
                  s = s\<lparr>queued_pending_count := queued_pending_count s - 1\<rparr>;
                  s = (if queued_pending_count s = 0 then s\<lparr>queue_next_insert_index := -1\<rparr> else s)
              in Some (index + 1, s))
           else if play_mode s = PLAY_MODE_SHUFFLE then do {
             s \<leftarrow> ensure_shuffle_order_current s;
             case shuffle_order s of None \<Rightarrow> Some (-1, s)
             | Some order \<Rightarrow>
                 let new_pos = shuffle_pos s + direction in
                 if new_pos < 0 then Some (-1, s)
                 else do {
                   (s, order, new_pos) \<leftarrow> (if playlist_count s \<le> new_pos then do {
                        (order, rs) \<leftarrow> fisher_yates_shuffle order (playlist_count s) (rand_seq s);
                        Some (s\<lparr>shuffle_order := Some order, rand_seq := rs\<rparr>, order, 0) }
                      else Some (s, order, new_pos));
                   v \<leftarrow> aget order new_pos;
                   Some (v, s\<lparr>shuffle_pos := new_pos\<rparr>) } }
           else if play_mode s = PLAY_MODE_REPEAT_ALL then
             Some ((index + direction + playlist_count s) mod playlist_count s, s)
           else let nxt = index + direction in
             Some (if 0 \<le> nxt \<and> nxt < playlist_count s then nxt else -1, s))"

section \<open>Arming and starting tracks\<close>

definition arm_next_track_for_audio :: "int \<Rightarrow> player \<Rightarrow> player option" where
  "arm_next_track_for_audio index s = do {
     let s = s\<lparr>queue_revision := queue_revision s + 1\<rparr>;
     s \<leftarrow> (if play_mode s = PLAY_MODE_SHUFFLE then do {
          s \<leftarrow> ensure_shuffle_order_current s;
          case shuffle_order s of None \<Rightarrow> Some s
          | Some order \<Rightarrow> do {
              found \<leftarrow> find_loopM 0 (playlist_count s) (\<lambda>i. map_option (\<lambda>v. v = index) (aget order i));
              Some (case found of None \<Rightarrow> s | Some i \<Rightarrow> s\<lparr>shuffle_pos := i\<rparr>) } }
        else Some s);
     (next_index, s) \<leftarrow> compute_auto_advance_index index s;
     if next_index < 0 \<or> \<not> gapless_enabled s then Some (s\<lparr>audio := audio_set_next_track None (audio s)\<rparr>)
     else do {
       path \<leftarrow> playlist_path_at s next_index;
       Some (s\<lparr>audio := audio_set_next_track (Some path) (audio s)\<rparr>) } }"

definition external_dac_block_reason :: "player \<Rightarrow> string option" where
  "external_dac_block_reason s =
     (if bt_dac_mode_enabled s \<and> bt_is_powered_cached s
      then Some ''Turn off Bluetooth DAC to play music on this device''
      else if usb_mode_dac s then Some ''Exit USB DAC mode to play music on this device''
      else None)"

definition remote_track_path_is_remote :: "string \<Rightarrow> bool" where
  "remote_track_path_is_remote path \<longleftrightarrow> take 9 path = ''remote://''"

text \<open>\<^verbatim>\<open>last_track\<close> is a \<^verbatim>\<open>char[512]\<close>, filled by \<^verbatim>\<open>snprintf\<close>.\<close>

definition save_last_track :: "string \<Rightarrow> real \<Rightarrow> player \<Rightarrow> player" where
  "save_last_track path position s =
     emit Settings_save
      (if path \<noteq> '''' \<and> \<not> remote_track_path_is_remote path
       then s\<lparr>last_track := take 511 path, last_position := position\<rparr> else s)"

definition play_track_at_from_internal :: "int \<Rightarrow> real \<Rightarrow> bool \<Rightarrow> bool \<Rightarrow> player \<Rightarrow> player option" where
  "play_track_at_from_internal index start_seconds push_nav skip_airplay_disconnect s =
     (if index < 0 \<or> playlist_count s \<le> index then Some s
      else let s = (if skip_airplay_disconnect then s else emit Airplay_disconnect s)
        in case external_dac_block_reason s of
             Some block_reason \<Rightarrow> Some (emit (Error_toast block_reason) s)
           | None \<Rightarrow> do {
               let s = emit (Show_track index) (s\<lparr>deferred_resume_pending := False,
                          deferred_resume_position := 0, playlist_index := index\<rparr>);
               path \<leftarrow> playlist_path_at s index;
               let s = s\<lparr>audio := audio_play_file_at path start_seconds (audio s)\<rparr>;
               let s = s\<lparr>current_playback_generation := audio_get_playback_generation (audio s)\<rparr>;
               s \<leftarrow> arm_next_track_for_audio index s;
               let s = emit (Play_button True) (emit (Track_started path) s);
               let s = (if push_nav \<and> \<not> on_player_screen s
                        then emit Nav_push_player (s\<lparr>on_player_screen := True\<rparr>) else s);
               Some (save_last_track path start_seconds s) })"

definition play_track_at_from :: "int \<Rightarrow> real \<Rightarrow> player \<Rightarrow> player option" where
  "play_track_at_from index start_seconds s =
     play_track_at_from_internal index start_seconds True False (reset_decoder_failure_tracking s)"

definition play_track_at :: "int \<Rightarrow> player \<Rightarrow> player option" where
  "play_track_at index s = play_track_at_from_internal index 0 True False (reset_decoder_failure_tracking s)"

definition on_track_auto_advanced :: "int \<Rightarrow> player \<Rightarrow> player option" where
  "on_track_auto_advanced index s =
     (if index < 0 \<or> playlist_count s \<le> index then Some s
      else do {
        let s = emit (Show_track index) (s\<lparr>playlist_index := index\<rparr>);
        let s = s\<lparr>current_playback_generation := audio_get_playback_generation (audio s)\<rparr>;
        s \<leftarrow> arm_next_track_for_audio index s;
        path \<leftarrow> playlist_path_at s index;
        let s = emit (Play_button True) (emit (Track_started path) s);
        Some (save_last_track path 0 s) })"

definition on_file_selected :: "string option list \<Rightarrow> int \<Rightarrow> int \<Rightarrow> player \<Rightarrow> player option" where
  "on_file_selected new_playlist cnt selected_index s =
     play_track_at selected_index ((free_playlist s)\<lparr>playlist := new_playlist, playlist_count := cnt,
       queued_pending_count := 0, queue_next_insert_index := -1\<rparr>)"

definition on_file_selected_at :: "string option list \<Rightarrow> int \<Rightarrow> int \<Rightarrow> real \<Rightarrow> player \<Rightarrow> player option" where
  "on_file_selected_at new_playlist cnt selected_index start_seconds s =
     play_track_at_from selected_index start_seconds ((free_playlist s)\<lparr>playlist := new_playlist,
       playlist_count := cnt, queued_pending_count := 0, queue_next_insert_index := -1\<rparr>)"

definition gui_player_set_play_mode :: "int \<Rightarrow> player \<Rightarrow> player option" where
  "gui_player_set_play_mode mode_value s =
     (if mode_value < PLAY_MODE_SEQUENTIAL \<or> PLAY_MODE_SHUFFLE < mode_value then Some s
      else let s = emit Settings_save (s\<lparr>play_mode := mode_value\<rparr>)
        in if 0 \<le> playlist_index s then arm_next_track_for_audio (playlist_index s) s else Some s)"

definition cycle_play_mode :: "player \<Rightarrow> player option" where
  "cycle_play_mode s = gui_player_set_play_mode ((play_mode s + 1) mod 4) s"

section \<open>Handlers\<close>

definition gui_player_step_manual :: "int \<Rightarrow> player \<Rightarrow> player option" where
  "gui_player_step_manual direction s = do {
     let s = reset_decoder_failure_tracking s;
     if playlist_index s < 0 then Some s
     else do {
       (next_idx, s) \<leftarrow> compute_manual_step_index (playlist_index s) direction s;
       if 0 \<le> next_idx then play_track_at next_idx s else Some (emit (Queue_exhausted direction) s) } }"

definition gui_player_handle_auto_advance :: "player \<Rightarrow> player option" where
  "gui_player_handle_auto_advance s =
     (if playlist_index s < 0 then Some s
      else do {
        let s = reset_decoder_failure_tracking s;
        (advanced_index, s) \<leftarrow> compute_auto_advance_index (playlist_index s) s;
        if 0 \<le> advanced_index then on_track_auto_advanced advanced_index (commit_auto_advance s)
        else Some s })"

definition gui_player_handle_track_finished :: "player \<Rightarrow> player option" where
  "gui_player_handle_track_finished s =
     (if playlist_index s < 0 then Some s
      else do {
        let s = reset_decoder_failure_tracking s;
        (finished_index, s) \<leftarrow> compute_auto_advance_index (playlist_index s) s;
        if 0 \<le> finished_index then play_track_at_from_internal finished_index 0 False False (commit_auto_advance s)
        else Some (emit (Play_button False) s) })"

text \<open>\<^verbatim>\<open>if (audio_consume_track_advanced()) gui_player_handle_auto_advance();\<close>\<close>

definition catch_up :: "player \<Rightarrow> player option" where
  "catch_up s =
     (let (advanced, a) = audio_consume_track_advanced (audio s); s = s\<lparr>audio := a\<rparr>
      in if advanced then gui_player_handle_auto_advance s else Some s)"

definition stop_after_failures :: "player \<Rightarrow> player" where
  "stop_after_failures s =
     emit (Error_toast ''Playback stopped: too many unplayable tracks'')
      (reset_decoder_failure_tracking ((emit (Play_button False) s)\<lparr>deferred_resume_pending := False,
         deferred_resume_position := 0\<rparr>))"

definition handle_decoder_failure :: "player \<Rightarrow> player option" where
  "handle_decoder_failure s = do {
     failed_path \<leftarrow> playlist_path_at s (playlist_index s);
     let s = record_failed_physical_path failed_path s;
     let s = s\<lparr>consecutive_decoder_failure_skips := consecutive_decoder_failure_skips s + 1\<rparr>;
     let max_skips = (if playlist_count s < 5 then playlist_count s else 5);
     if max_skips \<le> consecutive_decoder_failure_skips s then Some (stop_after_failures s)
     else do {
       s \<leftarrow> (if play_mode s = PLAY_MODE_SHUFFLE
             then do { s \<leftarrow> ensure_shuffle_order_current s; precompute_wrap s } else Some s);
       plan \<leftarrow> compute_decoder_failure_advance_plan (playlist_index s) (playlist_count s) (play_mode s)
                 (queued_pending_count s) (shuffle_order s) (shuffle_pos s) (pending_shuffle_order s)
                 (Some (is_failed_physical_track_cb s));
       if target_index plan < 0 then Some (stop_after_failures s)
       else do {
         let s = (commit_decoder_failure_advance_plan plan s)\<lparr>deferred_resume_pending := False,
                   deferred_resume_position := 0\<rparr>;
         play_track_at_from_internal (target_index plan) 0 False False
           (emit (Error_toast ''Skipped unplayable track'') s) } } }"

text \<open>\<open>resume_pos\<close> is the value of \<^verbatim>\<open>audio_get_resume_position_seconds()\<close>.\<close>

definition handle_error_now :: "audio_error_t \<Rightarrow> real \<Rightarrow> player \<Rightarrow> player option" where
  "handle_error_now err resume_pos s =
     (case err of
        AUDIO_ERROR_OUTPUT_FAILED \<Rightarrow>
          Some (emit (Error_toast ''Playback error: audio output failed'') (emit (Play_button False)
            (s\<lparr>deferred_resume_position := (if 0 < resume_pos then resume_pos else 0),
               deferred_resume_pending := True\<rparr>)))
      | AUDIO_ERROR_DECODER_FAILED \<Rightarrow> handle_decoder_failure s
      | AUDIO_ERROR_NONE \<Rightarrow> Some s)"

definition gui_player_handle_playback_error_ex :: "audio_error_t \<Rightarrow> u64 \<Rightarrow> real \<Rightarrow> player \<Rightarrow> player option" where
  "gui_player_handle_playback_error_ex err err_generation resume_pos s =
     (if err = AUDIO_ERROR_NONE then Some s
      else if playlist_index s < 0 then Some s
      else if err_generation \<noteq> 0 \<and> current_playback_generation s \<noteq> 0 \<and> err_generation \<noteq> current_playback_generation s then
        (if err_generation < current_playback_generation s then Some s
         else let (advanced, a) = audio_consume_track_advanced (audio s); s = s\<lparr>audio := a\<rparr>
           in if \<not> advanced then Some s
              else do {
                s \<leftarrow> gui_player_handle_auto_advance s;
                if current_playback_generation s \<noteq> err_generation then Some s
                else handle_error_now err resume_pos s })
      else handle_error_now err resume_pos s)"

definition gui_player_handle_playback_error :: "audio_error_t \<Rightarrow> real \<Rightarrow> player \<Rightarrow> player option" where
  "gui_player_handle_playback_error err resume_pos s = gui_player_handle_playback_error_ex err 0 resume_pos s"

end
