(* ===== verification/Player_Advance_Inv.thy ===== *)
theory Player_Advance_Inv
  imports Player_Advance
begin

text \<open>
  The advance operations keep the player's invariant and never access a buffer outside its
  bounds; the preview of the next track is stable until it is committed.

  \<open>ready\<close> is the invariant between moving to another track and re-arming: the cursor of the
  bag may be elsewhere, but the current track is followed by the queued block in the bag.
\<close>

definition ready :: "player \<Rightarrow> bool" where
  "ready s \<longleftrightarrow> list_ok s \<and> queue_ok s \<and> bag_ok s \<and>
     (0 \<le> playlist_index s \<and> play_mode s = PLAY_MODE_SHUFFLE \<and> bag_live s \<longrightarrow>
        (\<exists>p. p + queued_pending_count s < playlist_count s \<and>
             block_at (the (shuffle_order s)) p (playlist_index s) (queued_pending_count s))) \<and>
     (playlist_index s < 0 \<and> 0 < playlist_count s \<and> shuffle_order s \<noteq> None \<longrightarrow>
        shuffle_order_count s = playlist_count s \<and> shuffle_pos s < playlist_count s)"

lemma player_inv_ready: "player_inv s \<Longrightarrow> ready s"
  by (auto simp: player_inv_def ready_def aligned_def bag_live_def)

section \<open>The preview as a function of the state\<close>

text \<open>
  \<open>peek_next index s\<close> is the track that follows \<open>index\<close> when the state already determines it
  (\<open>Some (-1)\<close> at the end of the queue), and \<open>None\<close> when a bag still has to be drawn.
\<close>

definition peek_next :: "int \<Rightarrow> player \<Rightarrow> int option" where
  "peek_next index s =
     (if index < 0 \<or> playlist_count s \<le> 0 then Some (-1)
      else if 0 < queued_pending_count s \<and> index + 1 < playlist_count s then Some (index + 1)
      else if play_mode s = PLAY_MODE_REPEAT_ONE then Some index
      else if play_mode s = PLAY_MODE_REPEAT_ALL then Some ((index + 1) mod playlist_count s)
      else if play_mode s = PLAY_MODE_SHUFFLE then
        (if \<not> bag_live s then None
         else if shuffle_pos s + 1 < playlist_count s then Some (the (shuffle_order s) ! nat (shuffle_pos s + 1))
         else map_option (\<lambda>p. p ! 0) (pending_shuffle_order s))
      else Some (if index + 1 < playlist_count s then index + 1 else -1))"

text \<open>Fields the invariant does not read.\<close>

lemma bag_live_irrelevant [simp]:
  "bag_live (s\<lparr>queue_revision := x0\<rparr>) = bag_live s"
  "bag_live (s\<lparr>consecutive_decoder_failure_skips := x1\<rparr>) = bag_live s"
  "bag_live (s\<lparr>failed_physical_paths := x2\<rparr>) = bag_live s"
  "bag_live (s\<lparr>current_playback_generation := x3\<rparr>) = bag_live s"
  "bag_live (s\<lparr>deferred_resume_pending := x4\<rparr>) = bag_live s"
  "bag_live (s\<lparr>deferred_resume_position := x5\<rparr>) = bag_live s"
  "bag_live (s\<lparr>gapless_enabled := x6\<rparr>) = bag_live s"
  "bag_live (s\<lparr>bt_dac_mode_enabled := x7\<rparr>) = bag_live s"
  "bag_live (s\<lparr>bt_is_powered_cached := x8\<rparr>) = bag_live s"
  "bag_live (s\<lparr>usb_mode_dac := x9\<rparr>) = bag_live s"
  "bag_live (s\<lparr>last_track := x10\<rparr>) = bag_live s"
  "bag_live (s\<lparr>last_position := x11\<rparr>) = bag_live s"
  "bag_live (s\<lparr>on_player_screen := x12\<rparr>) = bag_live s"
  "bag_live (s\<lparr>audio := x13\<rparr>) = bag_live s"
  "bag_live (s\<lparr>alloc_ok := x14\<rparr>) = bag_live s"
  "bag_live (s\<lparr>rand_seq := x15\<rparr>) = bag_live s"
  "bag_live (s\<lparr>events := x16\<rparr>) = bag_live s"
  "bag_live (s\<lparr>lazy_lookup := x17\<rparr>) = bag_live s"
  "bag_live (emit e s) = bag_live s" "bag_live (reset_decoder_failure_tracking s) = bag_live s"
  by (simp_all add: list_ok_def queue_ok_def bag_ok_def aligned_def bag_live_def emit_def reset_decoder_failure_tracking_def)

lemma player_inv_irrelevant [simp]:
  "player_inv (s\<lparr>queue_revision := x0\<rparr>) = player_inv s"
  "player_inv (s\<lparr>consecutive_decoder_failure_skips := x1\<rparr>) = player_inv s"
  "player_inv (s\<lparr>failed_physical_paths := x2\<rparr>) = player_inv s"
  "player_inv (s\<lparr>current_playback_generation := x3\<rparr>) = player_inv s"
  "player_inv (s\<lparr>deferred_resume_pending := x4\<rparr>) = player_inv s"
  "player_inv (s\<lparr>deferred_resume_position := x5\<rparr>) = player_inv s"
  "player_inv (s\<lparr>gapless_enabled := x6\<rparr>) = player_inv s"
  "player_inv (s\<lparr>bt_dac_mode_enabled := x7\<rparr>) = player_inv s"
  "player_inv (s\<lparr>bt_is_powered_cached := x8\<rparr>) = player_inv s"
  "player_inv (s\<lparr>usb_mode_dac := x9\<rparr>) = player_inv s"
  "player_inv (s\<lparr>last_track := x10\<rparr>) = player_inv s"
  "player_inv (s\<lparr>last_position := x11\<rparr>) = player_inv s"
  "player_inv (s\<lparr>on_player_screen := x12\<rparr>) = player_inv s"
  "player_inv (s\<lparr>audio := x13\<rparr>) = player_inv s"
  "player_inv (s\<lparr>alloc_ok := x14\<rparr>) = player_inv s"
  "player_inv (s\<lparr>rand_seq := x15\<rparr>) = player_inv s"
  "player_inv (s\<lparr>events := x16\<rparr>) = player_inv s"
  "player_inv (s\<lparr>lazy_lookup := x17\<rparr>) = player_inv s"
  "player_inv (emit e s) = player_inv s" "player_inv (reset_decoder_failure_tracking s) = player_inv s"
  by (simp_all add: player_inv_def list_ok_def queue_ok_def bag_ok_def aligned_def bag_live_def emit_def reset_decoder_failure_tracking_def)

lemma ready_irrelevant [simp]:
  "ready (s\<lparr>queue_revision := x0\<rparr>) = ready s"
  "ready (s\<lparr>consecutive_decoder_failure_skips := x1\<rparr>) = ready s"
  "ready (s\<lparr>failed_physical_paths := x2\<rparr>) = ready s"
  "ready (s\<lparr>current_playback_generation := x3\<rparr>) = ready s"
  "ready (s\<lparr>deferred_resume_pending := x4\<rparr>) = ready s"
  "ready (s\<lparr>deferred_resume_position := x5\<rparr>) = ready s"
  "ready (s\<lparr>gapless_enabled := x6\<rparr>) = ready s"
  "ready (s\<lparr>bt_dac_mode_enabled := x7\<rparr>) = ready s"
  "ready (s\<lparr>bt_is_powered_cached := x8\<rparr>) = ready s"
  "ready (s\<lparr>usb_mode_dac := x9\<rparr>) = ready s"
  "ready (s\<lparr>last_track := x10\<rparr>) = ready s"
  "ready (s\<lparr>last_position := x11\<rparr>) = ready s"
  "ready (s\<lparr>on_player_screen := x12\<rparr>) = ready s"
  "ready (s\<lparr>audio := x13\<rparr>) = ready s"
  "ready (s\<lparr>alloc_ok := x14\<rparr>) = ready s"
  "ready (s\<lparr>rand_seq := x15\<rparr>) = ready s"
  "ready (s\<lparr>events := x16\<rparr>) = ready s"
  "ready (s\<lparr>lazy_lookup := x17\<rparr>) = ready s"
  "ready (emit e s) = ready s" "ready (reset_decoder_failure_tracking s) = ready s"
  by (simp_all add: ready_def list_ok_def queue_ok_def bag_ok_def aligned_def bag_live_def emit_def reset_decoder_failure_tracking_def)


lemma peek_next_irrelevant [simp]:
  "peek_next index (s\<lparr>queue_revision := x0\<rparr>) = peek_next index s"
  "peek_next index (s\<lparr>consecutive_decoder_failure_skips := x1\<rparr>) = peek_next index s"
  "peek_next index (s\<lparr>failed_physical_paths := x2\<rparr>) = peek_next index s"
  "peek_next index (s\<lparr>current_playback_generation := x3\<rparr>) = peek_next index s"
  "peek_next index (s\<lparr>deferred_resume_pending := x4\<rparr>) = peek_next index s"
  "peek_next index (s\<lparr>deferred_resume_position := x5\<rparr>) = peek_next index s"
  "peek_next index (s\<lparr>gapless_enabled := x6\<rparr>) = peek_next index s"
  "peek_next index (s\<lparr>bt_dac_mode_enabled := x7\<rparr>) = peek_next index s"
  "peek_next index (s\<lparr>bt_is_powered_cached := x8\<rparr>) = peek_next index s"
  "peek_next index (s\<lparr>usb_mode_dac := x9\<rparr>) = peek_next index s"
  "peek_next index (s\<lparr>last_track := x10\<rparr>) = peek_next index s"
  "peek_next index (s\<lparr>last_position := x11\<rparr>) = peek_next index s"
  "peek_next index (s\<lparr>on_player_screen := x12\<rparr>) = peek_next index s"
  "peek_next index (s\<lparr>audio := x13\<rparr>) = peek_next index s"
  "peek_next index (s\<lparr>alloc_ok := x14\<rparr>) = peek_next index s"
  "peek_next index (s\<lparr>rand_seq := x15\<rparr>) = peek_next index s"
  "peek_next index (s\<lparr>events := x16\<rparr>) = peek_next index s"
  "peek_next index (s\<lparr>lazy_lookup := x17\<rparr>) = peek_next index s"
  "peek_next index (emit e s) = peek_next index s" "peek_next index (reset_decoder_failure_tracking s) = peek_next index s"
  by (simp_all add: peek_next_def bag_live_def emit_def reset_decoder_failure_tracking_def)

section \<open>Previewing the next track\<close>

lemma precompute_wrap_ok:
  assumes "player_inv s" and "bag_live s"
  obtains s' where "precompute_wrap s = Some s'" and "shuffle_frame s s'" and "player_inv s'"
    and "shuffle_order s' = shuffle_order s" and "shuffle_order_count s' = shuffle_order_count s"
    and "shuffle_pos s' = shuffle_pos s"
    and "pending_shuffle_order s' \<noteq> None \<Longrightarrow> precompute_wrap s' = Some s'"
proof -
  obtain order where o: "shuffle_order s = Some order" "shuffle_order_count s = playlist_count s"
    using assms(2) by (auto simp: bag_live_def)
  have b: "bag_of_size (playlist_count s) order" "0 \<le> playlist_count s"
    using assms(1) o by (auto simp: player_inv_def bag_ok_def)
  consider (old) "pending_shuffle_order s \<noteq> None" | (oom) "pending_shuffle_order s = None" "\<not> alloc_ok s 0"
    | (new) "pending_shuffle_order s = None" "alloc_ok s 0" by blast
  then show thesis
  proof cases
    case old
    then show ?thesis using assms by (intro that[of s]) (auto simp: precompute_wrap_def)
  next
    case oom
    let ?s' = "s\<lparr>alloc_ok := \<lambda>k. alloc_ok s (Suc k)\<rparr>"
    have "precompute_wrap s = Some ?s'" using oom by (simp add: precompute_wrap_def malloc_ok_def)
    then show ?thesis using assms oom by (intro that[of ?s']) (auto simp: shuffle_frame_def)
  next
    case new
    let ?n = "playlist_count s" and ?p = "take (nat (playlist_count s)) order"
    have len: "length ?p = nat ?n" "permutation_upto ?n (take (nat ?n) ?p)" "?n \<le> int (length ?p)"
      using b by (auto simp: bag_of_size_def)
    obtain p rs where p: "fisher_yates_shuffle ?p ?n (rand_seq s) = Some (p, rs)" "length p = length ?p"
        "permutation_upto ?n (take (nat ?n) p)"
      using fisher_yates_shuffle_permutation[OF len(3,2), of "rand_seq s"] by blast
    let ?s' = "s\<lparr>alloc_ok := \<lambda>k. alloc_ok s (Suc k), pending_shuffle_order := Some p, rand_seq := rs\<rparr>"
    have pre: "precompute_wrap s = Some ?s'"
      using new o p(1) b by (simp add: precompute_wrap_def malloc_ok_def memcpy_out_def bag_of_size_def)
    have "bag_of_size ?n p" using p len by (simp add: bag_of_size_def)
    then have "player_inv ?s'" using assms(1) o
      by (auto simp: player_inv_def list_ok_def queue_ok_def bag_ok_def aligned_def)
    then show ?thesis using new
      by (intro that[OF pre]) (auto simp: shuffle_frame_def precompute_wrap_def)
  qed
qed

lemma bag_of_size_nth:
  assumes "bag_of_size n order" and "0 \<le> i" and "i < n"
  shows "aget order i = Some (order ! nat i)" and "0 \<le> order ! nat i" and "order ! nat i < n"
proof -
  have b: "n \<le> int (length order)" "permutation_upto n (take (nat n) order)" using assms(1) by (auto simp: bag_of_size_def)
  show "aget order i = Some (order ! nat i)" using b assms by (simp add: aget_def)
  have "nat i < length (take (nat n) order)" using b assms by auto
  from permutation_upto_nth[OF b(2) this] show "0 \<le> order ! nat i" "order ! nat i < n" using assms by auto
qed

lemma peek_next_range:
  assumes inv: "player_inv s" and ix: "index < playlist_count s" and pk: "peek_next index s = Some i"
  shows "i = -1 \<or> 0 \<le> i \<and> i < playlist_count s"
proof (cases "play_mode s = PLAY_MODE_SHUFFLE \<and> bag_live s \<and> 0 \<le> index \<and> \<not> (0 < queued_pending_count s \<and> index + 1 < playlist_count s)")
  case True
  then obtain order where o: "shuffle_order s = Some order" "shuffle_order_count s = playlist_count s"
    by (auto simp: bag_live_def)
  have b: "bag_of_size (playlist_count s) order" "-1 \<le> shuffle_pos s"
    "\<And>p. pending_shuffle_order s = Some p \<Longrightarrow> bag_of_size (playlist_count s) p"
    using inv o by (auto simp: player_inv_def bag_ok_def)
  show ?thesis
  proof (cases "shuffle_pos s + 1 < playlist_count s")
    case live: True
    then have "i = order ! nat (shuffle_pos s + 1)" using pk True ix o by (auto simp: peek_next_def play_mode_defs)
    then show ?thesis using bag_of_size_nth[OF b(1)] b(2) live by auto
  next
    case False
    then obtain p where p: "pending_shuffle_order s = Some p" "i = p ! 0"
      using pk True ix by (auto simp: peek_next_def play_mode_defs)
    then show ?thesis using bag_of_size_nth[OF b(3)[OF p(1)], of 0] True ix by auto
  qed
next
  case False
  then show ?thesis using pk ix by (auto simp: peek_next_def split: if_splits)
qed

text \<open>Once determined, the preview is what the code answers, and asking changes nothing.\<close>

lemma peek_compute:
  assumes inv: "player_inv s" and pk: "peek_next index s = Some i"
  shows "compute_auto_advance_index index s = Some (i, s)"
proof (cases "play_mode s = PLAY_MODE_SHUFFLE \<and> bag_live s \<and> 0 \<le> index \<and> 0 < playlist_count s \<and>
    \<not> (0 < queued_pending_count s \<and> index + 1 < playlist_count s)")
  case True
  then obtain order where o: "shuffle_order s = Some order" "shuffle_order_count s = playlist_count s"
    by (auto simp: bag_live_def)
  have b: "bag_of_size (playlist_count s) order" "-1 \<le> shuffle_pos s"
    "\<And>p. pending_shuffle_order s = Some p \<Longrightarrow> bag_of_size (playlist_count s) p"
    using inv o by (auto simp: player_inv_def bag_ok_def)
  have e: "ensure_shuffle_order_current s = Some s" using True ensure_live by blast
  show ?thesis
  proof (cases "shuffle_pos s + 1 < playlist_count s")
    case live: True
    then show ?thesis using True o pk e bag_of_size_nth(1)[OF b(1), of "shuffle_pos s + 1"] b(2)
      by (auto simp: compute_auto_advance_index_def peek_next_def play_mode_defs)
  next
    case False
    then obtain p where p: "pending_shuffle_order s = Some p" "i = p ! 0"
      using pk True by (auto simp: peek_next_def play_mode_defs)
    have w: "precompute_wrap s = Some s" using p by (simp add: precompute_wrap_def)
    show ?thesis using True False o p e w bag_of_size_nth(1)[OF b(3)[OF p(1)], of 0]
      by (auto simp: compute_auto_advance_index_def play_mode_defs)
  qed
next
  case False
  then show ?thesis using pk by (auto simp: compute_auto_advance_index_def peek_next_def split: if_splits)
qed

lemma compute_auto_advance_ok:
  assumes inv: "player_inv s" and ix: "index < playlist_count s"
  obtains i s' where "compute_auto_advance_index index s = Some (i, s')" and "shuffle_frame s s'"
    and "player_inv s'" and "i = -1 \<or> 0 \<le> i \<and> i < playlist_count s"
    and "peek_next index s' = Some i \<or> (i = -1 \<and> peek_next index s' = None)"
proof (cases "peek_next index s")
  case (Some i)
  then show ?thesis using peek_compute[OF inv Some] peek_next_range[OF inv ix Some] inv
    by (intro that[of i s]) auto
next
  case None
  then have ix0: "0 \<le> index" "0 < playlist_count s" and mode: "play_mode s = PLAY_MODE_SHUFFLE"
    and q: "\<not> (0 < queued_pending_count s \<and> index + 1 < playlist_count s)"
    by (auto simp: peek_next_def split: if_splits)
  have nm: "play_mode s \<noteq> PLAY_MODE_REPEAT_ONE" "play_mode s \<noteq> PLAY_MODE_REPEAT_ALL"
    using mode by (auto simp: play_mode_defs)
  obtain s1 where s1: "ensure_shuffle_order_current s = Some s1" "shuffle_frame s s1" "player_inv s1"
    and none: "\<not> bag_live s1 \<Longrightarrow> shuffle_order s1 = None" by (rule ensure_inv[OF inv]) blast
  note f1 = shuffle_frameD[OF s1(2)]
  define tail where "tail = (\<lambda>s. case shuffle_order s of None \<Rightarrow> Some (-1, s)
        | Some order \<Rightarrow>
            let peek_pos = shuffle_pos s + 1 in
            if peek_pos < playlist_count s then do { v \<leftarrow> aget order peek_pos; Some (v, s) }
            else do {
              s \<leftarrow> precompute_wrap s;
              case pending_shuffle_order s of None \<Rightarrow> Some (-1, s)
              | Some p \<Rightarrow> do { v \<leftarrow> aget p 0; Some (v, s) } })"
  have unf: "compute_auto_advance_index index t = do { s \<leftarrow> ensure_shuffle_order_current t; tail s }"
    if "playlist_count t = playlist_count s" "queued_pending_count t = queued_pending_count s" "play_mode t = play_mode s" for t
    using that ix0 q mode nm unfolding tail_def by (auto simp: compute_auto_advance_index_def)
  have c: "compute_auto_advance_index index s = tail s1" using unf[of s] s1(1) by simp
  have ix1: "index < playlist_count s1" using ix f1 by simp
  show ?thesis
  proof (cases "peek_next index s1")
    case (Some i)
    have c1: "compute_auto_advance_index index s1 = Some (i, s1)" by (rule peek_compute[OF s1(3) Some])
    have live: "bag_live s1" using Some ix0 mode q nm f1 by (auto simp: peek_next_def split: if_splits)
    have "compute_auto_advance_index index s = compute_auto_advance_index index s1"
      using c unf[of s1] ensure_live[OF live] f1(2,6,9) by simp
    then show ?thesis using c1 Some s1 peek_next_range[OF s1(3) ix1 Some] f1
      by (intro that[of i s1]) auto
  next
    case none1: None
    show ?thesis
    proof (cases "bag_live s1")
      case False
      then have "tail s1 = Some (-1, s1)" using none by (simp add: tail_def)
      then show ?thesis using c none1 s1 by (intro that[of "-1" s1]) auto
    next
      case live: True
      then obtain order where o: "shuffle_order s1 = Some order" "shuffle_order_count s1 = playlist_count s1"
        by (auto simp: bag_live_def)
      have wrap: "\<not> shuffle_pos s1 + 1 < playlist_count s1"
        using none1 live ix0 mode q nm f1 by (auto simp: peek_next_def split: if_splits)
      obtain s2 where s2: "precompute_wrap s1 = Some s2" "shuffle_frame s1 s2" "player_inv s2"
        "shuffle_order s2 = shuffle_order s1" "shuffle_order_count s2 = shuffle_order_count s1"
        "shuffle_pos s2 = shuffle_pos s1" by (rule precompute_wrap_ok[OF s1(3) live]) blast
      note f2 = shuffle_frameD[OF s2(2)]
      have live2: "bag_live s2" using live s2 f2 by (simp add: bag_live_def)
      have fr: "shuffle_frame s s2" using shuffle_frame_trans s1(2) s2(2) by blast
      have pk2: "peek_next index s2 = map_option (\<lambda>p. p ! 0) (pending_shuffle_order s2)"
        using live2 wrap ix0 mode q nm f1(2,6,9) f2(2,6,9) s2(6) by (auto simp: peek_next_def)
      show ?thesis
      proof (cases "pending_shuffle_order s2")
        case None
        then have "tail s1 = Some (-1, s2)" using o wrap s2(1) by (simp add: tail_def)
        then show ?thesis using c None s2(3) fr pk2 by (intro that[of "-1" s2]) auto
      next
        case (Some p)
        have pk: "peek_next index s2 = Some (p ! 0)" using Some pk2 by simp
        have "index < playlist_count s2" using ix f1 f2 by simp
        note range = peek_next_range[OF s2(3) this pk]
        have bp: "bag_of_size (playlist_count s2) p" using s2(3) Some o s2(4,5) f2 by (auto simp: player_inv_def bag_ok_def)
        have "aget p 0 = Some (p ! 0)" using bag_of_size_nth[OF bp, of 0] ix0 f1 f2 by auto
        then have "tail s1 = Some (p ! 0, s2)" using o wrap s2(1) Some by (simp add: tail_def)
        then show ?thesis using c s2(3) fr pk range f1(2) f2(2) by (intro that[of "p ! 0" s2]) auto
      qed
    qed
  qed
qed

section \<open>Arming\<close>

lemma shuffle_pos_update_inv:
  assumes "ready s" and "bag_live s" and "0 \<le> p" and "p + queued_pending_count s < playlist_count s"
    and "0 \<le> playlist_index s"
    and "block_at (the (shuffle_order s)) p (playlist_index s) (queued_pending_count s)"
  shows "player_inv (s\<lparr>shuffle_pos := p\<rparr>)"
  using assms by (auto simp: ready_def player_inv_def list_ok_def queue_ok_def bag_ok_def aligned_def bag_live_def)

lemma ensure_ready:
  assumes "ready s"
  obtains s' where "ensure_shuffle_order_current s = Some s'" and "shuffle_frame s s'" and "ready s'"
    and "\<not> bag_live s' \<Longrightarrow> shuffle_order s' = None"
proof -
  from assms have ok: "list_ok s" "queue_ok s" "bag_ok s" by (auto simp: ready_def)
  obtain s' where s': "ensure_shuffle_order_current s = Some s'" "shuffle_frame s s'" "bag_ok s'"
    "bag_live s \<Longrightarrow> s' = s" and fresh: "\<not> bag_live s \<Longrightarrow> bag_live s' \<Longrightarrow> shuffle_pos s' = 0 \<and>
          (0 \<le> playlist_index s' \<longrightarrow>
             block_at (the (shuffle_order s')) (shuffle_pos s') (playlist_index s') (queued_pending_count s'))"
    and none: "\<not> bag_live s' \<Longrightarrow> shuffle_order s' = None"
    by (rule ensure_ok[OF ok]) blast
  have "ready s'"
  proof (cases "bag_live s")
    case True
    then show ?thesis using s'(4) assms by simp
  next
    case False
    have q: "0 \<le> playlist_index s' \<longrightarrow> 0 + queued_pending_count s' < playlist_count s'"
      using ok(1,2) s'(2) by (auto simp: list_ok_def queue_ok_def shuffle_frameD split: if_splits)
    have l: "shuffle_order s' \<noteq> None \<longrightarrow> bag_live s'" using none by (cases "bag_live s'") auto
    have ok': "list_ok s'" "queue_ok s'" using ok s'(2) by (simp_all add: shuffle_frame_list_ok shuffle_frame_queue_ok)
    show ?thesis unfolding ready_def using ok' s'(3) fresh[OF False] q l
      by (auto intro!: exI[of _ 0] simp: bag_live_def)
  qed
  then show thesis using that s' none by blast
qed

text \<open>What arming changes besides the shuffle bag: the revision and the audio engine's mailbox.\<close>

definition arm_frame :: "player \<Rightarrow> player \<Rightarrow> bool" where
  "arm_frame s s' \<longleftrightarrow> s' = s\<lparr>shuffle_order := shuffle_order s', shuffle_order_count := shuffle_order_count s',
     shuffle_pos := shuffle_pos s', pending_shuffle_order := pending_shuffle_order s',
     alloc_ok := alloc_ok s', rand_seq := rand_seq s', queue_revision := queue_revision s + 1,
     audio := audio_set_next_track (next_path (audio s')) (audio s)\<rparr>"

lemma arm_frameD:
  assumes "arm_frame s s'"
  shows "playlist s' = playlist s" "playlist_count s' = playlist_count s" "playlist_index s' = playlist_index s"
    "playlist_lazy_sort_order s' = playlist_lazy_sort_order s" "lazy_lookup s' = lazy_lookup s"
    "queued_pending_count s' = queued_pending_count s" "queue_next_insert_index s' = queue_next_insert_index s"
    "play_mode s' = play_mode s" "gapless_enabled s' = gapless_enabled s"
    "failed_physical_paths s' = failed_physical_paths s"
    "consecutive_decoder_failure_skips s' = consecutive_decoder_failure_skips s"
    "current_playback_generation s' = current_playback_generation s" "events s' = events s"
    "queue_revision s' = queue_revision s + 1" "on_player_screen s' = on_player_screen s"
    "audio s' = audio_set_next_track (next_path (audio s')) (audio s)"
    "bt_dac_mode_enabled s' = bt_dac_mode_enabled s" "bt_is_powered_cached s' = bt_is_powered_cached s"
    "usb_mode_dac s' = usb_mode_dac s"
  by (subst assms[unfolded arm_frame_def], simp)+

lemma playlist_path_at_total:
  assumes "list_ok s"
  shows "\<exists>path. playlist_path_at s i = Some path"
  using assms by (auto simp: playlist_path_at_def list_ok_def aget_def split: option.splits)

lemma playlist_path_at_cong:
  "playlist s = playlist t \<Longrightarrow> playlist_count s = playlist_count t \<Longrightarrow>
   playlist_lazy_sort_order s = playlist_lazy_sort_order t \<Longrightarrow> lazy_lookup s = lazy_lookup t \<Longrightarrow>
   playlist_path_at s i = playlist_path_at t i"
  by (auto simp: playlist_path_at_def split: option.splits)

lemma playlist_path_at_irrelevant [simp]:
  "playlist_path_at (s\<lparr>queue_revision := x0\<rparr>) i = playlist_path_at s i"
  "playlist_path_at (s\<lparr>consecutive_decoder_failure_skips := x1\<rparr>) i = playlist_path_at s i"
  "playlist_path_at (s\<lparr>failed_physical_paths := x2\<rparr>) i = playlist_path_at s i"
  "playlist_path_at (s\<lparr>current_playback_generation := x3\<rparr>) i = playlist_path_at s i"
  "playlist_path_at (s\<lparr>deferred_resume_pending := x4\<rparr>) i = playlist_path_at s i"
  "playlist_path_at (s\<lparr>deferred_resume_position := x5\<rparr>) i = playlist_path_at s i"
  "playlist_path_at (s\<lparr>gapless_enabled := x6\<rparr>) i = playlist_path_at s i"
  "playlist_path_at (s\<lparr>last_track := x7\<rparr>) i = playlist_path_at s i"
  "playlist_path_at (s\<lparr>last_position := x8\<rparr>) i = playlist_path_at s i"
  "playlist_path_at (s\<lparr>on_player_screen := x9\<rparr>) i = playlist_path_at s i"
  "playlist_path_at (s\<lparr>audio := x10\<rparr>) i = playlist_path_at s i"
  "playlist_path_at (s\<lparr>alloc_ok := x11\<rparr>) i = playlist_path_at s i"
  "playlist_path_at (s\<lparr>rand_seq := x12\<rparr>) i = playlist_path_at s i"
  "playlist_path_at (s\<lparr>events := x13\<rparr>) i = playlist_path_at s i"
  "playlist_path_at (s\<lparr>playlist_index := x14\<rparr>) i = playlist_path_at s i"
  "playlist_path_at (s\<lparr>queued_pending_count := x15\<rparr>) i = playlist_path_at s i"
  "playlist_path_at (s\<lparr>queue_next_insert_index := x16\<rparr>) i = playlist_path_at s i"
  "playlist_path_at (s\<lparr>shuffle_order := x17\<rparr>) i = playlist_path_at s i"
  "playlist_path_at (s\<lparr>shuffle_order_count := x18\<rparr>) i = playlist_path_at s i"
  "playlist_path_at (s\<lparr>shuffle_pos := x19\<rparr>) i = playlist_path_at s i"
  "playlist_path_at (s\<lparr>pending_shuffle_order := x20\<rparr>) i = playlist_path_at s i"
  "playlist_path_at (s\<lparr>play_mode := x21\<rparr>) i = playlist_path_at s i"
  "playlist_path_at (emit e s) i = playlist_path_at s i"
  "playlist_path_at (reset_decoder_failure_tracking s) i = playlist_path_at s i"
  by (rule playlist_path_at_cong; simp add: emit_def reset_decoder_failure_tracking_def)+

text \<open>
  \<open>armed\<close>: the audio engine's mailbox holds exactly what the preview determines: the path of the
  next track, or nothing at the end of the queue or with gapless playback off.
\<close>

definition armed :: "player \<Rightarrow> bool" where
  "armed s \<longleftrightarrow> next_path (audio s) = (case peek_next (playlist_index s) s of
     None \<Rightarrow> None
   | Some i \<Rightarrow> if i < 0 \<or> \<not> gapless_enabled s then None else playlist_path_at s i)"

lemma arm_ok:
  assumes r: "ready s" and ix: "playlist_index s = index"
  obtains s' where "arm_next_track_for_audio index s = Some s'" and "arm_frame s s'" and "player_inv s'"
    and "armed s'"
proof -
  let ?s0 = "s\<lparr>queue_revision := queue_revision s + 1\<rparr>"
  let ?align = "if play_mode ?s0 = PLAY_MODE_SHUFFLE then do {
          s \<leftarrow> ensure_shuffle_order_current ?s0;
          case shuffle_order s of None \<Rightarrow> Some s
          | Some order \<Rightarrow> do {
              found \<leftarrow> find_loopM 0 (playlist_count s) (\<lambda>i. map_option (\<lambda>v. v = index) (aget order i));
              Some (case found of None \<Rightarrow> s | Some i \<Rightarrow> s\<lparr>shuffle_pos := i\<rparr>) } }
        else Some ?s0"
  have "\<exists>s1. ?align = Some s1 \<and> shuffle_frame ?s0 s1 \<and> player_inv s1"
  proof (cases "play_mode s = PLAY_MODE_SHUFFLE")
    case False
    then show ?thesis using r by (auto simp: ready_def player_inv_def list_ok_def queue_ok_def bag_ok_def aligned_def)
  next
    case mode: True
    obtain s1 where s1: "ensure_shuffle_order_current ?s0 = Some s1" "shuffle_frame ?s0 s1" "ready s1"
      and none: "\<not> bag_live s1 \<Longrightarrow> shuffle_order s1 = None"
      by (rule ensure_ready[of ?s0]) (use r in auto)
    note f1 = shuffle_frameD[OF s1(2)]
    show ?thesis
    proof (cases "bag_live s1")
      case False
      then show ?thesis using mode s1 none
        by (auto simp: ready_def player_inv_def aligned_def)
    next
      case live: True
      then obtain order where o: "shuffle_order s1 = Some order" "shuffle_order_count s1 = playlist_count s1"
        by (auto simp: bag_live_def)
      have b: "bag_of_size (playlist_count s1) order" using s1(3) o by (auto simp: ready_def bag_ok_def)
      then have b': "permutation_upto (playlist_count s1) (take (nat (playlist_count s1)) order)"
          "playlist_count s1 \<le> int (length order)" by (auto simp: bag_of_size_def)
      show ?thesis
      proof (cases "0 \<le> index")
        case False
        have "find_loop 0 (playlist_count s1) (\<lambda>i. order ! nat i = index) = None"
          using bag_of_size_nth[OF b] False by (force simp: find_loop_None)
        then have "?align = Some s1"
          using mode s1(1) o find_loopM_aget[OF b'(2), of "\<lambda>v. v = index"] by simp
        then show ?thesis using s1 o False ix f1 by (auto simp: ready_def player_inv_def aligned_def)
      next
        case True
        obtain p where p: "p + queued_pending_count s1 < playlist_count s1"
            "block_at order p (playlist_index s1) (queued_pending_count s1)" "0 \<le> p"
          using s1(3) live True ix f1 mode o by (auto simp: ready_def block_at_def)
        have q: "0 \<le> queued_pending_count s1" using s1(3) by (auto simp: ready_def queue_ok_def)
        have pi: "order ! nat p = index" using p q ix f1 by (auto simp: block_at_def dest: spec[of _ 0])
        have lt: "index < playlist_count s1" using bag_of_size_nth(3)[OF b p(3)] p(1) q pi by simp
        obtain k where k: "k < nat (playlist_count s1)" "order ! k = index"
          "find_loopM 0 (playlist_count s1) (\<lambda>i. map_option (\<lambda>w. w = index) (aget order i)) = Some (Some (int k))"
          by (rule permutation_find[OF b' True lt])
        have "k = nat p" using permutation_index_unique[OF b' k(1), of "nat p"] p q pi k(2) by auto
        then have kp: "int k = p" using p(3) by simp
        have "?align = Some (s1\<lparr>shuffle_pos := p\<rparr>)" using mode s1(1) o k(3) kp by simp
        moreover have "shuffle_frame ?s0 (s1\<lparr>shuffle_pos := p\<rparr>)"
          by (rule shuffle_frame_trans[OF s1(2)]) (simp add: shuffle_frame_def)
        moreover have "player_inv (s1\<lparr>shuffle_pos := p\<rparr>)"
          using shuffle_pos_update_inv[OF s1(3) live p(3,1)] p(2) o True ix f1 by simp
        ultimately show ?thesis by blast
      qed
    qed
  qed
  then obtain s1 where s1: "?align = Some s1" "shuffle_frame ?s0 s1" "player_inv s1" by blast
  note f1 = shuffle_frameD[OF s1(2)]
  have lt: "index < playlist_count s1 \<or> playlist_count s1 = 0 \<and> index = -1"
    using s1(3) ix f1 by (auto simp: player_inv_def list_ok_def)
  have "index < playlist_count s1 + 0" using lt by auto
  then have "index < playlist_count s1" by simp
  from compute_auto_advance_ok[OF s1(3) this] obtain i s2 where
    s2: "compute_auto_advance_index index s1 = Some (i, s2)" "shuffle_frame s1 s2" "player_inv s2"
      "i = -1 \<or> 0 \<le> i \<and> i < playlist_count s1"
      "peek_next index s2 = Some i \<or> (i = -1 \<and> peek_next index s2 = None)" by metis
  note f2 = shuffle_frameD[OF s2(2)]
  have fr: "shuffle_frame ?s0 s2" using shuffle_frame_trans s1(2) s2(2) by blast
  obtain path where path: "playlist_path_at s2 i = Some path"
    using playlist_path_at_total s2(3) by (auto simp: player_inv_def)
  define np where "np = (if i < 0 \<or> \<not> gapless_enabled s2 then None else Some path)"
  let ?s' = "s2\<lparr>audio := audio_set_next_track np (audio s2)\<rparr>"
  have arm: "arm_next_track_for_audio index s = Some ?s'"
    unfolding arm_next_track_for_audio_def Let_def using s1(1) s2(1) path by (simp add: np_def)
  have af: "arm_frame s ?s'"
    unfolding arm_frame_def
    by (rule player.equality) (simp_all add: shuffle_frameD[OF fr] audio_set_next_track_def)
  have pe: "playlist_path_at ?s' i = playlist_path_at s2 i" by simp
  have ix2: "playlist_index ?s' = index" using ix f1 f2 by simp
  have np: "next_path (audio ?s') = np" "gapless_enabled ?s' = gapless_enabled s2" by (simp_all add: audio_set_next_track_def)
  have "armed ?s'"
  proof (cases "peek_next index s2")
    case None
    then show ?thesis unfolding armed_def ix2 np using s2(5) by (simp add: np_def)
  next
    case (Some j)
    then have "j = i" using s2(5) by auto
    then show ?thesis unfolding armed_def ix2 np using Some path by (simp add: np_def)
  qed
  then show thesis using that[OF arm af] s2(3) by simp
qed

end
