(* ===== verification/Player_Handlers_Inv.thy ===== *)
theory Player_Handlers_Inv
  imports Player_Advance_Inv
begin

text \<open>
  The handlers that move to another track keep the invariant: starting a track, the automatic
  advance, manual steps, play-mode changes and the recovery from decoder failures.
\<close>

section \<open>Starting a track\<close>

lemma emit_fields [simp]:
  "audio (emit e s) = audio s" "playlist_index (emit e s) = playlist_index s" "playlist (emit e s) = playlist s"
  "playlist_count (emit e s) = playlist_count s" "queued_pending_count (emit e s) = queued_pending_count s"
  "play_mode (emit e s) = play_mode s" "gapless_enabled (emit e s) = gapless_enabled s"
  "current_playback_generation (emit e s) = current_playback_generation s"
  "on_player_screen (emit e s) = on_player_screen s" "failed_physical_paths (emit e s) = failed_physical_paths s"
  "consecutive_decoder_failure_skips (emit e s) = consecutive_decoder_failure_skips s"
  "external_dac_block_reason (emit e s) = external_dac_block_reason s"
  "queue_revision (emit e s) = queue_revision s" "queue_next_insert_index (emit e s) = queue_next_insert_index s"
  "(emit e s)\<lparr>playlist_index := i\<rparr> = emit e (s\<lparr>playlist_index := i\<rparr>)"
  by (simp_all add: emit_def external_dac_block_reason_def)

lemma dac_irrelevant [simp]:
  "external_dac_block_reason (s\<lparr>consecutive_decoder_failure_skips := x0\<rparr>) = external_dac_block_reason s"
  "external_dac_block_reason (s\<lparr>failed_physical_paths := x1\<rparr>) = external_dac_block_reason s"
  "external_dac_block_reason (s\<lparr>deferred_resume_pending := x2\<rparr>) = external_dac_block_reason s"
  "external_dac_block_reason (s\<lparr>deferred_resume_position := x3\<rparr>) = external_dac_block_reason s"
  "external_dac_block_reason (s\<lparr>audio := x4\<rparr>) = external_dac_block_reason s"
  "external_dac_block_reason (s\<lparr>playlist_index := x5\<rparr>) = external_dac_block_reason s"
  "external_dac_block_reason (s\<lparr>queue_revision := x6\<rparr>) = external_dac_block_reason s"
  "external_dac_block_reason (s\<lparr>current_playback_generation := x7\<rparr>) = external_dac_block_reason s"
  "external_dac_block_reason (s\<lparr>queue_next_insert_index := x8\<rparr>) = external_dac_block_reason s"
  "external_dac_block_reason (s\<lparr>queued_pending_count := x9\<rparr>) = external_dac_block_reason s"
  "external_dac_block_reason (s\<lparr>play_mode := x10\<rparr>) = external_dac_block_reason s"
  "external_dac_block_reason (s\<lparr>shuffle_order := x11\<rparr>) = external_dac_block_reason s"
  "external_dac_block_reason (s\<lparr>shuffle_order_count := x12\<rparr>) = external_dac_block_reason s"
  "external_dac_block_reason (s\<lparr>shuffle_pos := x13\<rparr>) = external_dac_block_reason s"
  "external_dac_block_reason (s\<lparr>pending_shuffle_order := x14\<rparr>) = external_dac_block_reason s"
  "external_dac_block_reason (s\<lparr>alloc_ok := x15\<rparr>) = external_dac_block_reason s"
  "external_dac_block_reason (s\<lparr>rand_seq := x16\<rparr>) = external_dac_block_reason s"
  "external_dac_block_reason (s\<lparr>events := x17\<rparr>) = external_dac_block_reason s"
  "external_dac_block_reason (s\<lparr>playlist := x18\<rparr>) = external_dac_block_reason s"
  "external_dac_block_reason (s\<lparr>playlist_count := x19\<rparr>) = external_dac_block_reason s"
  "external_dac_block_reason (s\<lparr>playlist_lazy_sort_order := x20\<rparr>) = external_dac_block_reason s"
  "external_dac_block_reason (s\<lparr>lazy_lookup := x21\<rparr>) = external_dac_block_reason s"
  by (simp_all add: external_dac_block_reason_def)

lemma armed_irrelevant [simp]:
  "armed (emit e s) = armed s" "armed (s\<lparr>on_player_screen := b\<rparr>) = armed s"
  "armed (s\<lparr>last_track := lt\<rparr>) = armed s" "armed (s\<lparr>last_position := lp\<rparr>) = armed s"
  by (auto simp: armed_def split: option.splits)

lemma save_last_track_irrelevant [simp]:
  "player_inv (save_last_track path p s) = player_inv s" "armed (save_last_track path p s) = armed s"
  "audio (save_last_track path p s) = audio s" "playlist_index (save_last_track path p s) = playlist_index s"
  "playlist (save_last_track path p s) = playlist s" "playlist_count (save_last_track path p s) = playlist_count s"
  "queued_pending_count (save_last_track path p s) = queued_pending_count s"
  "play_mode (save_last_track path p s) = play_mode s" "gapless_enabled (save_last_track path p s) = gapless_enabled s"
  "current_playback_generation (save_last_track path p s) = current_playback_generation s"
  "playlist_path_at (save_last_track path p s) i = playlist_path_at s i"
  "failed_physical_paths (save_last_track path p s) = failed_physical_paths s"
  "consecutive_decoder_failure_skips (save_last_track path p s) = consecutive_decoder_failure_skips s"
  by (auto simp: save_last_track_def)

text \<open>The fields the invariant reads.\<close>

definition core_eq :: "player \<Rightarrow> player \<Rightarrow> bool" where
  "core_eq s t \<longleftrightarrow> playlist s = playlist t \<and> playlist_count s = playlist_count t \<and> playlist_index s = playlist_index t \<and>
     playlist_lazy_sort_order s = playlist_lazy_sort_order t \<and> queued_pending_count s = queued_pending_count t \<and>
     queue_next_insert_index s = queue_next_insert_index t \<and> shuffle_order s = shuffle_order t \<and>
     shuffle_order_count s = shuffle_order_count t \<and> shuffle_pos s = shuffle_pos t \<and>
     pending_shuffle_order s = pending_shuffle_order t \<and> play_mode s = play_mode t"

lemma core_eq_ready: "core_eq s t \<Longrightarrow> ready s = ready t"
  by (simp add: core_eq_def ready_def list_ok_def queue_ok_def bag_ok_def bag_live_def)

lemma core_eq_inv: "core_eq s t \<Longrightarrow> player_inv s = player_inv t"
  by (simp add: core_eq_def player_inv_def list_ok_def queue_ok_def bag_ok_def aligned_def bag_live_def)

text \<open>
  The state after a track has been started: it is current, the engine plays its path, the GUI
  has seen the engine's generation, and the successor is armed.
\<close>

definition started :: "int \<Rightarrow> player \<Rightarrow> bool" where
  "started index s \<longleftrightarrow> player_inv s \<and> armed s \<and> playlist_index s = index \<and>
     active_path (audio s) = playlist_path_at s index \<and>
     current_playback_generation s = playback_generation (audio s) \<and> \<not> track_advanced (audio s)"

lemma set_next_track_fields [simp]:
  "active_path (audio_set_next_track p a) = active_path a"
  "playback_generation (audio_set_next_track p a) = playback_generation a"
  "track_advanced (audio_set_next_track p a) = track_advanced a"
  "track_finished (audio_set_next_track p a) = track_finished a"
  "next_path (audio_set_next_track p a) = p"
  by (simp_all add: audio_set_next_track_def)

lemma arm_path: "arm_frame s s' \<Longrightarrow> playlist_path_at s' i = playlist_path_at s i"
  by (rule playlist_path_at_cong) (auto dest: arm_frameD)

lemma play_internal_ok:
  assumes ix: "0 \<le> index" "index < playlist_count s" and free: "external_dac_block_reason s = None"
    and r: "ready (s\<lparr>playlist_index := index\<rparr>)"
  obtains s' where "play_track_at_from_internal index st nav skip s = Some s'" and "started index s'"
    and "playlist s' = playlist s" and "playlist_count s' = playlist_count s"
    and "queued_pending_count s' = queued_pending_count s" and "play_mode s' = play_mode s"
    and "failed_physical_paths s' = failed_physical_paths s"
    and "consecutive_decoder_failure_skips s' = consecutive_decoder_failure_skips s"
proof -
  define s1 where "s1 = (if skip then s else emit Airplay_disconnect s)"
  define s2 where "s2 = emit (Show_track index) (s1\<lparr>deferred_resume_pending := False,
      deferred_resume_position := 0, playlist_index := index\<rparr>)"
  have "core_eq s2 (s\<lparr>playlist_index := index\<rparr>)" by (simp add: s2_def s1_def core_eq_def emit_def)
  then have r2: "ready s2" using r core_eq_ready by blast
  then have "list_ok s2" by (simp add: ready_def)
  then obtain path where path: "playlist_path_at s2 index = Some path" using playlist_path_at_total by blast
  define s3 where "s3 = s2\<lparr>audio := audio_play_file_at path st (audio s2)\<rparr>"
  define s4 where "s4 = s3\<lparr>current_playback_generation := audio_get_playback_generation (audio s3)\<rparr>"
  have "ready s4" "playlist_index s4 = index" using r2 by (simp_all add: s4_def s3_def s2_def)
  then obtain s5 where s5: "arm_next_track_for_audio index s4 = Some s5" "arm_frame s4 s5" "player_inv s5" "armed s5"
    by (rule arm_ok)
  note f5 = arm_frameD[OF s5(2)]
  define s6 where "s6 = emit (Play_button True) (emit (Track_started path) s5)"
  define s7 where "s7 = (if nav \<and> \<not> on_player_screen s6
      then emit Nav_push_player (s6\<lparr>on_player_screen := True\<rparr>) else s6)"
  let ?s' = "save_last_track path st s7"
  have b1: "external_dac_block_reason s1 = None" using free by (simp add: s1_def)
  have run: "play_track_at_from_internal index st nav skip s = Some ?s'"
    unfolding play_track_at_from_internal_def Let_def s1_def[symmetric] b1 option.case
      s2_def[symmetric] path bind.bind_lunit s3_def[symmetric] s4_def[symmetric] s5(1)
      s6_def[symmetric] s7_def[symmetric] using ix by simp
  have p5: "playlist_path_at s5 index = Some path" using path arm_path[OF s5(2)] by (simp add: s4_def s3_def)
  have a5: "active_path (audio s5) = Some path" "playback_generation (audio s5) = current_playback_generation s5"
    "\<not> track_advanced (audio s5)"
    by (subst f5(16), simp add: s4_def s3_def audio_play_file_at_def audio_get_playback_generation_def)
       (subst f5(16), subst f5(12), simp add: s4_def s3_def audio_play_file_at_def audio_get_playback_generation_def,
        subst f5(16), simp add: s4_def s3_def audio_play_file_at_def audio_get_playback_generation_def)
  have "started index ?s'"
    using s5(3,4) p5 a5 f5(3) by (auto simp: started_def s7_def s6_def s4_def s3_def s2_def)
  then show thesis
    using f5(1,2,6,8,10,11) by (intro that[OF run]) (auto simp: s7_def s6_def s4_def s3_def s2_def s1_def)
qed

lemma play_internal_blocked:
  assumes "external_dac_block_reason s = Some reason" and "0 \<le> index" "index < playlist_count s"
  shows "play_track_at_from_internal index st nav skip s =
     Some (emit (Error_toast reason) (if skip then s else emit Airplay_disconnect s))"
  using assms by (auto simp: play_track_at_from_internal_def)

section \<open>Committing an automatic advance\<close>

lemma bag_of_size_block:
  assumes "bag_of_size n order" and "0 \<le> v" and "v < n"
  shows "\<exists>p. p + 0 < n \<and> block_at order p v 0"
proof -
  have "permutation_upto n (take (nat n) order)" "n \<le> int (length order)" using assms(1) by (auto simp: bag_of_size_def)
  then obtain k where k: "k < nat n" "order ! k = v" using permutation_find assms(2,3) by blast
  then show ?thesis by (intro exI[of _ "int k"]) (auto simp: block_at_def order_antisym_conv)
qed

lemma block_at_tail:
  assumes "block_at order pos index q" and "0 \<le> j" and "j \<le> q"
  shows "block_at order (pos + j) (index + j) (q - j)"
  unfolding block_at_def
proof (intro conjI allI impI)
  show "0 \<le> pos + j" using assms by (simp add: block_at_def)
  fix i assume i: "0 \<le> i \<and> i \<le> q - j"
  then have "0 \<le> j + i \<and> j + i \<le> q" using assms by simp
  then have "order ! nat (pos + (j + i)) = index + (j + i)" using assms(1) by (simp add: block_at_def)
  then show "order ! nat (pos + j + i) = index + j + i" by (simp add: add.assoc)
qed

lemma commit_fields [simp]:
  "playlist_count (commit_auto_advance s) = playlist_count s" "playlist (commit_auto_advance s) = playlist s"
  "audio (commit_auto_advance s) = audio s" "play_mode (commit_auto_advance s) = play_mode s"
  "gapless_enabled (commit_auto_advance s) = gapless_enabled s" "playlist_index (commit_auto_advance s) = playlist_index s"
  "external_dac_block_reason (commit_auto_advance s) = external_dac_block_reason s"
  "playlist_path_at (commit_auto_advance s) i = playlist_path_at s i"
  "events (commit_auto_advance s) = events s"
  by (simp_all add: commit_auto_advance_def Let_def external_dac_block_reason_def)

lemma commit_ready:
  assumes inv: "player_inv s" and ix: "0 \<le> playlist_index s"
    and pk: "peek_next (playlist_index s) s = Some i" and i: "0 \<le> i"
  shows "ready ((commit_auto_advance s)\<lparr>playlist_index := i\<rparr>)"
proof -
  have ok: "list_ok s" "queue_ok s" "bag_ok s" "aligned s" using inv by (auto simp: player_inv_def)
  have ixc: "playlist_index s < playlist_count s" using ok(1) ix by (auto simp: list_ok_def)
  have ic: "i < playlist_count s" using peek_next_range[OF inv ixc pk] i by auto
  consider (queue) "0 < queued_pending_count s" | (other) "queued_pending_count s = 0" "play_mode s \<noteq> PLAY_MODE_SHUFFLE"
    | (shuf) "queued_pending_count s = 0" "play_mode s = PLAY_MODE_SHUFFLE"
    using ok(2) by (force simp: queue_ok_def)
  then show ?thesis
  proof cases
    case queue
    then have q: "playlist_index s + queued_pending_count s < playlist_count s"
        "queue_next_insert_index s = playlist_index s + 1 + queued_pending_count s"
      using ok(2) by (auto simp: queue_ok_def)
    have ie: "i = playlist_index s + 1" using pk ix queue q by (auto simp: peek_next_def)
    have blk: "\<exists>p. p + (queued_pending_count s - 1) < playlist_count s \<and>
        block_at (the (shuffle_order s)) p (playlist_index s + 1) (queued_pending_count s - 1)"
      if "play_mode s = PLAY_MODE_SHUFFLE" "bag_live s"
    proof -
      have "shuffle_pos s + queued_pending_count s < playlist_count s"
        "block_at (the (shuffle_order s)) (shuffle_pos s) (playlist_index s) (queued_pending_count s)"
        using ok(4) that ix by (auto simp: aligned_def bag_live_def)
      then show ?thesis using block_at_tail[of "the (shuffle_order s)" "shuffle_pos s" "playlist_index s" "queued_pending_count s" 1] queue
        by (intro exI[of _ "shuffle_pos s + 1"]) auto
    qed
    show ?thesis unfolding ie
      using queue q blk ok ix by (auto simp: commit_auto_advance_def Let_def ready_def list_ok_def queue_ok_def bag_ok_def bag_live_def)
  next
    case other
    have "queue_ok (s\<lparr>playlist_index := i\<rparr>)" using ok(2) other ic i by (auto simp: queue_ok_def)
    then show ?thesis using other ok ic i
      by (auto simp: commit_auto_advance_def ready_def list_ok_def bag_ok_def bag_live_def)
  next
    case shuf
    then have pk': "bag_live s" "if shuffle_pos s + 1 < playlist_count s then i = the (shuffle_order s) ! nat (shuffle_pos s + 1)
        else (\<exists>p. pending_shuffle_order s = Some p \<and> i = p ! 0)"
      using pk ix ixc by (auto simp: peek_next_def play_mode_defs split: if_splits)
    obtain order where o: "shuffle_order s = Some order" "shuffle_order_count s = playlist_count s"
      using pk'(1) by (auto simp: bag_live_def)
    have b: "bag_of_size (playlist_count s) order" "-1 \<le> shuffle_pos s"
      "\<And>p. pending_shuffle_order s = Some p \<Longrightarrow> bag_of_size (playlist_count s) p"
      using ok(3) o by (auto simp: bag_ok_def)
    have nq: "queue_next_insert_index s = -1 \<or> queue_next_insert_index s = 1 \<and> playlist_count s = 1"
      using ok(2) shuf by (auto simp: queue_ok_def)
    have blk: "\<And>ord. bag_of_size (playlist_count s) ord \<Longrightarrow> \<exists>p. p + 0 < playlist_count s \<and> block_at ord p i 0"
      using bag_of_size_block i ic by blast
    show ?thesis
    proof (cases "shuffle_pos s + 1 < playlist_count s")
      case True
      then show ?thesis using shuf ok o b nq blk[OF b(1)] i ic
        by (auto simp: commit_auto_advance_def ready_def list_ok_def queue_ok_def bag_ok_def)
    next
      case False
      then obtain p where p: "pending_shuffle_order s = Some p" using pk' by auto
      have "p \<noteq> []" using b(3)[OF p] ic i by (auto simp: bag_of_size_def)
      then show ?thesis using False shuf ok o b(3)[OF p] nq blk[OF b(3)[OF p]] i ic p
        by (auto simp: commit_auto_advance_def ready_def list_ok_def queue_ok_def bag_ok_def)
    qed
  qed
qed

section \<open>Manual steps\<close>

lemma ready_at_no_queue:
  assumes "list_ok s" and "bag_ok s" and "queued_pending_count s = 0" and "queue_next_insert_index s = -1 \<or>
      queue_next_insert_index s = 1 \<and> playlist_count s = 1"
    and "0 \<le> i" and "i < playlist_count s"
  shows "ready (s\<lparr>playlist_index := i\<rparr>)"
proof -
  have "\<exists>p. p + 0 < playlist_count s \<and> block_at (the (shuffle_order s)) p i 0" if "bag_live s"
    using that assms(2) bag_of_size_block[OF _ assms(5,6)] by (auto simp: bag_live_def bag_ok_def)
  then show ?thesis using assms by (auto simp: ready_def list_ok_def queue_ok_def bag_ok_def bag_live_def)
qed

lemma next_insert_no_queue:
  "queue_ok s \<Longrightarrow> queued_pending_count s = 0 \<Longrightarrow>
   queue_next_insert_index s = -1 \<or> queue_next_insert_index s = 1 \<and> playlist_count s = 1"
  by (auto simp: queue_ok_def)

text \<open>Dropping the queued block (a step back does) keeps the invariant.\<close>

lemma drop_queue_inv:
  assumes "player_inv s"
  shows "player_inv (s\<lparr>queued_pending_count := 0, queue_next_insert_index := -1\<rparr>)"
  using assms by (auto simp: player_inv_def list_ok_def queue_ok_def bag_ok_def aligned_def block_at_def bag_live_def)

lemma manual_step_no_queue:
  assumes inv: "player_inv s" and q: "queued_pending_count s = 0" and ix: "0 \<le> playlist_index s"
    and d: "direction = 1 \<or> direction = -1"
  obtains i s' where "compute_manual_step_index (playlist_index s) direction s = Some (i, s')"
    and "i = -1 \<and> player_inv s' \<or> 0 \<le> i \<and> i < playlist_count s' \<and> ready (s'\<lparr>playlist_index := i\<rparr>)"
    and "shuffle_frame s s'"
proof -
  have ok: "list_ok s" "queue_ok s" "bag_ok s" "aligned s" using inv by (auto simp: player_inv_def)
  have n: "playlist_index s < playlist_count s" "0 < playlist_count s" using ok(1) ix by (auto simp: list_ok_def)
  note nn = next_insert_no_queue[OF ok(2) q]
  have unf: "compute_manual_step_index (playlist_index s) direction s =
      (if play_mode s = PLAY_MODE_SHUFFLE then do {
             s \<leftarrow> ensure_shuffle_order_current s;
             case shuffle_order s of None \<Rightarrow> Some (-1, s)
             | Some order \<Rightarrow>
                 let new_pos = shuffle_pos s + direction in
                 if new_pos < 0 then Some (-1, s)
                 else do {
                   (s, order, new_pos) \<leftarrow> (if playlist_count s \<le> new_pos then do {
                        (order, rs) \<leftarrow> fisher_yates_shuffle order (playlist_count s) (rand_seq s);
                        Some (s\<lparr>shuffle_order := Some order, rand_seq := rs\<rparr>, order, 0) }
                      else Some (s, order, new_pos));
                   v \<leftarrow> aget order new_pos;
                   Some (v, s\<lparr>shuffle_pos := new_pos\<rparr>) } }
           else if play_mode s = PLAY_MODE_REPEAT_ALL then
             Some ((playlist_index s + direction + playlist_count s) mod playlist_count s, s)
           else Some (if 0 \<le> playlist_index s + direction \<and> playlist_index s + direction < playlist_count s
                      then playlist_index s + direction else -1, s))"
    using q ix n by (simp add: compute_manual_step_index_def Let_def)
  consider (shuf) "play_mode s = PLAY_MODE_SHUFFLE" | (all) "play_mode s = PLAY_MODE_REPEAT_ALL"
    | (seq) "play_mode s \<noteq> PLAY_MODE_SHUFFLE" "play_mode s \<noteq> PLAY_MODE_REPEAT_ALL" by blast
  then show thesis
  proof cases
    case all
    let ?i = "(playlist_index s + direction + playlist_count s) mod playlist_count s"
    have "compute_manual_step_index (playlist_index s) direction s = Some (?i, s)"
      unfolding unf using all by (simp add: play_mode_defs)
    moreover have "0 \<le> ?i" "?i < playlist_count s" using n by simp_all
    ultimately show ?thesis using ready_at_no_queue[OF ok(1,3) q nn] by (intro that[of ?i s]) auto
  next
    case seq
    then show ?thesis using unf inv ready_at_no_queue[OF ok(1,3) q nn] n(2)
      by (cases "0 \<le> playlist_index s + direction \<and> playlist_index s + direction < playlist_count s") (auto intro: that)
  next
    case shuf
    obtain s1 where s1: "ensure_shuffle_order_current s = Some s1" "shuffle_frame s s1" "player_inv s1"
      and none: "\<not> bag_live s1 \<Longrightarrow> shuffle_order s1 = None" by (rule ensure_inv[OF inv]) blast
    note f1 = shuffle_frameD(2,6,7)[OF s1(2)]
    have ok1: "list_ok s1" "bag_ok s1" using s1(3) by (auto simp: player_inv_def)
    show ?thesis
    proof (cases "bag_live s1 \<and> 0 \<le> shuffle_pos s1 + direction")
      case False
      then have "compute_manual_step_index (playlist_index s) direction s = Some (-1, s1)"
        unfolding unf using shuf s1(1) none by (auto simp: Let_def split: option.splits)
      then show ?thesis using s1(2,3) by (intro that) auto
    next
      case True
      then obtain order where o: "shuffle_order s1 = Some order" "shuffle_order_count s1 = playlist_count s1"
        by (auto simp: bag_live_def)
      have b: "bag_of_size (playlist_count s1) order" using ok1(2) o by (auto simp: bag_ok_def)
      have b': "playlist_count s1 \<le> int (length order)" "permutation_upto (playlist_count s1) (take (nat (playlist_count s1)) order)"
        using b by (auto simp: bag_of_size_def)
      show ?thesis
      proof (cases "playlist_count s1 \<le> shuffle_pos s1 + direction")
        case False
        let ?p = "shuffle_pos s1 + direction" and ?s' = "s1\<lparr>shuffle_pos := shuffle_pos s1 + direction\<rparr>"
        have v: "aget order ?p = Some (order ! nat ?p)" "0 \<le> order ! nat ?p" "order ! nat ?p < playlist_count s1"
          using bag_of_size_nth[OF b] True False by auto
        have "compute_manual_step_index (playlist_index s) direction s = Some (order ! nat ?p, ?s')"
          unfolding unf using shuf s1(1) o True False v(1) by (simp add: Let_def)
        moreover have "ready (?s'\<lparr>playlist_index := order ! nat ?p\<rparr>)"
          by (rule ready_at_no_queue) (use ok1 q nn f1 v True in \<open>auto simp: list_ok_def bag_ok_def\<close>)
        moreover have "shuffle_frame s ?s'"
          by (rule shuffle_frame_trans[OF s1(2)]) (simp add: shuffle_frame_def)
        ultimately show ?thesis using v by (intro that) auto
      next
        case wrap: True
        obtain order' rs where fy: "fisher_yates_shuffle order (playlist_count s1) (rand_seq s1) = Some (order', rs)"
          "length order' = length order" "permutation_upto (playlist_count s1) (take (nat (playlist_count s1)) order')"
          using fisher_yates_shuffle_permutation[OF b'] by blast
        have b2: "bag_of_size (playlist_count s1) order'" using fy b' by (simp add: bag_of_size_def)
        let ?s' = "s1\<lparr>shuffle_order := Some order', rand_seq := rs, shuffle_pos := 0\<rparr>"
        have v: "aget order' 0 = Some (order' ! 0)" "0 \<le> order' ! 0" "order' ! 0 < playlist_count s1"
          using bag_of_size_nth[OF b2, of 0] n f1 by auto
        have "compute_manual_step_index (playlist_index s) direction s = Some (order' ! 0, ?s')"
          unfolding unf using shuf s1(1) o True wrap v(1) fy(1) by simp
        moreover have "ready (?s'\<lparr>playlist_index := order' ! 0\<rparr>)"
          by (rule ready_at_no_queue) (use ok1 o fy(2) b2 q nn f1 v in \<open>auto simp: list_ok_def bag_ok_def\<close>)
        moreover have "shuffle_frame s ?s'"
          by (rule shuffle_frame_trans[OF s1(2)]) (simp add: shuffle_frame_def)
        ultimately show ?thesis using v by (intro that) auto
      qed
    qed
  qed
qed

lemma shuffle_frame_dac: "shuffle_frame s s' \<Longrightarrow> external_dac_block_reason s' = external_dac_block_reason s"
  by (simp add: external_dac_block_reason_def shuffle_frameD)

lemma manual_step_ok:
  assumes inv: "player_inv s" and ix: "0 \<le> playlist_index s" and d: "direction = 1 \<or> direction = -1"
  obtains i s' where "compute_manual_step_index (playlist_index s) direction s = Some (i, s')"
    and "i = -1 \<and> player_inv s' \<or> 0 \<le> i \<and> i < playlist_count s' \<and> ready (s'\<lparr>playlist_index := i\<rparr>)"
    and "external_dac_block_reason s' = external_dac_block_reason s"
proof (cases "0 < queued_pending_count s")
  case False
  then have q: "queued_pending_count s = 0" using inv by (auto simp: player_inv_def queue_ok_def)
  show ?thesis by (rule manual_step_no_queue[OF inv q ix d]) (blast intro: that shuffle_frame_dac)
next
  case queue: True
  then have q: "playlist_index s + queued_pending_count s < playlist_count s"
    using inv by (auto simp: player_inv_def queue_ok_def)
  show ?thesis
  proof (cases "direction = 1")
    case True
    have pk: "peek_next (playlist_index s) s = Some (playlist_index s + 1)"
      using ix queue q by (auto simp: peek_next_def)
    have "compute_manual_step_index (playlist_index s) direction s = Some (playlist_index s + 1, commit_auto_advance s)"
      using True ix queue q by (auto simp: compute_manual_step_index_def commit_auto_advance_def Let_def)
    moreover have "ready ((commit_auto_advance s)\<lparr>playlist_index := playlist_index s + 1\<rparr>)"
      using commit_ready[OF inv ix pk] ix by simp
    moreover have "playlist_index s + 1 < playlist_count (commit_auto_advance s)" using queue q by simp
    ultimately show ?thesis using ix by (intro that[of "playlist_index s + 1" "commit_auto_advance s"]) simp_all
  next
    case False
    let ?s = "s\<lparr>queued_pending_count := 0, queue_next_insert_index := -1\<rparr>"
    have same: "compute_manual_step_index (playlist_index s) direction s = compute_manual_step_index (playlist_index ?s) direction ?s"
      using False d queue ix q by (simp add: compute_manual_step_index_def)
    have dac: "external_dac_block_reason ?s = external_dac_block_reason s" by (simp add: external_dac_block_reason_def)
    have "queued_pending_count ?s = 0" "0 \<le> playlist_index ?s" using ix by simp_all
    from manual_step_no_queue[OF drop_queue_inv[OF inv] this d] obtain i s' where
      r: "compute_manual_step_index (playlist_index ?s) direction ?s = Some (i, s')"
        "i = -1 \<and> player_inv s' \<or> 0 \<le> i \<and> i < playlist_count s' \<and> ready (s'\<lparr>playlist_index := i\<rparr>)"
        "shuffle_frame ?s s'" by blast
    show ?thesis by (rule that[OF trans[OF same r(1)] r(2)]) (simp only: shuffle_frame_dac[OF r(3)] dac)
  qed
qed

section \<open>Recovering from a decoder failure\<close>

lemma advance_by_mode_consumed:
  "advance_by_mode plan orig fi n mode so sp pend f = Some p \<Longrightarrow> queued_consumed p = queued_consumed plan"
  by (auto simp: advance_by_mode_def bind_eq_Some_conv split: if_splits option.splits prod.splits)

lemma failure_plan_shape:
  assumes "0 \<le> failed" and "failed < n" and "0 \<le> queued" and "0 < queued \<Longrightarrow> failed + queued < n"
    and plan: "compute_decoder_failure_advance_plan failed n mode queued so sp pend f = Some p"
  shows "queued \<le> queued_consumed p \<or>
     (0 < queued_consumed p \<and> queued_consumed p < queued \<and> target_index p = failed + queued_consumed p \<and> shuffle_steps p = 0)"
proof (cases "0 < queued")
  case False
  then have "queued_consumed p = 0" using plan assms advance_by_mode_consumed
    by (fastforce simp: compute_decoder_failure_advance_plan_def no_plan_def)
  then show ?thesis using False assms by simp
next
  case True
  then have lt: "failed + queued < n" using assms by simp
  show ?thesis
  proof (cases "find_loop 1 (queued + 1) (\<lambda>q. usable f (failed + q))")
    case None
    then have "advance_by_mode (no_plan\<lparr>queued_consumed := queued\<rparr>) failed (failed + queued) n mode so sp pend f = Some p"
      using plan True lt assms by (simp add: compute_decoder_failure_advance_plan_def)
    from advance_by_mode_consumed[OF this] show ?thesis by simp
  next
    case (Some q)
    then have "p = no_plan\<lparr>target_index := failed + q, queued_consumed := q\<rparr>"
      using plan True lt assms by (simp add: compute_decoder_failure_advance_plan_def)
    then show ?thesis using find_loop_Some[OF Some] by (auto simp: no_plan_def)
  qed
qed

lemma commit_failure_ready:
  assumes inv: "player_inv s" and ix: "0 \<le> playlist_index s"
    and plan: "compute_decoder_failure_advance_plan (playlist_index s) (playlist_count s) (play_mode s)
        (queued_pending_count s) (shuffle_order s) (shuffle_pos s) (pending_shuffle_order s) f = Some p"
    and t: "0 \<le> target_index p" "target_index p < playlist_count s"
    and live: "play_mode s = PLAY_MODE_SHUFFLE \<Longrightarrow> bag_live s \<or> shuffle_order s = None"
  shows "ready ((commit_decoder_failure_advance_plan p s)\<lparr>playlist_index := target_index p\<rparr>)"
proof -
  let ?s' = "commit_decoder_failure_advance_plan p s"
  have ok: "list_ok s" "queue_ok s" "bag_ok s" "aligned s" using inv by (auto simp: player_inv_def)
  have n: "playlist_index s < playlist_count s" "0 < playlist_count s" using ok(1) ix by (auto simp: list_ok_def)
  have q: "0 \<le> queued_pending_count s" "0 < queued_pending_count s \<Longrightarrow> playlist_index s + queued_pending_count s < playlist_count s"
    using ok(2) by (auto simp: queue_ok_def split: if_splits)
  have pos: "-1 \<le> shuffle_pos s" using ok(3) by (simp add: bag_ok_def)
  from failure_plan_shape[OF ix n(1) q plan] consider (all) "queued_pending_count s \<le> queued_consumed p"
    | (some) "0 < queued_consumed p" "queued_consumed p < queued_pending_count s"
        "target_index p = playlist_index s + queued_consumed p" "shuffle_steps p = 0" by blast
  then show ?thesis
  proof cases
    case some
    let ?c = "queued_consumed p"
    have e: "?s' = s\<lparr>queued_pending_count := queued_pending_count s - ?c\<rparr>"
      using some t by (simp add: commit_decoder_failure_advance_plan_def)
    have blk: "\<exists>p'. p' + (queued_pending_count s - ?c) < playlist_count s \<and>
        block_at (the (shuffle_order s)) p' (playlist_index s + ?c) (queued_pending_count s - ?c)"
      if "play_mode s = PLAY_MODE_SHUFFLE" "bag_live s"
    proof -
      have "shuffle_pos s + queued_pending_count s < playlist_count s"
        "block_at (the (shuffle_order s)) (shuffle_pos s) (playlist_index s) (queued_pending_count s)"
        using ok(4) that ix by (auto simp: aligned_def bag_live_def)
      then show ?thesis using block_at_tail[of _ "shuffle_pos s" "playlist_index s" "queued_pending_count s" ?c] some
        by (intro exI[of _ "shuffle_pos s + ?c"]) auto
    qed
    show ?thesis using ok some t q blk unfolding e
      by (auto simp: ready_def list_ok_def queue_ok_def bag_ok_def bag_live_def)
  next
    case all
    define s1 where "s1 = (if 0 < queued_consumed p then
                   (if queued_pending_count s \<le> queued_consumed p
                    then s\<lparr>queued_pending_count := 0, queue_next_insert_index := -1\<rparr>
                    else s\<lparr>queued_pending_count := queued_pending_count s - queued_consumed p\<rparr>)
                 else s)"
    have q1: "queued_pending_count s1 = 0" using all q by (auto simp: s1_def)
    have n1: "queue_next_insert_index s1 = -1 \<or> queue_next_insert_index s1 = 1 \<and> playlist_count s1 = 1"
      using next_insert_no_queue[OF ok(2)] q1 all by (auto simp: s1_def)
    have e: "?s' = (if play_mode s1 = PLAY_MODE_SHUFFLE \<and> 0 < shuffle_steps p then
             (if shuffle_wrapped p \<and> pending_shuffle_order s1 \<noteq> None then
                s1\<lparr>shuffle_order := pending_shuffle_order s1, pending_shuffle_order := None,
                  shuffle_order_count := playlist_count s1,
                  shuffle_pos := (shuffle_pos s1 + shuffle_steps p) mod playlist_count s1\<rparr>
              else s1\<lparr>shuffle_pos := (if playlist_count s1 \<le> shuffle_pos s1 + shuffle_steps p
                                   then playlist_count s1 - 1 else shuffle_pos s1 + shuffle_steps p)\<rparr>) else s1)"
      using t unfolding commit_decoder_failure_advance_plan_def s1_def[symmetric] Let_def by simp
    have so: "shuffle_order s \<noteq> None" if "play_mode s = PLAY_MODE_SHUFFLE" "0 < shuffle_steps p"
    proof
      assume h: "shuffle_order s = None"
      have "advance_by_mode pl o1 fi (playlist_count s) (play_mode s) None sp pend f = Some p \<Longrightarrow> False" for pl o1 fi sp pend
        using that t by (auto simp: advance_by_mode_def play_mode_defs split: if_splits)
      moreover have "shuffle_steps (no_plan\<lparr>target_index := x, queued_consumed := y\<rparr>) = 0" for x y by (simp add: no_plan_def)
      ultimately show False using plan that h n ix
        by (auto simp: compute_decoder_failure_advance_plan_def Let_def split: if_splits option.splits)
    qed
    have ok1: "list_ok ?s'" using ok(1) all unfolding e by (auto simp: s1_def list_ok_def)
    have bag1: "bag_ok ?s'"
    proof (cases "play_mode s = PLAY_MODE_SHUFFLE \<and> 0 < shuffle_steps p")
      case False
      then show ?thesis using ok(3) all unfolding e by (auto simp: s1_def bag_ok_def)
    next
      case True
      then obtain order where o: "shuffle_order s = Some order" "shuffle_order_count s = playlist_count s"
        using so live by (auto simp: bag_live_def)
      have "\<And>pd. pending_shuffle_order s = Some pd \<Longrightarrow> bag_of_size (playlist_count s) pd"
        using ok(3) o by (auto simp: bag_ok_def)
      moreover have "\<And>pd. bag_of_size (playlist_count s) pd \<Longrightarrow> pd \<noteq> []" using n by (auto simp: bag_of_size_def)
      moreover have "-1 \<le> (shuffle_pos s + shuffle_steps p) mod playlist_count s"
        using pos_mod_sign[OF n(2), of "shuffle_pos s + shuffle_steps p"] by linarith
      ultimately show ?thesis using ok(3) o True pos n all unfolding e by (auto simp: s1_def bag_ok_def)
    qed
    have "queued_pending_count ?s' = 0" "playlist_count ?s' = playlist_count s"
      "queue_next_insert_index ?s' = -1 \<or> queue_next_insert_index ?s' = 1 \<and> playlist_count ?s' = 1"
      using q1 n1 all unfolding e by (auto simp: s1_def)
    then show ?thesis using ready_at_no_queue[OF ok1 bag1] t by simp
  qed
qed

section \<open>The handlers\<close>

lemma reset_fields [simp]:
  "playlist_index (reset_decoder_failure_tracking s) = playlist_index s"
  "playlist_count (reset_decoder_failure_tracking s) = playlist_count s"
  "playlist (reset_decoder_failure_tracking s) = playlist s"
  "audio (reset_decoder_failure_tracking s) = audio s"
  "gapless_enabled (reset_decoder_failure_tracking s) = gapless_enabled s"
  "external_dac_block_reason (reset_decoder_failure_tracking s) = external_dac_block_reason s"
  by (simp_all add: reset_decoder_failure_tracking_def external_dac_block_reason_def)

lemma play_track_at_ok:
  assumes "external_dac_block_reason s = None" and "0 \<le> index" "index < playlist_count s"
    and "ready (s\<lparr>playlist_index := index\<rparr>)"
  obtains s' where "play_track_at index s = Some s'" and "started index s'"
proof -
  let ?s = "reset_decoder_failure_tracking s"
  have "core_eq (?s\<lparr>playlist_index := index\<rparr>) (s\<lparr>playlist_index := index\<rparr>)"
    by (simp add: core_eq_def reset_decoder_failure_tracking_def)
  then have "ready (?s\<lparr>playlist_index := index\<rparr>)" using assms(4) core_eq_ready by blast
  moreover have "external_dac_block_reason ?s = None" "index < playlist_count ?s"
    using assms by simp_all
  ultimately obtain s' where "play_track_at_from_internal index 0 True False ?s = Some s'" "started index s'"
    using play_internal_ok[OF assms(2)] by metis
  then show thesis by (intro that) (simp_all add: play_track_at_def)
qed

text \<open>
  The state after the GUI has followed an automatic advance: the track the engine plays is the
  current one, and its successor is armed.
\<close>

lemma on_track_auto_advanced_ok:
  assumes ix: "0 \<le> index" "index < playlist_count s" and r: "ready (s\<lparr>playlist_index := index\<rparr>)"
  obtains s' where "on_track_auto_advanced index s = Some s'" and "player_inv s'" and "armed s'"
    and "playlist_index s' = index" and "playlist_path_at s' index = playlist_path_at s index"
    and "active_path (audio s') = active_path (audio s)"
    and "track_advanced (audio s') = track_advanced (audio s)"
    and "current_playback_generation s' = playback_generation (audio s')"
    and "playback_generation (audio s') = playback_generation (audio s)"
    and "external_dac_block_reason s' = external_dac_block_reason s"
proof -
  define s1 where "s1 = emit (Show_track index) (s\<lparr>playlist_index := index\<rparr>)"
  define s2 where "s2 = s1\<lparr>current_playback_generation := audio_get_playback_generation (audio s1)\<rparr>"
  have "ready s2" "playlist_index s2 = index" using r by (simp_all add: s2_def s1_def)
  then obtain s3 where s3: "arm_next_track_for_audio index s2 = Some s3" "arm_frame s2 s3" "player_inv s3" "armed s3"
    by (rule arm_ok)
  note f3 = arm_frameD[OF s3(2)]
  obtain path where path: "playlist_path_at s3 index = Some path"
    using playlist_path_at_total s3(3) by (auto simp: player_inv_def)
  let ?s' = "save_last_track path 0 (emit (Play_button True) (emit (Track_started path) s3))"
  have run: "on_track_auto_advanced index s = Some ?s'"
    unfolding on_track_auto_advanced_def Let_def s1_def[symmetric] s2_def[symmetric] s3(1) bind.bind_lunit path
    using ix by simp
  have a: "active_path (audio s3) = active_path (audio s)" "track_advanced (audio s3) = track_advanced (audio s)"
    "playback_generation (audio s3) = playback_generation (audio s)"
    by (subst f3(16), simp add: s2_def s1_def)+
  have g: "current_playback_generation s3 = playback_generation (audio s)"
    by (subst f3(12)) (simp add: s2_def s1_def audio_get_playback_generation_def)
  have d: "external_dac_block_reason ?s' = external_dac_block_reason s"
    using f3(17-19) by (simp add: external_dac_block_reason_def save_last_track_def emit_def s2_def s1_def)
  have p: "playlist_path_at s3 index = playlist_path_at s index"
    using arm_path[OF s3(2)] by (simp add: s2_def s1_def)
  show thesis by (rule that[OF run]) (use s3(3,4) f3(3) a g d p in \<open>simp_all add: s2_def s1_def\<close>)
qed

lemma handle_auto_advance_ok:
  assumes inv: "player_inv s"
  obtains s' where "gui_player_handle_auto_advance s = Some s'" and "player_inv s'"
    and "track_advanced (audio s') = track_advanced (audio s)"
    and "external_dac_block_reason s' = external_dac_block_reason s"
    and "0 \<le> playlist_index s \<Longrightarrow> 0 \<le> playlist_index s'"
proof (cases "playlist_index s < 0")
  case True
  then show ?thesis using inv by (intro that[of s]) (auto simp: gui_player_handle_auto_advance_def)
next
  case False
  let ?s = "reset_decoder_failure_tracking s"
  have ix: "playlist_index s < playlist_count s" using inv False by (auto simp: player_inv_def list_ok_def)
  obtain i s1 where c: "compute_auto_advance_index (playlist_index s) ?s = Some (i, s1)" "shuffle_frame ?s s1"
      "player_inv s1" "i = -1 \<or> 0 \<le> i \<and> i < playlist_count ?s"
      "peek_next (playlist_index s) s1 = Some i \<or> (i = -1 \<and> peek_next (playlist_index s) s1 = None)"
    using compute_auto_advance_ok[of ?s "playlist_index s"] inv ix by (metis player_inv_irrelevant(20) reset_fields(2))
  have dac: "external_dac_block_reason s1 = external_dac_block_reason s"
    using shuffle_frame_dac[OF c(2)] by simp
  note f = shuffle_frameD(2,3,13)[OF c(2)]
  show ?thesis
  proof (cases "0 \<le> i")
    case no: False
    then have "gui_player_handle_auto_advance s = Some s1" using c(1) False by (simp add: gui_player_handle_auto_advance_def)
    then show ?thesis by (rule that) (use c(3) f dac in auto)
  next
    case True
    then have "peek_next (playlist_index s1) s1 = Some i" "i < playlist_count s1" using c(4,5) f by auto
    then have "ready ((commit_auto_advance s1)\<lparr>playlist_index := i\<rparr>)" "i < playlist_count (commit_auto_advance s1)"
      using commit_ready[OF c(3)] True False f by auto
    then obtain s2 where s2: "on_track_auto_advanced i (commit_auto_advance s1) = Some s2" "player_inv s2"
        "track_advanced (audio s2) = track_advanced (audio s1)" "external_dac_block_reason s2 = external_dac_block_reason s1"
        "playlist_index s2 = i"
      by (metis on_track_auto_advanced_ok[OF True] commit_fields(3,7))
    have "gui_player_handle_auto_advance s = Some s2"
      using c(1) False True s2(1) by (simp add: gui_player_handle_auto_advance_def)
    then show ?thesis by (rule that) (use s2 f dac True in auto)
  qed
qed

lemma handle_track_finished_ok:
  assumes inv: "player_inv s" and free: "external_dac_block_reason s = None"
  obtains s' where "gui_player_handle_track_finished s = Some s'" and "player_inv s'"
proof (cases "playlist_index s < 0")
  case True
  then show ?thesis using inv by (intro that[of s]) (auto simp: gui_player_handle_track_finished_def)
next
  case False
  let ?s = "reset_decoder_failure_tracking s"
  have ix: "playlist_index s < playlist_count s" using inv False by (auto simp: player_inv_def list_ok_def)
  obtain i s1 where c: "compute_auto_advance_index (playlist_index s) ?s = Some (i, s1)" "shuffle_frame ?s s1"
      "player_inv s1" "i = -1 \<or> 0 \<le> i \<and> i < playlist_count ?s"
      "peek_next (playlist_index s) s1 = Some i \<or> (i = -1 \<and> peek_next (playlist_index s) s1 = None)"
    using compute_auto_advance_ok[of ?s "playlist_index s"] inv ix by (metis player_inv_irrelevant(20) reset_fields(2))
  note f = shuffle_frameD(2,3)[OF c(2)]
  show ?thesis
  proof (cases "0 \<le> i")
    case no: False
    then have "gui_player_handle_track_finished s = Some (emit (Play_button False) s1)"
      using c(1) False by (simp add: gui_player_handle_track_finished_def)
    then show ?thesis by (rule that) (use c(3) in simp)
  next
    case True
    let ?t = "commit_auto_advance s1"
    have pk: "peek_next (playlist_index s1) s1 = Some i" "i < playlist_count ?t" using c(4,5) f True by auto
    have "ready (?t\<lparr>playlist_index := i\<rparr>)" using commit_ready[OF c(3) _ pk(1) True] False f by simp
    moreover have "external_dac_block_reason ?t = None" using free shuffle_frame_dac[OF c(2)] by simp
    ultimately obtain s2 where s2: "play_track_at_from_internal i 0 False False ?t = Some s2" "started i s2"
      using play_internal_ok[OF True pk(2)] by metis
    have "gui_player_handle_track_finished s = Some s2"
      using c(1) False True s2(1) by (simp add: gui_player_handle_track_finished_def)
    then show ?thesis by (rule that) (use s2(2) in \<open>simp add: started_def\<close>)
  qed
qed

lemma step_manual_ok:
  assumes inv: "player_inv s" and free: "external_dac_block_reason s = None" and d: "direction = 1 \<or> direction = -1"
  obtains s' where "gui_player_step_manual direction s = Some s'" and "player_inv s'"
proof (cases "playlist_index s < 0")
  case True
  then show ?thesis using inv by (intro that[of "reset_decoder_failure_tracking s"]) (auto simp: gui_player_step_manual_def)
next
  case False
  let ?s = "reset_decoder_failure_tracking s"
  have "player_inv ?s" "0 \<le> playlist_index ?s" using inv False by auto
  then obtain i s1 where m: "compute_manual_step_index (playlist_index ?s) direction ?s = Some (i, s1)"
      "i = -1 \<and> player_inv s1 \<or> 0 \<le> i \<and> i < playlist_count s1 \<and> ready (s1\<lparr>playlist_index := i\<rparr>)"
      "external_dac_block_reason s1 = external_dac_block_reason ?s"
    using manual_step_ok d by blast
  show ?thesis
  proof (cases "0 \<le> i")
    case no: False
    then have "gui_player_step_manual direction s = Some (emit (Queue_exhausted direction) s1)"
      using m(1) False by (simp add: gui_player_step_manual_def)
    then show ?thesis by (rule that) (use m(2) no in simp)
  next
    case True
    let ?t = "reset_decoder_failure_tracking s1"
    have "core_eq (?t\<lparr>playlist_index := i\<rparr>) (s1\<lparr>playlist_index := i\<rparr>)"
      by (simp add: core_eq_def reset_decoder_failure_tracking_def)
    then have "ready (?t\<lparr>playlist_index := i\<rparr>)" using m(2) True core_eq_ready by auto
    moreover have "i < playlist_count ?t" "external_dac_block_reason ?t = None" using m(2,3) True free by auto
    ultimately obtain s2 where s2: "play_track_at_from_internal i 0 True False ?t = Some s2" "started i s2"
      using play_internal_ok[OF True] by metis
    have "gui_player_step_manual direction s = Some s2"
      using m(1) False True s2(1) by (simp add: gui_player_step_manual_def play_track_at_def)
    then show ?thesis by (rule that) (use s2(2) in \<open>simp add: started_def\<close>)
  qed
qed

lemma set_play_mode_ok:
  assumes inv: "player_inv s" and q: "queued_pending_count s = 0"
  obtains s' where "gui_player_set_play_mode mode s = Some s'" and "player_inv s'"
proof (cases "mode < PLAY_MODE_SEQUENTIAL \<or> PLAY_MODE_SHUFFLE < mode")
  case True
  then show ?thesis using inv by (intro that[of s]) (auto simp: gui_player_set_play_mode_def)
next
  case False
  define s1 where "s1 = emit Settings_save (s\<lparr>play_mode := mode\<rparr>)"
  have ok: "list_ok s" "queue_ok s" "bag_ok s" "aligned s" using inv by (auto simp: player_inv_def)
  show ?thesis
  proof (cases "0 \<le> playlist_index s")
    case no: False
    have "player_inv (s\<lparr>play_mode := mode\<rparr>)"
      using ok no by (auto simp: player_inv_def list_ok_def queue_ok_def bag_ok_def aligned_def)
    then have "player_inv s1" by (simp add: s1_def)
    moreover have "gui_player_set_play_mode mode s = Some s1"
      using False no by (auto simp: gui_player_set_play_mode_def s1_def)
    ultimately show ?thesis by (intro that)
  next
    case True
    then have n: "playlist_index s < playlist_count s" using ok(1) by (auto simp: list_ok_def)
    let ?t = "s\<lparr>play_mode := mode\<rparr>"
    have "ready (?t\<lparr>playlist_index := playlist_index s\<rparr>)"
      by (rule ready_at_no_queue) (use ok q next_insert_no_queue[OF ok(2) q] True n in \<open>auto simp: list_ok_def bag_ok_def\<close>)
    then have "ready s1" by (simp add: s1_def)
    moreover have "playlist_index s1 = playlist_index s" by (simp add: s1_def)
    ultimately obtain s2 where s2: "arm_next_track_for_audio (playlist_index s) s1 = Some s2" "player_inv s2"
      by (rule arm_ok)
    have "gui_player_set_play_mode mode s = Some s2"
      using False True s2(1) by (auto simp: gui_player_set_play_mode_def s1_def)
    then show ?thesis using s2(2) by (rule that)
  qed
qed

lemma catch_up_ok:
  assumes inv: "player_inv s"
  obtains s' where "catch_up s = Some s'" and "player_inv s'" and "\<not> track_advanced (audio s')"
    and "external_dac_block_reason s' = external_dac_block_reason s"
proof (cases "track_advanced (audio s)")
  case False
  then show ?thesis using inv by (intro that[of "s\<lparr>audio := (audio s)\<lparr>track_advanced := False\<rparr>\<rparr>"])
     (auto simp: catch_up_def audio_consume_track_advanced_def external_dac_block_reason_def)
next
  case True
  let ?s = "s\<lparr>audio := (audio s)\<lparr>track_advanced := False\<rparr>\<rparr>"
  have "player_inv ?s" using inv by simp
  then obtain s' where s': "gui_player_handle_auto_advance ?s = Some s'" "player_inv s'"
      "track_advanced (audio s') = track_advanced (audio ?s)" "external_dac_block_reason s' = external_dac_block_reason ?s"
    by (rule handle_auto_advance_ok)
  have "catch_up s = Some s'" using True s'(1) by (simp add: catch_up_def audio_consume_track_advanced_def)
  then show ?thesis by (rule that) (use s' in \<open>auto simp: external_dac_block_reason_def\<close>)
qed

text \<open>
  The failure handler.  When the bag cannot be allocated, the source copies the next bag from a
  NULL pointer as soon as that second allocation succeeds; \<open>memory\<close> excludes this.
\<close>

lemma record_failed_fields [simp]:
  "player_inv (record_failed_physical_path path s) = player_inv s"
  "playlist_index (record_failed_physical_path path s) = playlist_index s"
  "playlist_count (record_failed_physical_path path s) = playlist_count s"
  "play_mode (record_failed_physical_path path s) = play_mode s"
  "bag_live (record_failed_physical_path path s) = bag_live s"
  "alloc_ok (record_failed_physical_path path s) = alloc_ok s"
  "external_dac_block_reason (record_failed_physical_path path s) = external_dac_block_reason s"
  "consecutive_decoder_failure_skips (record_failed_physical_path path s) = consecutive_decoder_failure_skips s"
  by (simp_all add: record_failed_physical_path_def external_dac_block_reason_def)

lemma commit_failure_fields [simp]:
  "playlist_count (commit_decoder_failure_advance_plan p s) = playlist_count s"
  "external_dac_block_reason (commit_decoder_failure_advance_plan p s) = external_dac_block_reason s"
  by (auto simp: commit_decoder_failure_advance_plan_def Let_def external_dac_block_reason_def)

lemma stop_after_failures_inv [simp]: "player_inv (stop_after_failures s) = player_inv s"
  by (simp add: stop_after_failures_def)

lemma failure_bags_ok:
  assumes "player_inv s" and "bag_live s \<or> shuffle_order s = None \<or> play_mode s \<noteq> PLAY_MODE_SHUFFLE"
  shows "play_mode s = PLAY_MODE_SHUFFLE \<Longrightarrow> shuffle_order s \<noteq> None \<Longrightarrow>
     bags_ok (playlist_count s) (shuffle_order s) (shuffle_pos s) (pending_shuffle_order s)"
  using assms by (auto simp: bags_ok_def player_inv_def bag_ok_def bag_live_def bag_of_size_def)

text \<open>Outside shuffle mode, and without a bag, the planner does not read the bags at all.\<close>

lemma advance_by_mode_no_bag:
  assumes "mode \<noteq> 3 \<or> so = None"
  shows "advance_by_mode plan orig fi n mode so sp pend f = advance_by_mode plan orig fi n mode None (-1) None f"
  using assms by (cases so) (auto simp: advance_by_mode_def)

lemma failure_plan_no_bag:
  assumes "mode \<noteq> 3 \<or> so = None"
  shows "compute_decoder_failure_advance_plan failed n mode queued so sp pend f =
    compute_decoder_failure_advance_plan failed n mode queued None (-1) None f"
  unfolding compute_decoder_failure_advance_plan_def Let_def
  by (simp only: advance_by_mode_no_bag[OF assms])

lemma failure_plan_total:
  assumes inv: "player_inv s" and live: "play_mode s = PLAY_MODE_SHUFFLE \<Longrightarrow> bag_live s \<or> shuffle_order s = None"
    and ix: "0 \<le> playlist_index s"
  shows "\<exists>p. compute_decoder_failure_advance_plan (playlist_index s) (playlist_count s) (play_mode s)
        (queued_pending_count s) (shuffle_order s) (shuffle_pos s) (pending_shuffle_order s) f = Some p \<and>
      (target_index p = -1 \<or> (0 \<le> target_index p \<and> target_index p < playlist_count s \<and>
         target_index p \<noteq> playlist_index s \<and> usable f (target_index p)))"
proof -
  have n: "playlist_index s < playlist_count s" using inv ix by (auto simp: player_inv_def list_ok_def)
  have none: "bags_ok (playlist_count s) None (-1) None" by (simp add: bags_ok_def)
  show ?thesis
  proof (cases "play_mode s = PLAY_MODE_SHUFFLE \<and> shuffle_order s \<noteq> None")
    case True
    then have "bags_ok (playlist_count s) (shuffle_order s) (shuffle_pos s) (pending_shuffle_order s)"
      using failure_bags_ok[OF inv] live by auto
    from failure_plan_correct[OF this n] show ?thesis .
  next
    case False
    then have "play_mode s \<noteq> 3 \<or> shuffle_order s = None" by (auto simp: play_mode_defs)
    from failure_plan_no_bag[OF this] failure_plan_correct[OF none n] show ?thesis by metis
  qed
qed

lemma handle_decoder_failure_ok:
  assumes inv: "player_inv s" and ix: "0 \<le> playlist_index s" and free: "external_dac_block_reason s = None"
    and memory: "play_mode s = PLAY_MODE_SHUFFLE \<Longrightarrow> bag_live s \<or> alloc_ok s 0"
  obtains s' where "handle_decoder_failure s = Some s'" and "player_inv s'"
    and "(playlist_index s' \<noteq> playlist_index s \<and> 0 \<le> playlist_index s' \<and> started (playlist_index s') s') \<or>
         (consecutive_decoder_failure_skips s' = 0 \<and> failed_physical_paths s' = [])"
proof -
  obtain path where path: "playlist_path_at s (playlist_index s) = Some path"
    using inv playlist_path_at_total by (auto simp: player_inv_def)
  define s1 where "s1 = record_failed_physical_path path s"
  define s2 where "s2 = s1\<lparr>consecutive_decoder_failure_skips := consecutive_decoder_failure_skips s1 + 1\<rparr>"
  let ?max = "if playlist_count s2 < 5 then playlist_count s2 else 5"
  have i2: "player_inv s2" "playlist_index s2 = playlist_index s" "play_mode s2 = play_mode s"
    "bag_live s2 = bag_live s" "alloc_ok s2 = alloc_ok s" "external_dac_block_reason s2 = None"
    using inv free by (simp_all add: s2_def s1_def)
  have reset: "consecutive_decoder_failure_skips (stop_after_failures t) = 0" "failed_physical_paths (stop_after_failures t) = []" for t
    by (simp_all add: stop_after_failures_def reset_decoder_failure_tracking_def)
  show thesis
  proof (cases "?max \<le> consecutive_decoder_failure_skips s2")
    case True
    then have "handle_decoder_failure s = Some (stop_after_failures s2)"
      unfolding handle_decoder_failure_def path bind.bind_lunit Let_def s1_def[symmetric] s2_def[symmetric] by simp
    then show ?thesis by (rule that) (use i2 reset in auto)
  next
    case False
    let ?prep = "if play_mode s2 = PLAY_MODE_SHUFFLE
             then do { s \<leftarrow> ensure_shuffle_order_current s2; precompute_wrap s } else Some s2"
    have "\<exists>s3. ?prep = Some s3 \<and> player_inv s3 \<and> shuffle_frame s2 s3 \<and>
        (play_mode s3 = PLAY_MODE_SHUFFLE \<longrightarrow> bag_live s3)"
    proof (cases "play_mode s = PLAY_MODE_SHUFFLE")
      case False
      then show ?thesis using i2 by auto
    next
      case mode: True
      obtain t where t: "ensure_shuffle_order_current s2 = Some t" "shuffle_frame s2 t" "player_inv t"
        "bag_live s2 \<Longrightarrow> t = s2" by (rule ensure_inv[OF i2(1)]) blast
      have "bag_live t"
      proof (cases "bag_live s2")
        case True
        then show ?thesis using t(4) by simp
      next
        case nl: False
        then have "alloc_ok s2 0" using memory mode i2 by simp
        moreover have "list_ok s2" "queue_ok s2" using i2(1) by (auto simp: player_inv_def)
        ultimately show ?thesis using ensure_fresh[OF _ _ nl] t(1) by (fastforce simp: bag_live_def)
      qed
      then obtain u where u: "precompute_wrap t = Some u" "shuffle_frame t u" "player_inv u"
          "shuffle_order u = shuffle_order t" "shuffle_order_count u = shuffle_order_count t"
        using precompute_wrap_ok[OF t(3)] by metis
      have "bag_live u" using u(4,5) \<open>bag_live t\<close> shuffle_frameD(2)[OF u(2)] by (simp add: bag_live_def)
      moreover have "?prep = Some u" using mode i2 t(1) u(1) by simp
      ultimately show ?thesis using u(3) shuffle_frame_trans[OF t(2) u(2)] by blast
    qed
    then obtain s3 where s3: "?prep = Some s3" "player_inv s3" "shuffle_frame s2 s3"
      and live: "play_mode s3 = PLAY_MODE_SHUFFLE \<longrightarrow> bag_live s3" by blast
    note f3 = shuffle_frameD(2,3)[OF s3(3)]
    have ix3: "0 \<le> playlist_index s3" using ix f3 i2 by simp
    let ?cb = "Some (is_failed_physical_track_cb s3)"
    have live': "play_mode s3 = PLAY_MODE_SHUFFLE \<Longrightarrow> bag_live s3 \<or> shuffle_order s3 = None" using live by blast
    from failure_plan_total[OF s3(2) live' ix3, of ?cb] obtain p where
      p: "compute_decoder_failure_advance_plan (playlist_index s3) (playlist_count s3) (play_mode s3)
        (queued_pending_count s3) (shuffle_order s3) (shuffle_pos s3) (pending_shuffle_order s3) ?cb = Some p"
      and pt: "target_index p = -1 \<or> (0 \<le> target_index p \<and> target_index p < playlist_count s3 \<and>
         target_index p \<noteq> playlist_index s3)" by blast
    have run: "handle_decoder_failure s = (if target_index p < 0 then Some (stop_after_failures s3)
       else play_track_at_from_internal (target_index p) 0 False False
           (emit (Error_toast ''Skipped unplayable track'')
             ((commit_decoder_failure_advance_plan p s3)\<lparr>deferred_resume_pending := False, deferred_resume_position := 0\<rparr>)))"
      unfolding handle_decoder_failure_def path bind.bind_lunit Let_def s1_def[symmetric] s2_def[symmetric] s3(1) p
      using False by simp
    show ?thesis
    proof (cases "target_index p < 0")
      case True
      then have "handle_decoder_failure s = Some (stop_after_failures s3)" using run by simp
      then show ?thesis by (rule that) (use s3 reset in auto)
    next
      case tp: False
      then have t: "0 \<le> target_index p" "target_index p < playlist_count s3" "target_index p \<noteq> playlist_index s3" using pt by auto
      let ?t = "emit (Error_toast ''Skipped unplayable track'')
             ((commit_decoder_failure_advance_plan p s3)\<lparr>deferred_resume_pending := False, deferred_resume_position := 0\<rparr>)"
      have "core_eq (?t\<lparr>playlist_index := target_index p\<rparr>)
          ((commit_decoder_failure_advance_plan p s3)\<lparr>playlist_index := target_index p\<rparr>)"
        by (simp add: core_eq_def emit_def)
      then have "ready (?t\<lparr>playlist_index := target_index p\<rparr>)"
        using commit_failure_ready[OF s3(2) ix3 p t(1,2) live'] core_eq_ready by blast
      moreover have "external_dac_block_reason ?t = None" "target_index p < playlist_count ?t"
        using shuffle_frame_dac[OF s3(3)] i2(6) t by simp_all
      ultimately obtain s' where s': "play_track_at_from_internal (target_index p) 0 False False ?t = Some s'"
          "started (target_index p) s'"
        using play_internal_ok[OF t(1)] by metis
      then have "handle_decoder_failure s = Some s'" using run tp by simp
      then show ?thesis by (rule that) (use s'(2) t f3 i2 in \<open>auto simp: started_def\<close>)
    qed
  qed
qed

lemma handle_error_now_ok:
  assumes "player_inv s" and "0 \<le> playlist_index s" and "external_dac_block_reason s = None"
    and "play_mode s = PLAY_MODE_SHUFFLE \<Longrightarrow> bag_live s \<or> alloc_ok s 0"
  obtains s' where "handle_error_now err pos s = Some s'" and "player_inv s'"
proof (cases err)
  case AUDIO_ERROR_DECODER_FAILED
  then show ?thesis using handle_decoder_failure_ok[OF assms] that by (metis handle_error_now_def audio_error_t.case(2))
qed (use assms(1) in \<open>auto simp: handle_error_now_def intro: that\<close>)

text \<open>\<open>plenty\<close>: no allocation will fail; every operation that allocates keeps it.\<close>

definition plenty :: "player \<Rightarrow> bool" where
  "plenty s \<longleftrightarrow> (\<forall>k. alloc_ok s k)"

lemma plenty_irrelevant [simp]:
  "plenty (emit e s) = plenty s" "plenty (s\<lparr>audio := a\<rparr>) = plenty s" "plenty (s\<lparr>queue_revision := r\<rparr>) = plenty s"
  "plenty (s\<lparr>shuffle_pos := p\<rparr>) = plenty s" "plenty (s\<lparr>playlist_index := i\<rparr>) = plenty s"
  "plenty (s\<lparr>current_playback_generation := g\<rparr>) = plenty s" "plenty (reset_decoder_failure_tracking s) = plenty s"
  "plenty (commit_auto_advance s) = plenty s" "plenty (save_last_track path pos s) = plenty s"
  by (simp_all add: plenty_def emit_def reset_decoder_failure_tracking_def commit_auto_advance_def save_last_track_def Let_def)

lemma ensure_plenty: "ensure_shuffle_order_current s = Some s' \<Longrightarrow> plenty s \<Longrightarrow> plenty s'"
  by (auto simp: ensure_shuffle_order_current_def malloc_ok_def Let_def plenty_def bind_eq_Some_conv split: if_splits)

lemma precompute_wrap_plenty: "precompute_wrap s = Some s' \<Longrightarrow> plenty s \<Longrightarrow> plenty s'"
  by (auto simp: precompute_wrap_def malloc_ok_def Let_def plenty_def bind_eq_Some_conv split: if_splits)

lemma compute_plenty: "compute_auto_advance_index index s = Some (i, s') \<Longrightarrow> plenty s \<Longrightarrow> plenty s'"
  by (auto simp: compute_auto_advance_index_def Let_def
      dest: ensure_plenty precompute_wrap_plenty split: if_split_asm bind_split_asm option.split_asm)

lemma arm_plenty: "arm_next_track_for_audio index s = Some s' \<Longrightarrow> plenty s \<Longrightarrow> plenty s'"
  by (auto simp: arm_next_track_for_audio_def Let_def
      dest!: ensure_plenty compute_plenty split: if_split_asm bind_split_asm option.split_asm)

lemma handle_auto_advance_plenty: "gui_player_handle_auto_advance s = Some s' \<Longrightarrow> plenty s \<Longrightarrow> plenty s'"
  by (auto simp: gui_player_handle_auto_advance_def on_track_auto_advanced_def Let_def
      dest!: arm_plenty compute_plenty split: if_split_asm bind_split_asm)

lemma handle_playback_error_ok:
  assumes inv: "player_inv s" and free: "external_dac_block_reason s = None" and memory: "plenty s"
  obtains s' where "gui_player_handle_playback_error_ex err gen pos s = Some s'" and "player_inv s'"
proof -
  have step: "\<exists>s'. handle_error_now err pos t = Some s' \<and> player_inv s'"
    if "player_inv t" "0 \<le> playlist_index t" "external_dac_block_reason t = None" "plenty t" for t
    using handle_error_now_ok[OF that(1-3)] that(4) by (metis plenty_def)
  let ?t = "s\<lparr>audio := (audio s)\<lparr>track_advanced := False\<rparr>\<rparr>"
  have "player_inv ?t" using inv by simp
  then obtain u where u: "gui_player_handle_auto_advance ?t = Some u" "player_inv u"
      "external_dac_block_reason u = external_dac_block_reason ?t"
      "0 \<le> playlist_index ?t \<Longrightarrow> 0 \<le> playlist_index u" by (rule handle_auto_advance_ok) blast
  have pu: "plenty u" using handle_auto_advance_plenty[OF u(1)] memory by simp
  let ?stale = "gen \<noteq> 0 \<and> current_playback_generation s \<noteq> 0 \<and> gen \<noteq> current_playback_generation s"
  have eq: "gui_player_handle_playback_error_ex err gen pos s =
      (if err = AUDIO_ERROR_NONE then Some s else if playlist_index s < 0 then Some s
       else if ?stale then
         (if gen < current_playback_generation s then Some s else if \<not> track_advanced (audio s) then Some ?t
          else if current_playback_generation u \<noteq> gen then Some u else handle_error_now err pos u)
       else handle_error_now err pos s)"
    using u(1) by (simp add: gui_player_handle_playback_error_ex_def audio_consume_track_advanced_def)
  have "\<exists>s'. gui_player_handle_playback_error_ex err gen pos s = Some s' \<and> player_inv s'"
  proof (cases "playlist_index s < 0")
    case True
    then show ?thesis unfolding eq using inv by simp
  next
    case False
    then have now: "\<exists>s'. handle_error_now err pos s = Some s' \<and> player_inv s'" using step inv free memory by simp
    have "0 \<le> playlist_index u" "external_dac_block_reason u = None" using False u free by simp_all
    then have late: "\<exists>s'. handle_error_now err pos u = Some s' \<and> player_inv s'" using step u(2) pu by blast
    have "\<exists>s'. Some x = Some s' \<and> player_inv s'" if "player_inv x" for x using that by simp
    then show ?thesis unfolding eq using now late inv u(2) \<open>player_inv ?t\<close> by presburger
  qed
  then show thesis using that by blast
qed

end
