(* ===== verification/Player_Queue.thy ===== *)
theory Player_Queue
  imports Player_Handlers_Inv
begin

text \<open>
  The editable play queue (\<^verbatim>\<open>src/src/ui/gui_player.c\<close>): adding, removing, moving and selecting
  entries, the displayed order, and the operations of the remote control.
\<close>

section \<open>Adding\<close>

text \<open>
  A NULL path is \<open>None\<close>.  \<open>strdup_all\<close> is the copy loop: it stops at the first NULL path or
  failed copy.
\<close>

fun strdup_all :: "string option list \<Rightarrow> player \<Rightarrow> string option list option \<times> player" where
  "strdup_all [] s = (Some [], s)"
| "strdup_all (None # paths) s = (None, s)"
| "strdup_all (Some path # paths) s =
     (let (ok, s) = malloc_ok s in
      if \<not> ok then (None, s)
      else let (copies, s) = strdup_all paths s in (map_option (\<lambda>c. Some path # c) copies, s))"

definition queue_start :: "string option list \<Rightarrow> player \<Rightarrow> player option" where
  "queue_start copies s = do {
     let cnt = int (length copies);
     let s = emit Clear_source (free_playlist s);
     let s = s\<lparr>playlist := copies, playlist_count := cnt, playlist_index := 0,
               queued_pending_count := cnt - 1,
               queue_next_insert_index := (if 1 < cnt then cnt else -1)\<rparr>;
     let s = (emit (Play_button False) (emit (Show_track 0) s))\<lparr>deferred_resume_pending := True,
               deferred_resume_position := 0\<rparr>;
     slot \<leftarrow> aget (playlist s) 0;
     path \<leftarrow> slot;
     Some (emit (Info_toast ''Queue ready. Press Play to start.'') (emit Settings_save
       (s\<lparr>last_track := take 511 path, last_position := 0\<rparr>))) }"

definition queue_splice :: "string option list \<Rightarrow> int \<Rightarrow> player \<Rightarrow> player option" where
  "queue_splice copies pos s = do {
     let cnt = int (length copies);
     let n = playlist_count s;
     pl \<leftarrow> memmove (playlist s) (pos + cnt) pos (n - pos);
     lo \<leftarrow> (case playlist_lazy_sort_order s of None \<Rightarrow> Some None
            | Some lo \<Rightarrow> map_option Some (memmove lo (pos + cnt) pos (n - pos)));
     pl \<leftarrow> for_loop 0 cnt (\<lambda>i pl. aset pl (pos + i) (copies ! nat i)) pl;
     lo \<leftarrow> (case lo of None \<Rightarrow> Some None
            | Some lo \<Rightarrow> map_option Some (for_loop 0 cnt (\<lambda>i lo. aset lo (pos + i) (-1)) lo));
     Some (s\<lparr>playlist := pl, playlist_lazy_sort_order := lo, playlist_count := n + cnt,
             queued_pending_count := queued_pending_count s + cnt,
             queue_next_insert_index := pos + cnt\<rparr>) }"

definition queue_insert :: "string option list \<Rightarrow> player \<Rightarrow> player option" where
  "queue_insert copies s =
     (let cnt = int (length copies);
          pos = (if 0 \<le> queue_next_insert_index s \<and> queue_next_insert_index s \<le> playlist_count s
                 then queue_next_insert_index s else playlist_index s + 1);
          (ok, s) = malloc_ok s
      in if \<not> ok then Some s
         else let s = s\<lparr>playlist := resize (playlist_count s + cnt) None (playlist s)\<rparr>;
                  (ok, s) = (if playlist_lazy_sort_order s = None then (True, s) else malloc_ok s)
           in if \<not> ok then Some s
              else do {
                let s = s\<lparr>playlist_lazy_sort_order :=
                          map_option (resize (playlist_count s + cnt) 0) (playlist_lazy_sort_order s)\<rparr>;
                s \<leftarrow> queue_splice copies pos s;
                s \<leftarrow> queue_shuffle_insert pos cnt s;
                let s = emit (Song_count (playlist_index s + 1) (playlist_count s)) s;
                s \<leftarrow> arm_next_track_for_audio (playlist_index s) s;
                Some (emit (Added_to_queue cnt) s) })"

definition gui_player_queue_add_many :: "string option list \<Rightarrow> player \<Rightarrow> player option" where
  "gui_player_queue_add_many paths s = do {
     s \<leftarrow> catch_up s;
     let cnt = int (length paths);
     if cnt \<le> 0 then Some s
     else if INT_MAX - playlist_count s < cnt \<or> INT_MAX - queued_pending_count s < cnt then Some s
     else
       let (ok, s) = malloc_ok s in
       if \<not> ok then Some s
       else let (copies, s) = strdup_all paths s in
         (case copies of None \<Rightarrow> Some s
          | Some copies \<Rightarrow>
              if \<not> gui_player_has_active_track s then queue_start copies s else queue_insert copies s) }"

definition queue_add_song :: "string option \<Rightarrow> player \<Rightarrow> player option" where
  "queue_add_song path s =
     (if path \<noteq> None \<and> path \<noteq> Some '''' then gui_player_queue_add_many [path] s else Some s)"

section \<open>Removing queued entries\<close>

definition remove_slot :: "int \<Rightarrow> player \<Rightarrow> player option" where
  "remove_slot pos s = do {
     _ \<leftarrow> aget (playlist s) pos;
     pl \<leftarrow> memmove (playlist s) pos (pos + 1) (playlist_count s - pos - 1);
     lo \<leftarrow> (case playlist_lazy_sort_order s of None \<Rightarrow> Some None
            | Some lo \<Rightarrow> map_option Some (memmove lo pos (pos + 1) (playlist_count s - pos - 1)));
     Some (s\<lparr>playlist := pl, playlist_lazy_sort_order := lo, playlist_count := playlist_count s - 1\<rparr>) }"

definition queue_remove_song_at_offset :: "int \<Rightarrow> player \<Rightarrow> player option" where
  "queue_remove_song_at_offset offset s =
     (if offset < 0 \<or> queued_pending_count s \<le> offset \<or> playlist_index s < 0 then Some s
      else do {
        let pos = playlist_index s + 1 + offset;
        s \<leftarrow> queue_shuffle_remove pos s;
        s \<leftarrow> remove_slot pos s;
        let s = s\<lparr>queued_pending_count := queued_pending_count s - 1\<rparr>;
        let s = s\<lparr>queue_next_insert_index :=
                  (if 0 < queued_pending_count s then playlist_index s + 1 + queued_pending_count s else -1)\<rparr>;
        let s = emit (Song_count (playlist_index s + 1) (playlist_count s)) s;
        s \<leftarrow> arm_next_track_for_audio (playlist_index s) s;
        Some (emit (Info_toast ''Removed from queue'') s) })"

text \<open>A \<^verbatim>\<open>while\<close> loop: its end is proved below for the states the player reaches.\<close>

partial_function (option) queue_clear_loop :: "player \<Rightarrow> player option" where
  "queue_clear_loop s =
     (if 0 < queued_pending_count s
      then do { s \<leftarrow> queue_remove_song_at_offset (queued_pending_count s - 1) s; queue_clear_loop s }
      else Some s)"

definition queue_clear_pending :: "player \<Rightarrow> player option" where
  "queue_clear_pending s = map_option (emit (Info_toast ''Queue cleared'')) (queue_clear_loop s)"

declare queue_clear_loop.simps [code]

section \<open>The displayed order\<close>

record snapshot =
  snap_order :: "int list option"
  snap_count :: int
  snap_current :: int
  snap_revision :: u64

text \<open>The result is \<open>None\<close> when the source returns false.\<close>

definition gui_player_queue_snapshot :: "player \<Rightarrow> (snapshot option \<times> player) option" where
  "gui_player_queue_snapshot s =
     (let snap = \<lparr>snap_order = None, snap_count = playlist_count s, snap_current = playlist_index s,
                  snap_revision = queue_revision s\<rparr>
      in if playlist_count s = 0 then Some (Some snap, s)
         else let (ok, s) = malloc_ok s in
           if \<not> ok then Some (None, s)
           else if play_mode s = PLAY_MODE_SHUFFLE then do {
             s \<leftarrow> ensure_shuffle_order_current s;
             case shuffle_order s of None \<Rightarrow> Some (None, s)
             | Some order \<Rightarrow> do {
                 result \<leftarrow> memcpy_out order (playlist_count s);
                 Some (Some (snap\<lparr>snap_order := Some result, snap_current := shuffle_pos s\<rparr>), s) } }
           else do {
             result \<leftarrow> for_loop 0 (playlist_count s) (\<lambda>i order. aset order i i) (replicate (nat (playlist_count s)) 0);
             Some (Some (snap\<lparr>snap_order := Some result\<rparr>), s) })"

text \<open>The new slots in displayed order, and the bag that goes with them.\<close>

definition gather :: "'a list \<Rightarrow> int list \<Rightarrow> int \<Rightarrow> 'a list \<Rightarrow> 'a list option" where
  "gather src order cnt dst = for_loop 0 cnt (\<lambda>i dst. do { j \<leftarrow> aget order i; v \<leftarrow> aget src j; aset dst i v }) dst"

definition materialize_bag :: "int \<Rightarrow> int \<Rightarrow> player \<Rightarrow> player option" where
  "materialize_bag cnt current s = do {
     s \<leftarrow> (case shuffle_order s of
        Some order \<Rightarrow>
          if shuffle_order_count s = cnt then do {
            order \<leftarrow> for_loop 0 cnt (\<lambda>i order. aset order i i) order;
            Some (s\<lparr>shuffle_order := Some order, shuffle_pos := current\<rparr>) }
          else Some s
      | None \<Rightarrow> Some s);
     Some (s\<lparr>pending_shuffle_order := None,
             queue_next_insert_index := (if queued_pending_count s \<noteq> 0
               then current + 1 + queued_pending_count s else -1)\<rparr>) }"

definition all_paths_known :: "int list \<Rightarrow> int \<Rightarrow> player \<Rightarrow> bool option" where
  "all_paths_known order cnt s = map_option (\<lambda>r. r = None)
     (find_loopM 0 cnt (\<lambda>i. do { j \<leftarrow> aget order i; path \<leftarrow> playlist_path_at s j; Some (path = '''') }))"

definition queue_materialize_order :: "player \<Rightarrow> (bool \<times> player) option" where
  "queue_materialize_order s = do {
     (snap, s) \<leftarrow> gui_player_queue_snapshot s;
     case snap of None \<Rightarrow> Some (False, s)
     | Some snap \<Rightarrow>
         let cnt = snap_count snap; current = snap_current snap in
         if cnt = 0 then Some (True, s)
         else do {
           order \<leftarrow> snap_order snap;
           case playlist_lazy_sort_order s of
             Some lo \<Rightarrow>
               let (ok1, s) = malloc_ok s; (ok2, s) = malloc_ok s in
               if \<not> ok1 \<or> \<not> ok2 then Some (False, s)
               else do {
                 mapped \<leftarrow> gather lo order cnt (replicate (nat cnt) 0);
                 mapped_paths \<leftarrow> gather (playlist s) order cnt (replicate (nat cnt) None);
                 s \<leftarrow> materialize_bag cnt current
                       (s\<lparr>playlist := mapped_paths, playlist_lazy_sort_order := Some mapped, playlist_index := current\<rparr>);
                 Some (True, s) }
           | None \<Rightarrow>
               let (ok, s) = malloc_ok s in
               if \<not> ok then Some (False, s)
               else do {
                 known \<leftarrow> all_paths_known order cnt s;
                 if \<not> known then Some (False, s)
                 else do {
                   paths \<leftarrow> gather (playlist s) order cnt (replicate (nat cnt) None);
                   s \<leftarrow> materialize_bag cnt current (s\<lparr>playlist := paths, playlist_index := current\<rparr>);
                   Some (True, s) } } } }"

section \<open>Editing\<close>

text \<open>Moving one cell of an array to another index.\<close>

definition move_cell :: "'a list \<Rightarrow> int \<Rightarrow> int \<Rightarrow> 'a list option" where
  "move_cell xs from to = do {
     v \<leftarrow> aget xs from;
     xs \<leftarrow> (if from < to then memmove xs from (from + 1) (to - from) else memmove xs (to + 1) to (from - to));
     aset xs to v }"

text \<open>Both branches of the source (lazy and resolved) perform the same updates on their arrays.\<close>

definition edit_remove :: "int \<Rightarrow> player \<Rightarrow> player option" where
  "edit_remove from s = do {
     s \<leftarrow> queue_shuffle_remove from s;
     s \<leftarrow> remove_slot from s;
     Some (if from \<le> playlist_index s + queued_pending_count s
           then s\<lparr>queued_pending_count := queued_pending_count s - 1\<rparr> else s) }"

definition edit_move :: "int \<Rightarrow> int \<Rightarrow> player \<Rightarrow> player option" where
  "edit_move from to s = do {
     lo \<leftarrow> (case playlist_lazy_sort_order s of None \<Rightarrow> Some None
            | Some lo \<Rightarrow> map_option Some (move_cell lo from to));
     pl \<leftarrow> move_cell (playlist s) from to;
     let s = s\<lparr>playlist := pl, playlist_lazy_sort_order := lo\<rparr>;
     let pending_end = playlist_index s + queued_pending_count s;
     Some (if from \<le> pending_end \<and> pending_end < to
           then s\<lparr>queued_pending_count := to - playlist_index s\<rparr>
           else if pending_end < from \<and> to \<le> pending_end
           then s\<lparr>queued_pending_count := queued_pending_count s + 1\<rparr> else s) }"

definition gui_player_queue_edit :: "u64 \<Rightarrow> int \<Rightarrow> int \<Rightarrow> player \<Rightarrow> (bool \<times> player) option" where
  "gui_player_queue_edit revision from to s = do {
     s \<leftarrow> catch_up s;
     if revision \<noteq> queue_revision s then Some (False, s)
     else do {
       (snap, s) \<leftarrow> gui_player_queue_snapshot s;
       case snap of None \<Rightarrow> Some (False, s)
       | Some snap \<Rightarrow>
           let cnt = snap_count snap; current = snap_current snap in
           if from \<le> current \<or> cnt \<le> from \<or> (0 \<le> to \<and> (to \<le> current \<or> cnt \<le> to)) then Some (False, s)
           else do {
             (ok, s) \<leftarrow> queue_materialize_order s;
             if \<not> ok then Some (False, s)
             else do {
               s \<leftarrow> (if to < 0 then edit_remove from s else edit_move from to s);
               let s = s\<lparr>queue_next_insert_index := (if queued_pending_count s \<noteq> 0
                         then playlist_index s + 1 + queued_pending_count s else -1)\<rparr>;
               s \<leftarrow> arm_next_track_for_audio (playlist_index s) s;
               Some (True, s) } } } }"

definition gui_player_queue_select :: "u64 \<Rightarrow> int \<Rightarrow> player \<Rightarrow> (bool \<times> player) option" where
  "gui_player_queue_select revision index s = do {
     s \<leftarrow> catch_up s;
     if revision \<noteq> queue_revision s \<or> index < 0 \<or> playlist_count s \<le> index then Some (False, s)
     else do {
       (ok, s) \<leftarrow> queue_materialize_order s;
       if \<not> ok then Some (False, s)
       else do {
         let s = (if playlist_index s < index \<and> index \<le> playlist_index s + queued_pending_count s
                  then s\<lparr>queued_pending_count := queued_pending_count s - (index - playlist_index s)\<rparr>
                  else if index \<noteq> playlist_index s then s\<lparr>queued_pending_count := 0\<rparr> else s);
         let s = s\<lparr>queue_next_insert_index := (if queued_pending_count s \<noteq> 0
                   then index + 1 + queued_pending_count s else -1)\<rparr>;
         let s = (if shuffle_order s \<noteq> None then s\<lparr>shuffle_pos := index\<rparr> else s);
         s \<leftarrow> play_track_at index s;
         Some (True, s) } } }"

text \<open>The end of \<^verbatim>\<open>gui_player_queue_clear_all\<close>: only the current slot is kept.\<close>

definition clear_keep_current :: "player \<Rightarrow> player option" where
  "clear_keep_current s = do {
     keep \<leftarrow> aget (playlist s) (playlist_index s);
     pl \<leftarrow> aset (playlist s) 0 keep;
     let s = s\<lparr>playlist := pl, playlist_count := 1, playlist_index := 0\<rparr>;
     s \<leftarrow> (case shuffle_order s of None \<Rightarrow> Some s
           | Some order \<Rightarrow> do {
               order \<leftarrow> aset order 0 0;
               Some (s\<lparr>shuffle_order := Some order, shuffle_order_count := 1, shuffle_pos := 0\<rparr>) });
     let s = s\<lparr>queued_pending_count := 0, queue_next_insert_index := -1\<rparr>;
     arm_next_track_for_audio (playlist_index s) s }"

definition gui_player_queue_clear_all :: "player \<Rightarrow> player option" where
  "gui_player_queue_clear_all s = do {
     s \<leftarrow> catch_up s;
     if \<not> gui_player_has_active_track s then Some s
     else if playlist_lazy_sort_order s \<noteq> None then do {
       current_path \<leftarrow> playlist_path_at s (playlist_index s);
       if current_path = '''' then Some s
       else let (ok1, s) = malloc_ok s in
         if \<not> ok1 then Some s
         else let (ok2, s) = malloc_ok s in
           if \<not> ok2 then Some s
           else let s = s\<lparr>playlist := [Some current_path], playlist_lazy_sort_order := None, lazy_lookup := (\<lambda>_. ''''),
                          playlist_count := 1, playlist_index := 0, shuffle_order := None, shuffle_order_count := 0,
                          pending_shuffle_order := None, queued_pending_count := 0, queue_next_insert_index := -1\<rparr>
                in arm_next_track_for_audio (playlist_index s) s }
     else do {
       (ok, s) \<leftarrow> queue_materialize_order s;
       if \<not> ok then Some s
       else clear_keep_current s } }"

definition gui_player_queue_play_next :: "string option \<Rightarrow> player \<Rightarrow> player option" where
  "gui_player_queue_play_next path s = do {
     s \<leftarrow> catch_up s;
     let old_count = playlist_count s;
     let old_insert = queue_next_insert_index s;
     s \<leftarrow> queue_add_song path (s\<lparr>queue_next_insert_index := playlist_index s + 1\<rparr>);
     Some (if playlist_count s = old_count then s\<lparr>queue_next_insert_index := old_insert\<rparr>
           else s\<lparr>queue_next_insert_index := playlist_index s + 1 + queued_pending_count s\<rparr>) }"

definition gui_player_queue_restart_displayed :: "int \<Rightarrow> player \<Rightarrow> (bool \<times> player) option" where
  "gui_player_queue_restart_displayed selected s =
     (if playlist_count s \<le> 0 \<or> selected < 0 \<or> playlist_count s \<le> selected then Some (False, s)
      else do {
        (snap, s) \<leftarrow> gui_player_queue_snapshot s;
        case snap of None \<Rightarrow> Some (False, s)
        | Some snap \<Rightarrow>
            if snap_count snap \<noteq> playlist_count s then Some (False, s)
            else do {
              let (a1, s) = malloc_ok s;
              let (a2, s) = malloc_ok s;
              let (a3, s) = (if playlist_lazy_sort_order s \<noteq> None then malloc_ok s else (True, s));
              (ok, out) \<leftarrow> playback_order_resequence True a1 a2 a3 None (snap_order snap) (snap_count snap)
                 (Some (playlist s)) (playlist_lazy_sort_order s);
              case out of
                Some (Some next_paths, next_ranks) \<Rightarrow>
                  if \<not> ok then Some (False, s)
                  else Some (True, s\<lparr>playlist := next_paths, playlist_lazy_sort_order := next_ranks,
                         playlist_index := selected, queued_pending_count := 0, queue_next_insert_index := -1,
                         shuffle_order := None, shuffle_order_count := 0, shuffle_pos := -1,
                         pending_shuffle_order := None\<rparr>)
              | _ \<Rightarrow> Some (False, s) } })"

section \<open>The remote control's entries\<close>

definition gui_player_remote_queue_remove :: "int \<Rightarrow> u64 \<Rightarrow> player \<Rightarrow> (bool \<times> player) option" where
  "gui_player_remote_queue_remove offset revision s =
     (if revision \<noteq> queue_revision s \<or> offset < 0 then Some (False, s)
      else do {
        (snap, s) \<leftarrow> gui_player_queue_snapshot s;
        case snap of None \<Rightarrow> Some (False, s)
        | Some snap \<Rightarrow>
            if snap_revision snap \<noteq> revision \<or> snap_current snap < 0 \<or> snap_count snap \<le> snap_current snap + 1 + offset
            then Some (False, s)
            else gui_player_queue_edit revision (snap_current snap + 1 + offset) (-1) s })"

definition gui_player_remote_queue_clear :: "u64 \<Rightarrow> player \<Rightarrow> (bool \<times> player) option" where
  "gui_player_remote_queue_clear revision s =
     (if revision \<noteq> queue_revision s then Some (False, s)
      else do {
        s \<leftarrow> gui_player_queue_clear_all s;
        Some (revision \<noteq> queue_revision s, s) })"

section \<open>Deleting the current song\<close>

definition delete_song_confirm :: "player \<Rightarrow> player option" where
  "delete_song_confirm s =
     (if playlist_index s < 0 \<or> playlist_count s \<le> playlist_index s then Some s
      else do {
        to_delete \<leftarrow> playlist_path_at s (playlist_index s);
        let del_index = playlist_index s;
        s \<leftarrow> remove_slot del_index s;
        s \<leftarrow> (if playlist_count s = 0 then
               Some (emit Nav_pop (emit (Play_button False) (emit Clear_source (emit Plugin_stopped
                 (s\<lparr>audio := audio_stop (audio s), playlist := [], playlist_index := -1,
                    playlist_lazy_sort_order := None\<rparr>)))))
             else play_track_at (if del_index < playlist_count s then del_index else playlist_count s - 1) s);
        Some (emit (Error_toast ''Song deleted'') (emit (Unlink to_delete) s)) })"

end
