(* ===== verification/Player_Queue_Inv.thy ===== *)
theory Player_Queue_Inv
  imports Player_Queue
begin

text \<open>
  The queue operations keep the player's invariant, stay inside their buffers, and do to the
  list of tracks what they promise.
\<close>

section \<open>Arrays\<close>

text \<open>Opening a gap of \<open>length vs\<close> cells at \<open>pos\<close> and filling it.\<close>

lemma splice_array:
  assumes "length xs = n + length vs" and "p \<le> n"
  shows "do { ys \<leftarrow> memmove xs (int p + int (length vs)) (int p) (int n - int p);
              for_loop 0 (int (length vs)) (\<lambda>i ys. aset ys (int p + i) (vs ! nat i)) ys }
         = Some (take p xs @ vs @ take (n - p) (drop p xs))"
proof -
  let ?c = "length vs"
  define ys where "ys = take (p + ?c) xs @ take (n - p) (drop p xs)"
  have idx: "nat (int p + int ?c) = p + ?c" "nat (int n - int p) = n - p"
    "nat (int p + int ?c + (int n - int p)) = n + ?c" using assms by auto
  have m: "memmove xs (int p + int ?c) (int p) (int n - int p) = Some ys"
    unfolding memmove_def idx ys_def using assms by simp
  have ly: "length ys = n + ?c" using assms by (simp add: ys_def)
  have "map (\<lambda>i. vs ! nat i) [0..int ?c - 1] = vs" by (rule nth_equalityI) auto
  then have "for_loop 0 (int ?c) (\<lambda>i ys. aset ys (int p + i) (vs ! nat i)) ys
      = Some (take p ys @ vs @ drop (p + ?c) ys)"
    using for_loop_fill[of "int ?c" "int p" ys "\<lambda>i. vs ! nat i"] ly assms by (simp add: nat_int_add)
  moreover have "take p ys = take p xs" "drop (p + ?c) ys = take (n - p) (drop p xs)"
    using assms by (simp_all add: ys_def)
  ultimately show ?thesis using m by simp
qed

text \<open>Closing the gap at \<open>p\<close> in the first \<open>n\<close> cells.\<close>

lemma close_gap:
  assumes "p < n" and "n \<le> length xs"
  shows "\<exists>ys. memmove xs (int p) (int p + 1) (int n - int p - 1) = Some ys \<and> length ys = length xs \<and>
           take (n - 1) ys = take p xs @ drop (Suc p) (take n xs)"
proof -
  define ys where "ys = take p xs @ take (n - Suc p) (drop (Suc p) xs) @ drop (n - 1) xs"
  have idx: "nat (int p + 1) = Suc p" "nat (int n - int p - 1) = n - Suc p"
    "nat (int p + (int n - int p - 1)) = n - 1" using assms by auto
  have "memmove xs (int p) (int p + 1) (int n - int p - 1) = Some ys"
    unfolding memmove_def idx ys_def using assms by simp
  moreover have "length ys = length xs" using assms by (simp add: ys_def)
  moreover have "take (n - 1) ys = take p xs @ take (n - Suc p) (drop (Suc p) xs)"
  proof -
    have "min (n - 1) p = p" "n - 1 - p = n - Suc p" "min (length xs - Suc p) (n - Suc p) = n - Suc p" "min (length xs) p = p"
      using assms by auto
    then show ?thesis by (simp add: ys_def)
  qed
  ultimately show ?thesis by (simp add: drop_take)
qed

section \<open>Adding\<close>

lemma strdup_all_spec:
  "strdup_all paths s = (c, s') \<Longrightarrow> s' = s\<lparr>alloc_ok := alloc_ok s'\<rparr> \<and>
     (\<forall>cs. c = Some cs \<longrightarrow> cs = paths \<and> None \<notin> set paths)"
proof (induction paths s arbitrary: c s' rule: strdup_all.induct)
  case (3 path paths s)
  obtain c1 s1 where rec: "strdup_all paths (snd (malloc_ok s)) = (c1, s1)" by fastforce
  show ?case
  proof (cases "fst (malloc_ok s)")
    case False
    then show ?thesis using "3.prems" by (auto simp: malloc_ok_def)
  next
    case True
    have IH: "s1 = (snd (malloc_ok s))\<lparr>alloc_ok := alloc_ok s1\<rparr>" "\<forall>cs. c1 = Some cs \<longrightarrow> cs = paths \<and> None \<notin> set paths"
      using "3.IH"[OF refl prod.collapse _ rec] True by auto
    have c: "s' = s1" "c = map_option (\<lambda>c. Some path # c) c1"
      using "3.prems" True rec by (auto simp: malloc_ok_def)
    have "s1 = s\<lparr>alloc_ok := alloc_ok s1\<rparr>" using IH(1) by (simp add: malloc_ok_def)
    then show ?thesis using c IH(2) by auto
  qed
qed auto

lemma queue_start_ok:
  assumes "None \<notin> set copies" and "copies \<noteq> []"
  obtains s' where "queue_start copies s = Some s'" and "player_inv s'" and "playlist_index s' = 0"
    and "playlist s' = copies" and "playlist_count s' = int (length copies)" and "queued_pending_count s' = int (length copies) - 1"
proof -
  obtain path rest where c: "copies = Some path # rest" using assms by (cases copies; cases "hd copies") auto
  have "\<exists>s'. queue_start copies s = Some s' \<and> playlist s' = copies \<and> playlist_count s' = int (length copies) \<and> playlist_index s' = 0 \<and>
      queued_pending_count s' = int (length copies) - 1 \<and>
      queue_next_insert_index s' = (if 1 < length copies then int (length copies) else -1) \<and>
      shuffle_order s' = None \<and> shuffle_pos s' = -1 \<and> playlist_lazy_sort_order s' = None"
    by (auto simp: queue_start_def Let_def aget_def c emit_def free_playlist_def reset_decoder_failure_tracking_def)
  then obtain s' where s': "queue_start copies s = Some s'" "playlist s' = copies" "playlist_count s' = int (length copies)"
      "playlist_index s' = 0" "queued_pending_count s' = int (length copies) - 1"
      "queue_next_insert_index s' = (if 1 < length copies then int (length copies) else -1)"
      "shuffle_order s' = None" "shuffle_pos s' = -1" "playlist_lazy_sort_order s' = None" by blast
  have "player_inv s'" using s' c by (auto simp: player_inv_def list_ok_def queue_ok_def bag_ok_def aligned_def)
  then show thesis using s' that by blast
qed

text \<open>
  The splice of the new tracks at slot \<open>index + 1 + k\<close>, inside or at the end of the queued block.
\<close>

lemma queue_splice_ok:
  assumes l: "list_ok s" and buf: "length (playlist s) = nat (playlist_count s) + length copies"
    and lo: "\<And>l. playlist_lazy_sort_order s = Some l \<Longrightarrow> length l = nat (playlist_count s) + length copies"
    and p: "0 \<le> pos" "pos \<le> playlist_count s"
  shows "\<exists>lo'. queue_splice copies pos s = Some (s\<lparr>
       playlist := take (nat pos) (playlist s) @ copies @ take (nat (playlist_count s - pos)) (drop (nat pos) (playlist s)),
       playlist_lazy_sort_order := lo', playlist_count := playlist_count s + int (length copies),
       queued_pending_count := queued_pending_count s + int (length copies),
       queue_next_insert_index := pos + int (length copies)\<rparr>) \<and>
     (\<forall>l. lo' = Some l \<longrightarrow> length l = nat (playlist_count s) + length copies)"
proof -
  obtain n q where nq: "playlist_count s = int n" "pos = int q" "q \<le> n"
    using p by (metis nonneg_int_cases of_nat_le_iff order_trans)
  have d: "nat (int n - int q) = n - q" by simp
  have bufn: "length (playlist s) = n + length copies" using buf nq by simp
  let ?r = "\<lambda>xs vs. take q xs @ vs @ take (n - q) (drop q xs)"
  have s1: "do { ys \<leftarrow> memmove (playlist s) (int q + int (length copies)) (int q) (int n - int q);
              for_loop 0 (int (length copies)) (\<lambda>i ys. aset ys (int q + i) (copies ! nat i)) ys }
         = Some (?r (playlist s) copies)" by (rule splice_array[OF bufn nq(3)])
  then obtain ys where ys: "memmove (playlist s) (int q + int (length copies)) (int q) (int n - int q) = Some ys"
    "for_loop 0 (int (length copies)) (\<lambda>i ys. aset ys (int q + i) (copies ! nat i)) ys = Some (?r (playlist s) copies)"
    by (auto simp: bind_eq_Some_conv)
  show ?thesis
  proof (cases "playlist_lazy_sort_order s")
    case None
    then show ?thesis using ys by (auto simp: queue_splice_def Let_def nq d)
  next
    case (Some l)
    let ?v = "replicate (length copies) (-1 :: int)"
    have ll: "length l = n + length ?v" using lo[OF Some] nq by simp
    have "for_loop 0 (int (length ?v)) (\<lambda>i ys. aset ys (int q + i) (?v ! nat i)) zs =
        for_loop 0 (int (length ?v)) (\<lambda>i ys. aset ys (int q + i) (-1)) zs" for zs :: "int list"
      by (rule for_loop_cong) simp
    then obtain zs where zs: "memmove l (int q + int (length copies)) (int q) (int n - int q) = Some zs"
      "for_loop 0 (int (length copies)) (\<lambda>i ys. aset ys (int q + i) (-1)) zs = Some (?r l ?v)"
      using splice_array[OF ll nq(3)] by (auto simp: bind_eq_Some_conv)
    have "length (?r l ?v) = n + length copies" using ll nq by simp
    then show ?thesis using ys zs Some ll nq(3)
      by (intro exI[of _ "Some (?r l ?v)"]) (auto simp: queue_splice_def Let_def nq d)
  qed
qed

text \<open>Neither the bag nor the armed successor depends on the insertion point.\<close>

lemma ensure_next_insert:
  "ensure_shuffle_order_current (s\<lparr>queue_next_insert_index := v\<rparr>)
     = map_option (\<lambda>t. t\<lparr>queue_next_insert_index := v\<rparr>) (ensure_shuffle_order_current s)"
  by (auto simp: ensure_shuffle_order_current_def malloc_ok_def Let_def split: bind_split)

lemma precompute_wrap_next_insert:
  "precompute_wrap (s\<lparr>queue_next_insert_index := v\<rparr>)
     = map_option (\<lambda>t. t\<lparr>queue_next_insert_index := v\<rparr>) (precompute_wrap s)"
  by (auto simp: precompute_wrap_def malloc_ok_def Let_def split: bind_split)

lemma compute_next_insert:
  "compute_auto_advance_index index (s\<lparr>queue_next_insert_index := v\<rparr>)
     = map_option (\<lambda>(i, t). (i, t\<lparr>queue_next_insert_index := v\<rparr>)) (compute_auto_advance_index index s)"
  by (auto simp: compute_auto_advance_index_def ensure_next_insert precompute_wrap_next_insert Let_def
      split: bind_split option.split)

lemma arm_next_insert:
  "arm_next_track_for_audio index (s\<lparr>queue_next_insert_index := v\<rparr>)
     = map_option (\<lambda>t. t\<lparr>queue_next_insert_index := v\<rparr>) (arm_next_track_for_audio index s)"
proof -
  define N where "N = (\<lambda>t. t\<lparr>queue_next_insert_index := v\<rparr> :: player)"
  define s0 where "s0 = s\<lparr>queue_revision := queue_revision s + 1\<rparr>"
  define align where "align = (\<lambda>s. if play_mode s = PLAY_MODE_SHUFFLE then do {
          s \<leftarrow> ensure_shuffle_order_current s;
          case shuffle_order s of None \<Rightarrow> Some s
          | Some order \<Rightarrow> do {
              found \<leftarrow> find_loopM 0 (playlist_count s) (\<lambda>i. map_option (\<lambda>v. v = index) (aget order i));
              Some (case found of None \<Rightarrow> s | Some i \<Rightarrow> s\<lparr>shuffle_pos := i\<rparr>) } }
        else Some s)"
  define finish where "finish = (\<lambda>(next_index, s). if next_index < 0 \<or> \<not> gapless_enabled s
       then Some (s\<lparr>audio := audio_set_next_track None (audio s)\<rparr>)
     else do {
       path \<leftarrow> playlist_path_at s next_index;
       Some (s\<lparr>audio := audio_set_next_track (Some path) (audio s)\<rparr>) })"
  have arm: "arm_next_track_for_audio index t = do { s \<leftarrow> align (t\<lparr>queue_revision := queue_revision t + 1\<rparr>);
      r \<leftarrow> compute_auto_advance_index index s; finish r }" for t
    by (simp add: arm_next_track_for_audio_def align_def finish_def Let_def case_prod_unfold)
  have a: "align (N t) = map_option N (align t)" for t
  proof (cases "play_mode t = PLAY_MODE_SHUFFLE")
    case True
    have m: "play_mode (N t) = PLAY_MODE_SHUFFLE" using True by (simp add: N_def)
    show ?thesis
    proof (cases "ensure_shuffle_order_current t")
      case None
      then show ?thesis using True m ensure_next_insert[of v t] by (simp add: align_def N_def)
    next
      case (Some u)
      then have e: "ensure_shuffle_order_current (N t) = Some (N u)" using ensure_next_insert[of v t] by (simp add: N_def)
      show ?thesis unfolding align_def using True m e Some
        by (auto simp: N_def split: option.split bind_split)
    qed
  qed (simp add: align_def N_def)
  have f: "finish (i, N t) = map_option N (finish (i, t))" for i t
    by (auto simp: finish_def N_def split: bind_split)
  have c: "compute_auto_advance_index index (N t) = map_option (\<lambda>(i, t). (i, N t)) (compute_auto_advance_index index t)" for t
    unfolding N_def by (rule compute_next_insert)
  have "(N s)\<lparr>queue_revision := queue_revision (N s) + 1\<rparr> = N s0" by (simp add: N_def s0_def)
  then have "arm_next_track_for_audio index (N s) = do { t \<leftarrow> align s0; r \<leftarrow> compute_auto_advance_index index (N t); finish r }"
    by (simp add: arm a bind_map_option comp_def)
  also have "\<dots> = map_option N (arm_next_track_for_audio index s)"
  proof (cases "align s0")
    case (Some t)
    then show ?thesis unfolding arm s0_def[symmetric] c
      by (cases "compute_auto_advance_index index t") (auto simp: f)
  qed (simp add: arm s0_def[symmetric])
  finally show ?thesis by (simp add: N_def)
qed

lemma resize_inv:
  assumes "player_inv (s\<lparr>queue_next_insert_index := v\<rparr>)" and "playlist_count s \<le> n"
    and "core_eq t (s\<lparr>playlist := resize n None (playlist s)\<rparr>)"
  shows "player_inv (t\<lparr>queue_next_insert_index := v\<rparr>)"
  using assms by (auto simp: core_eq_def player_inv_def list_ok_def queue_ok_def bag_ok_def aligned_def bag_live_def)

text \<open>After the splice: the bag follows, and arming restores the invariant.\<close>

lemma splice_then_arm:
  assumes inv: "player_inv (s\<lparr>queue_next_insert_index := v\<rparr>)" and ix: "0 \<le> playlist_index s" and c: "0 < c"
    and pos: "pos = playlist_index s + 1 + k" "0 \<le> k" "k \<le> queued_pending_count s"
    and t: "playlist_count t = playlist_count s + c" "playlist_index t = playlist_index s"
      "queued_pending_count t = queued_pending_count s + c" "queue_next_insert_index t = w"
      "int (length (playlist t)) = playlist_count s + c"
      "\<And>l. playlist_lazy_sort_order t = Some l \<Longrightarrow> int (length l) = playlist_count s + c"
      "shuffle_order t = shuffle_order s" "shuffle_order_count t = shuffle_order_count s"
      "shuffle_pos t = shuffle_pos s" "pending_shuffle_order t = pending_shuffle_order s" "play_mode t = play_mode s"
  obtains s' where "do { t \<leftarrow> queue_shuffle_insert pos c t;
       let t = emit (Song_count (playlist_index t + 1) (playlist_count t)) t;
       t \<leftarrow> arm_next_track_for_audio (playlist_index t) t;
       Some (emit (Added_to_queue c) t) } = Some s'"
    and "playlist_index s' = playlist_index s" and "playlist_count s' = playlist_count s + c"
    and "queued_pending_count s' = queued_pending_count s + c" and "queue_next_insert_index s' = w"
    and "playlist s' = playlist t"
    and "player_inv (s'\<lparr>queue_next_insert_index := playlist_index s' + 1 + queued_pending_count s'\<rparr>)"
proof -
  let ?n = "playlist_count s" and ?q = "queued_pending_count s"
  have ok: "bag_ok s" "aligned s" "0 \<le> ?q" "playlist_index s + ?q < ?n"
    using inv ix by (auto simp: player_inv_def list_ok_def queue_ok_def bag_ok_def aligned_def bag_live_def split: if_splits)
  have bag: "bag_ok t" using ok t ix by (auto simp: bag_ok_def)
  have al: "play_mode t = PLAY_MODE_SHUFFLE \<Longrightarrow> shuffle_order t \<noteq> None \<Longrightarrow>
      shuffle_order_count t = playlist_count t - c \<and> shuffle_pos t + ?q < playlist_count t - c \<and>
      block_at (the (shuffle_order t)) (shuffle_pos t) (playlist_index t) ?q"
    using ok(2) t ix by (simp add: aligned_def)
  obtain u where u: "queue_shuffle_insert pos c t = Some u" "shuffle_frame t u" "bag_ok u" "aligned u"
    using queue_shuffle_insert_ok[OF bag c _ _ pos(2,3) _ _ al] t ok ix pos(1) by auto
  note f = shuffle_frameD[OF u(2)]
  define x where "x = emit (Song_count (playlist_index u + 1) (playlist_count u)) u"
  define y where "y = x\<lparr>queue_next_insert_index := playlist_index x + 1 + queued_pending_count x\<rparr>"
  have "list_ok y" using ok t ix c by (auto simp: y_def x_def list_ok_def emit_def f)
  moreover have "queue_ok y" using ok t ix c by (auto simp: y_def x_def queue_ok_def f)
  moreover have "bag_ok y" "aligned y"
    using u(3,4) by (auto simp: y_def x_def bag_ok_def aligned_def emit_def)
  ultimately have "ready y" using player_inv_ready by (simp add: player_inv_def)
  moreover have "playlist_index y = playlist_index x" by (simp add: y_def)
  ultimately obtain z where z: "arm_next_track_for_audio (playlist_index x) y = Some z" "arm_frame y z" "player_inv z"
    by (rule arm_ok)
  have "y\<lparr>queue_next_insert_index := w\<rparr> = x" by (simp add: y_def x_def f t emit_def)
  then have arm: "arm_next_track_for_audio (playlist_index x) x = Some (z\<lparr>queue_next_insert_index := w\<rparr>)"
    using arm_next_insert[of _ w y] z(1) by simp
  note g = arm_frameD[OF z(2)]
  let ?s' = "emit (Added_to_queue c) (z\<lparr>queue_next_insert_index := w\<rparr>)"
  have "core_eq (?s'\<lparr>queue_next_insert_index := playlist_index ?s' + 1 + queued_pending_count ?s'\<rparr>) z"
    using g(3,6,7) by (simp add: core_eq_def emit_def y_def)
  then have pi: "player_inv (?s'\<lparr>queue_next_insert_index := playlist_index ?s' + 1 + queued_pending_count ?s'\<rparr>)"
    using z(3) core_eq_inv by blast
  show thesis
    by (rule that[of ?s']) (use u(1) arm pi g t f in \<open>simp_all add: x_def[symmetric] y_def\<close>, simp_all add: x_def f t emit_def)
qed

lemma queue_insert_ok:
  assumes inv: "player_inv (s\<lparr>queue_next_insert_index := v\<rparr>)" and ix: "0 \<le> playlist_index s"
    and c: "copies \<noteq> []"
    and pos: "pos = (if 0 \<le> queue_next_insert_index s \<and> queue_next_insert_index s \<le> playlist_count s
                 then queue_next_insert_index s else playlist_index s + 1)"
      "pos = playlist_index s + 1 + k" "0 \<le> k" "k \<le> queued_pending_count s"
  obtains s' where "queue_insert copies s = Some s'" and "playlist_index s' = playlist_index s"
    and "(playlist_count s' = playlist_count s \<and> queue_next_insert_index s' = queue_next_insert_index s \<and>
          player_inv (s'\<lparr>queue_next_insert_index := v\<rparr>)) \<or>
         (playlist_count s' = playlist_count s + int (length copies) \<and>
          queued_pending_count s' = queued_pending_count s + int (length copies) \<and>
          queue_next_insert_index s' = pos + int (length copies) \<and>
          player_inv (s'\<lparr>queue_next_insert_index := playlist_index s' + 1 + queued_pending_count s'\<rparr>) \<and>
          playlist s' = take (nat pos) (playlist s) @ copies @ take (nat (playlist_count s - pos)) (drop (nat pos) (playlist s)))"
proof -
  let ?c = "int (length copies)" and ?n = "playlist_count s" and ?q = "queued_pending_count s"
  have ok: "list_ok s" "bag_ok s" "aligned s" "0 \<le> ?q" "playlist_index s + ?q < ?n" "playlist_index s < ?n"
    using inv ix by (auto simp: player_inv_def list_ok_def queue_ok_def bag_ok_def aligned_def bag_live_def split: if_splits)
  define m where "m = snd (malloc_ok s)"
  define s1 where "s1 = m\<lparr>playlist := resize (playlist_count m + ?c) None (playlist m)\<rparr>"
  have n1: "playlist_count s1 = ?n" "playlist_index s1 = playlist_index s" "playlist_lazy_sort_order s1 = playlist_lazy_sort_order s"
    by (simp_all add: s1_def m_def malloc_ok_def)
  define r where "r = (if playlist_lazy_sort_order s1 = None then (True, s1) else malloc_ok s1)"
  define s2 where "s2 = snd r"
  have core12: "core_eq s1 (s\<lparr>playlist := resize (?n + ?c) None (playlist s)\<rparr>)"
      "core_eq s2 (s\<lparr>playlist := resize (?n + ?c) None (playlist s)\<rparr>)"
    by (auto simp: s2_def r_def s1_def m_def malloc_ok_def core_eq_def)
  have inv12: "player_inv (s2\<lparr>queue_next_insert_index := v\<rparr>)"
    by (rule resize_inv[OF inv _ core12(2)]) simp
  have unf: "queue_insert copies s = (if \<not> fst (malloc_ok s) then Some m else if \<not> fst r then Some s2
      else do {
        s \<leftarrow> queue_splice copies pos (s2\<lparr>playlist_lazy_sort_order :=
               map_option (resize (playlist_count s2 + ?c) 0) (playlist_lazy_sort_order s2)\<rparr>);
        s \<leftarrow> queue_shuffle_insert pos ?c s;
        let s = emit (Song_count (playlist_index s + 1) (playlist_count s)) s;
        s \<leftarrow> arm_next_track_for_audio (playlist_index s) s;
        Some (emit (Added_to_queue ?c) s) })"
    unfolding queue_insert_def Let_def case_prod_unfold pos(1)[symmetric] m_def[symmetric] s1_def[symmetric]
      r_def[symmetric] s2_def[symmetric] ..
  show thesis
  proof (cases "fst (malloc_ok s) \<and> fst r")
    case False
    then have "queue_insert copies s = Some (snd (malloc_ok s)) \<or> queue_insert copies s = Some s2"
      unfolding unf m_def by auto
    moreover have "player_inv ((snd (malloc_ok s))\<lparr>queue_next_insert_index := v\<rparr>)"
      using inv core_eq_inv[of "(snd (malloc_ok s))\<lparr>queue_next_insert_index := v\<rparr>" "s\<lparr>queue_next_insert_index := v\<rparr>"]
      by (simp add: core_eq_def malloc_ok_def)
    moreover have "playlist_index (snd (malloc_ok s)) = playlist_index s" "playlist_count (snd (malloc_ok s)) = ?n"
      "queue_next_insert_index (snd (malloc_ok s)) = queue_next_insert_index s" by (simp_all add: malloc_ok_def)
    moreover have "playlist_index s2 = playlist_index s" "playlist_count s2 = ?n"
      "queue_next_insert_index s2 = queue_next_insert_index s" using core12 by (simp_all add: core_eq_def)
    ultimately show ?thesis using inv12 that by metis
  next
    case True
    define s3 where "s3 = s2\<lparr>playlist_lazy_sort_order := map_option (resize (playlist_count s2 + ?c) 0) (playlist_lazy_sort_order s2)\<rparr>"
    have f2: "playlist_count s2 = ?n" "playlist_lazy_sort_order s2 = playlist_lazy_sort_order s"
      using core12(2) by (simp_all add: core_eq_def)
    have nn: "0 \<le> ?n" using ok ix by simp
    have f3: "playlist_count s3 = ?n" "playlist s3 = resize (?n + ?c) None (playlist s)" "queued_pending_count s3 = ?q"
      "playlist_index s3 = playlist_index s" "shuffle_order s3 = shuffle_order s" "shuffle_order_count s3 = shuffle_order_count s"
      "shuffle_pos s3 = shuffle_pos s" "pending_shuffle_order s3 = pending_shuffle_order s" "play_mode s3 = play_mode s"
      using core12(2) by (simp_all add: s3_def core_eq_def)
    have l3: "list_ok s3" using ok(1) nn f3 by (auto simp: list_ok_def) (auto simp: s3_def f2)
    have p: "0 \<le> pos" "pos \<le> playlist_count s3" using pos ok ix f3 by auto
    have len: "length (playlist s3) = nat (playlist_count s3) + length copies" using nn by (simp add: f3 nat_add_distrib)
    have lol: "length l = nat (playlist_count s3) + length copies" if "playlist_lazy_sort_order s3 = Some l" for l
      using that nn unfolding f3(1) by (auto simp: s3_def f2 nat_add_distrib)
    have tk: "take (nat pos) (playlist s3) = take (nat pos) (playlist s)"
        "take (nat (?n - pos)) (drop (nat pos) (playlist s3)) = take (nat (?n - pos)) (drop (nat pos) (playlist s))"
    proof -
      have "take (nat ?n) (playlist s3) = take (nat ?n) (playlist s)"
        unfolding f3 using ok(1) by (intro take_resize) (auto simp: list_ok_def)
      moreover have "nat pos \<le> nat ?n" "nat (?n - pos) + nat pos = nat ?n" using p f3 by auto
      ultimately show "take (nat pos) (playlist s3) = take (nat pos) (playlist s)"
        "take (nat (?n - pos)) (drop (nat pos) (playlist s3)) = take (nat (?n - pos)) (drop (nat pos) (playlist s))"
        by (metis min_absorb1 take_take, metis take_drop)
    qed
    obtain lo' where splice: "queue_splice copies pos s3 = Some (s3\<lparr>
       playlist := take (nat pos) (playlist s) @ copies @ take (nat (?n - pos)) (drop (nat pos) (playlist s)),
       playlist_lazy_sort_order := lo', playlist_count := ?n + ?c,
       queued_pending_count := ?q + ?c, queue_next_insert_index := pos + ?c\<rparr>)"
      and lo': "\<forall>l. lo' = Some l \<longrightarrow> length l = nat ?n + length copies"
      using queue_splice_ok[OF l3 len lol p] unfolding f3(1,3) tk by blast
    define s4 where "s4 = s3\<lparr>
       playlist := take (nat pos) (playlist s) @ copies @ take (nat (?n - pos)) (drop (nat pos) (playlist s)),
       playlist_lazy_sort_order := lo', playlist_count := ?n + ?c,
       queued_pending_count := ?q + ?c, queue_next_insert_index := pos + ?c\<rparr>"
    have f4: "playlist_count s4 = ?n + ?c" "playlist_index s4 = playlist_index s" "queued_pending_count s4 = ?q + ?c"
      "queue_next_insert_index s4 = pos + ?c" "playlist_lazy_sort_order s4 = lo'"
      "shuffle_order s4 = shuffle_order s" "shuffle_order_count s4 = shuffle_order_count s"
      "shuffle_pos s4 = shuffle_pos s" "pending_shuffle_order s4 = pending_shuffle_order s" "play_mode s4 = play_mode s"
      by (simp_all add: s4_def f3)
    have "length (playlist s4) = nat ?n + length copies"
      using ok(1) p f3(1) by (simp add: s4_def list_ok_def min_def) auto
    then have l4: "int (length (playlist s4)) = ?n + ?c" "\<And>l. lo' = Some l \<Longrightarrow> int (length l) = ?n + ?c"
      using nn lo' by auto
    have l4': "\<And>l. playlist_lazy_sort_order s4 = Some l \<Longrightarrow> int (length l) = ?n + ?c" using l4(2) f4(5) by simp
    have c0: "0 < ?c" using c by simp
    obtain s' where s': "do { t \<leftarrow> queue_shuffle_insert pos ?c s4;
       let t = emit (Song_count (playlist_index t + 1) (playlist_count t)) t;
       t \<leftarrow> arm_next_track_for_audio (playlist_index t) t;
       Some (emit (Added_to_queue ?c) t) } = Some s'"
      "playlist_index s' = playlist_index s" "playlist_count s' = ?n + ?c" "queued_pending_count s' = ?q + ?c"
      "queue_next_insert_index s' = pos + ?c" "playlist s' = playlist s4"
      "player_inv (s'\<lparr>queue_next_insert_index := playlist_index s' + 1 + queued_pending_count s'\<rparr>)"
      by (rule splice_then_arm[OF inv ix c0 pos(2-4) f4(1,2,3,4) l4(1) l4' f4(6-10)])
    have "queue_insert copies s = Some s'"
      unfolding unf s3_def[symmetric] splice s4_def[symmetric] using True s'(1) by simp
    then show ?thesis by (rule that) (use s' in \<open>simp_all add: s4_def\<close>)
  qed
qed

lemma catch_up_idle: "\<not> track_advanced (audio s) \<Longrightarrow> catch_up s = Some s"
  by (simp add: catch_up_def audio_consume_track_advanced_def)

lemma alloc_core_inv:
  "t = s\<lparr>alloc_ok := a\<rparr> \<Longrightarrow> player_inv (s\<lparr>queue_next_insert_index := v\<rparr>) \<Longrightarrow> player_inv (t\<lparr>queue_next_insert_index := v\<rparr>)"
  using core_eq_inv[of "t\<lparr>queue_next_insert_index := v\<rparr>" "s\<lparr>queue_next_insert_index := v\<rparr>"] by (simp add: core_eq_def)

definition insert_pos :: "player \<Rightarrow> int" where
  "insert_pos s = (if 0 \<le> queue_next_insert_index s \<and> queue_next_insert_index s \<le> playlist_count s
                 then queue_next_insert_index s else playlist_index s + 1)"

text \<open>The three outcomes of adding: nothing added, spliced behind the current track, or a new queue.\<close>

definition added_nothing :: "int \<Rightarrow> player \<Rightarrow> player \<Rightarrow> bool" where
  "added_nothing v s s' \<longleftrightarrow> playlist_count s' = playlist_count s \<and> playlist_index s' = playlist_index s \<and>
     queue_next_insert_index s' = queue_next_insert_index s \<and> player_inv (s'\<lparr>queue_next_insert_index := v\<rparr>)"

definition added_behind :: "string option list \<Rightarrow> player \<Rightarrow> player \<Rightarrow> bool" where
  "added_behind paths s s' \<longleftrightarrow> 0 \<le> playlist_index s \<and> paths \<noteq> [] \<and> playlist_index s' = playlist_index s \<and>
     playlist_count s' = playlist_count s + int (length paths) \<and>
     queued_pending_count s' = queued_pending_count s + int (length paths) \<and>
     queue_next_insert_index s' = insert_pos s + int (length paths) \<and>
     player_inv (s'\<lparr>queue_next_insert_index := playlist_index s' + 1 + queued_pending_count s'\<rparr>) \<and>
     playlist s' = take (nat (insert_pos s)) (playlist s) @ paths @
       take (nat (playlist_count s - insert_pos s)) (drop (nat (insert_pos s)) (playlist s))"

definition added_fresh :: "string option list \<Rightarrow> player \<Rightarrow> player \<Rightarrow> bool" where
  "added_fresh paths s s' \<longleftrightarrow> playlist_index s < 0 \<and> player_inv s' \<and> playlist_index s' = 0 \<and> playlist s' = paths \<and>
     playlist_count s' = int (length paths) \<and> queued_pending_count s' = int (length paths) - 1"

lemma insert_pos_ok:
  assumes inv: "player_inv (s\<lparr>queue_next_insert_index := v\<rparr>)" and ix: "0 \<le> playlist_index s"
    and nx: "queue_next_insert_index s = v \<or> queue_next_insert_index s = playlist_index s + 1"
  obtains k where "insert_pos s = playlist_index s + 1 + k" "0 \<le> k" "k \<le> queued_pending_count s"
    "queue_next_insert_index s = v \<Longrightarrow> k = queued_pending_count s"
proof -
  let ?q = "queued_pending_count s"
  have q: "0 \<le> ?q" "playlist_index s + ?q < playlist_count s" using inv ix
    by (auto simp: player_inv_def list_ok_def queue_ok_def split: if_splits)
  have vq: "0 < ?q \<Longrightarrow> v = playlist_index s + 1 + ?q" "?q = 0 \<Longrightarrow> v = -1 \<or> v = 1 \<and> playlist_index s = 0 \<and> playlist_count s = 1"
    using inv by (auto simp: player_inv_def queue_ok_def)
  show thesis
  proof (cases "queue_next_insert_index s = v")
    case True
    then have "insert_pos s = playlist_index s + 1 + ?q"
      using vq q ix by (cases "0 < ?q") (auto simp: insert_pos_def)
    then show ?thesis using q that[of ?q] by auto
  next
    case False
    then have "insert_pos s = playlist_index s + 1 + 0" using nx q ix by (auto simp: insert_pos_def)
    then show ?thesis using q False that[of 0] by auto
  qed
qed

lemma add_many_core:
  assumes inv: "player_inv (s\<lparr>queue_next_insert_index := v\<rparr>)" and adv: "\<not> track_advanced (audio s)"
    and nx: "queue_next_insert_index s = v \<or> 0 \<le> playlist_index s \<and> queue_next_insert_index s = playlist_index s + 1 \<or>
      playlist_index s < 0"
  obtains s' where "gui_player_queue_add_many paths s = Some s'"
    and "added_nothing v s s' \<or> added_behind paths s s' \<or> added_fresh paths s s'"
proof -
  define m where "m = snd (malloc_ok s)"
  obtain c t where ct: "strdup_all paths m = (c, t)" by fastforce
  note sd = strdup_all_spec[OF ct]
  have m: "m = s\<lparr>alloc_ok := alloc_ok m\<rparr>" by (simp add: m_def malloc_ok_def)
  have t: "t = s\<lparr>alloc_ok := alloc_ok t\<rparr>"
    by (rule trans[OF conjunct1[OF sd]], subst m) simp
  have same: "added_nothing v s (s\<lparr>alloc_ok := a\<rparr>)" for a
    using alloc_core_inv[OF refl inv, of a] by (simp add: added_nothing_def)
  have unf: "gui_player_queue_add_many paths s = (
     if int (length paths) \<le> 0 then Some s
     else if INT_MAX - playlist_count s < int (length paths) \<or> INT_MAX - queued_pending_count s < int (length paths) then Some s
     else if \<not> fst (malloc_ok s) then Some m
     else (case c of None \<Rightarrow> Some t
          | Some copies \<Rightarrow> if \<not> gui_player_has_active_track t then queue_start copies t else queue_insert copies t))"
    using ct by (cases c) (simp_all add: gui_player_queue_add_many_def catch_up_idle[OF adv] Let_def case_prod_unfold m_def)
  show thesis
  proof (cases "paths = [] \<or> INT_MAX - playlist_count s < int (length paths) \<or> INT_MAX - queued_pending_count s < int (length paths) \<or>
      \<not> fst (malloc_ok s) \<or> c = None")
    case True
    then have "\<exists>u \<in> {s, m, t}. gui_player_queue_add_many paths s = Some u" unfolding unf by auto
    moreover have "added_nothing v s s" using inv by (simp add: added_nothing_def)
    moreover have "added_nothing v s m" by (subst m) (rule same)
    moreover have "added_nothing v s t" by (subst t) (rule same)
    ultimately show ?thesis using that by blast
  next
    case False
    then obtain copies where c: "c = Some copies" by auto
    then have cp: "copies = paths" "None \<notin> set paths" "paths \<noteq> []" using sd False by auto
    have run: "gui_player_queue_add_many paths s =
        (if \<not> gui_player_has_active_track t then queue_start paths t else queue_insert paths t)"
      unfolding unf using False c cp by auto
    have ft: "playlist_index t = playlist_index s" "playlist_count t = playlist_count s" "playlist t = playlist s"
      "queued_pending_count t = queued_pending_count s" "queue_next_insert_index t = queue_next_insert_index s"
      by (subst t, simp)+
    have act: "gui_player_has_active_track t \<longleftrightarrow> 0 \<le> playlist_index s"
      using inv ft by (auto simp: gui_player_has_active_track_def player_inv_def list_ok_def)
    show ?thesis
    proof (cases "0 \<le> playlist_index s")
      case no: False
      obtain s' where s': "queue_start paths t = Some s'" "player_inv s'" "playlist_index s' = 0" "playlist s' = paths"
          "playlist_count s' = int (length paths)" "queued_pending_count s' = int (length paths) - 1"
        by (rule queue_start_ok[OF cp(2,3)])
      then show ?thesis using run act no that[of s'] by (simp add: added_fresh_def)
    next
      case True
      have invt: "player_inv (t\<lparr>queue_next_insert_index := v\<rparr>)" by (rule alloc_core_inv[OF t inv])
      obtain k where k: "insert_pos t = playlist_index t + 1 + k" "0 \<le> k" "k \<le> queued_pending_count t"
        by (rule insert_pos_ok[OF invt]) (use True nx ft in auto)
      obtain s' where s': "queue_insert paths t = Some s'" "playlist_index s' = playlist_index t"
        "(playlist_count s' = playlist_count t \<and> queue_next_insert_index s' = queue_next_insert_index t \<and>
          player_inv (s'\<lparr>queue_next_insert_index := v\<rparr>)) \<or>
         (playlist_count s' = playlist_count t + int (length paths) \<and>
          queued_pending_count s' = queued_pending_count t + int (length paths) \<and>
          queue_next_insert_index s' = insert_pos t + int (length paths) \<and>
          player_inv (s'\<lparr>queue_next_insert_index := playlist_index s' + 1 + queued_pending_count s'\<rparr>) \<and>
          playlist s' = take (nat (insert_pos t)) (playlist t) @ paths @
             take (nat (playlist_count t - insert_pos t)) (drop (nat (insert_pos t)) (playlist t)))"
        by (rule queue_insert_ok[OF invt _ cp(3) insert_pos_def k]) (use True ft in auto)
      have ip: "insert_pos t = insert_pos s" by (simp add: insert_pos_def ft)
      have "gui_player_queue_add_many paths s = Some s'" using run act True s'(1) by simp
      then show ?thesis by (rule that)
        (use s'(2,3) True cp(3) in \<open>auto simp: added_nothing_def added_behind_def ft ip\<close>)
    qed
  qed
qed

text \<open>Adding tracks keeps the invariant, after catching up with the engine.\<close>

lemma inv_next_self: "queue_next_insert_index s = v \<Longrightarrow> player_inv (s\<lparr>queue_next_insert_index := v\<rparr>) = player_inv s"
  by auto

lemma added_inv:
  assumes inv: "player_inv s" and out: "added_nothing (queue_next_insert_index s) s s' \<or> added_behind paths s s' \<or> added_fresh paths s s'"
  shows "player_inv s'"
  using out
proof (elim disjE)
  assume "added_nothing (queue_next_insert_index s) s s'"
  then show ?thesis using inv_next_self[of s'] by (simp add: added_nothing_def)
next
  assume b: "added_behind paths s s'"
  then have "0 \<le> playlist_index s" by (simp add: added_behind_def)
  then obtain k where "insert_pos s = playlist_index s + 1 + k" "k = queued_pending_count s"
    using insert_pos_ok[of "queue_next_insert_index s" s] inv by auto
  then have "queue_next_insert_index s' = playlist_index s' + 1 + queued_pending_count s'"
    using b by (simp add: added_behind_def)
  then show ?thesis using b inv_next_self[of s'] by (simp add: added_behind_def)
qed (simp add: added_fresh_def)

lemma add_many_step:
  assumes "player_inv s"
  obtains t s' where "catch_up s = Some t" and "player_inv t" and "gui_player_queue_add_many paths s = Some s'"
    and "player_inv s'"
    and "added_nothing (queue_next_insert_index t) t s' \<or> added_behind paths t s' \<or> added_fresh paths t s'"
proof -
  obtain t where t: "catch_up s = Some t" "player_inv t" "\<not> track_advanced (audio t)" by (rule catch_up_ok[OF assms])
  have e: "gui_player_queue_add_many paths s = gui_player_queue_add_many paths t"
    using t(1) catch_up_idle[OF t(3)] by (simp add: gui_player_queue_add_many_def)
  have i: "player_inv (t\<lparr>queue_next_insert_index := queue_next_insert_index t\<rparr>)" using t(2) by simp
  obtain s' where s': "gui_player_queue_add_many paths t = Some s'"
    "added_nothing (queue_next_insert_index t) t s' \<or> added_behind paths t s' \<or> added_fresh paths t s'"
    by (rule add_many_core[OF i t(3)]) auto
  then show thesis using that[OF t(1,2)] e added_inv[OF t(2)] by metis
qed

lemma queue_add_song_ok:
  assumes "player_inv s"
  obtains s' where "queue_add_song path s = Some s'" and "player_inv s'"
proof (cases "path \<noteq> None \<and> path \<noteq> Some ''''")
  case True
  obtain s' where "gui_player_queue_add_many [path] s = Some s'" "player_inv s'" by (rule add_many_step[OF assms])
  then show ?thesis using True by (intro that[of s']) (auto simp: queue_add_song_def)
next
  case False
  then show ?thesis using assms by (intro that[of s]) (auto simp: queue_add_song_def)
qed

lemma play_next_ok:
  assumes inv: "player_inv s"
  obtains s' where "gui_player_queue_play_next path s = Some s'" and "player_inv s'"
proof -
  obtain t where t: "catch_up s = Some t" "player_inv t" "\<not> track_advanced (audio t)" by (rule catch_up_ok[OF inv])
  let ?v = "queue_next_insert_index t" and ?u = "t\<lparr>queue_next_insert_index := playlist_index t + 1\<rparr>"
  have iu: "player_inv (?u\<lparr>queue_next_insert_index := ?v\<rparr>)" "\<not> track_advanced (audio ?u)" using t by simp_all
  have "\<exists>w. queue_add_song path ?u = Some w \<and>
      (added_nothing ?v ?u w \<or> added_behind [path] ?u w \<or> added_fresh [path] ?u w)"
  proof (cases "path \<noteq> None \<and> path \<noteq> Some ''''")
    case True
    obtain w where "gui_player_queue_add_many [path] ?u = Some w"
      "added_nothing ?v ?u w \<or> added_behind [path] ?u w \<or> added_fresh [path] ?u w"
      by (rule add_many_core[OF iu]) auto
    then show ?thesis using True by (auto simp: queue_add_song_def)
  next
    case False
    then show ?thesis using iu(1) by (auto simp: queue_add_song_def added_nothing_def)
  qed
  then obtain w where w: "queue_add_song path ?u = Some w"
    and out: "added_nothing ?v ?u w \<or> added_behind [path] ?u w \<or> added_fresh [path] ?u w" by blast
  let ?s' = "if playlist_count w = playlist_count t then w\<lparr>queue_next_insert_index := ?v\<rparr>
     else w\<lparr>queue_next_insert_index := playlist_index w + 1 + queued_pending_count w\<rparr>"
  have run: "gui_player_queue_play_next path s = Some ?s'"
    using t(1) w by (simp add: gui_player_queue_play_next_def Let_def)
  have "player_inv ?s'" using out
  proof (elim disjE)
    assume "added_fresh [path] ?u w"
    then have f: "player_inv w" "playlist_index w = 0" "playlist_count w = 1" "queued_pending_count w = 0" "playlist_index t < 0"
      by (auto simp: added_fresh_def)
    have "?v = -1" using t(2) f(5) by (auto simp: player_inv_def queue_ok_def split: if_splits)
    then show ?thesis using f
      by (auto simp: player_inv_def list_ok_def queue_ok_def bag_ok_def aligned_def bag_live_def)
  qed (auto simp: added_nothing_def added_behind_def)
  then show thesis using that[OF run] by blast
qed

section \<open>Removing\<close>

lemma remove_slot_ok:
  assumes l: "list_ok s" and p: "0 \<le> pos" "pos < playlist_count s"
  obtains pl lo where "remove_slot pos s = Some (s\<lparr>playlist := pl, playlist_lazy_sort_order := lo,
       playlist_count := playlist_count s - 1\<rparr>)"
    and "playlist_count s - 1 \<le> int (length pl)" and "\<And>l. lo = Some l \<Longrightarrow> playlist_count s - 1 \<le> int (length l)"
    and "take (nat (playlist_count s - 1)) pl
           = take (nat pos) (playlist s) @ drop (Suc (nat pos)) (take (nat (playlist_count s)) (playlist s))"
    and "(lo = None) = (playlist_lazy_sort_order s = None)"
proof -
  define n where "n = nat (playlist_count s)"
  define q where "q = nat pos"
  have nq: "playlist_count s = int n" "pos = int q" "q < n" using l p by (auto simp: n_def q_def list_ok_def)
  have len: "n \<le> length (playlist s)" "\<And>l. playlist_lazy_sort_order s = Some l \<Longrightarrow> n \<le> length l"
    using l nq by (auto simp: list_ok_def)
  have get: "\<exists>x. aget (playlist s) pos = Some x" using len nq by (auto simp: aget_def)
  obtain pl where pl: "memmove (playlist s) (int q) (int q + 1) (int n - int q - 1) = Some pl"
      "length pl = length (playlist s)" "take (n - 1) pl = take q (playlist s) @ drop (Suc q) (take n (playlist s))"
    using close_gap[OF nq(3) len(1)] by blast
  have k: "nat (int n - 1) = n - 1" by simp
  show thesis
  proof (cases "playlist_lazy_sort_order s")
    case None
    show ?thesis
      by (rule that[where pl = pl and lo = None]) (use get pl None len in \<open>auto simp: remove_slot_def nq k\<close>)
  next
    case (Some l)
    obtain l' where l': "memmove l (int q) (int q + 1) (int n - int q - 1) = Some l'" "length l' = length l"
      using close_gap[OF nq(3) len(2)[OF Some]] by blast
    show ?thesis
      by (rule that[where pl = pl and lo = "Some l'"]) (use get pl Some l' len in \<open>auto simp: remove_slot_def nq k\<close>)
  qed
qed

lemma queue_remove_ok:
  assumes inv: "player_inv s"
  obtains s' where "queue_remove_song_at_offset offset s = Some s'" and "player_inv s'"
    and "0 \<le> offset \<Longrightarrow> offset < queued_pending_count s \<Longrightarrow> queued_pending_count s' = queued_pending_count s - 1 \<and>
       playlist_count s' = playlist_count s - 1 \<and> playlist_index s' = playlist_index s \<and>
       take (nat (playlist_count s')) (playlist s') = take (nat (playlist_index s + 1 + offset)) (playlist s) @
         drop (Suc (nat (playlist_index s + 1 + offset))) (take (nat (playlist_count s)) (playlist s))"
proof (cases "offset < 0 \<or> queued_pending_count s \<le> offset \<or> playlist_index s < 0")
  case True
  have "queued_pending_count s = 0" if "playlist_index s < 0"
    using inv that by (auto simp: player_inv_def queue_ok_def split: if_splits)
  then show ?thesis using True inv by (intro that[of s]) (auto simp: queue_remove_song_at_offset_def)
next
  case False
  let ?pos = "playlist_index s + 1 + offset" and ?q = "queued_pending_count s"
  have ok: "list_ok s" "queue_ok s" "bag_ok s" "aligned s" using inv by (auto simp: player_inv_def)
  have q: "playlist_index s + ?q < playlist_count s" "0 < ?q" using ok(2) False by (auto simp: queue_ok_def split: if_splits)
  have p: "playlist_index s < ?pos" "0 \<le> ?pos" "?pos < playlist_count s" using False q by auto
  obtain s1 where s1: "queue_shuffle_remove ?pos s = Some s1" "shuffle_frame s s1"
    and bag: "\<And>t. shuffle_order t = shuffle_order s1 \<Longrightarrow> shuffle_order_count t = shuffle_order_count s1 \<Longrightarrow>
          shuffle_pos t = shuffle_pos s1 \<Longrightarrow> pending_shuffle_order t = pending_shuffle_order s1 \<Longrightarrow>
          playlist_index t = playlist_index s \<Longrightarrow> play_mode t = play_mode s \<Longrightarrow>
          playlist_count t = playlist_count s - 1 \<Longrightarrow> queued_pending_count t = ?q - 1 \<Longrightarrow> bag_ok t \<and> aligned t"
    using queue_shuffle_remove_ok[OF ok(3) p _ _ ok(4) refl] False q by auto
  note f = shuffle_frameD[OF s1(2)]
  have l1: "list_ok s1" using ok(1) shuffle_frame_list_ok[OF s1(2)] by simp
  obtain pl lo where r: "remove_slot ?pos s1 = Some (s1\<lparr>playlist := pl, playlist_lazy_sort_order := lo,
       playlist_count := playlist_count s1 - 1\<rparr>)"
    "playlist_count s1 - 1 \<le> int (length pl)" "\<And>l. lo = Some l \<Longrightarrow> playlist_count s1 - 1 \<le> int (length l)"
    "take (nat (playlist_count s1 - 1)) pl
           = take (nat ?pos) (playlist s1) @ drop (Suc (nat ?pos)) (take (nat (playlist_count s1)) (playlist s1))"
    by (rule remove_slot_ok[OF l1, of ?pos]) (use p f(2) in auto)
  define x where "x = emit (Song_count (playlist_index s + 1) (playlist_count s - 1))
     (s1\<lparr>playlist := pl, playlist_lazy_sort_order := lo, playlist_count := playlist_count s - 1, queued_pending_count := ?q - 1,
       queue_next_insert_index := (if 0 < ?q - 1 then playlist_index s + 1 + (?q - 1) else -1)\<rparr>)"
  have fx: "playlist_index x = playlist_index s" "playlist_count x = playlist_count s - 1" "queued_pending_count x = ?q - 1"
    "playlist x = pl" by (simp_all add: x_def f)
  have "bag_ok x \<and> aligned x" by (rule bag) (simp_all add: x_def f emit_def)
  moreover have "list_ok x" using r(2,3) ok(1) q f False by (auto simp: x_def list_ok_def emit_def)
  moreover have "queue_ok x" using q False f by (auto simp: x_def queue_ok_def)
  ultimately have "ready x" using player_inv_ready by (simp add: player_inv_def)
  then obtain z where z: "arm_next_track_for_audio (playlist_index s) x = Some z" "arm_frame x z" "player_inv z"
    using arm_ok fx(1) by metis
  note g = arm_frameD[OF z(2)]
  have "queue_remove_song_at_offset offset s = Some (emit (Info_toast ''Removed from queue'') z)"
    using False s1(1) r(1) z(1) by (cases "1 < ?q") (simp_all add: queue_remove_song_at_offset_def Let_def x_def f)
  then show ?thesis by (rule that) (use z(3) g fx r(4) f in auto)
qed

text \<open>Clearing the queued block ends, whatever its size.\<close>

lemma queue_clear_ok:
  assumes "player_inv s"
  obtains s' where "queue_clear_loop s = Some s'" and "player_inv s'" and "queued_pending_count s' = 0"
    and "playlist_index s' = playlist_index s"
    and "playlist_count s' = playlist_count s - queued_pending_count s"
proof -
  have "\<exists>s'. queue_clear_loop s = Some s' \<and> player_inv s' \<and> queued_pending_count s' = 0 \<and> playlist_index s' = playlist_index s \<and>
      playlist_count s' = playlist_count s - queued_pending_count s"
    using assms
  proof (induction "nat (queued_pending_count s)" arbitrary: s)
    case 0
    then have "queued_pending_count s = 0" by (auto simp: player_inv_def queue_ok_def)
    then show ?case using 0 by (simp add: queue_clear_loop.simps)
  next
    case (Suc m)
    then have q: "0 < queued_pending_count s" by simp
    obtain t where t: "queue_remove_song_at_offset (queued_pending_count s - 1) s = Some t" "player_inv t"
      "0 \<le> queued_pending_count s - 1 \<Longrightarrow> queued_pending_count s - 1 < queued_pending_count s \<Longrightarrow>
         queued_pending_count t = queued_pending_count s - 1 \<and> playlist_count t = playlist_count s - 1 \<and> playlist_index t = playlist_index s"
      by (rule queue_remove_ok[OF Suc.prems, of "queued_pending_count s - 1"]) blast
    have t3: "queued_pending_count t = queued_pending_count s - 1" "playlist_count t = playlist_count s - 1" "playlist_index t = playlist_index s"
      using t(3) q by auto
    then have "m = nat (queued_pending_count t)" using Suc.hyps(2) by simp
    from Suc.hyps(1)[OF this t(2)] show ?case using q t(1) t3 by (simp add: queue_clear_loop.simps[of s])
  qed
  then show thesis using that by blast
qed

end
