(* ===== verification/Player_Edit_Inv.thy ===== *)
theory Player_Edit_Inv
  imports Player_Queue_Inv
begin

text \<open>
  The displayed order and the operations that edit it: materialising the display order,
  moving, removing and selecting rows, clearing the queue and restarting from a row.
\<close>

section \<open>The displayed order\<close>

text \<open>
  \<open>shows_queue s x\<close>: the snapshot \<open>x\<close> lists every slot once, its cursor is on the current track
  and the queued block follows it.
\<close>

definition shows_queue :: "player \<Rightarrow> snapshot \<Rightarrow> bool" where
  "shows_queue s x \<longleftrightarrow> snap_count x = playlist_count s \<and> snap_revision x = queue_revision s \<and>
     (if playlist_count s = 0 then snap_order x = None \<and> snap_current x = -1
      else (\<exists>order. snap_order x = Some order \<and> permutation_upto (playlist_count s) order \<and>
        -1 \<le> snap_current x \<and> snap_current x + queued_pending_count s < playlist_count s \<and>
        (0 \<le> playlist_index s \<longrightarrow> block_at order (snap_current x) (playlist_index s) (queued_pending_count s)) \<and>
        (play_mode s = PLAY_MODE_SHUFFLE \<longrightarrow> bag_live s \<and> order = take (nat (playlist_count s)) (the (shuffle_order s)) \<and>
           snap_current x = shuffle_pos s) \<and>
        (play_mode s \<noteq> PLAY_MODE_SHUFFLE \<longrightarrow> order = [0..playlist_count s - 1] \<and> snap_current x = playlist_index s)))"

lemma block_at_identity: "0 \<le> p \<Longrightarrow> p + q < n \<Longrightarrow> block_at [0..n - 1] p p q"
  by (auto simp: block_at_def)

lemma malloc_frame: "shuffle_frame s (snd (malloc_ok s))" "player_inv (snd (malloc_ok s)) = player_inv s"
  by (simp_all add: malloc_ok_def shuffle_frame_def)

lemma shows_queue_alloc [simp]: "shows_queue (s\<lparr>alloc_ok := a\<rparr>) x = shows_queue s x"
  by (simp add: shows_queue_def)

lemma snapshot_ok:
  assumes inv: "player_inv s"
  obtains r s' where "gui_player_queue_snapshot s = Some (r, s')" and "shuffle_frame s s'" and "player_inv s'"
    and "\<forall>x. r = Some x \<longrightarrow> shows_queue s' x"
    and "bag_live s \<longrightarrow> shuffle_order s' = shuffle_order s \<and> shuffle_pos s' = shuffle_pos s"
proof -
  let ?n = "playlist_count s" and ?m = "snd (malloc_ok s)"
  define snap where "snap = \<lparr>snap_order = None, snap_count = playlist_count s, snap_current = playlist_index s,
                  snap_revision = queue_revision s\<rparr>"
  have n: "0 \<le> ?n" using inv by (auto simp: player_inv_def list_ok_def)
  have fm: "playlist_count ?m = ?n" "play_mode ?m = play_mode s" by (simp_all add: malloc_ok_def)
  consider (zero) "?n = 0" | (oom) "?n \<noteq> 0" "\<not> fst (malloc_ok s)"
    | (shuf) "0 < ?n" "fst (malloc_ok s)" "play_mode s = PLAY_MODE_SHUFFLE"
    | (plain) "0 < ?n" "fst (malloc_ok s)" "play_mode s \<noteq> PLAY_MODE_SHUFFLE" using n by linarith
  then show thesis
  proof cases
    case zero
    have "gui_player_queue_snapshot s = Some (Some snap, s)"
      using zero by (simp add: gui_player_queue_snapshot_def snap_def)
    then show ?thesis by (rule that) (use inv zero in \<open>auto simp: shows_queue_def snap_def player_inv_def list_ok_def\<close>)
  next
    case oom
    then have "gui_player_queue_snapshot s = Some (None, ?m)"
      by (simp add: gui_player_queue_snapshot_def case_prod_unfold)
    then show ?thesis by (rule that) (use malloc_frame[of s] inv in \<open>auto simp: malloc_ok_def\<close>)
  next
    case shuf
    have invm: "player_inv ?m" using malloc_frame inv by simp
    obtain t where t: "ensure_shuffle_order_current ?m = Some t" "shuffle_frame ?m t" "player_inv t"
      "bag_live ?m \<Longrightarrow> t = ?m"
      and none: "\<not> bag_live t \<Longrightarrow> shuffle_order t = None" by (rule ensure_inv[OF invm]) blast
    have keep: "bag_live s \<longrightarrow> shuffle_order t = shuffle_order s \<and> shuffle_pos t = shuffle_pos s"
      using t(4) by (auto simp: malloc_ok_def)
    note f = shuffle_frameD[OF shuffle_frame_trans[OF malloc_frame(1) t(2)]]
    have fr: "shuffle_frame s t" using shuffle_frame_trans[OF malloc_frame(1) t(2)] .
    show ?thesis
    proof (cases "bag_live t")
      case False
      then have "gui_player_queue_snapshot s = Some (None, t)"
        using shuf t(1) none by (simp add: gui_player_queue_snapshot_def case_prod_unfold Let_def fm)
      then show ?thesis by (rule that) (use t(3) fr keep in auto)
    next
      case True
      then obtain order where o: "shuffle_order t = Some order" "shuffle_order_count t = playlist_count t"
        by (auto simp: bag_live_def)
      have b: "bag_of_size ?n order" "-1 \<le> shuffle_pos t" using t(3) o f(2) by (auto simp: player_inv_def bag_ok_def)
      let ?x = "snap\<lparr>snap_order := Some (take (nat ?n) order), snap_current := shuffle_pos t\<rparr>"
      have run: "gui_player_queue_snapshot s = Some (Some ?x, t)"
        using shuf t(1) o b(1) f(2)
        by (simp add: gui_player_queue_snapshot_def case_prod_unfold Let_def fm memcpy_out_def bag_of_size_def snap_def)
      have al: "aligned t" "queue_ok t" using t(3) by (auto simp: player_inv_def)
      have cur: "shuffle_pos t + queued_pending_count t < ?n"
        using al o shuf f(2,9) by (cases "0 \<le> playlist_index t") (auto simp: aligned_def queue_ok_def split: if_splits)
      have "shows_queue t ?x"
        using shuf b cur al(1) o True f(2,9,8) unfolding shows_queue_def
        by (auto simp: snap_def bag_of_size_def aligned_def block_at_take)
      then show ?thesis using that[OF run fr t(3)] keep by auto
    qed
  next
    case plain
    let ?x = "snap\<lparr>snap_order := Some [0..?n - 1]\<rparr>"
    have run: "gui_player_queue_snapshot s = Some (Some ?x, ?m)"
      using plain by (simp add: gui_player_queue_snapshot_def case_prod_unfold Let_def fm identity_fill snap_def)
    have fx: "queued_pending_count ?m = queued_pending_count s" "playlist_index ?m = playlist_index s"
      "queue_revision ?m = queue_revision s" by (simp_all add: malloc_ok_def)
    have cur: "-1 \<le> playlist_index s" "playlist_index s + queued_pending_count s < ?n"
      using inv plain by (auto simp: player_inv_def list_ok_def queue_ok_def split: if_splits)
    then have "shows_queue ?m ?x"
      using plain block_at_identity[of "playlist_index s" "queued_pending_count s" ?n]
      by (auto simp: shows_queue_def snap_def fm fx)
    then show ?thesis using that[OF run] malloc_frame[of s] inv by (auto simp: malloc_ok_def)
  qed
qed

section \<open>Materialising\<close>

lemma gather_ok:
  assumes "permutation_upto n order" and "n \<le> int (length src)" and "length dst = nat n" and "0 \<le> n"
  shows "gather src order n dst = Some (map (\<lambda>j. src ! nat j) order)"
proof -
  have len: "length order = nat n" using permutation_upto_length[OF assms(1)] .
  let ?g = "\<lambda>j. src ! nat j"
  let ?I = "\<lambda>i ds. length ds = nat n \<and> (\<forall>k < nat i. ds ! k = ?g (order ! k))"
  let ?f = "\<lambda>i dst. do { j \<leftarrow> aget order i; v \<leftarrow> aget src j; aset dst i v }"
  have "\<exists>s'. for_loop 0 n ?f dst = Some s' \<and> ?I n s'"
  proof (rule for_loop_rule[where I = ?I])
    fix i ds assume i: "0 \<le> i" "i < n" and I: "?I i ds"
    have k: "nat i < length order" using i len by simp
    have j: "0 \<le> order ! nat i" "order ! nat i < n" using permutation_upto_nth[OF assms(1) k] by auto
    have "?f i ds = Some (ds[nat i := ?g (order ! nat i)])"
      using i k j I assms(2) len by (simp add: aget_def aset_def)
    moreover have "?I (i + 1) (ds[nat i := ?g (order ! nat i)])"
    proof -
      have "nat (i + 1) = Suc (nat i)" using i by simp
      then show ?thesis using I i len by (auto simp: nth_list_update less_Suc_eq)
    qed
    ultimately show "\<exists>s'. ?f i ds = Some s' \<and> ?I (i + 1) s'" by blast
  qed (use assms in auto)
  then obtain ds where ds: "gather src order n dst = Some ds" "length ds = nat n" "\<forall>k < nat n. ds ! k = ?g (order ! k)"
    unfolding gather_def by blast
  have "ds = map ?g order" by (rule nth_equalityI) (use ds len in auto)
  then show ?thesis using ds(1) by simp
qed

text \<open>
  \<open>displays order s t\<close>: the slots of \<open>t\<close> are those of \<open>s\<close> in the given order; the queue's counters
  and the mode are the same, and a live bag is the identity with its cursor on the current slot.
\<close>

definition displays :: "int list \<Rightarrow> player \<Rightarrow> player \<Rightarrow> bool" where
  "displays order s t \<longleftrightarrow> playlist_count t = playlist_count s \<and> queued_pending_count t = queued_pending_count s \<and>
     play_mode t = play_mode s \<and> queue_revision t = queue_revision s \<and>
     playlist t = map (\<lambda>j. playlist s ! nat j) order \<and> pending_shuffle_order t = None \<and>
     (playlist_lazy_sort_order t = None) = (playlist_lazy_sort_order s = None) \<and>
     (bag_live t \<longrightarrow> take (nat (playlist_count t)) (the (shuffle_order t)) = [0..playlist_count t - 1] \<and>
        shuffle_pos t = playlist_index t)"

lemma identity_over:
  assumes "0 \<le> n" and "n \<le> int (length order)"
  shows "for_loop 0 n (\<lambda>i order. aset order i i) order = Some ([0..n - 1] @ drop (nat n) order)"
  using for_loop_fill[of n 0 order "\<lambda>i. i"] assms by simp

lemma materialize_bag_ok:
  assumes inv: "player_inv s" and n: "0 < playlist_count s" and cur: "-1 \<le> current" "current + queued_pending_count s < playlist_count s"
    and q: "0 < queued_pending_count s \<Longrightarrow> 0 \<le> current"
    and live: "play_mode s = PLAY_MODE_SHUFFLE \<or> current < 0 \<Longrightarrow> shuffle_order s \<noteq> None \<Longrightarrow> bag_live s"
    and t: "playlist_count t = playlist_count s" "playlist_index t = current" "queued_pending_count t = queued_pending_count s"
      "shuffle_order t = shuffle_order s" "shuffle_order_count t = shuffle_order_count s" "shuffle_pos t = shuffle_pos s"
      "play_mode t = play_mode s" "playlist_count s \<le> int (length (playlist t))"
      "\<And>l. playlist_lazy_sort_order t = Some l \<Longrightarrow> playlist_count s \<le> int (length l)"
  obtains u where "materialize_bag (playlist_count s) current t = Some u" and "player_inv u"
    and "playlist u = playlist t" and "playlist_lazy_sort_order u = playlist_lazy_sort_order t"
    and "playlist_count u = playlist_count t" and "playlist_index u = current" and "play_mode u = play_mode t"
    and "queued_pending_count u = queued_pending_count t" and "queue_revision u = queue_revision t"
    and "external_dac_block_reason u = external_dac_block_reason t" and "audio u = audio t"
    and "bag_live u \<longrightarrow> take (nat (playlist_count u)) (the (shuffle_order u)) = [0..playlist_count u - 1] \<and>
        shuffle_pos u = current" and "bag_live u = bag_live s" and "pending_shuffle_order u = None"
proof -
  let ?n = "playlist_count s" and ?q = "queued_pending_count s"
  have ok: "list_ok s" "queue_ok s" "bag_ok s" "aligned s" using inv by (auto simp: player_inv_def)
  have q0: "0 \<le> ?q" using ok(2) by (simp add: queue_ok_def)
  define nx where "nx = (if ?q \<noteq> 0 then current + 1 + ?q else -1)"
  have nxt: "(if queued_pending_count t \<noteq> 0 then current + 1 + queued_pending_count t else -1) = nx" by (simp add: nx_def t)
  show thesis
  proof (cases "bag_live s")
    case True
    then obtain o1 where o: "shuffle_order s = Some o1" "shuffle_order_count s = ?n" by (auto simp: bag_live_def)
    have b: "?n \<le> int (length o1)" using ok(3) o by (auto simp: bag_ok_def bag_of_size_def)
    let ?o = "[0..?n - 1] @ drop (nat ?n) o1"
    let ?u = "t\<lparr>shuffle_order := Some ?o, shuffle_pos := current, pending_shuffle_order := None, queue_next_insert_index := nx\<rparr>"
    have run: "materialize_bag ?n current t = Some ?u"
      using identity_over[OF _ b] n o t(4,5) nxt t(3) by (auto simp: materialize_bag_def nx_def)
    have tk: "take (nat ?n) ?o = [0..?n - 1]" using n by simp
    have bo: "bag_of_size ?n ?o" using tk b n by (auto simp: bag_of_size_def)
    have blk: "0 \<le> current \<Longrightarrow> block_at ?o current current ?q"
      using block_at_identity[of current ?q ?n] block_at_take[OF cur(2), of ?o current] cur(2) unfolding tk by simp
    have "player_inv ?u"
      unfolding player_inv_def
    proof (intro conjI)
      show "list_ok ?u" using ok(1) t(1,2,8,9) cur q0 n by (auto simp: list_ok_def)
      show "queue_ok ?u" using t cur q q0 by (auto simp: queue_ok_def nx_def)
      show "bag_ok ?u" using bo t n cur o by (auto simp: bag_ok_def)
      show "aligned ?u" using blk t cur q0 o by (auto simp: aligned_def)
    qed
    then show ?thesis by (intro that[OF run]) (use t tk n o True in \<open>auto simp: external_dac_block_reason_def bag_live_def\<close>)
  next
    case False
    let ?u = "t\<lparr>pending_shuffle_order := None, queue_next_insert_index := nx\<rparr>"
    have run: "materialize_bag ?n current t = Some ?u"
      using False t(3,4,5) by (auto simp: materialize_bag_def nx_def bag_live_def split: option.split)
    have nl: "\<not> bag_live ?u" using False t by (simp add: bag_live_def)
    have no: "play_mode s = PLAY_MODE_SHUFFLE \<or> current < 0 \<Longrightarrow> shuffle_order s = None" using live False by blast
    have "player_inv ?u"
      unfolding player_inv_def
    proof (intro conjI)
      show "list_ok ?u" using ok(1) t(1,2,8,9) cur q0 n by (auto simp: list_ok_def)
      show "queue_ok ?u" using t cur q q0 by (auto simp: queue_ok_def nx_def)
      show "bag_ok ?u" using ok(3) t n by (auto simp: bag_ok_def)
      show "aligned ?u" using no t by (auto simp: aligned_def)
    qed
    then show ?thesis by (intro that[OF run]) (use nl t False in \<open>auto simp: external_dac_block_reason_def\<close>)
  qed
qed

lemma all_paths_known_total:
  assumes "list_ok s" and "permutation_upto n order"
  shows "\<exists>b. all_paths_known order n s = Some b"
proof -
  have len: "length order = nat n" using permutation_upto_length[OF assms(2)] .
  let ?p = "\<lambda>j. playlist_path_at s j = Some ''''"
  have "find_loopM 0 n (\<lambda>i. do { j \<leftarrow> aget order i; path \<leftarrow> playlist_path_at s j; Some (path = '''') })
      = Some (find_loop 0 n (\<lambda>i. ?p (order ! nat i)))"
  proof (rule find_loopM_pure)
    fix i assume i: "0 \<le> i" "i < n"
    obtain path where "playlist_path_at s (order ! nat i) = Some path" using playlist_path_at_total[OF assms(1)] by blast
    then show "(do { j \<leftarrow> aget order i; path \<leftarrow> playlist_path_at s j; Some (path = '''') }) = Some (?p (order ! nat i))"
      using i len by (simp add: aget_def)
  qed
  then show ?thesis by (simp add: all_paths_known_def)
qed

text \<open>
  Materialising succeeds or leaves the queue as it was; when it succeeds the slots are in
  displayed order, with the cursor on the current track and the queued block behind it.
\<close>

definition materialized :: "player \<Rightarrow> player \<Rightarrow> bool" where
  "materialized s t \<longleftrightarrow> (\<exists>order. permutation_upto (playlist_count s) order \<and> displays order s t \<and>
     -1 \<le> playlist_index t \<and> playlist_index t + queued_pending_count s < playlist_count s \<and>
     (0 \<le> playlist_index s \<longrightarrow> block_at order (playlist_index t) (playlist_index s) (queued_pending_count s)) \<and>
     (play_mode s = PLAY_MODE_SHUFFLE \<longrightarrow> bag_live t) \<and>
     (play_mode s \<noteq> PLAY_MODE_SHUFFLE \<longrightarrow> order = [0..playlist_count s - 1] \<and> playlist_index t = playlist_index s) \<and>
     (play_mode s = PLAY_MODE_SHUFFLE \<and> bag_live s \<longrightarrow>
        order = take (nat (playlist_count s)) (the (shuffle_order s)) \<and> playlist_index t = shuffle_pos s))"

definition mat_post :: "player \<Rightarrow> bool \<Rightarrow> player \<Rightarrow> bool" where
  "mat_post s b s' \<longleftrightarrow> player_inv s' \<and> external_dac_block_reason s' = external_dac_block_reason s \<and> audio s' = audio s \<and>
     queue_revision s' = queue_revision s \<and> (if b then materialized s s' else shuffle_frame s s')"

lemma mat_post_fail: "shuffle_frame s t \<Longrightarrow> player_inv t \<Longrightarrow> mat_post s False t"
  by (simp add: mat_post_def shuffle_frame_dac shuffle_frameD)

text \<open>The common tail of the lazy and the resolved branch.\<close>

lemma materialize_tail:
  assumes inv: "player_inv t" and fr: "shuffle_frame s t" and n: "0 < playlist_count s"
    and snap: "shows_queue t x" "snap_order x = Some order"
    and keep: "bag_live s \<longrightarrow> shuffle_order t = shuffle_order s \<and> shuffle_pos t = shuffle_pos s"
    and u: "u = t\<lparr>playlist := map (\<lambda>j. playlist s ! nat j) order, playlist_lazy_sort_order := lo, playlist_index := snap_current x\<rparr>"
    and lo: "(lo = None) = (playlist_lazy_sort_order s = None)" "\<And>l. lo = Some l \<Longrightarrow> playlist_count s \<le> int (length l)"
  shows "\<exists>s'. materialize_bag (playlist_count s) (snap_current x) u = Some s' \<and> mat_post s True s'"
proof -
  note f = shuffle_frameD[OF fr]
  let ?n = "playlist_count s" and ?cur = "snap_current x"
  have x: "permutation_upto ?n order" "-1 \<le> ?cur" "?cur + queued_pending_count s < ?n"
    "0 \<le> playlist_index s \<longrightarrow> block_at order ?cur (playlist_index s) (queued_pending_count s)"
    "play_mode s = PLAY_MODE_SHUFFLE \<longrightarrow> bag_live t" "play_mode s \<noteq> PLAY_MODE_SHUFFLE \<longrightarrow> ?cur = playlist_index s"
    "play_mode s \<noteq> PLAY_MODE_SHUFFLE \<longrightarrow> order = [0..?n - 1]"
    "play_mode s = PLAY_MODE_SHUFFLE \<longrightarrow> order = take (nat ?n) (the (shuffle_order t)) \<and> ?cur = shuffle_pos t"
    using snap n f unfolding shows_queue_def by auto
  have len: "length order = nat ?n" using permutation_upto_length[OF x(1)] .
  have al: "aligned t" "queue_ok t" using inv by (auto simp: player_inv_def)
  have q: "0 < queued_pending_count t \<Longrightarrow> 0 \<le> ?cur"
    using al(2) x(4) f by (auto simp: queue_ok_def block_at_def)
  have live: "bag_live t" if "play_mode t = PLAY_MODE_SHUFFLE \<or> ?cur < 0" "shuffle_order t \<noteq> None"
    using that x(5,6) al(1) n f by (cases "play_mode t = PLAY_MODE_SHUFFLE") (auto simp: aligned_def bag_live_def)
  have n': "0 < playlist_count t" "?cur + queued_pending_count t < playlist_count t" using n x(3) f by simp_all
  obtain s' where s': "materialize_bag (playlist_count t) ?cur u = Some s'" "player_inv s'" "playlist s' = playlist u"
      "playlist_lazy_sort_order s' = playlist_lazy_sort_order u" "playlist_count s' = playlist_count u"
      "playlist_index s' = ?cur" "play_mode s' = play_mode u" "queued_pending_count s' = queued_pending_count u"
      "queue_revision s' = queue_revision u" "external_dac_block_reason s' = external_dac_block_reason u" "audio s' = audio u"
      "bag_live s' \<longrightarrow> take (nat (playlist_count s')) (the (shuffle_order s')) = [0..playlist_count s' - 1] \<and> shuffle_pos s' = ?cur"
      "bag_live s' = bag_live t" "pending_shuffle_order s' = None"
  proof (rule materialize_bag_ok[OF inv n'(1) x(2) n'(2) q live, of u])
    show "playlist_count t \<le> int (length (playlist u))" using u len n f by simp
    show "\<And>l. playlist_lazy_sort_order u = Some l \<Longrightarrow> playlist_count t \<le> int (length l)" using u lo(2) f by simp
  qed (use u in simp_all)
  have "displays order s s'" unfolding displays_def using s' f lo u by simp
  then have "materialized s s'" unfolding materialized_def using x s' f u keep by (intro exI[of _ order]) auto
  then show ?thesis using s' f u shuffle_frame_dac[OF fr] by (auto simp: mat_post_def)
qed

lemma materialize_ok:
  assumes inv: "player_inv s" and n: "0 < playlist_count s"
  shows "\<exists>b s'. queue_materialize_order s = Some (b, s') \<and> mat_post s b s'"
proof -
  obtain r s1 where s1: "gui_player_queue_snapshot s = Some (r, s1)" "shuffle_frame s s1" "player_inv s1"
    and snap: "\<forall>x. r = Some x \<longrightarrow> shows_queue s1 x"
    and keep: "bag_live s \<longrightarrow> shuffle_order s1 = shuffle_order s \<and> shuffle_pos s1 = shuffle_pos s"
    by (rule snapshot_ok[OF inv])
  note f = shuffle_frameD[OF s1(2)]
  show ?thesis
  proof (cases r)
    case None
    then have "queue_materialize_order s = Some (False, s1)" using s1(1) by (simp add: queue_materialize_order_def)
    then show ?thesis using mat_post_fail s1(2,3) by blast
  next
    case (Some x)
    then have x: "shows_queue s1 x" using snap by simp
    then obtain order where o: "snap_order x = Some order" "permutation_upto (playlist_count s) order"
      and cnt: "snap_count x = playlist_count s"
      using n f unfolding shows_queue_def by auto
    have l1: "list_ok s1" using s1(3) by (simp add: player_inv_def)
    define m1 where "m1 = snd (malloc_ok s1)"
    define m2 where "m2 = snd (malloc_ok m1)"
    have fm: "shuffle_frame s1 m1" "player_inv m1" "shuffle_frame s1 m2" "player_inv m2"
      using malloc_frame[of s1] malloc_frame[of m1] s1(3) shuffle_frame_trans unfolding m1_def m2_def by blast+
    have sm: "shuffle_frame s m1" "shuffle_frame s m2" using shuffle_frame_trans[OF s1(2)] fm by blast+
    have xm: "shows_queue m1 x" "shows_queue m2 x"
      using x by (simp_all add: m2_def m1_def malloc_ok_def)
    have km: "bag_live s \<longrightarrow> shuffle_order m1 = shuffle_order s \<and> shuffle_pos m1 = shuffle_pos s"
      "bag_live s \<longrightarrow> shuffle_order m2 = shuffle_order s \<and> shuffle_pos m2 = shuffle_pos s"
      using keep by (simp_all add: m2_def m1_def malloc_ok_def)
    have lenp: "playlist_count s \<le> int (length (playlist s))" using inv by (auto simp: player_inv_def list_ok_def)
    have gp: "gather (playlist s) order (playlist_count s) (replicate (nat (playlist_count s)) None)
        = Some (map (\<lambda>j. playlist s ! nat j) order)"
      by (rule gather_ok[OF o(2) lenp]) (use n in auto)
    show ?thesis
    proof (cases "playlist_lazy_sort_order s")
      case lazy: (Some lo)
      have lenl: "playlist_count s \<le> int (length lo)" using inv lazy by (auto simp: player_inv_def list_ok_def)
      have gl: "gather lo order (playlist_count s) (replicate (nat (playlist_count s)) 0) = Some (map (\<lambda>j. lo ! nat j) order)"
        by (rule gather_ok[OF o(2) lenl]) (use n in auto)
      let ?u = "m2\<lparr>playlist := map (\<lambda>j. playlist s ! nat j) order,
         playlist_lazy_sort_order := Some (map (\<lambda>j. lo ! nat j) order), playlist_index := snap_current x\<rparr>"
      have "\<exists>s'. materialize_bag (playlist_count s) (snap_current x) ?u = Some s' \<and> mat_post s True s'"
        by (rule materialize_tail[OF fm(4) sm(2) n xm(2) o(1) km(2) refl])
          (use lazy permutation_upto_length[OF o(2)] in auto)
      then obtain s' where s': "materialize_bag (playlist_count s) (snap_current x) ?u = Some s'" "mat_post s True s'" by blast
      have "queue_materialize_order s = (if \<not> fst (malloc_ok s1) \<or> \<not> fst (malloc_ok m1) then Some (False, m2) else Some (True, s'))"
        using s1(1) Some o(1) cnt n lazy f(1,4) gp gl s'(1) shuffle_frameD(1)[OF sm(2)]
        by (simp add: queue_materialize_order_def case_prod_unfold Let_def m1_def[symmetric] m2_def[symmetric])
      then show ?thesis using s'(2) mat_post_fail[OF sm(2) fm(4)] by (metis (full_types))
    next
      case None
      obtain kn where kn: "all_paths_known order (playlist_count s) m1 = Some kn"
        using all_paths_known_total[OF _ o(2), of m1] fm(2) by (auto simp: player_inv_def)
      let ?u = "m1\<lparr>playlist := map (\<lambda>j. playlist s ! nat j) order, playlist_index := snap_current x\<rparr>"
      have nl: "playlist_lazy_sort_order m1 = None" using None shuffle_frameD(4)[OF sm(1)] by simp
      have "\<exists>s'. materialize_bag (playlist_count s) (snap_current x) ?u = Some s' \<and> mat_post s True s'"
        by (rule materialize_tail[OF fm(2) sm(1) n xm(1) o(1) km(1), where lo = None]) (use None nl in auto)
      then obtain s' where s': "materialize_bag (playlist_count s) (snap_current x) ?u = Some s'" "mat_post s True s'" by blast
      have "queue_materialize_order s = (if \<not> fst (malloc_ok s1) \<or> \<not> kn then Some (False, m1) else Some (True, s'))"
        using s1(1) Some o(1) cnt n None f(1,4) gp kn s'(1) shuffle_frameD(1)[OF sm(1)]
        by (simp add: queue_materialize_order_def case_prod_unfold Let_def m1_def[symmetric])
      then show ?thesis using s'(2) mat_post_fail[OF sm(1) fm(2)] by (metis (full_types))
    qed
  qed
qed

section \<open>Editing\<close>

lemma move_cell_ok:
  assumes "0 \<le> from" "from < int (length xs)" "0 \<le> to" "to < int (length xs)"
  shows "\<exists>ys. move_cell xs from to = Some ys \<and> length ys = length xs"
  using assms by (auto simp: move_cell_def aget_def aset_def memmove_def)

lemma identity_inv:
  assumes inv: "player_inv t" and n: "0 \<le> playlist_index t" and live: "play_mode t = PLAY_MODE_SHUFFLE \<Longrightarrow> bag_live t"
    and ident: "bag_live t \<longrightarrow> take (nat (playlist_count t)) (the (shuffle_order t)) = [0..playlist_count t - 1] \<and> shuffle_pos t = playlist_index t"
    and u: "playlist_count u = playlist_count t" "playlist_index u = playlist_index t" "play_mode u = play_mode t"
      "shuffle_order u = shuffle_order t" "shuffle_order_count u = shuffle_order_count t" "shuffle_pos u = shuffle_pos t"
      "pending_shuffle_order u = pending_shuffle_order t" "length (playlist u) = length (playlist t)"
      "\<And>l. playlist_lazy_sort_order u = Some l \<Longrightarrow> \<exists>k. playlist_lazy_sort_order t = Some k \<and> length l = length k"
    and q: "0 \<le> queued_pending_count u" "playlist_index t + queued_pending_count u < playlist_count t"
      "queue_next_insert_index u = (if queued_pending_count u \<noteq> 0 then playlist_index u + 1 + queued_pending_count u else -1)"
  shows "player_inv u"
proof -
  have ok: "list_ok t" "queue_ok t" "bag_ok t" "aligned t" using inv by (auto simp: player_inv_def)
  have blk: "block_at (the (shuffle_order t)) (playlist_index t) (playlist_index t) (queued_pending_count u)"
    if "bag_live t"
  proof -
    have "block_at (take (nat (playlist_count t)) (the (shuffle_order t))) (playlist_index t) (playlist_index t) (queued_pending_count u)"
      using ident that block_at_identity[OF n q(2)] by simp
    then show ?thesis using block_at_take[OF q(2)] by blast
  qed
  have "list_ok u" using ok(1) u n by (fastforce simp: list_ok_def)
  moreover have "queue_ok u" using q u n by (auto simp: queue_ok_def)
  moreover have "bag_ok u" using ok(3) u by (auto simp: bag_ok_def)
  moreover have "aligned u" using blk live ident u n q(2) by (auto simp: aligned_def bag_live_def)
  ultimately show ?thesis by (simp add: player_inv_def)
qed

lemma edit_remove_ok:
  assumes inv: "player_inv t" and p: "playlist_index t < from" "0 \<le> from" "from < playlist_count t"
  obtains u where "edit_remove from t = Some u" and "playlist_index u = playlist_index t"
    and "playlist_count u = playlist_count t - 1"
    and "ready (u\<lparr>queue_next_insert_index := (if queued_pending_count u \<noteq> 0
           then playlist_index u + 1 + queued_pending_count u else -1)\<rparr>)"
    and "take (nat (playlist_count t - 1)) (playlist u)
           = take (nat from) (playlist t) @ drop (Suc (nat from)) (take (nat (playlist_count t)) (playlist t))"
proof -
  let ?q = "queued_pending_count t"
  have ok: "list_ok t" "queue_ok t" "bag_ok t" "aligned t" using inv by (auto simp: player_inv_def)
  have q: "0 \<le> ?q" "0 < ?q \<Longrightarrow> 0 \<le> playlist_index t \<and> playlist_index t + ?q < playlist_count t" "-1 \<le> playlist_index t"
    using ok by (auto simp: queue_ok_def list_ok_def split: if_splits)
  define q' where "q' = (if from \<le> playlist_index t + ?q then ?q - 1 else ?q)"
  obtain s1 where s1: "queue_shuffle_remove from t = Some s1" "shuffle_frame t s1"
    and bag: "\<And>t'. shuffle_order t' = shuffle_order s1 \<Longrightarrow> shuffle_order_count t' = shuffle_order_count s1 \<Longrightarrow>
          shuffle_pos t' = shuffle_pos s1 \<Longrightarrow> pending_shuffle_order t' = pending_shuffle_order s1 \<Longrightarrow>
          playlist_index t' = playlist_index t \<Longrightarrow> play_mode t' = play_mode t \<Longrightarrow>
          playlist_count t' = playlist_count t - 1 \<Longrightarrow> queued_pending_count t' = q' \<Longrightarrow> bag_ok t' \<and> aligned t'"
    using queue_shuffle_remove_ok[OF ok(3) p q(3,1) ok(4) q'_def] by auto
  note f = shuffle_frameD[OF s1(2)]
  have l1: "list_ok s1" using ok(1) shuffle_frame_list_ok[OF s1(2)] by simp
  obtain pl lo where r: "remove_slot from s1 = Some (s1\<lparr>playlist := pl, playlist_lazy_sort_order := lo,
       playlist_count := playlist_count s1 - 1\<rparr>)"
    "playlist_count s1 - 1 \<le> int (length pl)" "\<And>l. lo = Some l \<Longrightarrow> playlist_count s1 - 1 \<le> int (length l)"
    "take (nat (playlist_count s1 - 1)) pl
           = take (nat from) (playlist s1) @ drop (Suc (nat from)) (take (nat (playlist_count s1)) (playlist s1))"
    by (rule remove_slot_ok[OF l1, of "from"]) (use p f(2) in auto)
  define u where "u = s1\<lparr>playlist := pl, playlist_lazy_sort_order := lo, playlist_count := playlist_count t - 1,
      queued_pending_count := q'\<rparr>"
  have run: "edit_remove from t = Some u"
    using s1(1) r(1) f(2,3,6) by (auto simp: edit_remove_def u_def q'_def)
  define v where "v = u\<lparr>queue_next_insert_index := (if queued_pending_count u \<noteq> 0
           then playlist_index u + 1 + queued_pending_count u else -1)\<rparr>"
  have "bag_ok v \<and> aligned v" by (rule bag) (simp_all add: v_def u_def f)
  moreover have "list_ok v" using r(2,3) ok(1) p q f by (auto simp: v_def u_def list_ok_def)
  moreover have "queue_ok v" using q p f by (auto simp: v_def u_def queue_ok_def q'_def)
  ultimately have "ready v" using player_inv_ready by (simp add: player_inv_def)
  then show thesis by (intro that[OF run]) (use f r(4) in \<open>simp_all add: v_def, simp_all add: u_def\<close>)
qed

lemma edit_move_ok:
  assumes inv: "player_inv t" and live: "play_mode t = PLAY_MODE_SHUFFLE \<Longrightarrow> bag_live t"
    and ident: "bag_live t \<longrightarrow> take (nat (playlist_count t)) (the (shuffle_order t)) = [0..playlist_count t - 1] \<and> shuffle_pos t = playlist_index t"
    and p: "playlist_index t < from" "from < playlist_count t" "playlist_index t < to" "to < playlist_count t"
  obtains u where "edit_move from to t = Some u" and "playlist_index u = playlist_index t"
    and "playlist_count u = playlist_count t"
    and "ready (u\<lparr>queue_next_insert_index := (if queued_pending_count u \<noteq> 0
           then playlist_index u + 1 + queued_pending_count u else -1)\<rparr>)"
    and "\<exists>pl. move_cell (playlist t) from to = Some pl \<and> playlist u = pl"
proof -
  let ?q = "queued_pending_count t" and ?pe = "playlist_index t + queued_pending_count t"
  have ok: "list_ok t" "queue_ok t" "bag_ok t" "aligned t" using inv by (auto simp: player_inv_def)
  have q: "0 \<le> ?q" "0 < ?q \<Longrightarrow> 0 \<le> playlist_index t \<and> ?pe < playlist_count t" "-1 \<le> playlist_index t"
    using ok by (auto simp: queue_ok_def list_ok_def split: if_splits)
  have len: "playlist_count t \<le> int (length (playlist t))" "\<And>l. playlist_lazy_sort_order t = Some l \<Longrightarrow> playlist_count t \<le> int (length l)"
    using ok(1) by (auto simp: list_ok_def)
  obtain pl where pl: "move_cell (playlist t) from to = Some pl" "length pl = length (playlist t)"
    using move_cell_ok[of "from" "playlist t" "to"] p q(3) len(1) by auto
  obtain lo where lo: "(case playlist_lazy_sort_order t of None \<Rightarrow> Some None
            | Some lo \<Rightarrow> map_option Some (move_cell lo from to)) = Some lo"
      "\<And>l. lo = Some l \<Longrightarrow> \<exists>k. playlist_lazy_sort_order t = Some k \<and> length l = length k"
  proof (cases "playlist_lazy_sort_order t")
    case (Some l)
    obtain l' where "move_cell l from to = Some l'" "length l' = length l"
      using move_cell_ok[of "from" l "to"] p q(3) len(2)[OF Some] by auto
    then show ?thesis using Some that[of "Some l'"] by simp
  qed (use that[of None] in simp)
  define q' where "q' = (if from \<le> ?pe \<and> ?pe < to then to - playlist_index t
     else if ?pe < from \<and> to \<le> ?pe then ?q + 1 else ?q)"
  define u where "u = t\<lparr>playlist := pl, playlist_lazy_sort_order := lo, queued_pending_count := q'\<rparr>"
  have run: "edit_move from to t = Some u"
    using pl(1) lo(1) by (auto simp: edit_move_def Let_def u_def q'_def)
  define v where "v = u\<lparr>queue_next_insert_index := (if queued_pending_count u \<noteq> 0
           then playlist_index u + 1 + queued_pending_count u else -1)\<rparr>"
  have "player_inv v"
  proof (cases "0 \<le> playlist_index t")
    case True
    have "0 \<le> q'" "playlist_index t + q' < playlist_count t" using p q by (auto simp: q'_def)
    then show ?thesis
      by (intro identity_inv[OF inv True live ident]) (use pl(2) lo(2) in \<open>auto simp: v_def u_def\<close>)
  next
    case False
    then have "?q = 0" "playlist_index t = -1" using q by linarith+
    then have q0: "q' = 0" using p by (auto simp: q'_def)
    then show ?thesis using inv False pl(2) lo(2) \<open>?q = 0\<close>
      by (fastforce simp: v_def u_def player_inv_def list_ok_def queue_ok_def bag_ok_def aligned_def)
  qed
  then have "ready v" by (rule player_inv_ready)
  then show thesis by (intro that[OF run]) (use pl(1) in \<open>simp_all add: v_def, simp_all add: u_def\<close>)
qed

lemma queue_edit_ok:
  assumes inv: "player_inv s"
  shows "\<exists>b s'. gui_player_queue_edit revision from to s = Some (b, s') \<and> player_inv s'"
proof -
  obtain t where t: "catch_up s = Some t" "player_inv t" by (rule catch_up_ok[OF inv])
  obtain r s1 where s1: "gui_player_queue_snapshot t = Some (r, s1)" "shuffle_frame t s1" "player_inv s1"
    and snap: "\<forall>x. r = Some x \<longrightarrow> shows_queue s1 x" by (rule snapshot_ok[OF t(2)])
  show ?thesis
  proof (cases "revision \<noteq> queue_revision t \<or> r = None")
    case True
    then show ?thesis using t s1 by (auto simp: gui_player_queue_edit_def)
  next
    case False
    then obtain x where x: "r = Some x" "shows_queue s1 x" "revision = queue_revision t" using snap by auto
    let ?bad = "from \<le> snap_current x \<or> snap_count x \<le> from \<or> (0 \<le> to \<and> (to \<le> snap_current x \<or> snap_count x \<le> to))"
    show ?thesis
    proof (cases ?bad)
      case True
      then show ?thesis using t s1 x by (auto simp: gui_player_queue_edit_def Let_def)
    next
      case good: False
      have l1: "list_ok s1" using s1(3) by (simp add: player_inv_def)
      have cnt: "snap_count x = playlist_count s1" using x(2) by (simp add: shows_queue_def)
      have cur: "-1 \<le> snap_current x" using x(2) by (auto simp: shows_queue_def split: if_splits)
      have n: "0 < playlist_count s1" using good cnt cur by linarith
      obtain b s2 where s2: "queue_materialize_order s1 = Some (b, s2)" "mat_post s1 b s2"
        using materialize_ok[OF s1(3) n] by blast
      show ?thesis
      proof (cases b)
        case False
        then show ?thesis using t s1(1) x good s2 by (auto simp: gui_player_queue_edit_def Let_def mat_post_def)
      next
        case True
        have m: "player_inv s2" "materialized s1 s2" using s2(2) True by (simp_all add: mat_post_def)
        have ix: "playlist_count s2 = playlist_count s1" "play_mode s2 = play_mode s1" "play_mode s1 = PLAY_MODE_SHUFFLE \<longrightarrow> bag_live s2"
          "bag_live s2 \<longrightarrow> take (nat (playlist_count s2)) (the (shuffle_order s2)) = [0..playlist_count s2 - 1] \<and>
            shuffle_pos s2 = playlist_index s2"
          using m(2) unfolding materialized_def displays_def by blast+
        have "play_mode s1 = PLAY_MODE_SHUFFLE \<longrightarrow> bag_live s1 \<and> snap_current x = shuffle_pos s1"
          "play_mode s1 \<noteq> PLAY_MODE_SHUFFLE \<longrightarrow> snap_current x = playlist_index s1"
          using x(2) n unfolding shows_queue_def by auto
        then have ixs: "playlist_index s2 = snap_current x" using m(2) unfolding materialized_def by metis
        have live: "play_mode s2 = PLAY_MODE_SHUFFLE \<Longrightarrow> bag_live s2" using ix by simp
        have "\<exists>u. (if to < 0 then edit_remove from s2 else edit_move from to s2) = Some u \<and>
            ready (u\<lparr>queue_next_insert_index := (if queued_pending_count u \<noteq> 0
              then playlist_index u + 1 + queued_pending_count u else -1)\<rparr>)"
        proof (cases "to < 0")
          case True
          show ?thesis by (rule edit_remove_ok[OF m(1), of "from"]) (use True good cnt cur ix(1) ixs in auto)
        next
          case False
          show ?thesis
            by (rule edit_move_ok[OF m(1) live ix(4), of "from" "to"]) (use False good cnt cur ix(1) ixs in auto)
        qed
        then obtain u where u: "(if to < 0 then edit_remove from s2 else edit_move from to s2) = Some u"
          "ready (u\<lparr>queue_next_insert_index := (if queued_pending_count u \<noteq> 0
              then playlist_index u + 1 + queued_pending_count u else -1)\<rparr>)" by blast
        obtain s' where s': "arm_next_track_for_audio (playlist_index u) (u\<lparr>queue_next_insert_index :=
              (if queued_pending_count u \<noteq> 0 then playlist_index u + 1 + queued_pending_count u else -1)\<rparr>) = Some s'"
            "player_inv s'"
          by (rule arm_ok[OF u(2), of "playlist_index u"]) simp_all
        show ?thesis using t(1) s1(1) x(1,3) good s2(1) True u(1) s'
          by (auto simp: gui_player_queue_edit_def Let_def)
      qed
    qed
  qed
qed

end
