(* ===== verification/Player_Session.thy ===== *)
theory Player_Session
  imports Player_Edit_Inv
begin

text \<open>
  Loading playlists into the player (a file selection, the lazily resolved library views, a
  saved resume playlist) and the remaining editing operations: selecting a row, clearing the
  queue, restarting from a displayed row and the remote control's entries.
\<close>

section \<open>Loading playlists\<close>

text \<open>
  \<open>count64\<close> is what \<^verbatim>\<open>metadata_db_get_song_count\<close> returned, \<open>opened\<close> what
  \<^verbatim>\<open>metadata_db_snapshot_open\<close> did: the number of rows and the path of each row.  The two library
  views differ only in the order the snapshot is opened with and in the directory they pin.
\<close>

type_synonym snapshot_rows = "int \<times> (int \<Rightarrow> string)"

definition int_of_count64 :: "int \<Rightarrow> int" where
  "int_of_count64 count64 = (if 0 < count64 then sint (word_of_int count64 :: 32 word) else 0)"

definition on_file_selected_lazy :: "int \<Rightarrow> snapshot_rows option \<Rightarrow> int \<Rightarrow> player \<Rightarrow> player option" where
  "on_file_selected_lazy count64 opened selected_index s =
     (let cnt = int_of_count64 count64 in
      if cnt \<le> 0 \<or> selected_index < 0 \<or> cnt \<le> selected_index then Some s
      else let (ok1, s) = malloc_ok s; (ok2, s) = malloc_ok s in
        if \<not> ok1 \<or> \<not> ok2 then Some s
        else case opened of None \<Rightarrow> Some s
          | Some (rows, path_at) \<Rightarrow>
              if rows \<noteq> cnt then Some s
              else do {
                order \<leftarrow> for_loop 0 cnt (\<lambda>i order. aset order i i) (replicate (nat cnt) 0);
                play_track_at selected_index ((free_playlist s)\<lparr>lazy_lookup := path_at,
                  playlist := replicate (nat cnt) None, playlist_lazy_sort_order := Some order,
                  playlist_count := cnt, queued_pending_count := 0\<rparr>) })"

definition on_file_selected_lazy_all_songs :: "int \<Rightarrow> snapshot_rows option \<Rightarrow> int \<Rightarrow> player \<Rightarrow> player option" where
  "on_file_selected_lazy_all_songs = on_file_selected_lazy"

definition on_file_selected_lazy_recently_added :: "int \<Rightarrow> snapshot_rows option \<Rightarrow> int \<Rightarrow> player \<Rightarrow> player option" where
  "on_file_selected_lazy_recently_added = on_file_selected_lazy"

text \<open>
  The queue read back by \<^verbatim>\<open>queue_resume_read\<close>, as far as the player takes it over.
\<close>

record restored_queue_t =
  rq_current :: int
  rq_pending :: int
  rq_mode :: int
  rq_order :: "int list option"
  rq_continuation :: "int list option"
  rq_shuffle_pos :: int

text \<open>
  \<open>file_index\<close> is the open directory listing of the saved folder, \<open>needs_lazy\<close> the flag
  \<^verbatim>\<open>resume_playlist_needs_lazy_order\<close>, and \<open>restored\<close> the restored queue while
  \<^verbatim>\<open>have_restored_queue\<close> holds.
\<close>

definition install_saved_resume_playlist ::
    "string option list \<Rightarrow> int \<Rightarrow> (int \<Rightarrow> string) option \<Rightarrow> bool \<Rightarrow> snapshot_rows option \<Rightarrow> restored_queue_t option
     \<Rightarrow> player \<Rightarrow> (bool \<times> player) option" where
  "install_saved_resume_playlist resume_playlist resume_count file_index needs_lazy opened restored s =
     (let lazy = needs_lazy \<or> file_index \<noteq> None;
          (ok, s) = (if lazy then malloc_ok s else (True, s)) in
      if \<not> ok then Some (False, s)
      else do {
        new_order \<leftarrow> (if lazy then map_option Some (for_loop 0 resume_count (\<lambda>i order. aset order i i)
                                                      (replicate (nat resume_count) 0))
                       else Some None);
        if needs_lazy \<and> file_index = None \<and> (case opened of None \<Rightarrow> True | Some (rows, _) \<Rightarrow> rows \<noteq> resume_count)
        then Some (False, s)
        else do {
          let s = (free_playlist s)\<lparr>
             lazy_lookup := (case file_index of Some path_at \<Rightarrow> path_at
                | None \<Rightarrow> (if needs_lazy then (case opened of Some (_, path_at) \<Rightarrow> path_at | None \<Rightarrow> (\<lambda>_. ''''))
                          else (\<lambda>_. ''''))),
             playlist := resume_playlist, playlist_count := resume_count, playlist_lazy_sort_order := new_order\<rparr>;
          let s = (case restored of None \<Rightarrow> s
             | Some r \<Rightarrow> s\<lparr>queued_pending_count := rq_pending r,
                 queue_next_insert_index := (if rq_pending r \<noteq> 0 then rq_current r + 1 + rq_pending r else -1),
                 play_mode := rq_mode r, shuffle_order := rq_order r, pending_shuffle_order := rq_continuation r,
                 shuffle_order_count := (if rq_order r \<noteq> None then resume_count else 0),
                 shuffle_pos := rq_shuffle_pos r\<rparr>);
          Some (True, s) } })"

text \<open>The restored track is shown paused; the progress display is not modelled.\<close>

definition prepare_deferred_resume :: "int \<Rightarrow> real \<Rightarrow> player \<Rightarrow> player" where
  "prepare_deferred_resume index start_seconds s =
     (emit (Play_button False) (emit (Show_track index) (s\<lparr>playlist_index := index\<rparr>)))
       \<lparr>deferred_resume_pending := True, deferred_resume_position := start_seconds\<rparr>"

section \<open>Play and pause\<close>

text \<open>
  \<open>have_current\<close> (the engine has an open track), the outcome of
  \<^verbatim>\<open>airplay_control_disconnect_active_stream\<close> and the engine's resume position are read from
  outside the player.
\<close>

definition audio_toggle_pause :: "bool \<Rightarrow> audio_state \<Rightarrow> audio_state" where
  "audio_toggle_pause have_current a = (if \<not> have_current then a else a\<lparr>paused := \<not> paused a\<rparr>)"

definition audio_is_playing :: "bool \<Rightarrow> audio_state \<Rightarrow> bool" where
  "audio_is_playing have_current a \<longleftrightarrow> have_current \<and> \<not> paused a"

definition toggle_play_pause :: "bool \<Rightarrow> bool \<Rightarrow> real \<Rightarrow> player \<Rightarrow> player option" where
  "toggle_play_pause airplay_was_active have_current resume_pos s = (
     let s = reset_decoder_failure_tracking s in
     if playlist_index s < 0 then Some s
     else let s = emit Airplay_disconnect s in
     if airplay_was_active then play_track_at_from_internal (playlist_index s) resume_pos True True s
     else if deferred_resume_pending s then
       play_track_at_from (playlist_index s) (deferred_resume_position s)
         (s\<lparr>deferred_resume_pending := False, deferred_resume_position := 0\<rparr>)
     else case (if \<not> audio_is_playing have_current (audio s) then external_dac_block_reason s else None) of
       Some block_reason \<Rightarrow> Some (emit (Error_toast block_reason) s)
     | None \<Rightarrow>
         let s = s\<lparr>audio := audio_toggle_pause have_current (audio s)\<rparr>;
             now_playing = audio_is_playing have_current (audio s);
             s = emit (Play_button now_playing) s
         in Some (if now_playing then s else emit Settings_save (s\<lparr>last_position := resume_pos\<rparr>)))"

section \<open>Loading\<close>

text \<open>A freshly loaded list, before its first track is started.\<close>

lemma fresh_list_ready:
  assumes "0 \<le> cnt" "cnt \<le> int (length pl)" "\<And>l. lo = Some l \<Longrightarrow> cnt \<le> int (length l)" "-1 \<le> i" "i < max 0 cnt"
    and "playlist s = pl" "playlist_count s = cnt" "playlist_lazy_sort_order s = lo" "playlist_index s = i"
    and "queued_pending_count s = 0" "queue_next_insert_index s = -1" "shuffle_order s = None" "shuffle_pos s = -1"
  shows "player_inv s"
  using assms by (auto simp: player_inv_def list_ok_def queue_ok_def bag_ok_def aligned_def)

lemma free_playlist_fields [simp]:
  "playlist (free_playlist s) = []" "playlist_count (free_playlist s) = 0" "playlist_index (free_playlist s) = -1"
  "playlist_lazy_sort_order (free_playlist s) = None" "queued_pending_count (free_playlist s) = 0"
  "queue_next_insert_index (free_playlist s) = -1" "shuffle_order (free_playlist s) = None"
  "shuffle_order_count (free_playlist s) = 0" "shuffle_pos (free_playlist s) = -1"
  "pending_shuffle_order (free_playlist s) = None" "play_mode (free_playlist s) = play_mode s"
  "external_dac_block_reason (free_playlist s) = external_dac_block_reason s"
  by (simp_all add: free_playlist_def reset_decoder_failure_tracking_def external_dac_block_reason_def)

lemma play_track_at_out_of_range:
  "index < 0 \<or> playlist_count s \<le> index \<Longrightarrow> play_track_at index s = Some (reset_decoder_failure_tracking s)"
  by (auto simp: play_track_at_def play_track_at_from_internal_def reset_decoder_failure_tracking_def)

lemma play_track_at_blocked:
  assumes "external_dac_block_reason s = Some m" and "player_inv s"
  shows "\<exists>s'. play_track_at index s = Some s' \<and> player_inv s' \<and> playlist_index s' = playlist_index s"
proof (cases "index < 0 \<or> playlist_count s \<le> index")
  case True
  then show ?thesis using assms play_track_at_out_of_range by auto
next
  case False
  then show ?thesis using assms by (auto simp: play_track_at_def play_track_at_from_internal_def)
qed

text \<open>Starting a track of a list that has just been loaded, whatever the external DAC says.\<close>

lemma play_loaded:
  assumes cnt: "0 \<le> cnt" "cnt \<le> int (length pl)" "\<And>l. lo = Some l \<Longrightarrow> cnt \<le> int (length l)"
    and s: "playlist s = pl" "playlist_count s = cnt" "playlist_lazy_sort_order s = lo" "playlist_index s = -1"
    "queued_pending_count s = 0" "queue_next_insert_index s = -1" "shuffle_order s = None" "shuffle_pos s = -1"
  shows "\<exists>s'. play_track_at index s = Some s' \<and> player_inv s' \<and>
     (external_dac_block_reason s = None \<and> 0 \<le> index \<and> index < cnt \<longrightarrow> started index s')"
proof -
  have inv: "player_inv s" by (rule fresh_list_ready[OF cnt(1,2,3) _ _ s(1-3) s(4)]) (use s cnt(1) in auto)
  have r: "ready (s\<lparr>playlist_index := index\<rparr>)" if "0 \<le> index" "index < cnt"
    by (rule player_inv_ready, rule fresh_list_ready[OF cnt(1,2,3)]) (use s that in auto)
  show ?thesis
  proof (cases "external_dac_block_reason s = None \<and> 0 \<le> index \<and> index < cnt")
    case True
    then obtain s' where "play_track_at index s = Some s'" "started index s'"
      using play_track_at_ok[of s index] r s(2) by auto
    then show ?thesis by (auto simp: started_def)
  next
    case False
    then show ?thesis
      using play_track_at_blocked[OF _ inv, of _ index] play_track_at_out_of_range[of index s] inv s(2)
      by (cases "external_dac_block_reason s") auto
  qed
qed

lemma on_file_selected_ok:
  assumes "0 \<le> cnt" and "cnt \<le> int (length new_playlist)"
  shows "\<exists>s'. on_file_selected new_playlist cnt selected s = Some s' \<and> player_inv s' \<and>
     (external_dac_block_reason s = None \<and> 0 \<le> selected \<and> selected < cnt \<longrightarrow> started selected s')"
proof -
  let ?t = "(free_playlist s)\<lparr>playlist := new_playlist, playlist_count := cnt,
       queued_pending_count := 0, queue_next_insert_index := -1\<rparr>"
  have "external_dac_block_reason ?t = external_dac_block_reason s"
    by (simp add: external_dac_block_reason_def free_playlist_def reset_decoder_failure_tracking_def)
  then show ?thesis using play_loaded[OF assms, of None ?t selected] by (simp add: on_file_selected_def)
qed

lemma lazy_order_fill:
  "0 \<le> cnt \<Longrightarrow> for_loop 0 cnt (\<lambda>i order. aset order i i) (replicate (nat cnt) 0) = Some [0..cnt - 1]"
  using identity_over[of cnt "replicate (nat cnt) 0"] by simp

lemma on_file_selected_lazy_ok:
  assumes inv: "player_inv s"
  shows "\<exists>s'. on_file_selected_lazy count64 opened selected s = Some s' \<and> player_inv s'"
proof -
  define c where "c = int_of_count64 count64"
  define m where "m = snd (malloc_ok (snd (malloc_ok s)))"
  have im: "player_inv m" using inv malloc_frame(2) by (simp add: m_def)
  show ?thesis
  proof (cases "c \<le> 0 \<or> selected < 0 \<or> c \<le> selected")
    case True
    then show ?thesis using inv unfolding on_file_selected_lazy_def Let_def c_def[symmetric] by auto
  next
    case False
    then have c: "0 \<le> c" by simp
    show ?thesis
    proof (cases "\<not> fst (malloc_ok s) \<or> \<not> fst (malloc_ok (snd (malloc_ok s))) \<or> opened = None \<or> fst (the opened) \<noteq> c")
      case True
      then have "on_file_selected_lazy count64 opened selected s = Some m" using False
        unfolding on_file_selected_lazy_def Let_def c_def[symmetric] m_def case_prod_unfold
        by (auto split: option.split)
      then show ?thesis using im by blast
    next
      case ok: False
      then obtain path_at where o: "opened = Some (c, path_at)" by (cases opened) auto
      let ?t = "(free_playlist m)\<lparr>lazy_lookup := path_at, playlist := replicate (nat c) None,
           playlist_lazy_sort_order := Some [0..c - 1], playlist_count := c, queued_pending_count := 0\<rparr>"
      have "on_file_selected_lazy count64 opened selected s = play_track_at selected ?t"
        using False ok o unfolding on_file_selected_lazy_def Let_def c_def[symmetric] m_def case_prod_unfold
        by (simp add: lazy_order_fill[OF c])
      moreover have "\<exists>s'. play_track_at selected ?t = Some s' \<and> player_inv s'"
        using play_loaded[of c "replicate (nat c) None" "Some [0..c - 1]" ?t selected] c by auto
      ultimately show ?thesis by simp
    qed
  qed
qed

section \<open>Selecting, clearing and restarting\<close>

lemma select_ready:
  assumes inv: "player_inv t" and m: "play_mode t = PLAY_MODE_SHUFFLE \<longrightarrow> bag_live t"
    and ident: "bag_live t \<longrightarrow> take (nat (playlist_count t)) (the (shuffle_order t)) = [0..playlist_count t - 1]"
    and i: "0 \<le> index" "index < playlist_count t" and q: "0 \<le> q" "index + q < playlist_count t"
    and v: "v = t\<lparr>queued_pending_count := q, queue_next_insert_index := (if q \<noteq> 0 then index + 1 + q else -1),
       shuffle_pos := p, playlist_index := index\<rparr>" and p: "-1 \<le> p"
  shows "ready v"
proof -
  have ok: "list_ok t" "bag_ok t" using inv by (auto simp: player_inv_def)
  have "\<exists>p. p + q < playlist_count t \<and> block_at (the (shuffle_order t)) p index q" if "bag_live t"
    using block_at_identity[OF i(1) q(2)] block_at_take[OF q(2), of "the (shuffle_order t)" index] ident that q(2) by auto
  then show ?thesis using ok i q p by (auto simp: v ready_def list_ok_def queue_ok_def bag_ok_def bag_live_def)
qed

lemma materializedD:
  assumes "materialized s t"
  shows "playlist_count t = playlist_count s" "queued_pending_count t = queued_pending_count s"
    "play_mode t = PLAY_MODE_SHUFFLE \<longrightarrow> bag_live t" "pending_shuffle_order t = None"
    "bag_live t \<longrightarrow> take (nat (playlist_count t)) (the (shuffle_order t)) = [0..playlist_count t - 1]"
    "-1 \<le> playlist_index t" "playlist_index t + queued_pending_count s < playlist_count s"
    "0 \<le> playlist_index s \<longrightarrow> 0 \<le> playlist_index t"
    "playlist_lazy_sort_order s = None \<longrightarrow> playlist_lazy_sort_order t = None"
  using assms unfolding materialized_def displays_def block_at_def by (blast | metis)+

lemma queue_select_ok:
  assumes inv: "player_inv s" and free: "external_dac_block_reason s = None"
  shows "\<exists>b s'. gui_player_queue_select revision index s = Some (b, s') \<and> player_inv s' \<and> (b \<longrightarrow> started index s')"
proof -
  obtain t where t: "catch_up s = Some t" "player_inv t" "external_dac_block_reason t = external_dac_block_reason s"
    by (rule catch_up_ok[OF inv])
  show ?thesis
  proof (cases "revision \<noteq> queue_revision t \<or> index < 0 \<or> playlist_count t \<le> index")
    case True
    then show ?thesis using t by (auto simp: gui_player_queue_select_def)
  next
    case g: False
    then obtain b u where u: "queue_materialize_order t = Some (b, u)" "mat_post t b u"
      using materialize_ok[OF t(2)] by fastforce
    show ?thesis
    proof (cases b)
      case False
      then show ?thesis using t(1) g u by (auto simp: gui_player_queue_select_def mat_post_def)
    next
      case True
      have m: "player_inv u" "materialized t u" "external_dac_block_reason u = None"
        using u(2) True t(3) free by (simp_all add: mat_post_def)
      note f = materializedD[OF m(2)]
      have q0: "0 \<le> queued_pending_count u" using m(1) by (simp add: player_inv_def queue_ok_def)
      define q where "q = (if playlist_index u < index \<and> index \<le> playlist_index u + queued_pending_count u
        then queued_pending_count u - (index - playlist_index u) else if index \<noteq> playlist_index u then 0
        else queued_pending_count u)"
      define p where "p = (if shuffle_order u \<noteq> None then index else shuffle_pos u)"
      define v where "v = u\<lparr>queued_pending_count := q,
         queue_next_insert_index := (if q \<noteq> 0 then index + 1 + q else -1), shuffle_pos := p\<rparr>"
      have q: "0 \<le> q" "index + q < playlist_count u" using g q0 f(1,2,7) by (auto simp: q_def)
      have p: "-1 \<le> p" using m(1) g by (auto simp: p_def player_inv_def bag_ok_def)
      have ir: "0 \<le> index" "index < playlist_count u" using g f(1) by auto
      have "ready (v\<lparr>playlist_index := index\<rparr>)"
        by (rule select_ready[OF m(1) f(3,5) ir q _ p]) (simp add: v_def)
      moreover have "external_dac_block_reason v = None" using m(3) by (auto simp: v_def external_dac_block_reason_def split: if_splits)
      ultimately obtain w where w: "play_track_at index v = Some w" "started index w"
        using play_track_at_ok[of v index] ir by (auto simp: v_def)
      have "v = (let s = (if playlist_index u < index \<and> index \<le> playlist_index u + queued_pending_count u
                  then u\<lparr>queued_pending_count := queued_pending_count u - (index - playlist_index u)\<rparr>
                  else if index \<noteq> playlist_index u then u\<lparr>queued_pending_count := 0\<rparr> else u);
               s = s\<lparr>queue_next_insert_index := (if queued_pending_count s \<noteq> 0
                   then index + 1 + queued_pending_count s else -1)\<rparr>
            in if shuffle_order s \<noteq> None then s\<lparr>shuffle_pos := index\<rparr> else s)"
        by (auto simp: Let_def v_def q_def p_def)
      then have "gui_player_queue_select revision index s = Some (True, w)"
        using t(1) g u(1) True w(1) by (simp add: gui_player_queue_select_def Let_def)
      then show ?thesis using w(2) by (auto simp: started_def)
    qed
  qed
qed

text \<open>Clearing leaves the current track alone in the queue, or the queue as it was.\<close>

lemma clear_tail:
  assumes m: "player_inv u" "pending_shuffle_order u = None" and k: "0 \<le> playlist_index u"
    and lz: "playlist_lazy_sort_order u = None" and n: "0 < playlist_count u"
  obtains v where "clear_keep_current u = Some v"
    and "player_inv v" and "playlist_count v = 1" and "queued_pending_count v = 0"
proof -
  have ok: "list_ok u" "bag_ok u" using m(1) by (auto simp: player_inv_def)
  have len: "playlist_count u \<le> int (length (playlist u))" "playlist_index u < playlist_count u"
    using ok(1) n by (auto simp: list_ok_def)
  define pl where "pl = (playlist u)[0 := playlist u ! nat (playlist_index u)]"
  have g: "aget (playlist u) (playlist_index u) = Some (playlist u ! nat (playlist_index u))"
    "aset (playlist u) 0 (playlist u ! nat (playlist_index u)) = Some pl"
    using k len by (auto simp: aget_def aset_def pl_def)
  have lpl: "1 \<le> int (length pl)" using len n by (simp add: pl_def)
  define w where "w = (case shuffle_order u of
      None \<Rightarrow> u\<lparr>playlist := pl, playlist_count := 1, playlist_index := 0, queued_pending_count := 0, queue_next_insert_index := -1\<rparr>
    | Some order \<Rightarrow> u\<lparr>playlist := pl, playlist_count := 1, playlist_index := 0, shuffle_order := Some (order[0 := 0]),
        shuffle_order_count := 1, shuffle_pos := 0, queued_pending_count := 0, queue_next_insert_index := -1\<rparr>)"
  have ne: "order \<noteq> []" if "shuffle_order u = Some order" for order
    using ok(2) that n by (auto simp: bag_ok_def)
  have one: "bag_of_size 1 (order[0 := 0])" if "order \<noteq> []" for order :: "int list"
    using that by (cases order) (auto simp: bag_of_size_def permutation_upto_def)
  have inv: "player_inv w"
  proof (cases "shuffle_order u")
    case None
    then show ?thesis using lpl lz ok(2)
      by (auto simp: w_def player_inv_def list_ok_def queue_ok_def bag_ok_def aligned_def)
  next
    case (Some order)
    have "order[0 := 0] ! 0 = 0" using ne[OF Some] by (cases order) auto
    then show ?thesis using Some lpl lz ne[OF Some] one m(2)
      by (auto simp: w_def player_inv_def list_ok_def queue_ok_def bag_ok_def aligned_def block_at_def)
  qed
  have ix: "playlist_index w = 0" "playlist_count w = 1" "queued_pending_count w = 0" by (auto simp: w_def split: option.split)
  obtain v where v: "arm_next_track_for_audio 0 w = Some v" "arm_frame w v" "player_inv v"
    by (rule arm_ok[OF player_inv_ready[OF inv] ix(1)])
  show thesis
  proof (rule that[OF _ v(3)])
    show "clear_keep_current u = Some v"
    proof (cases "shuffle_order u")
      case None
      then show ?thesis using v(1) by (simp add: clear_keep_current_def g w_def)
    next
      case (Some order)
      then have "aset order 0 0 = Some (order[0 := 0])" using ne[OF Some] by (simp add: aset_def)
      then show ?thesis using v(1) Some by (simp add: clear_keep_current_def g w_def)
    qed
  qed (use ix arm_frameD[OF v(2)] in simp_all)
qed

lemma clear_all_ok:
  assumes inv: "player_inv s"
  shows "\<exists>s'. gui_player_queue_clear_all s = Some s' \<and> player_inv s'"
proof -
  obtain t where t: "catch_up s = Some t" "player_inv t" by (rule catch_up_ok[OF inv])
  have lt: "list_ok t" using t(2) by (simp add: player_inv_def)
  show ?thesis
  proof (cases "gui_player_has_active_track t")
    case False
    then show ?thesis using t by (simp add: gui_player_queue_clear_all_def)
  next
    case act: True
    then have ix: "0 \<le> playlist_index t" "0 < playlist_count t"
      using lt by (auto simp: gui_player_has_active_track_def list_ok_def)
    show ?thesis
    proof (cases "playlist_lazy_sort_order t")
      case None
      obtain b u where u: "queue_materialize_order t = Some (b, u)" "mat_post t b u"
        using materialize_ok[OF t(2) ix(2)] by blast
      show ?thesis
      proof (cases b)
        case False
        then show ?thesis using t(1) act None u by (simp add: gui_player_queue_clear_all_def mat_post_def)
      next
        case True
        have m: "player_inv u" "materialized t u" using u(2) True by (simp_all add: mat_post_def)
        note f = materializedD[OF m(2)]
        have k: "0 \<le> playlist_index u" "playlist_lazy_sort_order u = None" "0 < playlist_count u" using f ix None by auto
        obtain v where "clear_keep_current u = Some v" "player_inv v" by (rule clear_tail[OF m(1) f(4) k])
        then show ?thesis using t(1) act None u(1) True by (simp add: gui_player_queue_clear_all_def)
      qed
    next
      case (Some lo)
      obtain path where path: "playlist_path_at t (playlist_index t) = Some path" using playlist_path_at_total[OF lt] by blast
      define m1 where "m1 = snd (malloc_ok t)"
      define m2 where "m2 = snd (malloc_ok m1)"
      have im: "player_inv m1" "player_inv m2" using malloc_frame(2) t(2) by (simp_all add: m1_def m2_def)
      let ?u = "m2\<lparr>playlist := [Some path], playlist_lazy_sort_order := None, lazy_lookup := (\<lambda>_. ''''),
                          playlist_count := 1, playlist_index := 0, shuffle_order := None, shuffle_order_count := 0,
                          pending_shuffle_order := None, queued_pending_count := 0, queue_next_insert_index := -1\<rparr>"
      have iu: "player_inv ?u" using im(2) by (auto simp: player_inv_def list_ok_def queue_ok_def bag_ok_def aligned_def)
      obtain v where v: "arm_next_track_for_audio 0 ?u = Some v" "player_inv v"
        by (rule arm_ok[OF player_inv_ready[OF iu], of 0]) simp_all
      have run: "gui_player_queue_clear_all s = (if path = '''' then Some t else if \<not> fst (malloc_ok t) then Some m1
          else if \<not> fst (malloc_ok m1) then Some m2 else Some v)"
        using t(1) act Some path v(1)
        by (simp add: gui_player_queue_clear_all_def case_prod_unfold Let_def m1_def[symmetric] m2_def[symmetric])
      then show ?thesis using t(2) im v(2) by auto
    qed
  qed
qed

text \<open>Restarting from a displayed row puts the slots into displayed order and drops bag and queue.\<close>

lemma restart_displayed_ok:
  assumes inv: "player_inv s"
  shows "\<exists>b s'. gui_player_queue_restart_displayed selected s = Some (b, s') \<and> player_inv s' \<and>
     (b \<longrightarrow> playlist_index s' = selected \<and> queued_pending_count s' = 0 \<and> playlist_count s' = playlist_count s \<and>
        (\<exists>order. permutation_upto (playlist_count s) order \<and> playlist s' = map (\<lambda>j. playlist s ! nat j) order))"
proof (cases "playlist_count s \<le> 0 \<or> selected < 0 \<or> playlist_count s \<le> selected")
  case True
  then show ?thesis using inv by (auto simp: gui_player_queue_restart_displayed_def)
next
  case False
  then have n: "0 < playlist_count s" by simp
  obtain r s1 where s1: "gui_player_queue_snapshot s = Some (r, s1)" "shuffle_frame s s1" "player_inv s1"
    and snap: "\<forall>x. r = Some x \<longrightarrow> shows_queue s1 x" by (rule snapshot_ok[OF inv])
  note f = shuffle_frameD[OF s1(2)]
  show ?thesis
  proof (cases r)
    case None
    then show ?thesis using False s1 by (auto simp: gui_player_queue_restart_displayed_def)
  next
    case (Some x)
    then obtain order where o: "snap_order x = Some order" "permutation_upto (playlist_count s) order"
      and cnt: "snap_count x = playlist_count s"
      using snap n f(2) unfolding shows_queue_def by auto
    obtain b1 m1 where m1: "malloc_ok s1 = (b1, m1)" by (cases "malloc_ok s1")
    obtain b2 m2 where m2: "malloc_ok m1 = (b2, m2)" by (cases "malloc_ok m1")
    obtain a3 m3 where a3: "(if playlist_lazy_sort_order m2 \<noteq> None then malloc_ok m2 else (True, m2)) = (a3, m3)"
      by (cases "if playlist_lazy_sort_order m2 \<noteq> None then malloc_ok m2 else (True, m2)")
    obtain a where e: "m2 = s1\<lparr>alloc_ok := a\<rparr>" using m1 m2 by (auto simp: malloc_ok_def)
    obtain a' where m3: "m3 = s1\<lparr>alloc_ok := a'\<rparr>" using e a3 by (auto simp: malloc_ok_def split: if_splits)
    have fm: "player_inv m3" "playlist m3 = playlist s" "playlist_lazy_sort_order m3 = playlist_lazy_sort_order s"
      "playlist_count m3 = playlist_count s" "playlist_lazy_sort_order m2 = playlist_lazy_sort_order s"
      by (simp_all add: m3 e s1(3) f)
    have l: "playlist_count s \<le> int (length (playlist s))"
      "\<And>rs. playlist_lazy_sort_order s = Some rs \<Longrightarrow> playlist_count s \<le> int (length rs)"
      using inv by (auto simp: player_inv_def list_ok_def)
    have lo: "length order = nat (playlist_count s)" using permutation_upto_length[OF o(2)] .
    let ?out = "Some (Some (map (\<lambda>k. playlist s ! nat k) order),
        map_option (\<lambda>rs. map (\<lambda>k. rs ! nat k) order) (playlist_lazy_sort_order s))"
    have reseq: "playback_order_resequence True a1 a2 a3 None (Some order) (playlist_count s)
          (Some (playlist s)) (playlist_lazy_sort_order s)
        = Some (if a1 \<and> a2 \<and> a3 then (True, ?out) else (False, Some (None, None)))" for a1 a2
      using resequence_display[OF n l(1) lo l(2)] o(2) resequence_refused[OF n, of a1 a2 "playlist_lazy_sort_order s" a3]
        a3 fm(5) by (auto split: if_splits)
    let ?u = "m3\<lparr>playlist := map (\<lambda>k. playlist s ! nat k) order,
        playlist_lazy_sort_order := map_option (\<lambda>rs. map (\<lambda>k. rs ! nat k) order) (playlist_lazy_sort_order s),
        playlist_index := selected, queued_pending_count := 0, queue_next_insert_index := -1,
        shuffle_order := None, shuffle_order_count := 0, shuffle_pos := -1, pending_shuffle_order := None\<rparr>"
    have "gui_player_queue_restart_displayed selected s = Some (if b1 \<and> b2 \<and> a3 then (True, ?u) else (False, m3))"
      using False s1(1) Some o(1) cnt f(2)
      unfolding gui_player_queue_restart_displayed_def
      by (simp add: m1 m2 a3[simplified] reseq fm(2,3,4))
    moreover have "player_inv ?u"
      by (rule fresh_list_ready[where cnt = "playlist_count s" and i = selected]) (use n False lo fm in auto)
    ultimately show ?thesis using fm o(2) by auto
  qed
qed

lemma remote_queue_remove_ok:
  assumes inv: "player_inv s"
  shows "\<exists>b s'. gui_player_remote_queue_remove offset revision s = Some (b, s') \<and> player_inv s'"
proof -
  obtain r s1 where s1: "gui_player_queue_snapshot s = Some (r, s1)" "shuffle_frame s s1" "player_inv s1"
    by (rule snapshot_ok[OF inv])
  then show ?thesis using inv queue_edit_ok[OF s1(3)]
    by (cases r) (auto simp: gui_player_remote_queue_remove_def)
qed

lemma remote_queue_clear_ok:
  assumes inv: "player_inv s"
  shows "\<exists>b s'. gui_player_remote_queue_clear revision s = Some (b, s') \<and> player_inv s'"
  using inv clear_all_ok[OF inv] by (auto simp: gui_player_remote_queue_clear_def)

lemma toggle_play_pause_ok:
  assumes inv: "player_inv s"
  shows "\<exists>s'. toggle_play_pause airplay have_current resume s = Some s' \<and> player_inv s'"
proof (cases "playlist_index s < 0")
  case True
  then show ?thesis using inv by (simp add: toggle_play_pause_def)
next
  case False
  have ix: "0 \<le> playlist_index s" "playlist_index s < playlist_count s"
    using inv False by (auto simp: player_inv_def list_ok_def)
  have play: "\<exists>s'. play_track_at_from_internal (playlist_index s) st nav skip t = Some s' \<and> player_inv s'"
    if "core_eq t s" "playlist_count t = playlist_count s" "playlist_index t = playlist_index s" for st nav skip t
  proof (cases "external_dac_block_reason t")
    case None
    have "ready (t\<lparr>playlist_index := playlist_index s\<rparr>)"
      using that inv player_inv_ready core_eq_ready[of "t\<lparr>playlist_index := playlist_index s\<rparr>" s]
      by (auto simp: core_eq_def)
    then show ?thesis using play_internal_ok[OF ix(1) _ None] ix(2) that(2) by (metis started_def)
  next
    case (Some m)
    have "player_inv t" using core_eq_inv[OF that(1)] inv by simp
    then show ?thesis using Some ix that by (auto simp: play_track_at_from_internal_def)
  qed
  have c1: "core_eq (emit e (reset_decoder_failure_tracking s)) s" for e
    by (simp add: core_eq_def emit_def reset_decoder_failure_tracking_def)
  have c2: "core_eq (reset_decoder_failure_tracking
      ((emit e (reset_decoder_failure_tracking s))\<lparr>deferred_resume_pending := False, deferred_resume_position := 0\<rparr>)) s" for e
    by (simp add: core_eq_def emit_def reset_decoder_failure_tracking_def)
  consider (air) airplay | (def) "\<not> airplay" "deferred_resume_pending s" | (plain) "\<not> airplay" "\<not> deferred_resume_pending s"
    by blast
  then show ?thesis
  proof cases
    case air
    then show ?thesis using play[OF c1[of Airplay_disconnect]] False by (simp add: toggle_play_pause_def)
  next
    case def
    then show ?thesis using play[OF c2[of Airplay_disconnect]] False
      by (simp add: toggle_play_pause_def play_track_at_from_def reset_decoder_failure_tracking_def emit_def)
  next
    case plain
    then have "\<not> deferred_resume_pending (emit Airplay_disconnect (reset_decoder_failure_tracking s))"
      by (simp add: emit_def reset_decoder_failure_tracking_def)
    then show ?thesis using False inv plain(1)
      by (auto simp: toggle_play_pause_def Let_def split: option.split)
  qed
qed

end
