(* ===== verification/Player_Trace.thy ===== *)
theory Player_Trace
  imports Player_Session
begin

text \<open>
  The player as a state machine: the commands of the user interface and of the remote control,
  the playback thread's promotion of the armed track and the periodic poll, in any order.
\<close>

section \<open>Commands\<close>

text \<open>
  The playback part of the interface's timer (\<^verbatim>\<open>gui.c\<close>).  \<open>resume_pos\<close> is the engine's resume
  position at that moment.
\<close>

definition gui_poll_playback :: "real \<Rightarrow> player \<Rightarrow> player option" where
  "gui_poll_playback resume_pos s =
     (let ((err, err_gen), a) = audio_consume_error_ex (audio s); s = s\<lparr>audio := a\<rparr>
      in if err \<noteq> AUDIO_ERROR_NONE then gui_player_handle_playback_error_ex err err_gen resume_pos s
         else let (advanced, a) = audio_consume_track_advanced (audio s); s = s\<lparr>audio := a\<rparr>
           in if advanced then gui_player_handle_auto_advance s
              else let (finished, a) = audio_consume_track_finished (audio s); s = s\<lparr>audio := a\<rparr>
                in if finished then gui_player_handle_track_finished s else Some s)"

text \<open>
  What the playback thread reports besides a promotion: the end of a track, or a failure with
  the generation the thread was playing.
\<close>

definition audio_thread_finish :: "audio_state \<Rightarrow> audio_state" where
  "audio_thread_finish a = a\<lparr>track_finished := True\<rparr>"

definition audio_thread_fail :: "audio_error_t \<Rightarrow> u64 \<Rightarrow> audio_state \<Rightarrow> audio_state" where
  "audio_thread_fail e cur_generation a =
     a\<lparr>last_playback_error := e, last_playback_error_generation := cur_generation\<rparr>"

datatype command =
    Select_file "string option list" int int
  | Select_lazy int "snapshot_rows option" int
  | Queue_add "string option list"
  | Queue_add_song "string option"
  | Queue_play_next "string option"
  | Queue_remove int
  | Queue_clear_pending
  | Queue_edit u64 int int
  | Queue_select u64 int
  | Queue_clear_all
  | Queue_restart int
  | Remote_remove int u64
  | Remote_clear u64
  | Step int
  | Set_mode int
  | Toggle bool bool real
  | Poll real
  | Set_dac bool bool bool
  | Thread_promote
  | Thread_finish
  | Thread_fail audio_error_t u64

fun run_command :: "command \<Rightarrow> player \<Rightarrow> player option" where
  "run_command (Select_file pl cnt i) s = on_file_selected pl cnt i s"
| "run_command (Select_lazy c opened i) s = on_file_selected_lazy c opened i s"
| "run_command (Queue_add paths) s = gui_player_queue_add_many paths s"
| "run_command (Queue_add_song path) s = queue_add_song path s"
| "run_command (Queue_play_next path) s = gui_player_queue_play_next path s"
| "run_command (Queue_remove offset) s = queue_remove_song_at_offset offset s"
| "run_command Queue_clear_pending s = queue_clear_pending s"
| "run_command (Queue_edit rv i j) s = map_option snd (gui_player_queue_edit rv i j s)"
| "run_command (Queue_select rv i) s = map_option snd (gui_player_queue_select rv i s)"
| "run_command Queue_clear_all s = gui_player_queue_clear_all s"
| "run_command (Queue_restart i) s = map_option snd (gui_player_queue_restart_displayed i s)"
| "run_command (Remote_remove offset rv) s = map_option snd (gui_player_remote_queue_remove offset rv s)"
| "run_command (Remote_clear rv) s = map_option snd (gui_player_remote_queue_clear rv s)"
| "run_command (Step d) s = gui_player_step_manual d s"
| "run_command (Set_mode m) s = gui_player_set_play_mode m s"
| "run_command (Toggle air cur pos) s = toggle_play_pause air cur pos s"
| "run_command (Poll pos) s = gui_poll_playback pos s"
| "run_command (Set_dac bt powered usb) s =
     Some (s\<lparr>bt_dac_mode_enabled := bt, bt_is_powered_cached := powered, usb_mode_dac := usb\<rparr>)"
| "run_command Thread_promote s = Some (s\<lparr>audio := audio_thread_promote (audio s)\<rparr>)"
| "run_command Thread_finish s = Some (s\<lparr>audio := audio_thread_finish (audio s)\<rparr>)"
| "run_command (Thread_fail e g) s = Some (s\<lparr>audio := audio_thread_fail e g (audio s)\<rparr>)"

primrec run_commands :: "command list \<Rightarrow> player \<Rightarrow> player option" where
  "run_commands [] s = Some s"
| "run_commands (c # cs) s = do { s \<leftarrow> run_command c s; run_commands cs s }"

text \<open>
  \<open>Set_dac\<close> stands for the settings screens that switch the external DAC modes.

  When a command may be given.  A loaded list has as many slots as it says.  Stepping, selecting
  a row and the poll start a track, which an external DAC mode refuses after the queue has been
  consumed; switching the mode is restricted to an empty queue; the poll may have to skip an
  unplayable track, which needs memory.  The three restrictions are necessary: see the
  properties on \<open>gui_player_step_manual\<close> and \<open>gui_player_set_play_mode\<close>.
\<close>

fun command_allowed :: "command \<Rightarrow> player \<Rightarrow> bool" where
  "command_allowed (Select_file pl cnt i) s \<longleftrightarrow> 0 \<le> cnt \<and> cnt \<le> int (length pl)"
| "command_allowed (Queue_select rv i) s \<longleftrightarrow> external_dac_block_reason s = None"
| "command_allowed (Step d) s \<longleftrightarrow> (d = 1 \<or> d = -1) \<and> external_dac_block_reason s = None"
| "command_allowed (Set_mode m) s \<longleftrightarrow> queued_pending_count s = 0"
| "command_allowed (Poll pos) s \<longleftrightarrow> external_dac_block_reason s = None \<and> plenty s"
| "command_allowed c s \<longleftrightarrow> True"

text \<open>The state at start-up.\<close>

definition player_start :: "player \<Rightarrow> bool" where
  "player_start s \<longleftrightarrow> playlist s = [] \<and> playlist_count s = 0 \<and> playlist_index s = -1 \<and>
     playlist_lazy_sort_order s = None \<and> queued_pending_count s = 0 \<and> queue_next_insert_index s = -1 \<and>
     shuffle_order s = None \<and> shuffle_order_count s = 0 \<and> shuffle_pos s = -1 \<and> pending_shuffle_order s = None"

section \<open>Every command is safe\<close>

lemma start_inv: "player_start s \<Longrightarrow> player_inv s"
  by (auto simp: player_start_def player_inv_def list_ok_def queue_ok_def bag_ok_def aligned_def)

lemma poll_ok:
  assumes inv: "player_inv s" and free: "external_dac_block_reason s = None" and mem: "plenty s"
  shows "\<exists>s'. gui_poll_playback pos s = Some s' \<and> player_inv s'"
proof -
  define s1 where "s1 = s\<lparr>audio := (audio s)\<lparr>last_playback_error := AUDIO_ERROR_NONE, last_playback_error_generation := 0\<rparr>\<rparr>"
  define s2 where "s2 = s1\<lparr>audio := (audio s1)\<lparr>track_advanced := False\<rparr>\<rparr>"
  define s3 where "s3 = s2\<lparr>audio := (audio s2)\<lparr>track_finished := False\<rparr>\<rparr>"
  have i: "player_inv s1" "player_inv s2" "player_inv s3" using inv by (simp_all add: s1_def s2_def s3_def)
  have f: "external_dac_block_reason s1 = None" "external_dac_block_reason s3 = None" "plenty s1"
    using free mem by (auto simp: s1_def s2_def s3_def external_dac_block_reason_def plenty_def split: if_splits)
  obtain e where e: "gui_player_handle_playback_error_ex (last_playback_error (audio s)) (last_playback_error_generation (audio s)) pos s1 = Some e"
    "player_inv e" by (rule handle_playback_error_ok[OF i(1) f(1,3)])
  obtain a where a: "gui_player_handle_auto_advance s2 = Some a" "player_inv a" by (rule handle_auto_advance_ok[OF i(2)])
  obtain t where t: "gui_player_handle_track_finished s3 = Some t" "player_inv t" by (rule handle_track_finished_ok[OF i(3) f(2)])
  have "gui_poll_playback pos s = (if last_playback_error (audio s) \<noteq> AUDIO_ERROR_NONE then Some e
      else if track_advanced (audio s1) then Some a else if track_finished (audio s2) then Some t else Some s3)"
    unfolding gui_poll_playback_def Let_def audio_consume_error_ex_def audio_consume_track_advanced_def
      audio_consume_track_finished_def prod.case s1_def[symmetric] s2_def[symmetric] s3_def[symmetric] e a t
    by simp
  then show ?thesis using e a t i by auto
qed

lemma command_ok:
  assumes inv: "player_inv s" and al: "command_allowed c s"
  shows "\<exists>s'. run_command c s = Some s' \<and> player_inv s'"
proof (cases c)
  case (Select_file pl cnt i)
  then show ?thesis using al on_file_selected_ok[of cnt pl i s] by auto
next
  case (Select_lazy x1 x2 x3)
  then show ?thesis using on_file_selected_lazy_ok[OF inv] by simp
next
  case (Queue_add x)
  then show ?thesis using add_many_step[OF inv] by (metis run_command.simps(3))
next
  case (Queue_add_song x)
  then show ?thesis using queue_add_song_ok[OF inv] by (metis run_command.simps(4))
next
  case (Queue_play_next x)
  then show ?thesis using play_next_ok[OF inv] by (metis run_command.simps(5))
next
  case (Queue_remove x)
  then show ?thesis using queue_remove_ok[OF inv] by (metis run_command.simps(6))
next
  case Queue_clear_pending
  obtain t where "queue_clear_loop s = Some t" "player_inv t" by (rule queue_clear_ok[OF inv])
  then show ?thesis using Queue_clear_pending by (auto simp: queue_clear_pending_def)
next
  case (Queue_edit r i j)
  then show ?thesis using queue_edit_ok[OF inv, of r i j] by auto
next
  case (Queue_select r i)
  then show ?thesis using queue_select_ok[OF inv, of r i] al by auto
next
  case Queue_clear_all
  then show ?thesis using clear_all_ok[OF inv] by simp
next
  case (Queue_restart i)
  then show ?thesis using restart_displayed_ok[OF inv, of i] by auto
next
  case (Remote_remove i r)
  then show ?thesis using remote_queue_remove_ok[OF inv, of i r] by auto
next
  case (Remote_clear r)
  then show ?thesis using remote_queue_clear_ok[OF inv, of r] by auto
next
  case (Step d)
  then show ?thesis using step_manual_ok[OF inv, of d] al by auto
next
  case (Set_mode m)
  then show ?thesis using set_play_mode_ok[OF inv, of m] al by auto
next
  case (Toggle a b p)
  then show ?thesis using toggle_play_pause_ok[OF inv] by simp
next
  case (Poll p)
  then show ?thesis using poll_ok[OF inv] al by simp
qed (use inv in simp_all)

interpretation pm: safe_machine player_start command_allowed run_command player_inv
  by unfold_locales (auto intro: start_inv command_ok)

section \<open>Gapless hand-over\<close>

lemma gapless_handover:
  assumes inv: "player_inv s" and arm: "armed s" and ix: "0 \<le> playlist_index s"
    and nxt: "next_path (audio s) = Some p"
  obtains s' where "gui_player_handle_auto_advance (s\<lparr>audio := (audio_thread_promote (audio s))\<lparr>track_advanced := False\<rparr>\<rparr>) = Some s'"
    and "started (playlist_index s') s'" and "active_path (audio s') = Some p"
    and "peek_next (playlist_index s) s = Some (playlist_index s')"
proof -
  obtain i where i: "peek_next (playlist_index s) s = Some i" "0 \<le> i" "playlist_path_at s i = Some p"
    using arm nxt unfolding armed_def by (auto split: option.splits if_splits)
  define a where "a = (audio_thread_promote (audio s))\<lparr>track_advanced := False\<rparr>"
  define t where "t = reset_decoder_failure_tracking (s\<lparr>audio := a\<rparr>)"
  have t: "player_inv t" "playlist_index t = playlist_index s" "peek_next (playlist_index t) t = Some i"
    "playlist_path_at t i = Some p" "playlist_count t = playlist_count s" "audio t = a"
    using inv i(1,3) by (simp_all add: t_def reset_decoder_failure_tracking_def)
  have ic: "i < playlist_count s" using peek_next_range[OF inv _ i(1)] i(2) inv ix by (auto simp: player_inv_def list_ok_def)
  have r: "ready ((commit_auto_advance t)\<lparr>playlist_index := i\<rparr>)" using commit_ready[OF t(1)] t ix i(2) by simp
  have c: "i < playlist_count (commit_auto_advance t)" "audio (commit_auto_advance t) = a"
    using ic t(5,6) by (simp_all add: commit_auto_advance_def Let_def)
  have pa: "playlist_path_at (commit_auto_advance t) i = Some p"
    using t(4) by (subst playlist_path_at_cong[of _ t]) (simp_all add: commit_auto_advance_def Let_def)
  obtain s' where s': "on_track_auto_advanced i (commit_auto_advance t) = Some s'" "player_inv s'" "armed s'"
      "playlist_index s' = i" "playlist_path_at s' i = playlist_path_at (commit_auto_advance t) i"
      "active_path (audio s') = active_path (audio (commit_auto_advance t))"
      "track_advanced (audio s') = track_advanced (audio (commit_auto_advance t))"
      "current_playback_generation s' = playback_generation (audio s')"
    by (rule on_track_auto_advanced_ok[OF i(2) c(1) r])
  have act: "active_path a = Some p" "\<not> track_advanced a" using nxt by (simp_all add: a_def audio_thread_promote_def)
  have "gui_player_handle_auto_advance (s\<lparr>audio := a\<rparr>) = Some s'"
    using peek_compute[OF t(1,3)] s'(1) ix i(2) t(2) unfolding gui_player_handle_auto_advance_def Let_def t_def[symmetric]
    by simp
  then show thesis unfolding a_def
    by (rule that) (use s' act c pa i(1) in \<open>simp_all add: started_def\<close>)
qed

end
