(* ===== verification/Player_Props.thy ===== *)
theory Player_Props
  imports Player_Trace
begin

text \<open>
  The properties of the player: every command is safe in every reachable state, the gapless
  hand-over agrees with the playlist, the queue's operations do what they announce, and three
  situations in which the code breaks its own invariant.
\<close>

section \<open>Concrete players\<close>

definition idle_audio :: audio_state where
  "idle_audio = \<lparr>restart_path = None, restart_start_seconds = 0, restart_requested = False, stop_requested = False,
     paused = False, next_path = None, next_track_generation = 0, active_path = None, playback_generation = 0,
     track_finished = False, track_advanced = False, last_playback_error = AUDIO_ERROR_NONE,
     last_playback_error_generation = 0, seek_pending = False\<rparr>"

definition empty_player :: player where
  "empty_player = \<lparr>playlist = [], playlist_count = 0, playlist_index = -1, playlist_lazy_sort_order = None,
     lazy_lookup = (\<lambda>_. ''''), queued_pending_count = 0, queue_next_insert_index = -1, shuffle_order = None,
     shuffle_order_count = 0, shuffle_pos = -1, pending_shuffle_order = None, queue_revision = 0,
     consecutive_decoder_failure_skips = 0, failed_physical_paths = [], current_playback_generation = 0,
     deferred_resume_pending = False, deferred_resume_position = 0, play_mode = 0, gapless_enabled = True,
     bt_dac_mode_enabled = False, bt_is_powered_cached = False, usb_mode_dac = False, last_track = '''',
     last_position = 0, on_player_screen = False, audio = idle_audio, alloc_ok = (\<lambda>_. True), rand_seq = (\<lambda>_. 0),
     events = []\<rparr>"

text \<open>Three tracks, the first one playing and armed with the second, which is queued.\<close>

definition three_tracks :: player where
  "three_tracks = empty_player\<lparr>playlist := [Some ''a'', Some ''b'', Some ''c''], playlist_count := 3, playlist_index := 0,
     queued_pending_count := 1, queue_next_insert_index := 2, audio := idle_audio\<lparr>next_path := Some ''b'', active_path := Some ''a''\<rparr>\<rparr>"

lemma empty_player_start: "player_start empty_player"
  by (simp add: player_start_def empty_player_def)

lemma three_tracks_fields [simp]:
  "playlist three_tracks = [Some ''a'', Some ''b'', Some ''c'']" "playlist_count three_tracks = 3"
  "playlist_index three_tracks = 0" "queued_pending_count three_tracks = 1" "play_mode three_tracks = 0"
  "external_dac_block_reason three_tracks = None" "track_advanced (audio three_tracks) = False"
  by (simp_all add: three_tracks_def empty_player_def external_dac_block_reason_def idle_audio_def)

lemma three_tracks_inv: "player_inv three_tracks"
  by (simp add: three_tracks_def empty_player_def player_inv_def list_ok_def queue_ok_def bag_ok_def aligned_def)

lemma three_tracks_armed: "armed three_tracks"
  by (simp add: armed_def peek_next_def three_tracks_def empty_player_def playlist_path_at_def aget_def)

section \<open>Safety of every command\<close>

text \<open>
  C1: In every state the player can reach, every permitted command of the user interface, of the
  remote control, of the timer and of the playback thread runs without an access outside a
  buffer, and the queue's invariant holds again afterwards.
\<close>

theorem player_commands_safe:
  assumes "reachable_by player_start command_allowed run_command s" and "command_allowed c s"
  shows "\<exists>s'. run_command c s = Some s' \<and> player_inv s'"
  using pm.reachable_safe[OF assms] by blast

theorem player_commands_safe_witness:
  "player_start empty_player \<and> (\<exists>s'. run_command (Queue_add [Some ''a'', Some ''b'']) empty_player = Some s' \<and> player_inv s')"
proof
  have "reachable_by player_start command_allowed run_command empty_player" by (rule reach_start) (rule empty_player_start)
  then show "\<exists>s'. run_command (Queue_add [Some ''a'', Some ''b'']) empty_player = Some s' \<and> player_inv s'"
    by (rule player_commands_safe) simp
qed (rule empty_player_start)

text \<open>
  C2: When the playback thread has moved on to the armed track by itself, the handler moves the
  playlist to exactly that track: the path the engine plays is the path of the current slot, the
  engine's generation is acknowledged and the next successor is armed.
\<close>

theorem gapless_handover_agrees:
  assumes "player_inv s" and "armed s" and "0 \<le> playlist_index s" and "next_path (audio s) = Some p"
    and "s' = s\<lparr>audio := (audio_thread_promote (audio s))\<lparr>track_advanced := False\<rparr>\<rparr>"
  shows "\<exists>t. gui_player_handle_auto_advance s' = Some t \<and> started (playlist_index t) t \<and>
     active_path (audio t) = Some p \<and> playlist_path_at t (playlist_index t) = Some p"
proof -
  obtain t where t: "gui_player_handle_auto_advance s' = Some t" "started (playlist_index t) t" "active_path (audio t) = Some p"
    unfolding assms(5) by (rule gapless_handover[OF assms(1-4)]) blast
  then show ?thesis by (auto simp: started_def)
qed

theorem gapless_handover_agrees_witness:
  "\<exists>t. gui_player_handle_auto_advance (three_tracks\<lparr>audio := (audio_thread_promote (audio three_tracks))\<lparr>track_advanced := False\<rparr>\<rparr>) = Some t \<and>
     started (playlist_index t) t \<and> active_path (audio t) = Some ''b'' \<and> playlist_path_at t (playlist_index t) = Some ''b''"
  by (rule gapless_handover_agrees[OF three_tracks_inv three_tracks_armed _ _ refl])
    (simp_all add: three_tracks_def empty_player_def)

text \<open>
  Selecting a file of a freshly built playlist starts that file: it becomes the current slot,
  the engine is told to play its path and its successor is armed.  While an external DAC mode is
  active the list is loaded and nothing is started.
\<close>

theorem file_selection_starts:
  assumes "0 \<le> cnt" and "cnt \<le> int (length new_playlist)"
  shows "\<exists>s'. on_file_selected new_playlist cnt selected s = Some s' \<and> player_inv s' \<and>
     (external_dac_block_reason s = None \<and> 0 \<le> selected \<and> selected < cnt \<longrightarrow> started selected s')"
  by (rule on_file_selected_ok[OF assms])

theorem file_selection_starts_witness:
  "\<exists>s'. on_file_selected [Some ''x'', Some ''y''] 2 1 three_tracks = Some s' \<and> started 1 s'"
  using file_selection_starts[of 2 "[Some ''x'', Some ''y'']" 1 three_tracks] by auto

section \<open>The queue\<close>







text \<open>
  C6: The snapshot behind the queue screen lists every slot exactly once, in the order the slots
  will be played, with its cursor on the current track and the queued songs directly behind it.
\<close>

theorem snapshot_shows_queue:
  assumes "player_inv s"
  shows "\<exists>r s'. gui_player_queue_snapshot s = Some (r, s') \<and> player_inv s' \<and> (\<forall>x. r = Some x \<longrightarrow> shows_queue s' x)"
  by (rule snapshot_ok[OF assms]) blast

theorem snapshot_shows_queue_witness:
  "\<exists>r s'. gui_player_queue_snapshot three_tracks = Some (r, s') \<and> player_inv s' \<and> (\<forall>x. r = Some x \<longrightarrow> shows_queue s' x)"
  by (rule snapshot_shows_queue[OF three_tracks_inv])





section \<open>Where the code breaks the invariant\<close>


text \<open>
  Deleting the current song while songs are queued keeps the queue's counter although the
  first queued song has become the current one; removing the last queued song then accesses
  a slot behind the end of the playlist.
\<close>

theorem delete_song_with_queue_overruns:
  "(do { s \<leftarrow> run_command (Queue_add [Some ''a'', Some ''b'']) empty_player; delete_song_confirm s }) \<noteq> None \<and>
   (do { s \<leftarrow> run_command (Queue_add [Some ''a'', Some ''b'']) empty_player; s \<leftarrow> delete_song_confirm s;
         queue_remove_song_at_offset 0 s }) = None"
  by code_simp

text \<open>
  Next while an external DAC mode refuses playback: the shuffle cursor moves on although the
  current track stays, so that the cursor no longer points at the current track.
\<close>

theorem step_blocked_moves_cursor:
  "map_option (\<lambda>s. (playlist_index s, the (shuffle_order s) ! nat (shuffle_pos s)))
     (run_commands [Select_file [Some ''a'', Some ''b''] 2 1, Set_mode 3, Set_dac False False True] empty_player) = Some (1, 1) \<and>
   map_option (\<lambda>s. (playlist_index s, the (shuffle_order s) ! nat (shuffle_pos s)))
     (run_commands [Select_file [Some ''a'', Some ''b''] 2 1, Set_mode 3, Set_dac False False True, Step 1] empty_player) = Some (1, 0)"
  by code_simp

section \<open>The shuffle bag and the failure planner\<close>

text \<open>
  C10: Inserting slots into the bag in place gives the abstract bag: slot numbers from the insertion
  point on are shifted and the new slots are spliced in at the requested position; a permutation
  stays a permutation.
\<close>

theorem playback_order_insert_correct:
  assumes "permutation_upto cnt (take (nat cnt) order)" and "0 \<le> cnt" and "cnt + added \<le> int (length order)"
    and "0 \<le> pos" and "pos \<le> cnt" and "0 \<le> added" and "0 \<le> physical" and "physical \<le> cnt"
  shows "\<exists>order'. playback_order_insert order cnt physical pos added = Some order' \<and> length order' = length order \<and>
     take (nat (cnt + added)) order' = bag_insert (take (nat cnt) order) physical pos added \<and>
     permutation_upto (cnt + added) (take (nat (cnt + added)) order')"
  using playback_order_insert_refines[OF assms(2-6), of physical] bag_insert_permutation[OF assms(1,7,8,6), of pos] by auto

theorem playback_order_insert_correct_witness:
  "\<exists>order'. playback_order_insert [1, 0, 7] 2 1 1 1 = Some order' \<and> length order' = 3 \<and>
     take 3 order' = bag_insert [1, 0] 1 1 1 \<and> permutation_upto 3 (take 3 order')"
proof -
  have "permutation_upto 2 (take (nat 2) [1, 0, 7])" by (auto simp: permutation_upto_def eval_nat_numeral)
  from playback_order_insert_correct[OF this, of 1 1 1] show ?thesis by (simp add: eval_nat_numeral)
qed

text \<open>
  C11: The plan made after a decoder failure never accesses a bag out of bounds, and the track it
  chooses is inside the playlist, is not the one that failed and is not known to be unplayable.
\<close>

theorem failure_plan_sound:
  assumes "bags_ok n so sp pend" and "failed < n"
  shows "\<exists>p. compute_decoder_failure_advance_plan failed n mode queued so sp pend f = Some p \<and>
     (target_index p = -1 \<or>
        (0 \<le> target_index p \<and> target_index p < n \<and> target_index p \<noteq> failed \<and> usable f (target_index p)))"
  by (rule failure_plan_correct[OF assms])

theorem failure_plan_sound_witness:
  "\<exists>p. compute_decoder_failure_advance_plan 0 3 3 0 (Some [0, 2, 1]) 0 None (Some (\<lambda>i. i = 2)) = Some p \<and>
     (target_index p = -1 \<or> (0 \<le> target_index p \<and> target_index p < 3 \<and> target_index p \<noteq> 0 \<and> usable (Some (\<lambda>i. i = 2)) (target_index p)))"
  by (rule failure_plan_sound) (simp_all add: bags_ok_def)



text \<open>
  C9: A fresh shuffle bag is a permutation of all slots that starts with the current track followed
  by the queued songs in their order, whatever the random numbers are.
\<close>

theorem fresh_bag_starts_with_queue:
  assumes "list_ok s" and "queue_ok s" and "\<not> bag_live s" and "alloc_ok s 0"
  shows "\<exists>s' order. ensure_shuffle_order_current s = Some s' \<and> shuffle_order s' = Some order \<and> shuffle_pos s' = 0 \<and>
     permutation_upto (playlist_count s) order \<and>
     (0 \<le> playlist_index s \<longrightarrow> block_at order 0 (playlist_index s) (queued_pending_count s))"
  using ensure_fresh[OF assms] by auto

theorem fresh_bag_starts_with_queue_witness:
  "\<exists>s' order. ensure_shuffle_order_current three_tracks = Some s' \<and> shuffle_order s' = Some order \<and> shuffle_pos s' = 0 \<and>
     permutation_upto 3 order \<and> block_at order 0 0 1"
proof -
  have "list_ok three_tracks" "queue_ok three_tracks" using three_tracks_inv by (simp_all add: player_inv_def)
  moreover have "\<not> bag_live three_tracks" "alloc_ok three_tracks 0" by (simp_all add: bag_live_def three_tracks_def empty_player_def)
  ultimately show ?thesis using fresh_bag_starts_with_queue[of three_tracks] by auto
qed

text \<open>
  Resequencing succeeds exactly when the displayed order is a permutation of the slots; it then
  delivers the paths and the ranks of a lazy queue in that order, and writes no array otherwise.
\<close>

theorem resequence_exact:
  assumes "0 < n" and "n \<le> int (length paths)" and "length d = nat n"
    and "\<And>rs. ranks = Some rs \<Longrightarrow> n \<le> int (length rs)"
  shows "playback_order_resequence True True True True null (Some d) n (Some paths) ranks =
     Some (if permutation_upto n d
           then (True, Some (Some (map (\<lambda>k. paths ! nat k) d), map_option (\<lambda>rs. map (\<lambda>k. rs ! nat k) d) ranks))
           else (False, Some (None, None)))"
  by (rule resequence_display[OF assms])

theorem resequence_exact_witness:
  "playback_order_resequence True True True True ''-'' (Some [1, 0]) 2 (Some [''x'', ''y'']) (Some [5, 6]) =
     Some (if permutation_upto 2 [1, 0] then (True, Some (Some [''y'', ''x''], Some [6, 5])) else (False, Some (None, None)))"
  by (subst resequence_exact) auto

text \<open>
  A resolved path of a lazy queue that is stored back into its slot does not change the path
  of any slot.
\<close>

theorem memo_keeps_paths:
  assumes "playlist_path_memo index s = Some s'"
  shows "playlist_path_at s' i = playlist_path_at s i"
proof (cases "index < 0 \<or> playlist_count s \<le> index")
  case True
  then show ?thesis using assms by (simp add: playlist_path_memo_def)
next
  case False
  then obtain slot path where sp: "aget (playlist s) index = Some slot" "playlist_path_at s index = Some path"
    using assms by (auto simp: playlist_path_memo_def split: Option.bind_splits)
  show ?thesis
  proof (cases "slot \<noteq> None \<or> path = '''' \<or> \<not> alloc_ok s 0")
    case True
    then have "s' = s\<lparr>alloc_ok := \<lambda>k. alloc_ok s (Suc k)\<rparr> \<or> s' = s"
      using assms False sp by (auto simp: playlist_path_memo_def malloc_ok_def Let_def split: if_splits)
    then show ?thesis by (elim disjE) (rule playlist_path_at_cong, simp_all)
  next
    case store: False
    have in_range: "0 \<le> index" "index < int (length (playlist s))"
      using sp(1) False by (auto simp: aget_def split: if_splits)
    have "s' = s\<lparr>alloc_ok := \<lambda>k. alloc_ok s (Suc k), playlist := (playlist s)[nat index := Some path]\<rparr>"
      using assms False sp store in_range by (simp add: playlist_path_memo_def malloc_ok_def aset_def)
    then have s': "playlist s' = (playlist s)[nat index := Some path]" "playlist_count s' = playlist_count s"
      "playlist_lazy_sort_order s' = playlist_lazy_sort_order s" "lazy_lookup s' = lazy_lookup s" by simp_all
    show ?thesis
    proof (cases "i = index")
      case True
      then show ?thesis using sp(2) False in_range by (simp add: playlist_path_at_def s' aget_def)
    next
      case other: False
      then have "0 \<le> i \<Longrightarrow> nat i \<noteq> nat index" using in_range by simp
      then have "0 \<le> i \<Longrightarrow> aget (playlist s') i = aget (playlist s) i" by (simp add: s' aget_def)
      then show ?thesis unfolding playlist_path_at_def s'(2-4) by simp
    qed
  qed
qed

theorem memo_keeps_paths_witness:
  "\<exists>s'. playlist_path_memo 0 three_tracks = Some s' \<and> playlist_path_at s' 1 = playlist_path_at three_tracks 1"
proof -
  have "playlist_path_memo 0 three_tracks = Some three_tracks"
    by (simp add: playlist_path_memo_def playlist_path_at_def aget_def)
  with memo_keeps_paths[OF this, of 1] show ?thesis by blast
qed

end
