(* ===== verification/Bytes.thy ===== *)
theory Bytes
  imports Prelude
begin

text \<open>
  Bytes of files: the little-endian and big-endian numbers the formats of the player use, reading
  a number of bytes from the front of what is left of a file, and the bytes of a C string.
\<close>

section \<open>Numbers\<close>

primrec le_bytes :: "nat \<Rightarrow> nat \<Rightarrow> byte list" where
  "le_bytes 0 v = []"
| "le_bytes (Suc n) v = of_nat v # le_bytes n (v div 256)"

primrec le_val :: "byte list \<Rightarrow> nat" where
  "le_val [] = 0"
| "le_val (b # bs) = unat b + 256 * le_val bs"

definition be_val :: "byte list \<Rightarrow> nat" where
  "be_val bs = le_val (rev bs)"

lemma length_le_bytes [simp]: "length (le_bytes n v) = n"
  by (induction n arbitrary: v) simp_all

lemma unat_of_nat_byte [simp]: "unat (of_nat v :: byte) = v mod 256"
  by (simp add: unat_of_nat)

lemma unat_byte_less: "unat (b :: byte) < 256"
  using unsigned_less[of b, where ?'a = nat] by simp

text \<open>A property of all bytes can be checked byte by byte.\<close>

lemma byte_forall: "list_all (\<lambda>n. P (of_nat n :: byte)) [0..<256] \<Longrightarrow> P b"
proof -
  assume all: "list_all (\<lambda>n. P (of_nat n :: byte)) [0..<256]"
  have "unat b \<in> set [0..<256]" using unat_byte_less[of b] by simp
  with all have "P (of_nat (unat b))" by (simp only: list_all_iff)
  then show ?thesis by simp
qed

lemma le_val_le_bytes: "le_val (le_bytes n v) = v mod 256 ^ n"
proof (induction n arbitrary: v)
  case (Suc n)
  have "v mod 256 + 256 * (v div 256 mod 256 ^ n) = v mod (256 * 256 ^ n)"
    by (simp add: mod_mult2_eq add.commute)
  then show ?case by (simp add: Suc)
qed simp

lemma le_val_less: "le_val bs < 256 ^ length bs"
proof (induction bs)
  case (Cons b bs)
  have "unat b < 256" by (rule unat_byte_less)
  then have "unat b + 256 * le_val bs < 256 + 256 * le_val bs" by simp
  also have "\<dots> = 256 * Suc (le_val bs)" by simp
  also have "\<dots> \<le> 256 * 256 ^ length bs" using Cons by (intro mult_le_mono2) simp
  finally show ?case by simp
qed simp

lemma le_bytes_le_val: "le_bytes (length bs) (le_val bs) = bs"
proof (induction bs)
  case (Cons b bs)
  have b: "unat b < 256" by (rule unat_byte_less)
  have "(unat b + 256 * le_val bs) div 256 = le_val bs" using b by simp
  moreover have "(of_nat (unat b + 256 * le_val bs) :: byte) = b"
  proof -
    have "(256 :: byte) = 0" by simp
    then have "(256 :: byte) * of_nat (le_val bs) = 0" by (simp only: mult_zero_left)
    then show ?thesis by simp
  qed
  ultimately show ?case using Cons by simp
qed simp

section \<open>Signed 32-bit integers\<close>

definition i32_bytes :: "int \<Rightarrow> byte list" where
  "i32_bytes i = le_bytes 4 (unat (word_of_int i :: u32))"

definition i32_val :: "byte list \<Rightarrow> int" where
  "i32_val bs = sint (of_nat (le_val bs) :: u32)"

definition int32_range :: "int \<Rightarrow> bool" where
  "int32_range i \<longleftrightarrow> -2147483648 \<le> i \<and> i \<le> 2147483647"

lemma length_i32_bytes [simp]: "length (i32_bytes i) = 4"
  by (simp add: i32_bytes_def)

lemma i32_round_trip: "int32_range i \<Longrightarrow> i32_val (i32_bytes i) = i"
proof -
  assume i: "int32_range i"
  have "unat (word_of_int i :: u32) < 256 ^ 4" using unsigned_less[of "word_of_int i :: u32", where ?'a = nat] by simp
  then have "of_nat (le_val (i32_bytes i)) = (word_of_int i :: u32)"
    by (simp add: i32_bytes_def le_val_le_bytes)
  moreover have "sint (word_of_int i :: u32) = i"
    using i by (simp add: int32_range_def signed_of_int signed_take_bit_int_eq_self)
  ultimately show ?thesis by (simp add: i32_val_def)
qed

lemma i32_val_range: "int32_range (i32_val bs)"
  using sint_greater_eq[of "of_nat (le_val bs) :: u32"] sint_less[of "of_nat (le_val bs) :: u32"]
  by (simp add: i32_val_def int32_range_def)

section \<open>Reading\<close>

text \<open>\<^verbatim>\<open>fread\<close> of \<open>n\<close> bytes: all of them, or a short read.\<close>

definition fread :: "nat \<Rightarrow> 'a list \<Rightarrow> ('a list \<times> 'a list) option" where
  "fread n bs = (if n \<le> length bs then Some (take n bs, drop n bs) else None)"

lemma fread_append [simp]: "n = length xs \<Longrightarrow> fread n (xs @ ys) = Some (xs, ys)"
  by (simp add: fread_def)

lemma freadD: "fread n bs = Some (xs, ys) \<Longrightarrow> bs = xs @ ys \<and> length xs = n"
  by (auto simp: fread_def split: if_splits)

section \<open>C strings\<close>

definition char_byte :: "char \<Rightarrow> byte" where
  "char_byte c = of_char c"

definition byte_char :: "byte \<Rightarrow> char" where
  "byte_char b = char_of (unat b)"

lemma byte_char_byte [simp]: "byte_char (char_byte c) = c"
proof -
  have "(of_char c :: nat) < 256" by simp
  then have "unat (of_char c :: byte) = of_char c"
    by (metis mod_less of_nat_of_char unat_of_nat_byte)
  then show ?thesis by (simp add: byte_char_def char_byte_def)
qed

lemma char_byte_char [simp]: "char_byte (byte_char b) = b"
proof -
  have "unat b < 256" by (rule unat_byte_less)
  then have "of_char (char_of (unat b) :: char) = (of_nat (unat b) :: byte)"
    by (metis mod_less of_char_of of_nat_of_char)
  then show ?thesis by (simp add: byte_char_def char_byte_def)
qed

lemma char_byte_inj [simp]: "char_byte c = char_byte d \<longleftrightarrow> c = d"
  by (metis byte_char_byte)

end
