(* ===== verification/C_Text.thy ===== *)
theory C_Text
  imports Bytes
begin

text \<open>
  C strings and the parts of the C library that read and print numbers.  A string is the list of
  its characters; the pointer into a string is the list of the characters that are left, and a
  read at its end yields NUL.
\<close>

section \<open>Characters\<close>

definition NUL :: char where "NUL = char_of (0 :: nat)"

definition at_ptr :: "string \<Rightarrow> char" where
  "at_ptr s = (case s of [] \<Rightarrow> NUL | c # _ \<Rightarrow> c)"

definition isdigit :: "char \<Rightarrow> bool" where
  "isdigit c \<longleftrightarrow> 48 \<le> (of_char c :: nat) \<and> of_char c \<le> (57 :: nat)"

definition isspace :: "char \<Rightarrow> bool" where
  "isspace c \<longleftrightarrow> of_char c = (32 :: nat) \<or> 9 \<le> (of_char c :: nat) \<and> of_char c \<le> (13 :: nat)"

definition blank :: "char \<Rightarrow> bool" where
  "blank c \<longleftrightarrow> c = CHR '' '' \<or> of_char c = (9 :: nat)"

definition tolower :: "char \<Rightarrow> char" where
  "tolower c = (let n = of_char c :: nat in if 65 \<le> n \<and> n \<le> 90 then char_of (n + 32) else c)"

definition digit_val :: "char \<Rightarrow> nat" where
  "digit_val c = of_char c - 48"

section \<open>Numbers\<close>

definition dec_val :: "string \<Rightarrow> nat" where
  "dec_val ds = foldl (\<lambda>a c. a * 10 + digit_val c) 0 ds"

fun dec :: "nat \<Rightarrow> string" where
  "dec n = (if n < 10 then [char_of (48 + n)] else dec (n div 10) @ [char_of (48 + n mod 10)])"

declare dec.simps [simp del]

lemma digit_char [simp]: "d < 10 \<Longrightarrow> isdigit (char_of (48 + d))" "d < 10 \<Longrightarrow> digit_val (char_of (48 + d)) = d"
  by (simp_all add: isdigit_def digit_val_def)

lemma dec_digits: "\<forall>c \<in> set (dec n). isdigit c"
  by (induction n rule: dec.induct) (subst dec.simps, auto)

lemma dec_nonempty [simp]: "dec n \<noteq> []"
  by (subst dec.simps) simp

lemma dec_val_dec [simp]: "dec_val (dec n) = n"
proof (induction n rule: dec.induct)
  case (1 n)
  show ?case
  proof (cases "n < 10")
    case True
    then show ?thesis by (simp add: dec.simps[of n] dec_val_def)
  next
    case False
    then have "dec n = dec (n div 10) @ [char_of (48 + n mod 10)]" by (simp add: dec.simps[of n])
    moreover have "dec_val (ds @ [c]) = dec_val ds * 10 + digit_val c" for ds c by (simp add: dec_val_def)
    ultimately show ?thesis using 1 False by simp
  qed
qed

lemma takeWhile_digits: "(\<forall>c \<in> set ds. isdigit c) \<Longrightarrow> \<not> isdigit (at_ptr r) \<Longrightarrow> takeWhile isdigit (ds @ r) = ds"
  by (cases r) (auto simp: takeWhile_append at_ptr_def takeWhile_eq_all_conv)

lemma dropWhile_digits: "(\<forall>c \<in> set ds. isdigit c) \<Longrightarrow> \<not> isdigit (at_ptr r) \<Longrightarrow> dropWhile isdigit (ds @ r) = r"
  by (cases r) (auto simp: dropWhile_append at_ptr_def)

text \<open>
  \<^verbatim>\<open>atoi\<close> on a target with 32-bit \<^verbatim>\<open>long\<close>: the leading white space, an optional sign and the digits,
  saturated at the ends of the range.
\<close>

definition atoi :: "string \<Rightarrow> int" where
  "atoi s = (let s = dropWhile isspace s;
     neg = (at_ptr s = CHR ''-'');
     s = (if at_ptr s = CHR ''-'' \<or> at_ptr s = CHR ''+'' then tl s else s);
     v = int (dec_val (takeWhile isdigit s))
   in if neg then max (- v) (-2147483648) else min v 2147483647)"

text \<open>
  \<^verbatim>\<open>fscanf\<close>: a blank in the format skips white space, any other character must match, and \<open>%u\<close>
  reads an unsigned number of 32 bits.
\<close>

fun scan_lit :: "string \<Rightarrow> string \<Rightarrow> string option" where
  "scan_lit [] s = Some s"
| "scan_lit (f # fs) s =
     (if isspace f then scan_lit fs (dropWhile isspace s)
      else if s \<noteq> [] \<and> hd s = f then scan_lit fs (tl s) else None)"

definition scan_u :: "string \<Rightarrow> (nat \<times> string) option" where
  "scan_u s = (let s = dropWhile isspace s;
     neg = (at_ptr s = CHR ''-'');
     s = (if at_ptr s = CHR ''-'' \<or> at_ptr s = CHR ''+'' then tl s else s);
     ds = takeWhile isdigit s;
     v = dec_val ds
   in if ds = [] then None
      else Some (if 4294967295 < v then 4294967295 else if neg then (4294967296 - v) mod 4294967296 else v, dropWhile isdigit s))"

lemma digit_not: "isdigit c \<Longrightarrow> \<not> isspace c" "isdigit c \<Longrightarrow> c \<noteq> CHR ''-''" "isdigit c \<Longrightarrow> c \<noteq> CHR ''+''"
  by (auto simp: isdigit_def isspace_def)

lemma scan_u_dec:
  assumes "n < 4294967296" and "\<not> isdigit (at_ptr r)"
  shows "scan_u (dec n @ r) = Some (n, r)"
proof -
  obtain d ds where d: "dec n = d # ds" using dec_nonempty[of n] by (cases "dec n") auto
  have dd: "isdigit d" using dec_digits[of n] d by simp
  have "dropWhile isspace (dec n @ r) = dec n @ r" using digit_not(1)[OF dd] by (simp add: d)
  moreover have "at_ptr (dec n @ r) = d" by (simp add: d at_ptr_def)
  moreover have "takeWhile isdigit (dec n @ r) = dec n" "dropWhile isdigit (dec n @ r) = r"
    using takeWhile_digits[OF dec_digits assms(2)] dropWhile_digits[OF dec_digits assms(2)] by auto
  ultimately show ?thesis using digit_not(2,3)[OF dd] assms(1) by (simp add: scan_u_def Let_def)
qed

text \<open>\<^verbatim>\<open>strncasecmp(a, b, n) == 0\<close> and a UTF-8 byte order mark at the front (\<^verbatim>\<open>library_utf8_bom_skip\<close>).\<close>

definition same_nocase :: "nat \<Rightarrow> string \<Rightarrow> string \<Rightarrow> bool" where
  "same_nocase n a b \<longleftrightarrow> map tolower (take n a) = map tolower (take n b)"

definition utf8_bom :: string where
  "utf8_bom = [char_of (239 :: nat), char_of (187 :: nat), char_of (191 :: nat)]"

definition library_utf8_bom_skip :: "string \<Rightarrow> nat" where
  "library_utf8_bom_skip p = (if take 3 p = utf8_bom then 3 else 0)"

section \<open>Lines\<close>

text \<open>\<^verbatim>\<open>fgets\<close> with room for \<open>n\<close> characters: the line and what is left of the file.\<close>

definition newline :: char where "newline = char_of (10 :: nat)"
definition carriage_return :: char where "carriage_return = char_of (13 :: nat)"
fun fgets :: "nat \<Rightarrow> string \<Rightarrow> string \<times> string" where
  "fgets 0 s = ([], s)"
| "fgets (Suc n) [] = ([], [])"
| "fgets (Suc n) (c # s) = (if c = newline then ([c], s) else let (l, r) = fgets n s in (c # l, r))"

lemma fgets_append: "fgets n s = (l, r) \<Longrightarrow> s = l @ r"
  by (induction n s arbitrary: l r rule: fgets.induct) (auto split: if_splits prod.splits)

lemma fgets_progress: "fgets (Suc n) (c # s) = (l, r) \<Longrightarrow> length r < length (c # s)"
  by (auto dest: fgets_append split: if_splits prod.splits)

definition c_string :: "string \<Rightarrow> string" where
  "c_string l = takeWhile (\<lambda>c. c \<noteq> NUL) l"

end
