(* ===== verification/Queue_Resume.thy ===== *)
theory Queue_Resume
  imports C_Text Playback_Order
begin

text \<open>
  The saved queue (\<^verbatim>\<open>src/src/library/queue_resume.c\<close>): the file format, its reader and its writer,
  which publishes a new file by renaming a temporary one.

  The device and the host are little-endian.  The saved position is a \<^verbatim>\<open>double\<close> and kept as its
  bit pattern.  Paths are C strings; a NULL entry is \<open>None\<close>.  \<open>alloc\<close> gives the outcomes of the
  coming allocations.
\<close>

record queue_resume_t =
  qr_paths :: "string option list option"
  qr_order :: "int list option"
  qr_continuation :: "int list option"
  qr_count :: int
  qr_current :: int
  qr_pending :: int
  qr_mode :: int
  qr_shuffle_pos :: int
  qr_position :: u64

definition MAX_ENTRIES :: int where "MAX_ENTRIES = 1000000"

definition magic :: "byte list" where
  "magic = map char_byte ''HIBYQ001''"

definition PATH_LIMIT :: nat where "PATH_LIMIT = 4096"
definition NAME_LIMIT :: nat where "NAME_LIMIT = 255"

text \<open>\<^verbatim>\<open>isfinite(d) && d >= 0\<close>: the exponent is not all ones, and the sign is clear or \<open>d\<close> is \<open>-0.0\<close>.\<close>

definition position_ok :: "u64 \<Rightarrow> bool" where
  "position_ok d \<longleftrightarrow> (unat d div 2 ^ 52) mod 2 ^ 11 \<noteq> 2047 \<and> unat d \<le> 2 ^ 63"

definition queue_valid :: "queue_resume_t \<Rightarrow> bool" where
  "queue_valid s \<longleftrightarrow> 0 < qr_count s \<and> qr_count s \<le> MAX_ENTRIES \<and> 0 \<le> qr_current s \<and> qr_current s < qr_count s \<and>
     0 \<le> qr_pending s \<and> qr_pending s < qr_count s - qr_current s \<and> 0 \<le> qr_mode s \<and> qr_mode s \<le> 3 \<and>
     position_ok (qr_position s) \<and>
     (qr_order s = None \<or> (0 \<le> qr_shuffle_pos s \<and> qr_shuffle_pos s < qr_count s))"

section \<open>The permutation test\<close>

function permutation_loop :: "int list \<Rightarrow> int \<Rightarrow> int \<Rightarrow> bool list \<Rightarrow> bool option" where
  "permutation_loop order cnt i seen =
     (if i < cnt then do {
        v \<leftarrow> aget order i;
        if v < 0 \<or> cnt \<le> v then Some False
        else do {
          dup \<leftarrow> aget seen v;
          if dup then Some False
          else do { seen \<leftarrow> aset seen v True; permutation_loop order cnt (i + 1) seen } } }
      else Some True)"
  by pat_completeness auto
termination
  by (relation "measure (\<lambda>(order, cnt, i, seen). nat (cnt - i))") auto

declare permutation_loop.simps [simp del]

text \<open>\<open>None\<close> as an order is the NULL pointer.\<close>

definition permutation_test :: "bool \<Rightarrow> int list option \<Rightarrow> int \<Rightarrow> bool option" where
  "permutation_test seen_ok order cnt =
     (case order of None \<Rightarrow> Some True
      | Some order \<Rightarrow> if \<not> seen_ok then Some False else permutation_loop order cnt 0 (replicate (nat cnt) False))"

section \<open>Writing\<close>

definition header_bytes :: "queue_resume_t \<Rightarrow> byte list" where
  "header_bytes s = concat (map i32_bytes [qr_count s, qr_current s, qr_pending s, qr_mode s, qr_shuffle_pos s,
     (if qr_order s \<noteq> None then 1 else 0), (if qr_continuation s \<noteq> None then 1 else 0)])"

definition path_bytes :: "string option \<Rightarrow> byte list option" where
  "path_bytes p = (let path = (case p of None \<Rightarrow> [] | Some path \<Rightarrow> path) in
     if 0 < length path \<and> length path < PATH_LIMIT
     then Some (le_bytes 4 (length path) @ map char_byte path) else None)"

text \<open>The path loop: the bytes of every path in turn, or a failure at the first unusable one.\<close>

fun paths_bytes :: "string option list \<Rightarrow> byte list option" where
  "paths_bytes [] = Some []"
| "paths_bytes (p # ps) = do { b \<leftarrow> path_bytes p; bs \<leftarrow> paths_bytes ps; Some (b @ bs) }"

definition order_bytes :: "int \<Rightarrow> int list option \<Rightarrow> byte list" where
  "order_bytes cnt order = (case order of None \<Rightarrow> [] | Some xs \<Rightarrow> concat (map i32_bytes (take (nat cnt) xs)))"

definition queue_resume_bytes :: "queue_resume_t \<Rightarrow> byte list option" where
  "queue_resume_bytes s = do {
     ps \<leftarrow> qr_paths s;
     pb \<leftarrow> paths_bytes (take (nat (qr_count s)) ps);
     Some (magic @ header_bytes s @ le_bytes 8 (unat (qr_position s)) @ pb @
           order_bytes (qr_count s) (qr_order s) @ order_bytes (qr_count s) (qr_continuation s)) }"

text \<open>
  The directory the file is published in, and what the system calls do: \<open>io_space\<close> bytes fit on the
  medium; an \<^verbatim>\<open>openat\<close> with \<^verbatim>\<open>O_EXCL\<close> fails with \<^verbatim>\<open>EEXIST\<close> exactly when the name exists, unless
  it fails otherwise.
\<close>

type_synonym directory = "string \<Rightarrow> byte list option"

record write_io =
  io_calloc :: "nat \<Rightarrow> bool"
  io_open_error :: "nat \<Rightarrow> bool"
  io_fdopen_ok :: bool
  io_space :: nat
  io_flush_ok :: bool
  io_close_ok :: bool
  io_rename_ok :: bool
  io_unlink_ok :: bool

definition temp_name :: "string \<Rightarrow> nat \<Rightarrow> nat \<Rightarrow> string" where
  "temp_name name pid attempt = ''.'' @ name @ ''.'' @ dec pid @ ''.'' @ dec attempt @ ''.tmp''"

function open_temp :: "string \<Rightarrow> nat \<Rightarrow> directory \<Rightarrow> write_io \<Rightarrow> nat \<Rightarrow> string option" where
  "open_temp name pid dir io attempt =
     (if attempt < 100 then
        (let temp = temp_name name pid attempt in
         if NAME_LIMIT \<le> length temp then None
         else if io_open_error io attempt then None
         else if dir temp \<noteq> None then open_temp name pid dir io (attempt + 1)
         else Some temp)
      else None)"
  by pat_completeness auto
termination
  by (relation "measure (\<lambda>(name, pid, dir, io, attempt). 100 - attempt)") auto

declare open_temp.simps [simp del]

definition unlink_at :: "string \<Rightarrow> write_io \<Rightarrow> directory \<Rightarrow> directory" where
  "unlink_at name io dir = (if io_unlink_ok io then dir(name := None) else dir)"

text \<open>
  \<open>Some (ok, dir)\<close> is the returned value and the directory afterwards.  What a failed write left in
  the temporary file is a prefix of the file's bytes; \<open>io_space\<close> says how long it is.
\<close>

definition queue_resume_write_at ::
    "bool \<Rightarrow> string \<Rightarrow> nat \<Rightarrow> queue_resume_t \<Rightarrow> write_io \<Rightarrow> directory \<Rightarrow> (bool \<times> directory) option" where
  "queue_resume_write_at dirfd_ok name pid s io dir =
     (if \<not> queue_valid s \<or> qr_paths s = None then Some (False, dir)
      else do {
        p1 \<leftarrow> permutation_test (io_calloc io 0) (qr_order s) (qr_count s);
        p2 \<leftarrow> (if p1 then permutation_test (io_calloc io 1) (qr_continuation s) (qr_count s) else Some False);
        if \<not> p1 \<or> \<not> p2 then Some (False, dir)
        else if \<not> dirfd_ok \<or> name = [] \<or> CHR ''/'' \<in> set name then Some (False, dir)
        else (case open_temp name pid dir io 0 of
            None \<Rightarrow> Some (False, dir)
          | Some temp \<Rightarrow>
              if \<not> io_fdopen_ok io then Some (False, unlink_at temp io (dir(temp \<mapsto> [])))
              else (case queue_resume_bytes s of
                  None \<Rightarrow> Some (False, unlink_at temp io (dir(temp \<mapsto> [])))
                | Some bytes \<Rightarrow>
                    let written = take (io_space io) bytes;
                        ok = (length bytes \<le> io_space io \<and> io_flush_ok io \<and> io_close_ok io);
                        dir = dir(temp \<mapsto> written)
                    in if ok \<and> io_rename_ok io
                       then Some (True, dir(name \<mapsto> written, temp := None))
                       else Some (False, unlink_at temp io dir))) })"

section \<open>Reading\<close>

definition pop_alloc :: "(nat \<Rightarrow> bool) \<Rightarrow> bool \<times> (nat \<Rightarrow> bool)" where
  "pop_alloc alloc = (alloc 0, \<lambda>k. alloc (Suc k))"

fun read_paths :: "nat \<Rightarrow> nat \<Rightarrow> (nat \<Rightarrow> bool) \<Rightarrow> byte list \<Rightarrow> (string option list \<times> (nat \<Rightarrow> bool) \<times> byte list) option" where
  "read_paths 0 tot alloc bs = Some ([], alloc, bs)"
| "read_paths (Suc k) tot alloc bs = do {
     (nb, bs) \<leftarrow> fread 4 bs;
     let n = le_val nb;
     if \<not> (0 < n \<and> n < PATH_LIMIT) then None
     else if 64 * 1024 * 1024 < tot + n then None
     else let (ok, alloc) = pop_alloc alloc in
       if \<not> ok then None
       else do {
         (p, bs) \<leftarrow> fread n bs;
         if 0 \<in> set p then None
         else do {
           (ps, alloc, bs) \<leftarrow> read_paths k (tot + n) alloc bs;
           Some (Some (map byte_char p) # ps, alloc, bs) } } }"

fun ints_of :: "nat \<Rightarrow> byte list \<Rightarrow> int list" where
  "ints_of 0 bs = []"
| "ints_of (Suc n) bs = i32_val (take 4 bs) # ints_of n (drop 4 bs)"

definition read_order ::
    "int \<Rightarrow> int \<Rightarrow> (nat \<Rightarrow> bool) \<Rightarrow> byte list \<Rightarrow> (int list option \<times> (nat \<Rightarrow> bool) \<times> byte list) option" where
  "read_order flag cnt alloc bs =
     (if flag = 0 then Some (None, alloc, bs)
      else let (ok, alloc) = pop_alloc alloc in
        if \<not> ok then None
        else do {
          (ob, bs) \<leftarrow> fread (4 * nat cnt) bs;
          let order = ints_of (nat cnt) ob;
          let (seen_ok, alloc) = pop_alloc alloc;
          good \<leftarrow> permutation_test seen_ok (Some order) cnt;
          if good then Some (Some order, alloc, bs) else None })"

text \<open>
  The reader; \<open>None\<close> is the result \<^verbatim>\<open>false\<close>, with the structure left zeroed.  \<open>read_queue\<close> is what
  follows the header: \<open>s\<close> holds the header's fields, \<open>has_order\<close> and \<open>has_continuation\<close> its flags.
\<close>

definition read_queue :: "int \<Rightarrow> int \<Rightarrow> queue_resume_t \<Rightarrow> (nat \<Rightarrow> bool) \<Rightarrow> byte list \<Rightarrow> queue_resume_t option" where
  "read_queue has_order has_continuation s alloc bs =
     (let (ok, alloc) = pop_alloc alloc in
      if \<not> ok then None
      else do {
        (paths, alloc, bs) \<leftarrow> read_paths (nat (qr_count s)) 0 alloc bs;
        (order, alloc, bs) \<leftarrow> read_order has_order (qr_count s) alloc bs;
        (continuation, alloc, bs) \<leftarrow> read_order has_continuation (qr_count s) alloc bs;
        let s = s\<lparr>qr_paths := Some paths, qr_order := order, qr_continuation := continuation\<rparr>;
        if \<not> queue_valid s then None
        else do {
          placed \<leftarrow> (case qr_order s of None \<Rightarrow> Some True
                      | Some xs \<Rightarrow> map_option (\<lambda>v. v = qr_current s) (aget xs (qr_shuffle_pos s)));
          if placed \<and> bs = [] then Some s else None } })"

definition queue_resume_read :: "(nat \<Rightarrow> bool) \<Rightarrow> byte list \<Rightarrow> queue_resume_t option" where
  "queue_resume_read alloc bs = do {
     (signature, bs) \<leftarrow> fread 8 bs;
     if signature \<noteq> magic then None
     else do {
       (h0, bs) \<leftarrow> fread 28 bs;
       let h = ints_of 7 h0;
       (pos, bs) \<leftarrow> fread 8 bs;
       let s = \<lparr>qr_paths = None, qr_order = None, qr_continuation = None, qr_count = h ! 0, qr_current = h ! 1,
                qr_pending = h ! 2, qr_mode = h ! 3, qr_shuffle_pos = h ! 4, qr_position = of_nat (le_val pos)\<rparr>;
       if \<not> (queue_valid s \<and> h ! 5 \<in> {0, 1} \<and> h ! 6 \<in> {0, 1}) then None
       else read_queue (h ! 5) (h ! 6) s alloc bs } }"

section \<open>The permutation test decides permutations\<close>

text \<open>The loop is the duplicate check of \<open>playback_order_resequence\<close> without its output.\<close>

lemma permutation_loop_resequence:
  assumes "length d = nat n" and "length sn = nat n" and "length np = nat n" and "0 \<le> i"
  shows "permutation_loop d n i sn = map_option (\<lambda>r. r \<noteq> None) (resequence_loop (Some d) n d None i (Some sn, np, None))"
  using assms
proof (induction "nat (n - i)" arbitrary: i sn np)
  case 0
  then show ?case by (simp add: permutation_loop.simps[of d n i] resequence_loop.simps[of _ n _ _ i])
next
  case (Suc m)
  then have lt: "i < n" by simp
  define v where "v = d ! nat i"
  have get: "aget d i = Some v" using lt Suc.prems by (simp add: aget_def v_def)
  show ?case
  proof (cases "v < 0 \<or> n \<le> v")
    case True
    then show ?thesis using get lt
      by (simp add: permutation_loop.simps[of d n i] resequence_loop.simps[of _ n _ _ i])
  next
    case False
    have sg: "aget sn v = Some (sn ! nat v)" using False Suc.prems(2) by (simp add: aget_def)
    show ?thesis
    proof (cases "sn ! nat v")
      case True
      then show ?thesis using get lt False sg
        by (simp add: permutation_loop.simps[of d n i] resequence_loop.simps[of _ n _ _ i])
    next
      case fresh: False
      have s: "aset sn v True = Some (sn[nat v := True])" "aget d v = Some (d ! nat v)"
        "aset np i (d ! nat v) = Some (np[nat i := d ! nat v])"
        using False lt Suc.prems by (auto simp: aset_def aget_def)
      have "permutation_loop d n (i + 1) (sn[nat v := True]) = map_option (\<lambda>r. r \<noteq> None)
          (resequence_loop (Some d) n d None (i + 1) (Some (sn[nat v := True]), np[nat i := d ! nat v], None))"
        by (rule Suc.hyps(1)) (use Suc.hyps(2) Suc.prems lt in auto)
      then show ?thesis using get lt False fresh sg s
        by (simp add: permutation_loop.simps[of d n i] resequence_loop.simps[of _ n _ _ i])
    qed
  qed
qed

lemma permutation_loop_iff:
  assumes "0 < n" and "length d = nat n"
  shows "permutation_loop d n 0 (replicate (nat n) False) = Some (permutation_upto n d)"
proof -
  have "playback_order_resequence True True True True 0 (Some d) n (Some d) None =
      Some (if permutation_upto n d then (True, Some (Some (map (\<lambda>k. d ! nat k) d), None)) else (False, Some (None, None)))"
    using resequence_display[of n d d None 0] assms by simp
  then have "map_option (\<lambda>r. r \<noteq> None) (resequence_loop (Some d) n d None 0
      (Some (replicate (nat n) False), replicate (nat n) 0, None)) = Some (permutation_upto n d)"
    using assms(1) by (auto simp: playback_order_resequence_def split: Option.bind_splits option.splits if_splits)
  then show ?thesis
    using permutation_loop_resequence[of d n "replicate (nat n) False" "replicate (nat n) 0" 0] assms by simp
qed

lemma permutation_test_iff:
  assumes "0 < n" and "\<And>xs. order = Some xs \<Longrightarrow> length xs = nat n"
  shows "permutation_test ok order n = Some (\<forall>xs. order = Some xs \<longrightarrow> ok \<and> permutation_upto n xs)"
  using assms permutation_loop_iff by (cases order) (auto simp: permutation_test_def)

section \<open>Round trip\<close>

text \<open>
  A queue that can be written and read back: what the writer tests, and the three conditions that
  only the reader tests (no NUL inside a path, at most 64 MiB of paths, the shuffle cursor on the
  current track).
\<close>

definition queue_savable :: "queue_resume_t \<Rightarrow> bool" where
  "queue_savable s \<longleftrightarrow> queue_valid s \<and> int32_range (qr_shuffle_pos s) \<and>
     (\<exists>ps. qr_paths s = Some (map Some ps) \<and> length ps = nat (qr_count s) \<and>
        (\<forall>p \<in> set ps. 0 < length p \<and> length p < PATH_LIMIT \<and> CHR 0x00 \<notin> set p) \<and>
        sum_list (map length ps) \<le> 64 * 1024 * 1024) \<and>
     (\<forall>xs. qr_order s = Some xs \<longrightarrow> permutation_upto (qr_count s) xs \<and> xs ! nat (qr_shuffle_pos s) = qr_current s) \<and>
     (\<forall>xs. qr_continuation s = Some xs \<longrightarrow> permutation_upto (qr_count s) xs)"

lemma ints_of_append: "(\<forall>x \<in> set xs. int32_range x) \<Longrightarrow> n = length xs \<Longrightarrow> ints_of n (concat (map i32_bytes xs)) = xs"
  by (induction xs arbitrary: n) (auto simp: i32_round_trip)

lemma length_concat_i32 [simp]: "length (concat (map i32_bytes xs)) = 4 * length xs"
  by (induction xs) auto

lemma path_bytes_len:
  "length p < PATH_LIMIT \<Longrightarrow> 0 < length p \<Longrightarrow> path_bytes (Some p) = Some (le_bytes 4 (length p) @ map char_byte p)"
  by (simp add: path_bytes_def)

lemma nul_byte: "(0 :: byte) \<in> char_byte ` set p \<longleftrightarrow> CHR 0x00 \<in> set p"
proof -
  have z: "char_byte (CHR 0x00) = 0" by (simp add: char_byte_def)
  have "inj char_byte" by (simp add: inj_def)
  from inj_image_mem_iff[OF this, of "CHR 0x00" "set p"] show ?thesis unfolding z .
qed

lemma read_paths_round_trip:
  assumes "\<forall>p \<in> set ps. 0 < length p \<and> length p < PATH_LIMIT \<and> CHR 0x00 \<notin> set p"
    and "tot + sum_list (map length ps) \<le> 64 * 1024 * 1024"
  shows "\<exists>b. paths_bytes (map Some ps) = Some b \<and>
     read_paths (length ps) tot (\<lambda>_. True) (b @ rest) = Some (map Some ps, \<lambda>_. True, rest)"
  using assms
proof (induction ps arbitrary: tot)
  case (Cons p ps)
  have p: "0 < length p" "length p < PATH_LIMIT" "CHR 0x00 \<notin> set p" using Cons.prems(1) by auto
  have "tot + length p + sum_list (map length ps) \<le> 64 * 1024 * 1024" using Cons.prems(2) by simp
  moreover have "\<forall>p \<in> set ps. 0 < length p \<and> length p < PATH_LIMIT \<and> CHR 0x00 \<notin> set p" using Cons.prems(1) by auto
  ultimately obtain b where b: "paths_bytes (map Some ps) = Some b"
    "read_paths (length ps) (tot + length p) (\<lambda>_. True) (b @ rest) = Some (map Some ps, \<lambda>_. True, rest)"
    using Cons.IH by blast
  have v: "le_val (le_bytes 4 (length p)) = length p" using p(2) by (simp add: le_val_le_bytes PATH_LIMIT_def)
  have "tot + length p \<le> 64 * 1024 * 1024" using Cons.prems(2) by simp
  then have "read_paths (Suc (length ps)) tot (\<lambda>_. True) (le_bytes 4 (length p) @ map char_byte p @ b @ rest)
      = Some (map Some (p # ps), \<lambda>_. True, rest)"
    using p b(2) v by (simp add: pop_alloc_def nul_byte o_def)
  then show ?case using b(1) path_bytes_len[OF p(2,1)] by simp
qed simp

lemma read_order_round_trip:
  assumes "0 < n" and "n \<le> MAX_ENTRIES" and "\<And>xs. order = Some xs \<Longrightarrow> permutation_upto n xs"
  shows "read_order (if order \<noteq> None then 1 else 0) n (\<lambda>_. True) (order_bytes n order @ rest) = Some (order, \<lambda>_. True, rest)"
proof (cases order)
  case (Some xs)
  have perm: "permutation_upto n xs" using assms(3) Some by simp
  have len: "length xs = nat n" using permutation_upto_length[OF perm] .
  have "\<forall>x \<in> set xs. int32_range x"
    using perm assms(2) by (auto simp: permutation_upto_def int32_range_def MAX_ENTRIES_def)
  then have "ints_of (nat n) (concat (map i32_bytes xs)) = xs" using ints_of_append len by metis
  then show ?thesis using Some perm len permutation_loop_iff[OF assms(1) len]
    by (simp add: read_order_def order_bytes_def pop_alloc_def permutation_test_def)
qed (simp add: read_order_def order_bytes_def)

lemma header_round_trip:
  assumes "queue_valid s" and "int32_range (qr_shuffle_pos s)"
  shows "length (header_bytes s) = 28"
    and "ints_of 7 (header_bytes s) = [qr_count s, qr_current s, qr_pending s, qr_mode s, qr_shuffle_pos s,
     (if qr_order s \<noteq> None then 1 else 0), (if qr_continuation s \<noteq> None then 1 else 0)]"
proof -
  show "length (header_bytes s) = 28" unfolding header_bytes_def by simp
  show "ints_of 7 (header_bytes s) = [qr_count s, qr_current s, qr_pending s, qr_mode s, qr_shuffle_pos s,
     (if qr_order s \<noteq> None then 1 else 0), (if qr_continuation s \<noteq> None then 1 else 0)]"
    unfolding header_bytes_def
    by (rule ints_of_append) (use assms in \<open>auto simp: queue_valid_def int32_range_def MAX_ENTRIES_def\<close>)
qed

lemma valid_paths_irrelevant [simp]:
  "queue_valid (s\<lparr>qr_paths := p\<rparr>) = queue_valid s" "queue_valid (s\<lparr>qr_continuation := c\<rparr>) = queue_valid s"
  by (simp_all add: queue_valid_def)

lemma length_magic [simp]: "length magic = 8" by (simp add: magic_def)

lemma resume_round_trip:
  assumes "queue_savable s"
  shows "\<exists>bytes. queue_resume_bytes s = Some bytes \<and> queue_resume_read (\<lambda>_. True) bytes = Some s"
proof -
  obtain ps where ps: "qr_paths s = Some (map Some ps)" "length ps = nat (qr_count s)"
      "\<forall>p \<in> set ps. 0 < length p \<and> length p < PATH_LIMIT \<and> CHR 0x00 \<notin> set p"
      "0 + sum_list (map length ps) \<le> 64 * 1024 * 1024"
    and v: "queue_valid s" "int32_range (qr_shuffle_pos s)"
    and o: "\<And>xs. qr_order s = Some xs \<Longrightarrow> permutation_upto (qr_count s) xs"
      "\<And>xs. qr_order s = Some xs \<Longrightarrow> xs ! nat (qr_shuffle_pos s) = qr_current s"
      "\<And>xs. qr_continuation s = Some xs \<Longrightarrow> permutation_upto (qr_count s) xs"
    using assms by (auto simp: queue_savable_def)
  have n: "0 < qr_count s" "qr_count s \<le> MAX_ENTRIES" using v(1) by (auto simp: queue_valid_def)
  define ob where "ob = order_bytes (qr_count s) (qr_order s)"
  define cb where "cb = order_bytes (qr_count s) (qr_continuation s)"
  obtain pb where pb: "paths_bytes (map Some ps) = Some pb"
    "read_paths (length ps) 0 (\<lambda>_. True) (pb @ ob @ cb @ []) = Some (map Some ps, \<lambda>_. True, ob @ cb @ [])"
    using read_paths_round_trip[OF ps(3,4)] by blast
  define fo where "fo = (if qr_order s \<noteq> None then 1 else 0 :: int)"
  define fc where "fc = (if qr_continuation s \<noteq> None then 1 else 0 :: int)"
  have ro: "read_order fo (qr_count s) (\<lambda>_. True) (ob @ cb @ []) = Some (qr_order s, \<lambda>_. True, cb @ [])"
    unfolding ob_def fo_def by (rule read_order_round_trip[OF n o(1)])
  have rc: "read_order fc (qr_count s) (\<lambda>_. True) (cb @ []) = Some (qr_continuation s, \<lambda>_. True, [])"
    unfolding cb_def fc_def by (rule read_order_round_trip[OF n o(3)])
  have flags: "fo \<in> {0, 1}" "fc \<in> {0, 1}" by (auto simp: fo_def fc_def)
  have pos: "of_nat (le_val (le_bytes 8 (unat (qr_position s)))) = qr_position s"
    using unsigned_less[of "qr_position s", where ?'a = nat] by (simp add: le_val_le_bytes)
  define bytes where "bytes = magic @ header_bytes s @ le_bytes 8 (unat (qr_position s)) @ pb @ ob @ cb @ []"
  have enc: "queue_resume_bytes s = Some bytes"
    using ps(1,2) pb(1) by (simp add: queue_resume_bytes_def bytes_def ob_def cb_def)
  have placed: "(case qr_order s of None \<Rightarrow> Some True
      | Some xs \<Rightarrow> map_option (\<lambda>v. v = qr_current s) (aget xs (qr_shuffle_pos s))) = Some True"
  proof (cases "qr_order s")
    case (Some xs)
    then have "0 \<le> qr_shuffle_pos s" "qr_shuffle_pos s < qr_count s" using v(1) by (auto simp: queue_valid_def)
    then show ?thesis using Some o(2)[OF Some] permutation_upto_length[OF o(1)[OF Some]] by (simp add: aget_def)
  qed simp
  define s0 where "s0 = \<lparr>qr_paths = None, qr_order = None, qr_continuation = None, qr_count = qr_count s, qr_current = qr_current s,
      qr_pending = qr_pending s, qr_mode = qr_mode s, qr_shuffle_pos = qr_shuffle_pos s, qr_position = qr_position s\<rparr>"
  have v0: "queue_valid s0" "qr_count s0 = qr_count s" using v(1) by (simp_all add: s0_def queue_valid_def)
  have s: "s0\<lparr>qr_paths := Some (map Some ps), qr_order := qr_order s, qr_continuation := qr_continuation s\<rparr> = s"
    using ps(1) by (simp add: s0_def)
  have body: "read_queue fo fc s0 (\<lambda>_. True) (pb @ ob @ cb @ []) = Some s"
    unfolding read_queue_def pop_alloc_def Let_def prod.case v0(2) pb(2)[unfolded ps(2)] bind.bind_lunit ro rc s
    using v(1) placed by simp
  have h: "ints_of 7 (header_bytes s) = [qr_count s, qr_current s, qr_pending s, qr_mode s, qr_shuffle_pos s, fo, fc]"
    unfolding fo_def fc_def by (rule header_round_trip(2)[OF v])
  have "queue_resume_read (\<lambda>_. True) bytes = Some s"
    using v0(1) flags body
    unfolding queue_resume_read_def bytes_def fread_append[OF length_magic[symmetric]] bind.bind_lunit prod.case
      fread_append[OF header_round_trip(1)[OF v, symmetric]] fread_append[OF length_le_bytes[symmetric]]
      h Let_def pos
    by (simp add: s0_def)
  then show ?thesis using enc by blast
qed

section \<open>The reader accepts only files of the writer\<close>

lemma i32_bytes_val: "length bs = 4 \<Longrightarrow> i32_bytes (i32_val bs) = bs"
proof -
  assume l: "length bs = 4"
  have "le_val bs < 4294967296" using le_val_less[of bs] l by simp
  then have "unat (of_nat (le_val bs) :: u32) = le_val bs" by (simp add: unat_of_nat)
  then show ?thesis using le_bytes_le_val[of bs] l by (simp add: i32_bytes_def i32_val_def)
qed

lemma ints_of_bytes: "length bs = 4 * n \<Longrightarrow> concat (map i32_bytes (ints_of n bs)) = bs"
proof (induction n arbitrary: bs)
  case (Suc n)
  have "concat (map i32_bytes (ints_of n (drop 4 bs))) = drop 4 bs" by (rule Suc.IH) (use Suc.prems in simp)
  moreover have "i32_bytes (i32_val (take 4 bs)) = take 4 bs" by (rule i32_bytes_val) (use Suc.prems in simp)
  ultimately show ?case by simp
qed simp

lemma length_ints_of [simp]: "length (ints_of n bs) = n"
  by (induction n arbitrary: bs) auto

lemma ints_of_range: "x \<in> set (ints_of n bs) \<Longrightarrow> int32_range x"
  by (induction n arbitrary: bs) (auto simp: i32_val_range)

definition path_fits :: "string \<Rightarrow> bool" where
  "path_fits p \<longleftrightarrow> 0 < length p \<and> length p < PATH_LIMIT \<and> CHR 0x00 \<notin> set p"

lemma char_byte_map [simp]: "map char_byte (map byte_char p) = p"
  by (simp add: o_def)

lemma read_paths_sound:
  assumes "read_paths k tot alloc bs = Some (ps, alloc', rest)" and "tot \<le> 64 * 1024 * 1024"
  shows "\<exists>qs b. ps = map Some qs \<and> length qs = k \<and> (\<forall>p \<in> set qs. path_fits p) \<and>
     tot + sum_list (map length qs) \<le> 64 * 1024 * 1024 \<and> paths_bytes ps = Some b \<and> bs = b @ rest"
  using assms
proof (induction k arbitrary: tot alloc bs ps)
  case (Suc k)
  obtain nb bs1 where f1: "fread 4 bs = Some (nb, bs1)" using Suc.prems(1) by (auto split: Option.bind_splits)
  define n where "n = le_val nb"
  have n: "0 < n" "n < PATH_LIMIT" "tot + n \<le> 64 * 1024 * 1024" and a: "alloc 0"
    using Suc.prems(1) f1 by (auto simp: n_def Let_def pop_alloc_def split: if_splits)
  obtain p bs2 where f2: "fread n bs1 = Some (p, bs2)"
    using Suc.prems(1) f1 n a by (auto simp: n_def Let_def pop_alloc_def split: Option.bind_splits if_splits)
  have z: "0 \<notin> set p" using Suc.prems(1) f1 f2 n a by (auto simp: n_def Let_def pop_alloc_def split: if_splits)
  obtain ps' where r: "read_paths k (tot + n) (\<lambda>k. alloc (Suc k)) bs2 = Some (ps', alloc', rest)"
    and ps: "ps = Some (map byte_char p) # ps'"
    using Suc.prems(1) f1 f2 n a z by (auto simp: n_def Let_def pop_alloc_def split: Option.bind_splits)
  obtain qs b where qs: "ps' = map Some qs" "length qs = k" "\<forall>p \<in> set qs. path_fits p"
      "tot + n + sum_list (map length qs) \<le> 64 * 1024 * 1024" "paths_bytes ps' = Some b" "bs2 = b @ rest"
    using Suc.IH[OF r n(3)] by blast
  have lp: "length p = n" and sp: "bs = nb @ p @ bs2" and ln: "length nb = 4" using freadD[OF f1] freadD[OF f2] by auto
  have fit: "path_fits (map byte_char p)"
    using n lp z nul_byte[of "map byte_char p"] image_set[of char_byte "map byte_char p"]
    by (auto simp: path_fits_def image_image)
  have "le_bytes 4 n = nb" using le_bytes_le_val[of nb] ln by (simp add: n_def)
  then have "path_bytes (Some (map byte_char p)) = Some (nb @ p)"
    using n lp path_bytes_len[of "map byte_char p"] char_byte_map[of p] by simp
  then have pb: "paths_bytes ps = Some (nb @ p @ b)" using ps qs(5) by simp
  show ?case
    by (intro exI[of _ "map byte_char p # qs"] exI[of _ "nb @ p @ b"] conjI) (use ps qs fit lp sp pb in auto)
qed simp

lemma read_order_sound:
  assumes "read_order flag cnt alloc bs = Some (order, alloc', rest)" and "0 < cnt" and "flag \<in> {0, 1}"
  shows "bs = order_bytes cnt order @ rest \<and> flag = (if order \<noteq> None then 1 else 0) \<and>
     (\<forall>xs. order = Some xs \<longrightarrow> permutation_upto cnt xs)"
proof (cases "flag = 0")
  case True
  then show ?thesis using assms(1) by (auto simp: read_order_def order_bytes_def)
next
  case False
  then have a: "alloc 0" using assms(1) by (auto simp: read_order_def pop_alloc_def split: if_splits)
  then obtain ob bs1 where f: "fread (4 * nat cnt) bs = Some (ob, bs1)"
    using assms(1) False by (auto simp: read_order_def pop_alloc_def split: Option.bind_splits)
  have fd: "bs = ob @ bs1" "length ob = 4 * nat cnt" using freadD[OF f] by auto
  have t: "permutation_test (alloc 1) (Some (ints_of (nat cnt) ob)) cnt
      = Some (alloc 1 \<and> permutation_upto cnt (ints_of (nat cnt) ob))"
    using permutation_test_iff[OF assms(2), of "Some (ints_of (nat cnt) ob)" "alloc 1"] by simp
  have r: "order = Some (ints_of (nat cnt) ob)" "rest = bs1" "permutation_upto cnt (ints_of (nat cnt) ob)"
    using assms(1) False a f t by (auto simp: read_order_def pop_alloc_def Let_def split: if_splits)
  then show ?thesis using fd ints_of_bytes[OF fd(2)] False assms(3) by (simp add: order_bytes_def)
qed

lemma read_queue_sound:
  assumes "read_queue fo fc s0 alloc bs = Some s" and n: "0 < qr_count s0"
    and "fo \<in> {0, 1}" "fc \<in> {0, 1}" and sp: "int32_range (qr_shuffle_pos s0)"
  shows "queue_savable s \<and> (\<exists>b. (qr_paths s \<bind> (\<lambda>ps. paths_bytes (take (nat (qr_count s)) ps))) = Some b \<and>
     bs = b @ order_bytes (qr_count s) (qr_order s) @ order_bytes (qr_count s) (qr_continuation s)) \<and>
     s0 = s\<lparr>qr_paths := qr_paths s0, qr_order := qr_order s0, qr_continuation := qr_continuation s0\<rparr> \<and>
     fo = (if qr_order s \<noteq> None then 1 else 0) \<and> fc = (if qr_continuation s \<noteq> None then 1 else 0)"
proof -
  define a1 where "a1 = (\<lambda>k. alloc (Suc k))"
  have a: "alloc 0" using assms(1) by (auto simp: read_queue_def pop_alloc_def split: if_splits)
  then obtain ps a2 bs2 where p: "read_paths (nat (qr_count s0)) 0 a1 bs = Some (ps, a2, bs2)"
    using assms(1) by (auto simp: read_queue_def pop_alloc_def a1_def split: Option.bind_splits)
  then obtain order a3 bs3 where o: "read_order fo (qr_count s0) a2 bs2 = Some (order, a3, bs3)"
    using assms(1) a by (auto simp: read_queue_def pop_alloc_def a1_def split: Option.bind_splits)
  then obtain cont a4 bs4 where c: "read_order fc (qr_count s0) a3 bs3 = Some (cont, a4, bs4)"
    using assms(1) a p by (auto simp: read_queue_def pop_alloc_def a1_def split: Option.bind_splits)
  define s1 where "s1 = s0\<lparr>qr_paths := Some ps, qr_order := order, qr_continuation := cont\<rparr>"
  have fin: "(if \<not> queue_valid s1 then None else do {
          placed \<leftarrow> (case qr_order s1 of None \<Rightarrow> Some True
                      | Some xs \<Rightarrow> map_option (\<lambda>v. v = qr_current s1) (aget xs (qr_shuffle_pos s1)));
          if placed \<and> bs4 = [] then Some s1 else None }) = Some s"
    using assms(1) a unfolding read_queue_def pop_alloc_def Let_def prod.case a1_def[symmetric]
    by (simp only: not_True_eq_False if_False p o c bind.bind_lunit prod.case s1_def[symmetric])
  have v: "queue_valid s1" "s = s1" "bs4 = []"
    and pl: "\<And>xs. qr_order s1 = Some xs \<Longrightarrow> aget xs (qr_shuffle_pos s1) = Some (qr_current s1)"
    using fin by (auto split: if_splits Option.bind_splits option.splits)
  obtain qs b where qs: "ps = map Some qs" "length qs = nat (qr_count s0)" "\<forall>p \<in> set qs. path_fits p"
      "sum_list (map length qs) \<le> 64 * 1024 * 1024" "paths_bytes ps = Some b" "bs = b @ bs2"
    using read_paths_sound[OF p] by auto
  note os = read_order_sound[OF o n assms(3)] and cs = read_order_sound[OF c n assms(4)]
  have f: "qr_count s1 = qr_count s0" "qr_order s1 = order" "qr_continuation s1 = cont" "qr_paths s1 = Some ps"
    "qr_shuffle_pos s1 = qr_shuffle_pos s0" by (simp_all add: s1_def)
  have "queue_savable s1" unfolding queue_savable_def f
  proof (intro conjI allI impI)
    show "queue_valid s1" "int32_range (qr_shuffle_pos s0)" by (fact v(1), fact sp)
    show "\<exists>ps'. Some ps = Some (map Some ps') \<and> length ps' = nat (qr_count s0) \<and>
        (\<forall>p \<in> set ps'. 0 < length p \<and> length p < PATH_LIMIT \<and> CHR 0x00 \<notin> set p) \<and> sum_list (map length ps') \<le> 64 * 1024 * 1024"
      using qs by (auto simp: path_fits_def)
    show "permutation_upto (qr_count s0) xs" if "cont = Some xs" for xs using cs that by blast
    show "permutation_upto (qr_count s0) xs" if "order = Some xs" for xs using os that by blast
    show "xs ! nat (qr_shuffle_pos s0) = qr_current s1" if "order = Some xs" for xs
      using pl[unfolded f, OF that] by (simp add: aget_def split: if_splits)
  qed
  moreover have "take (nat (qr_count s0)) ps = ps" using qs(1,2) by simp
  ultimately show ?thesis using v f qs(5,6) os cs by (auto simp: s1_def)
qed

lemma resume_read_sound:
  assumes "queue_resume_read alloc bs = Some s"
  shows "queue_savable s \<and> queue_resume_bytes s = Some bs"
proof -
  obtain b1 where f1: "fread 8 bs = Some (magic, b1)"
    using assms by (auto simp: queue_resume_read_def split: Option.bind_splits if_splits)
  obtain h0 b2 where f2: "fread 28 b1 = Some (h0, b2)"
    using assms f1 by (auto simp: queue_resume_read_def split: Option.bind_splits)
  obtain pos b3 where f3: "fread 8 b2 = Some (pos, b3)"
    using assms f1 f2 by (auto simp: queue_resume_read_def Let_def split: Option.bind_splits)
  define h where "h = ints_of 7 h0"
  define s0 where "s0 = \<lparr>qr_paths = None, qr_order = None, qr_continuation = None, qr_count = h ! 0, qr_current = h ! 1,
                qr_pending = h ! 2, qr_mode = h ! 3, qr_shuffle_pos = h ! 4, qr_position = of_nat (le_val pos)\<rparr>"
  have r: "queue_valid s0" "h ! 5 \<in> {0, 1}" "h ! 6 \<in> {0, 1}" "read_queue (h ! 5) (h ! 6) s0 alloc b3 = Some s"
  proof -
    have "(if \<not> (queue_valid s0 \<and> h ! 5 \<in> {0, 1} \<and> h ! 6 \<in> {0, 1}) then None
        else read_queue (h ! 5) (h ! 6) s0 alloc b3) = Some s"
      using assms unfolding queue_resume_read_def Let_def
      by (simp only: f1 f2 f3 bind.bind_lunit prod.case simp_thms if_False h_def[symmetric] s0_def[symmetric])
    then show "queue_valid s0" "h ! 5 \<in> {0, 1}" "h ! 6 \<in> {0, 1}" "read_queue (h ! 5) (h ! 6) s0 alloc b3 = Some s"
      by (metis option.distinct(1))+
  qed
  have lh: "length h0 = 28" "length pos = 8" "bs = magic @ h0 @ pos @ b3" using freadD[OF f1] freadD[OF f2] freadD[OF f3] by auto
  have n: "0 < qr_count s0" using r(1) by (simp add: queue_valid_def)
  have sp: "int32_range (qr_shuffle_pos s0)" unfolding s0_def h_def using ints_of_range[OF nth_mem, of 4 7 h0] by simp
  note q = read_queue_sound[OF r(4) n r(2,3) sp]
  then obtain b where b: "(qr_paths s \<bind> (\<lambda>ps. paths_bytes (take (nat (qr_count s)) ps))) = Some b"
    "b3 = b @ order_bytes (qr_count s) (qr_order s) @ order_bytes (qr_count s) (qr_continuation s)" by blast
  have hl: "h = [h ! 0, h ! 1, h ! 2, h ! 3, h ! 4, h ! 5, h ! 6]"
    by (rule nth_equalityI) (auto simp: h_def less_Suc_eq numeral_eq_Suc)
  have e: "s0 = s\<lparr>qr_paths := qr_paths s0, qr_order := qr_order s0, qr_continuation := qr_continuation s0\<rparr>" using q by blast
  have fs: "qr_count s = h ! 0" "qr_current s = h ! 1" "qr_pending s = h ! 2" "qr_mode s = h ! 3" "qr_shuffle_pos s = h ! 4"
    "qr_position s = of_nat (le_val pos)"
    using arg_cong[OF e, of qr_count] arg_cong[OF e, of qr_current] arg_cong[OF e, of qr_pending] arg_cong[OF e, of qr_mode]
      arg_cong[OF e, of qr_shuffle_pos] arg_cong[OF e, of qr_position] by (simp_all add: s0_def)
  have "header_bytes s = concat (map i32_bytes h)"
    using q fs by (subst hl) (simp add: header_bytes_def)
  then have hb: "header_bytes s = h0" using ints_of_bytes[of h0 7] lh(1) by (simp add: h_def)
  have "le_val pos < 2 ^ 64" using le_val_less[of pos] lh(2) by simp
  then have "unat (qr_position s) = le_val pos" by (simp add: fs(6) unat_of_nat)
  then have pb: "le_bytes 8 (unat (qr_position s)) = pos" using le_bytes_le_val[of pos] lh(2) by simp
  show ?thesis using q b lh(3) by (auto simp: queue_resume_bytes_def hb pb split: Option.bind_splits)
qed

section \<open>Publishing is atomic\<close>

lemma open_temp_fresh: "open_temp name pid dir io attempt = Some temp \<Longrightarrow> dir temp = None \<and> (\<exists>k. temp = temp_name name pid k)"
  by (induction name pid dir io attempt rule: open_temp.induct)
    (subst (asm) (2) open_temp.simps, auto simp: Let_def split: if_splits)

lemma temp_name_differs: "temp_name name pid k \<noteq> name"
proof
  assume "temp_name name pid k = name"
  then have "length (temp_name name pid k) = length name" by simp
  then show False by (simp add: temp_name_def)
qed

text \<open>
  The file format round-trips: every queue that satisfies the reader's conditions is written
  and read back unchanged.
\<close>

theorem queue_resume_round_trip:
  assumes "queue_savable s"
  shows "\<exists>bytes. queue_resume_bytes s = Some bytes \<and> queue_resume_read (\<lambda>_. True) bytes = Some s"
  by (rule resume_round_trip[OF assms])

definition one_song :: queue_resume_t where
  "one_song = \<lparr>qr_paths = Some [Some ''a'', Some ''bc''], qr_order = Some [1, 0], qr_continuation = None, qr_count = 2,
     qr_current = 0, qr_pending = 1, qr_mode = 3, qr_shuffle_pos = 1, qr_position = 0\<rparr>"

lemma one_song_savable: "queue_savable one_song"
  unfolding queue_savable_def
proof (intro conjI allI impI)
  show "queue_valid one_song" by (simp add: one_song_def queue_valid_def MAX_ENTRIES_def position_ok_def)
  show "int32_range (qr_shuffle_pos one_song)" by (simp add: one_song_def int32_range_def)
  show "\<exists>ps. qr_paths one_song = Some (map Some ps) \<and> length ps = nat (qr_count one_song) \<and>
      (\<forall>p \<in> set ps. 0 < length p \<and> length p < PATH_LIMIT \<and> CHR 0x00 \<notin> set p) \<and> sum_list (map length ps) \<le> 64 * 1024 * 1024"
    by (rule exI[of _ "[''a'', ''bc'']"]) (simp add: one_song_def PATH_LIMIT_def)
qed (auto simp: one_song_def permutation_upto_def)

theorem queue_resume_round_trip_witness:
  "\<exists>bytes. queue_resume_bytes one_song = Some bytes \<and> queue_resume_read (\<lambda>_. True) bytes = Some one_song"
  by (rule queue_resume_round_trip[OF one_song_savable])

text \<open>
  C15: The reader accepts nothing but files the writer produces: an accepted file is byte for byte
  the encoding of the queue it yields, and that queue is valid, its orders are permutations and
  the shuffle cursor is on the current track.
\<close>

theorem queue_resume_read_exact:
  assumes "queue_resume_read alloc bs = Some s"
  shows "queue_savable s \<and> queue_resume_bytes s = Some bs"
  by (rule resume_read_sound[OF assms])

theorem queue_resume_read_exact_witness:
  "\<exists>bs. queue_resume_read (\<lambda>_. True) bs = Some one_song \<and> queue_savable one_song \<and> queue_resume_bytes one_song = Some bs"
proof -
  obtain bs where "queue_resume_read (\<lambda>_. True) bs = Some one_song" using resume_round_trip[OF one_song_savable] by blast
  with queue_resume_read_exact[OF this] show ?thesis by blast
qed

text \<open>
  C16: Publishing is atomic, whatever the system calls do: afterwards the file holds the complete
  new encoding (when success is reported) or what it held before, every other file is unchanged,
  and a temporary file stays behind only when it could not be removed.
\<close>

theorem queue_write_atomic:
  assumes "\<And>xs. qr_order s = Some xs \<Longrightarrow> length xs = nat (qr_count s)"
    and "\<And>xs. qr_continuation s = Some xs \<Longrightarrow> length xs = nat (qr_count s)"
  shows "\<exists>ok dir'. queue_resume_write_at dirfd_ok name pid s io dir = Some (ok, dir') \<and>
     (if ok then dir' name = queue_resume_bytes s \<and> dir' name \<noteq> None else dir' name = dir name) \<and>
     (\<forall>other. other \<noteq> name \<longrightarrow> dir' other = dir other \<or> (\<not> io_unlink_ok io \<and> (\<exists>k. other = temp_name name pid k)))"
proof (cases "\<not> queue_valid s \<or> qr_paths s = None")
  case True
  then show ?thesis by (auto simp: queue_resume_write_at_def)
next
  case False
  then have n: "0 < qr_count s" by (simp add: queue_valid_def)
  obtain p1 where p1: "permutation_test (io_calloc io 0) (qr_order s) (qr_count s) = Some p1"
    using permutation_test_iff[OF n assms(1)] by blast
  obtain p2 where p2: "permutation_test (io_calloc io 1) (qr_continuation s) (qr_count s) = Some p2"
    using permutation_test_iff[OF n assms(2)] by blast
  show ?thesis
  proof (cases "\<not> p1 \<or> \<not> p2 \<or> \<not> dirfd_ok \<or> name = [] \<or> CHR ''/'' \<in> set name \<or> open_temp name pid dir io 0 = None")
    case True
    have "queue_resume_write_at dirfd_ok name pid s io dir = Some (False, dir)"
      using False p1 p2 True by (cases p1; cases p2) (auto simp: queue_resume_write_at_def)
    then show ?thesis by auto
  next
    case go: False
    then obtain temp where temp: "open_temp name pid dir io 0 = Some temp" by auto
    obtain k where t: "dir temp = None" "temp = temp_name name pid k" using open_temp_fresh[OF temp] by blast
    have ne: "temp \<noteq> name" by (simp add: t(2) temp_name_differs)
    let ?go = "\<lambda>bytes. length bytes \<le> io_space io \<and> io_flush_ok io \<and> io_close_ok io \<and> io_rename_ok io"
    have run: "queue_resume_write_at dirfd_ok name pid s io dir =
        (if \<not> io_fdopen_ok io then Some (False, unlink_at temp io (dir(temp \<mapsto> [])))
         else (case queue_resume_bytes s of None \<Rightarrow> Some (False, unlink_at temp io (dir(temp \<mapsto> [])))
           | Some bytes \<Rightarrow> if ?go bytes
               then Some (True, dir(temp \<mapsto> take (io_space io) bytes, name \<mapsto> take (io_space io) bytes, temp := None))
               else Some (False, unlink_at temp io (dir(temp \<mapsto> take (io_space io) bytes)))))"
      using False go p1 p2 temp by (auto simp: queue_resume_write_at_def Let_def split: option.split)
    have undo: "unlink_at temp io (dir(temp \<mapsto> x)) name = dir name \<and>
        (\<forall>other. unlink_at temp io (dir(temp \<mapsto> x)) other = dir other \<or> (\<not> io_unlink_ok io \<and> other = temp))" for x
      using ne t(1) by (auto simp: unlink_at_def)
    show ?thesis
    proof (cases "io_fdopen_ok io \<and> (\<exists>bytes. queue_resume_bytes s = Some bytes \<and> ?go bytes)")
      case True
      then obtain bytes where b: "queue_resume_bytes s = Some bytes" "?go bytes" by blast
      then show ?thesis using True ne t(1) unfolding run by auto
    next
      case bad: False
      define x where "x = (if io_fdopen_ok io then case queue_resume_bytes s of None \<Rightarrow> [] | Some bytes \<Rightarrow> take (io_space io) bytes else [])"
      have "queue_resume_write_at dirfd_ok name pid s io dir = Some (False, unlink_at temp io (dir(temp \<mapsto> x)))"
        using bad unfolding run x_def by (cases "queue_resume_bytes s") auto
      then show ?thesis using undo[of x] t(2) by auto
    qed
  qed
qed

theorem queue_write_atomic_witness:
  "\<exists>ok dir'. queue_resume_write_at True ''queue.bin'' 7 one_song
       \<lparr>io_calloc = \<lambda>_. True, io_open_error = \<lambda>_. False, io_fdopen_ok = True, io_space = 10, io_flush_ok = True,
        io_close_ok = True, io_rename_ok = True, io_unlink_ok = True\<rparr> (\<lambda>_. None) = Some (ok, dir') \<and>
     (\<not> ok \<longrightarrow> dir' ''queue.bin'' = None)"
proof -
  have "length xs = nat (qr_count one_song)" if "qr_order one_song = Some xs" for xs using that by (auto simp: one_song_def)
  moreover have "length xs = nat (qr_count one_song)" if "qr_continuation one_song = Some xs" for xs
    using that by (simp add: one_song_def)
  ultimately show ?thesis
    using queue_write_atomic[of one_song True "''queue.bin''" 7 "\<lparr>io_calloc = \<lambda>_. True, io_open_error = \<lambda>_. False,
        io_fdopen_ok = True, io_space = 10, io_flush_ok = True, io_close_ok = True, io_rename_ok = True, io_unlink_ok = True\<rparr>"
        "\<lambda>_. None"] by (auto split: if_splits)
qed

end
