(* ===== verification/Queue_Checkpoint.thy ===== *)
theory Queue_Checkpoint
  imports Player_Props Queue_Resume
begin

text \<open>
  Saving the player's queue and restoring it at the next start (\<^verbatim>\<open>gui_player.c\<close>): what
  \<^verbatim>\<open>gui_player_queue_checkpoint\<close> captures, and what \<^verbatim>\<open>build_sd_card_resume_playlist\<close>,
  \<^verbatim>\<open>install_saved_resume_playlist\<close> and \<^verbatim>\<open>prepare_deferred_resume\<close> make of the file.
\<close>

definition MUSIC_ROOT_DIR :: string where "MUSIC_ROOT_DIR = ''/data/mnt/sd_0''"
definition SUBSONIC_STREAM_CACHE_DIR :: string where "SUBSONIC_STREAM_CACHE_DIR = ''/tmp/subsonic_stream_cache''"

definition has_prefix :: "string \<Rightarrow> string \<Rightarrow> bool" where
  "has_prefix prefix path \<longleftrightarrow> take (length prefix) path = prefix"

definition is_sd_card_path :: "string \<Rightarrow> bool" where
  "is_sd_card_path path \<longleftrightarrow> path \<noteq> [] \<and> has_prefix MUSIC_ROOT_DIR path \<and>
     (case drop (length MUSIC_ROOT_DIR) path of [] \<Rightarrow> True | c # _ \<Rightarrow> c = CHR ''/'')"

definition not_saved :: "string \<Rightarrow> bool" where
  "not_saved path \<longleftrightarrow> path = [] \<or> remote_track_path_is_remote path \<or> has_prefix SUBSONIC_STREAM_CACHE_DIR path"

text \<open>The loop that copies the paths; \<open>None\<close> in the first component once it has failed.\<close>

definition checkpoint_path :: "int \<Rightarrow> string option list option \<times> player \<Rightarrow> (string option list option \<times> player) option" where
  "checkpoint_path i acc = (case acc of (None, s) \<Rightarrow> Some (None, s)
     | (Some ps, s) \<Rightarrow> do {
         path \<leftarrow> playlist_path_at s i;
         if not_saved path then Some (None, s)
         else let (ok, s) = malloc_ok s in Some (if ok then Some (ps @ [Some path]) else None, s) })"

text \<open>
  The queue that is handed to the checkpoint worker, \<open>None\<close> when it cannot be saved.  \<open>position\<close>
  is the bit pattern of the resume position.
\<close>

definition checkpoint_orders :: "queue_resume_t \<Rightarrow> player \<Rightarrow> (queue_resume_t option \<times> player) option" where
  "checkpoint_orders q s = do {
     s \<leftarrow> ensure_shuffle_order_current s;
     let q = q\<lparr>qr_shuffle_pos := shuffle_pos s\<rparr>;
     let (ok, s) = malloc_ok s;
     case shuffle_order s of None \<Rightarrow> Some (None, s)
     | Some order \<Rightarrow>
         if \<not> ok then Some (None, s)
         else do {
           copy \<leftarrow> memcpy_out order (qr_count q);
           let q = q\<lparr>qr_order := Some copy\<rparr>;
           case pending_shuffle_order s of None \<Rightarrow> Some (Some q, s)
           | Some pending \<Rightarrow>
               let (ok, s) = malloc_ok s in
               if \<not> ok then Some (None, s)
               else do { copy \<leftarrow> memcpy_out pending (qr_count q); Some (Some (q\<lparr>qr_continuation := Some copy\<rparr>), s) } } }"

definition checkpoint_queue :: "u64 \<Rightarrow> player \<Rightarrow> (queue_resume_t option \<times> player) option" where
  "checkpoint_queue position s =
     (if \<not> gui_player_has_active_track s then Some (None, s)
      else do {
        let q = \<lparr>qr_paths = None, qr_order = None, qr_continuation = None, qr_count = playlist_count s,
                 qr_current = playlist_index s, qr_pending = queued_pending_count s, qr_mode = play_mode s,
                 qr_shuffle_pos = shuffle_pos s, qr_position = position\<rparr>;
        let (ok, s) = malloc_ok s;
        if \<not> ok then Some (None, s)
        else do {
          (paths, s) \<leftarrow> for_loop 0 (playlist_count s) checkpoint_path (Some [], s);
          case paths of None \<Rightarrow> Some (None, s)
          | Some ps \<Rightarrow>
              let q = q\<lparr>qr_paths := Some ps\<rparr> in
              if play_mode s = PLAY_MODE_SHUFFLE then checkpoint_orders q s else Some (Some q, s) } })"

text \<open>
  \<open>read\<close> and \<open>legacy\<close> are what \<open>queue_resume_read\<close> makes of the two files.  The result is the queue
  that is installed, whose paths become the playlist.
\<close>

definition build_sd_card_resume_playlist :: "queue_resume_t option \<Rightarrow> queue_resume_t option \<Rightarrow> queue_resume_t option" where
  "build_sd_card_resume_playlist read legacy =
     (case (case read of Some q \<Rightarrow> Some q | None \<Rightarrow> legacy) of None \<Rightarrow> None
      | Some q \<Rightarrow>
          if qr_count q \<le> 0 \<or> qr_current q < 0 \<or> qr_count q \<le> qr_current q then None
          else if (\<forall>p \<in> set (the (qr_paths q)). case p of None \<Rightarrow> False
              | Some path \<Rightarrow> path \<noteq> [] \<and> is_sd_card_path path \<and> \<not> has_prefix SUBSONIC_STREAM_CACHE_DIR path)
          then Some q else None)"

definition restored_of :: "queue_resume_t \<Rightarrow> restored_queue_t" where
  "restored_of q = \<lparr>rq_current = qr_current q, rq_pending = qr_pending q, rq_mode = qr_mode q, rq_order = qr_order q,
     rq_continuation = qr_continuation q, rq_shuffle_pos = qr_shuffle_pos q\<rparr>"

text \<open>The start-up sequence for a queue on the card.\<close>

definition resume_queue :: "queue_resume_t \<Rightarrow> real \<Rightarrow> player \<Rightarrow> player option" where
  "resume_queue q start_seconds s = do {
     (ok, s) \<leftarrow> install_saved_resume_playlist (the (qr_paths q)) (qr_count q) None False None (Some (restored_of q)) s;
     Some (if ok then prepare_deferred_resume (qr_current q) start_seconds s else s) }"

section \<open>What is captured\<close>

lemma checkpoint_paths_ok:
  assumes "list_ok s" and "n \<le> playlist_count s" and "0 \<le> n"
  shows "\<exists>acc a. for_loop 0 n checkpoint_path (Some [], s) = Some (acc, s\<lparr>alloc_ok := a\<rparr>) \<and>
     (\<forall>ps. acc = Some ps \<longrightarrow> (\<exists>qs. ps = map Some qs \<and> length qs = nat n \<and>
        (\<forall>i < nat n. playlist_path_at s (int i) = Some (qs ! i) \<and> \<not> not_saved (qs ! i))))"
proof -
  let ?I = "\<lambda>i (st :: string option list option \<times> player). \<exists>acc a. st = (acc, s\<lparr>alloc_ok := a\<rparr>) \<and>
     (\<forall>ps. acc = Some ps \<longrightarrow> (\<exists>qs. ps = map Some qs \<and> length qs = nat i \<and>
        (\<forall>k < nat i. playlist_path_at s (int k) = Some (qs ! k) \<and> \<not> not_saved (qs ! k))))"
  have "\<exists>st. for_loop 0 n checkpoint_path (Some [], s) = Some st \<and> ?I n st"
  proof (rule for_loop_rule[where I = ?I])
    show "?I 0 (Some [], s)" by (intro exI[of _ "Some []"] exI[of _ "alloc_ok s"]) simp
    fix i st assume i: "0 \<le> i" "i < n" and I: "?I i st"
    then obtain acc a where st: "st = (acc, s\<lparr>alloc_ok := a\<rparr>)"
      and acc: "\<And>ps. acc = Some ps \<Longrightarrow> \<exists>qs. ps = map Some qs \<and> length qs = nat i \<and>
        (\<forall>k < nat i. playlist_path_at s (int k) = Some (qs ! k) \<and> \<not> not_saved (qs ! k))" by blast
    obtain path where path: "playlist_path_at s i = Some path" using playlist_path_at_total[OF assms(1)] by blast
    show "\<exists>st'. checkpoint_path i st = Some st' \<and> ?I (i + 1) st'"
    proof (cases acc)
      case None
      then show ?thesis using st by (auto simp: checkpoint_path_def)
    next
      case (Some ps)
      then obtain qs where qs: "ps = map Some qs" "length qs = nat i"
        "\<forall>k < nat i. playlist_path_at s (int k) = Some (qs ! k) \<and> \<not> not_saved (qs ! k)" using acc by blast
      have ni: "nat (i + 1) = Suc (nat i)" "int (nat i) = i" using i by auto
      show ?thesis
      proof (cases "not_saved path")
        case True
        then show ?thesis using st Some path by (auto simp: checkpoint_path_def)
      next
        case False
        let ?acc = "if a 0 then Some (ps @ [Some path]) else None" and ?a = "\<lambda>k. a (Suc k)"
        have run: "checkpoint_path i st = Some (?acc, s\<lparr>alloc_ok := ?a\<rparr>)"
          using st Some path False by (simp add: checkpoint_path_def malloc_ok_def)
        have "\<forall>k < nat (i + 1). playlist_path_at s (int k) = Some ((qs @ [path]) ! k) \<and> \<not> not_saved ((qs @ [path]) ! k)"
          using qs(2,3) path False ni by (auto simp: nth_append less_Suc_eq)
        then have "\<forall>ps'. ?acc = Some ps' \<longrightarrow> (\<exists>qs. ps' = map Some qs \<and> length qs = nat (i + 1) \<and>
            (\<forall>k < nat (i + 1). playlist_path_at s (int k) = Some (qs ! k) \<and> \<not> not_saved (qs ! k)))"
          using qs(1,2) ni by (auto intro!: exI[of _ "qs @ [path]"])
        then show ?thesis using run by blast
      qed
    qed
  qed (use assms(3) in auto)
  then show ?thesis by blast
qed

text \<open>
  \<open>captures q s\<close>: the saved queue is the player's: the same counters, every path, and in shuffle
  mode the bag with its cursor.
\<close>

definition captures :: "queue_resume_t \<Rightarrow> player \<Rightarrow> bool" where
  "captures q s \<longleftrightarrow> qr_count q = playlist_count s \<and> qr_current q = playlist_index s \<and>
     qr_pending q = queued_pending_count s \<and> qr_mode q = play_mode s \<and> qr_shuffle_pos q = shuffle_pos s \<and>
     (\<exists>ps. qr_paths q = Some (map Some ps) \<and> length ps = nat (playlist_count s) \<and>
        (\<forall>i < nat (playlist_count s). playlist_path_at s (int i) = Some (ps ! i))) \<and>
     (if play_mode s = PLAY_MODE_SHUFFLE
      then bag_live s \<and> qr_order q = Some (take (nat (playlist_count s)) (the (shuffle_order s))) \<and>
           qr_continuation q = map_option (take (nat (playlist_count s))) (pending_shuffle_order s)
      else qr_order q = None \<and> qr_continuation q = None)"

lemma checkpoint_orders_ok:
  assumes inv: "player_inv s" and n: "0 < playlist_count s" and mode: "play_mode s = PLAY_MODE_SHUFFLE" and c: "qr_count q = playlist_count s"
    and q: "qr_current q = playlist_index s" "qr_pending q = queued_pending_count s" "qr_mode q = play_mode s"
      "qr_continuation q = None"
    and ps: "qr_paths q = Some (map Some ps)" "length ps = nat (playlist_count s)"
      "\<forall>i < nat (playlist_count s). playlist_path_at s (int i) = Some (ps ! i)"
  shows "\<exists>r t. checkpoint_orders q s = Some (r, t) \<and> shuffle_frame s t \<and> player_inv t \<and>
     (\<forall>q'. r = Some q' \<longrightarrow> captures q' t \<and> qr_position q' = qr_position q)"
proof -
  obtain t where t: "ensure_shuffle_order_current s = Some t" "shuffle_frame s t" "player_inv t"
    and none: "\<not> bag_live t \<Longrightarrow> shuffle_order t = None" by (rule ensure_inv[OF inv]) blast
  note f = shuffle_frameD[OF t(2)]
  define m1 where "m1 = snd (malloc_ok t)"
  define m2 where "m2 = snd (malloc_ok m1)"
  have fm: "shuffle_frame s m1" "player_inv m1" "shuffle_frame s m2" "player_inv m2"
    using malloc_frame[of t] malloc_frame[of m1] t(2,3) shuffle_frame_trans unfolding m1_def m2_def by blast+
  have em: "shuffle_order m1 = shuffle_order t" "pending_shuffle_order m1 = pending_shuffle_order t" "shuffle_pos m1 = shuffle_pos t"
    "shuffle_order m2 = shuffle_order t" "pending_shuffle_order m2 = pending_shuffle_order t" "shuffle_pos m2 = shuffle_pos t"
    "bag_live m1 = bag_live t" "bag_live m2 = bag_live t"
    by (simp_all add: m2_def m1_def malloc_ok_def bag_live_def)
  have pa: "playlist_path_at m i = playlist_path_at s i" if "shuffle_frame s m" for m i
    by (rule playlist_path_at_cong) (use shuffle_frameD[OF that] in simp_all)
  show ?thesis
  proof (cases "bag_live t \<and> fst (malloc_ok t)")
    case False
    have "checkpoint_orders q s = Some (None, m1)"
      using t(1) none False by (auto simp: checkpoint_orders_def Let_def case_prod_unfold m1_def[symmetric] em split: option.split)
    then show ?thesis using fm by blast
  next
    case True
    then obtain order where o: "shuffle_order t = Some order" "shuffle_order_count t = playlist_count t" by (auto simp: bag_live_def)
    have b: "bag_of_size (playlist_count s) order" "\<And>p. pending_shuffle_order t = Some p \<Longrightarrow> bag_of_size (playlist_count s) p"
      using t(3) o f(2) by (auto simp: player_inv_def bag_ok_def)
    let ?q1 = "q\<lparr>qr_shuffle_pos := shuffle_pos t, qr_order := Some (take (nat (playlist_count s)) order)\<rparr>"
    have cp: "memcpy_out order (playlist_count s) = Some (take (nat (playlist_count s)) order)"
      using b(1) n by (simp add: memcpy_out_def bag_of_size_def)
    show ?thesis
    proof (cases "pending_shuffle_order t")
      case None
      have run: "checkpoint_orders q s = Some (Some ?q1, m1)"
        using t(1) True o(1) None cp c by (simp add: checkpoint_orders_def Let_def case_prod_unfold m1_def[symmetric] em)
      have "captures ?q1 m1" using q c ps pa[OF fm(1)] True mode None o(1) em shuffle_frameD(2,3,6,9)[OF fm(1)]
        by (auto simp: captures_def)
      then show ?thesis using run fm by auto
    next
      case (Some p)
      have cp2: "memcpy_out p (playlist_count s) = Some (take (nat (playlist_count s)) p)"
        using b(2)[OF Some] n by (simp add: memcpy_out_def bag_of_size_def)
      let ?q2 = "?q1\<lparr>qr_continuation := Some (take (nat (playlist_count s)) p)\<rparr>"
      have run: "checkpoint_orders q s = Some (if fst (malloc_ok m1) then Some ?q2 else None, m2)"
        using t(1) True o(1) Some cp cp2 c
        by (simp add: checkpoint_orders_def Let_def case_prod_unfold m1_def[symmetric] m2_def[symmetric] em)
      have "captures ?q2 m2" using q c ps pa[OF fm(3)] True mode Some o(1) em shuffle_frameD(2,3,6,9)[OF fm(3)]
        by (auto simp: captures_def)
      then show ?thesis using run fm by auto
    qed
  qed
qed

lemma checkpoint_queue_ok:
  assumes inv: "player_inv s"
  obtains r t where "checkpoint_queue position s = Some (r, t)" and "shuffle_frame s t" and "player_inv t"
    and "\<And>q. r = Some q \<Longrightarrow> captures q t \<and> qr_position q = position \<and> 0 \<le> playlist_index t"
proof (cases "gui_player_has_active_track s")
  case False
  then show ?thesis using inv by (intro that[of None s]) (simp_all add: checkpoint_queue_def shuffle_frame_def)
next
  case act: True
  then have ix: "0 \<le> playlist_index s" and n: "0 < playlist_count s" by (auto simp: gui_player_has_active_track_def)
  define m where "m = snd (malloc_ok s)"
  have fm: "shuffle_frame s m" "player_inv m" using malloc_frame[of s] inv by (simp_all add: m_def)
  note f = shuffle_frameD[OF fm(1)]
  have lm: "list_ok m" using fm(2) by (simp add: player_inv_def)
  let ?q = "\<lparr>qr_paths = None, qr_order = None, qr_continuation = None, qr_count = playlist_count s,
                 qr_current = playlist_index s, qr_pending = queued_pending_count s, qr_mode = play_mode s,
                 qr_shuffle_pos = shuffle_pos s, qr_position = position\<rparr>"
  obtain acc a where loop: "for_loop 0 (playlist_count m) checkpoint_path (Some [], m) = Some (acc, m\<lparr>alloc_ok := a\<rparr>)"
    and acc: "\<And>ps. acc = Some ps \<Longrightarrow> \<exists>qs. ps = map Some qs \<and> length qs = nat (playlist_count m) \<and>
        (\<forall>i < nat (playlist_count m). playlist_path_at m (int i) = Some (qs ! i) \<and> \<not> not_saved (qs ! i))"
    using checkpoint_paths_ok[OF lm order_refl] n f(2) by auto
  define t where "t = m\<lparr>alloc_ok := a\<rparr>"
  have ft: "shuffle_frame s t" "player_inv t" using fm by (simp_all add: t_def shuffle_frame_def m_def malloc_ok_def)
  note g = shuffle_frameD[OF ft(1)]
  have sp: "shuffle_pos t = shuffle_pos s" by (simp add: t_def m_def malloc_ok_def)
  consider (oom) "\<not> fst (malloc_ok s)" | (fail) "fst (malloc_ok s)" "acc = None" | (ok) ps where "fst (malloc_ok s)" "acc = Some ps"
    by (cases acc) auto
  then show ?thesis
  proof cases
    case oom
    then have "checkpoint_queue position s = Some (None, m)"
      using act by (simp add: checkpoint_queue_def Let_def case_prod_unfold m_def)
    then show ?thesis by (rule that) (use fm in auto)
  next
    case fail
    then have "checkpoint_queue position s = Some (None, t)"
      using act loop by (simp add: checkpoint_queue_def Let_def case_prod_unfold m_def[symmetric] t_def)
    then show ?thesis by (rule that) (use ft in auto)
  next
    case ok
    obtain qs where qs: "ps = map Some qs" "length qs = nat (playlist_count m)"
        "\<forall>i < nat (playlist_count m). playlist_path_at m (int i) = Some (qs ! i)" using acc[OF ok(2)] by blast
    have pt: "playlist_path_at t i = playlist_path_at m i" for i by (rule playlist_path_at_cong) (simp_all add: t_def)
    have qt: "length qs = nat (playlist_count t)" "\<forall>i < nat (playlist_count t). playlist_path_at t (int i) = Some (qs ! i)"
      using qs pt by (simp_all add: t_def)
    let ?q1 = "?q\<lparr>qr_paths := Some ps\<rparr>"
    have run: "checkpoint_queue position s = (if play_mode t = PLAY_MODE_SHUFFLE then checkpoint_orders ?q1 t else Some (Some ?q1, t))"
      using act loop ok by (simp add: checkpoint_queue_def Let_def case_prod_unfold m_def[symmetric] t_def[symmetric])
    show ?thesis
    proof (cases "play_mode t = PLAY_MODE_SHUFFLE")
      case True
      have "\<exists>r u. checkpoint_orders ?q1 t = Some (r, u) \<and> shuffle_frame t u \<and> player_inv u \<and>
          (\<forall>q'. r = Some q' \<longrightarrow> captures q' u \<and> qr_position q' = qr_position ?q1)"
        by (rule checkpoint_orders_ok[OF ft(2) _ True _ _ _ _ _ _ qt(1) qt(2)]) (use n g qs(1) in simp_all)
      then obtain r u where u: "checkpoint_orders ?q1 t = Some (r, u)" "shuffle_frame t u" "player_inv u"
          "\<And>q'. r = Some q' \<Longrightarrow> captures q' u \<and> qr_position q' = position" by auto
      have "checkpoint_queue position s = Some (r, u)" using run True u(1) by simp
      then show ?thesis
        by (rule that[OF _ shuffle_frame_trans[OF ft(1) u(2)] u(3)])
          (use u(4) shuffle_frameD(3)[OF u(2)] g(3) ix in auto)
    next
      case False
      have "captures ?q1 t" using False g qt qs(1) sp by (auto simp: captures_def)
      then show ?thesis using that[of "Some ?q1" t] run False ft ix g(3) by auto
    qed
  qed
qed

section \<open>What is restored\<close>

text \<open>Restoring a captured queue gives a player in the invariant, at the same track with the same queue.\<close>

lemma permutation_length_pos: "permutation_upto n xs \<Longrightarrow> 0 < n \<Longrightarrow> xs \<noteq> []"
  using permutation_upto_length by fastforce

lemma resume_queue_ok:
  assumes inv: "player_inv s" and cap: "captures q s" and ix: "0 \<le> playlist_index s"
  shows "\<exists>t. resume_queue q start_seconds u = Some t \<and> player_inv t \<and> playlist_count t = playlist_count s \<and>
     playlist_index t = playlist_index s \<and> queued_pending_count t = queued_pending_count s \<and> play_mode t = play_mode s \<and>
     (\<forall>i. 0 \<le> i \<and> i < playlist_count s \<longrightarrow> playlist_path_at t i = playlist_path_at s i) \<and>
     (play_mode s = PLAY_MODE_SHUFFLE \<longrightarrow> shuffle_pos t = shuffle_pos s \<and>
        shuffle_order t = Some (take (nat (playlist_count s)) (the (shuffle_order s))))"
proof -
  obtain ps where ps: "qr_paths q = Some (map Some ps)" "length ps = nat (playlist_count s)"
      "\<forall>i < nat (playlist_count s). playlist_path_at s (int i) = Some (ps ! i)"
    and q: "qr_count q = playlist_count s" "qr_current q = playlist_index s" "qr_pending q = queued_pending_count s"
      "qr_mode q = play_mode s" "qr_shuffle_pos q = shuffle_pos s"
    and sh: "play_mode s = PLAY_MODE_SHUFFLE \<Longrightarrow> bag_live s \<and> qr_order q = Some (take (nat (playlist_count s)) (the (shuffle_order s))) \<and>
           qr_continuation q = map_option (take (nat (playlist_count s))) (pending_shuffle_order s)"
      "play_mode s \<noteq> PLAY_MODE_SHUFFLE \<Longrightarrow> qr_order q = None \<and> qr_continuation q = None"
    using cap by (auto simp: captures_def)
  have ok: "list_ok s" "queue_ok s" "bag_ok s" "aligned s" using inv by (auto simp: player_inv_def)
  have n: "playlist_index s < playlist_count s" using ok(1) ix by (auto simp: list_ok_def)
  define t0 where "t0 = (free_playlist u)\<lparr>lazy_lookup := (\<lambda>_. []), playlist := map Some ps,
     playlist_count := playlist_count s, playlist_lazy_sort_order := None, queued_pending_count := queued_pending_count s,
     queue_next_insert_index := (if queued_pending_count s \<noteq> 0 then playlist_index s + 1 + queued_pending_count s else -1),
     play_mode := play_mode s, shuffle_order := qr_order q, pending_shuffle_order := qr_continuation q,
     shuffle_order_count := (if qr_order q \<noteq> None then playlist_count s else 0), shuffle_pos := shuffle_pos s\<rparr>"
  define t where "t = prepare_deferred_resume (playlist_index s) start_seconds t0"
  have run: "resume_queue q start_seconds u = Some t"
    using ps q by (simp add: resume_queue_def install_saved_resume_playlist_def restored_of_def Let_def t_def t0_def)
  have f: "playlist t = map Some ps" "playlist_count t = playlist_count s" "playlist_index t = playlist_index s"
    "queued_pending_count t = queued_pending_count s" "play_mode t = play_mode s" "shuffle_order t = qr_order q"
    "pending_shuffle_order t = qr_continuation q" "shuffle_order_count t = (if qr_order q \<noteq> None then playlist_count s else 0)"
    "shuffle_pos t = shuffle_pos s" "playlist_lazy_sort_order t = None"
    "queue_next_insert_index t = (if queued_pending_count s \<noteq> 0 then playlist_index s + 1 + queued_pending_count s else -1)"
    by (simp_all add: t_def t0_def prepare_deferred_resume_def emit_def)
  have "player_inv t"
  proof (unfold player_inv_def, intro conjI)
    show "list_ok t" using f ps(2) ix n by (simp add: list_ok_def)
    show "queue_ok t" using ok(2) f ix by (auto simp: queue_ok_def)
    show "bag_ok t"
    proof (cases "play_mode s = PLAY_MODE_SHUFFLE")
      case False
      then show ?thesis using ok(3) f sh(2) by (simp add: bag_ok_def)
    next
      case True
      then obtain order where o: "shuffle_order s = Some order" "shuffle_order_count s = playlist_count s"
        using sh(1) by (auto simp: bag_live_def)
      have b: "bag_of_size (playlist_count s) order" "\<And>p. pending_shuffle_order s = Some p \<Longrightarrow> bag_of_size (playlist_count s) p"
        using ok(3) o by (auto simp: bag_ok_def)
      have tk: "bag_of_size (playlist_count s) (take (nat (playlist_count s)) x)" if "bag_of_size (playlist_count s) x" for x
        using that ix n by (auto simp: bag_of_size_def)
      have ne: "take (nat (playlist_count s)) order \<noteq> []"
        using b(1) ix n permutation_length_pos by (force simp: bag_of_size_def)
      show ?thesis using ok(3) True sh(1) o b tk ne f ix n by (auto simp: bag_ok_def)
    qed
    show "aligned t" using ok(4) sh f ix n block_at_take by (auto simp: aligned_def bag_live_def)
  qed
  moreover have "playlist_path_at t i = playlist_path_at s i" if "0 \<le> i" "i < playlist_count s" for i
  proof -
    have "playlist_path_at s i = Some (ps ! nat i)" using ps(3)[rule_format, of "nat i"] that by simp
    moreover have "playlist_path_at t i = Some (ps ! nat i)" using that f(1,2) ps(2) by (simp add: playlist_path_at_def aget_def)
    ultimately show ?thesis by simp
  qed
  ultimately show ?thesis using run f sh(1) by auto
qed

lemma captures_savable:
  assumes inv: "player_inv s" and cap: "captures q s" and ix: "0 \<le> playlist_index s"
    and c: "playlist_count s \<le> MAX_ENTRIES" "0 \<le> play_mode s" "play_mode s \<le> 3" "position_ok (qr_position q)" "shuffle_pos s \<le> 2147483647"
    and fit: "\<forall>i. 0 \<le> i \<and> i < playlist_count s \<longrightarrow> path_fits (the (playlist_path_at s i))"
    and sz: "(\<Sum>i \<leftarrow> [0..playlist_count s - 1]. length (the (playlist_path_at s i))) \<le> 64 * 1024 * 1024"
  shows "queue_savable q"
proof -
  obtain ps where ps: "qr_paths q = Some (map Some ps)" "length ps = nat (playlist_count s)"
      "\<forall>i < nat (playlist_count s). playlist_path_at s (int i) = Some (ps ! i)"
    and q: "qr_count q = playlist_count s" "qr_current q = playlist_index s" "qr_pending q = queued_pending_count s"
      "qr_mode q = play_mode s" "qr_shuffle_pos q = shuffle_pos s"
    using cap by (auto simp: captures_def)
  have ok: "list_ok s" "queue_ok s" "bag_ok s" "aligned s" using inv by (auto simp: player_inv_def)
  have n: "playlist_index s < playlist_count s" using ok(1) ix by (auto simp: list_ok_def)
  have eq: "map (\<lambda>i. length (the (playlist_path_at s i))) [0..playlist_count s - 1] = map length ps"
  proof (rule nth_equalityI)
    show "length (map (\<lambda>i. length (the (playlist_path_at s i))) [0..playlist_count s - 1]) = length (map length ps)"
      by (simp add: ps(2))
    fix i assume "i < length (map (\<lambda>i. length (the (playlist_path_at s i))) [0..playlist_count s - 1])"
    then have i: "i < length [0..playlist_count s - 1]" by (simp only: length_map)
    then have k: "i < nat (playlist_count s)" by simp
    then have l: "i < length ps" by (simp only: ps(2))
    have "0 + int i \<le> playlist_count s - 1" using k by linarith
    from nth_upto[OF this] have u: "[0..playlist_count s - 1] ! i = int i" by simp
    show "map (\<lambda>i. length (the (playlist_path_at s i))) [0..playlist_count s - 1] ! i = map length ps ! i"
      by (simp only: nth_map[OF i] nth_map[OF l] u ps(3)[rule_format, OF k] option.sel)
  qed
  have pf: "path_fits p" if p: "p \<in> set ps" for p
  proof -
    obtain i where "i < length ps" "p = ps ! i" using p unfolding in_set_conv_nth by blast
    then have i: "i < nat (playlist_count s)" "p = ps ! i" using ps(2) by simp_all
    then have "int i < playlist_count s" by linarith
    then show ?thesis using fit[rule_format, of "int i"] ps(3)[rule_format, OF i(1)] i(2) by simp
  qed
  have bag: "0 \<le> shuffle_pos s \<and> shuffle_pos s < playlist_count s \<and> permutation_upto (playlist_count s) xs \<and>
      xs ! nat (shuffle_pos s) = playlist_index s" if x: "qr_order q = Some xs" for xs
  proof -
    have "play_mode s = PLAY_MODE_SHUFFLE" using cap x by (auto simp: captures_def split: if_splits)
    then obtain order where o: "shuffle_order s = Some order" "shuffle_order_count s = playlist_count s"
      "xs = take (nat (playlist_count s)) order" "bag_of_size (playlist_count s) order"
      and al: "shuffle_pos s + queued_pending_count s < playlist_count s" "block_at order (shuffle_pos s) (playlist_index s) (queued_pending_count s)"
      using cap x ok(3,4) ix by (auto simp: captures_def bag_live_def aligned_def bag_ok_def)
    have "0 \<le> queued_pending_count s" using ok(2) by (simp add: queue_ok_def)
    then show ?thesis using al o(3,4) by (auto simp: block_at_def bag_of_size_def dest: spec[of _ 0])
  qed
  have cont: "permutation_upto (playlist_count s) xs" if "qr_continuation q = Some xs" for xs
    using cap that ok(3) by (auto simp: captures_def bag_live_def bag_ok_def bag_of_size_def split: if_splits)
  have sp: "int32_range (shuffle_pos s)" using ok(3) c(5) by (auto simp: bag_ok_def int32_range_def)
  have pend: "0 \<le> queued_pending_count s" "queued_pending_count s < playlist_count s - playlist_index s"
    using ok(2) n by (auto simp: queue_ok_def split: if_splits)
  have "queue_valid q" using q c n ix pend bag by (auto simp: queue_valid_def)
  then show ?thesis using q ps(1,2) pf sz[unfolded eq] sp bag cont
    by (auto simp: queue_savable_def path_fits_def intro!: exI[of _ ps])
qed



end
