(* ===== verification/Utf8.thy ===== *)
theory Utf8
  imports Bytes
begin

text \<open>
  UTF-8 strings (\<^verbatim>\<open>src/src/core/utf8_util.c\<close>): replacing malformed sequences in place, and cutting a
  string to the size of a buffer without splitting a character.  A C string is the list of its
  bytes before the NUL; a read at its end yields the NUL, \<open>0\<close>.
\<close>

unbundle bit_operations_syntax

section \<open>The code\<close>

definition byte_at :: "byte list \<Rightarrow> nat \<Rightarrow> byte" where
  "byte_at p i = (if i < length p then p ! i else 0)"

definition is_cont :: "byte \<Rightarrow> bool" where
  "is_cont b \<longleftrightarrow> b AND 0xC0 = 0x80"

text \<open>
  How far the loop of \<^verbatim>\<open>utf8_sanitize\<close> advances at \<open>p\<close>: the length of the sequence, or \<open>0\<close> when the
  byte is replaced.
\<close>

definition utf8_step :: "byte list \<Rightarrow> nat" where
  "utf8_step p = (let b = byte_at p 0 in
     if b < 0x80 then 1
     else if 0xC2 \<le> b \<and> b \<le> 0xDF then (if is_cont (byte_at p 1) then 2 else 0)
     else if b = 0xE0 then (if 0xA0 \<le> byte_at p 1 \<and> byte_at p 1 \<le> 0xBF \<and> is_cont (byte_at p 2) then 3 else 0)
     else if 0xE1 \<le> b \<and> b \<le> 0xEC then (if is_cont (byte_at p 1) \<and> is_cont (byte_at p 2) then 3 else 0)
     else if b = 0xED then (if 0x80 \<le> byte_at p 1 \<and> byte_at p 1 \<le> 0x9F \<and> is_cont (byte_at p 2) then 3 else 0)
     else if 0xEE \<le> b \<and> b \<le> 0xEF then (if is_cont (byte_at p 1) \<and> is_cont (byte_at p 2) then 3 else 0)
     else if b = 0xF0 then
       (if 0x90 \<le> byte_at p 1 \<and> byte_at p 1 \<le> 0xBF \<and> is_cont (byte_at p 2) \<and> is_cont (byte_at p 3) then 4 else 0)
     else if 0xF1 \<le> b \<and> b \<le> 0xF3 then
       (if is_cont (byte_at p 1) \<and> is_cont (byte_at p 2) \<and> is_cont (byte_at p 3) then 4 else 0)
     else if b = 0xF4 then
       (if 0x80 \<le> byte_at p 1 \<and> byte_at p 1 \<le> 0x8F \<and> is_cont (byte_at p 2) \<and> is_cont (byte_at p 3) then 4 else 0)
     else 0)"

function utf8_sanitize :: "byte list \<Rightarrow> byte list" where
  "utf8_sanitize p =
     (if p = [] then []
      else let k = utf8_step p in
        if k = 0 then 0x3F # utf8_sanitize (tl p)
        else take k p @ utf8_sanitize (drop k p))"
  by pat_completeness auto
termination
  by (relation "measure length") auto

declare utf8_sanitize.simps [simp del]

text \<open>The loop that counts the trailing continuation bytes, at most four.\<close>

function count_cont :: "byte list \<Rightarrow> nat \<Rightarrow> nat \<Rightarrow> nat" where
  "count_cont src max_copy k =
     (if k < max_copy \<and> k < 4 \<and> is_cont (src ! (max_copy - 1 - k)) then count_cont src max_copy (k + 1) else k)"
  by pat_completeness auto
termination
  by (relation "measure (\<lambda>(src, m, k). 4 - k)") auto

declare count_cont.simps [simp del]

definition lead_len :: "byte \<Rightarrow> nat" where
  "lead_len lead =
     (if lead < 0x80 then 1
      else if lead AND 0xE0 = 0xC0 then 2
      else if lead AND 0xF0 = 0xE0 then 3
      else if lead AND 0xF8 = 0xF0 then 4
      else 1)"

definition utf8_cut :: "byte list \<Rightarrow> nat \<Rightarrow> nat" where
  "utf8_cut src max_copy =
     (let k = count_cont src max_copy 0 in
      if k < max_copy then
        (let lead_idx = max_copy - 1 - k; seq_len = lead_len (src ! lead_idx) in
         if max_copy < lead_idx + seq_len then lead_idx else max_copy)
      else max_copy)"

text \<open>
  The result is the return value and the C string in \<open>dst\<close> (\<open>None\<close> when there is no buffer to write).
  \<open>src\<close> is \<open>None\<close> for a NULL pointer; otherwise it has at least \<open>src_len\<close> bytes.
\<close>

definition utf8_truncate_safe_bounded :: "nat \<Rightarrow> byte list option \<Rightarrow> nat \<Rightarrow> nat \<times> byte list option" where
  "utf8_truncate_safe_bounded dst_size src src_len =
     (if dst_size = 0 then (0, None)
      else case src of None \<Rightarrow> (0, Some [])
      | Some s \<Rightarrow>
          if src_len = 0 then (0, Some [])
          else let max_copy = (if src_len < dst_size - 1 then src_len else dst_size - 1) in
            if max_copy = 0 then (0, Some [])
            else let cut = utf8_cut s max_copy
              in (cut, Some (utf8_sanitize (takeWhile (\<lambda>b. b \<noteq> 0) (take cut s)))))"

definition utf8_truncate_safe :: "byte list option \<Rightarrow> nat \<Rightarrow> nat \<times> byte list option" where
  "utf8_truncate_safe src max_bytes =
     (case src of None \<Rightarrow> utf8_truncate_safe_bounded max_bytes None 0
      | Some s \<Rightarrow> utf8_truncate_safe_bounded max_bytes (Some s) (min (length s) max_bytes))"

section \<open>The specification\<close>

text \<open>Unicode scalar values other than NUL, and their encoding.\<close>

definition scalar :: "nat \<Rightarrow> bool" where
  "scalar c \<longleftrightarrow> 0 < c \<and> c < 0x110000 \<and> \<not> (0xD800 \<le> c \<and> c \<le> 0xDFFF)"

definition utf8_encode :: "nat \<Rightarrow> byte list" where
  "utf8_encode c = map of_nat
     (if c < 0x80 then [c]
      else if c < 0x800 then [0xC0 + c div 64, 0x80 + c mod 64]
      else if c < 0x10000 then [0xE0 + c div 4096, 0x80 + c div 64 mod 64, 0x80 + c mod 64]
      else [0xF0 + c div 262144, 0x80 + c div 4096 mod 64, 0x80 + c div 64 mod 64, 0x80 + c mod 64])"

definition utf8_text :: "nat list \<Rightarrow> byte list" where
  "utf8_text cs = concat (map utf8_encode cs)"

section \<open>Bytes\<close>

lemma is_cont_iff: "is_cont b \<longleftrightarrow> 0x80 \<le> b \<and> b \<le> 0xBF"
  by (rule byte_forall) code_simp

lemma lead_len_ranges:
  "lead_len b = (if b < 0x80 then 1 else if 0xC0 \<le> b \<and> b \<le> 0xDF then 2 else if 0xE0 \<le> b \<and> b \<le> 0xEF then 3
     else if 0xF0 \<le> b \<and> b \<le> 0xF7 then 4 else 1)"
  by (rule byte_forall) code_simp

lemma byte_le_nat: "n < 256 \<Longrightarrow> (b \<le> (of_nat n :: byte)) = (unat b \<le> n)" "n < 256 \<Longrightarrow> ((of_nat n :: byte) \<le> b) = (n \<le> unat b)"
  by (simp_all add: word_le_nat_alt)

lemma byte_less_nat: "n < 256 \<Longrightarrow> (b < (of_nat n :: byte)) = (unat b < n)"
  by (simp add: word_less_nat_alt)

lemma byte_eq_nat: "n < 256 \<Longrightarrow> (b = (of_nat n :: byte)) = (unat b = n)"
  using unat_of_nat_byte[of n] by (metis mod_less of_nat_unat ucast_id)

text \<open>The tests of the step, on the numbers the bytes stand for.\<close>

definition step_nat :: "nat \<Rightarrow> nat \<Rightarrow> nat \<Rightarrow> nat \<Rightarrow> nat" where
  "step_nat b c d e = (let cont = \<lambda>x. 128 \<le> x \<and> x \<le> 191 in
     if b < 128 then 1
     else if 194 \<le> b \<and> b \<le> 223 then (if cont c then 2 else 0)
     else if b = 224 then (if 160 \<le> c \<and> c \<le> 191 \<and> cont d then 3 else 0)
     else if 225 \<le> b \<and> b \<le> 236 then (if cont c \<and> cont d then 3 else 0)
     else if b = 237 then (if 128 \<le> c \<and> c \<le> 159 \<and> cont d then 3 else 0)
     else if 238 \<le> b \<and> b \<le> 239 then (if cont c \<and> cont d then 3 else 0)
     else if b = 240 then (if 144 \<le> c \<and> c \<le> 191 \<and> cont d \<and> cont e then 4 else 0)
     else if 241 \<le> b \<and> b \<le> 243 then (if cont c \<and> cont d \<and> cont e then 4 else 0)
     else if b = 244 then (if 128 \<le> c \<and> c \<le> 143 \<and> cont d \<and> cont e then 4 else 0)
     else 0)"

lemma utf8_step_nat:
  "utf8_step p = step_nat (unat (byte_at p 0)) (unat (byte_at p 1)) (unat (byte_at p 2)) (unat (byte_at p 3))"
proof -
  have e: "(b = 0xE0) = (unat b = 224)" "(b = 0xED) = (unat b = 237)" "(b = 0xF0) = (unat b = 240)" "(b = 0xF4) = (unat b = 244)"
    for b :: byte using byte_eq_nat[of 224 b] byte_eq_nat[of 237 b] byte_eq_nat[of 240 b] byte_eq_nat[of 244 b] by simp_all
  show ?thesis
    unfolding utf8_step_def step_nat_def Let_def is_cont_iff e word_le_nat_alt word_less_nat_alt
    by simp
qed

section \<open>Encodings\<close>

lemma enc1: "c < 128 \<Longrightarrow> utf8_encode c = [of_nat c]"
  by (simp add: utf8_encode_def)

lemma enc2:
  assumes "2 \<le> x" "x < 32" "y < 64"
  shows "utf8_encode (x * 64 + y) = [of_nat (192 + x), of_nat (128 + y)]"
  using assms by (simp add: utf8_encode_def)

lemma enc3:
  assumes "x < 16" "y < 64" "z < 64" "x = 0 \<Longrightarrow> 32 \<le> y"
  shows "utf8_encode (x * 4096 + y * 64 + z) = [of_nat (224 + x), of_nat (128 + y), of_nat (128 + z)]"
proof -
  let ?c = "x * 4096 + y * 64 + z"
  have "2048 \<le> ?c" using assms by (cases x) auto
  moreover have "?c < 65536" using assms by linarith
  moreover have d1: "?c = (x * 64 + y) * 64 + z" by simp
  moreover have "?c div 64 = x * 64 + y" unfolding d1 using assms(3) by simp
  moreover have "?c div 4096 = x"
  proof -
    have "?c div 4096 = ?c div 64 div 64" by (simp add: div_mult2_eq[symmetric])
    then show ?thesis using calculation(4) assms(2) by simp
  qed
  moreover have "?c mod 64 = z" unfolding d1 mod_mult_self3 using assms(3) by simp
  ultimately show ?thesis using assms(2) by (simp add: utf8_encode_def)
qed

lemma enc4:
  assumes "x < 5" "y < 64" "z < 64" "w < 64" "x = 0 \<Longrightarrow> 16 \<le> y" "x = 4 \<Longrightarrow> y < 16"
  shows "utf8_encode (x * 262144 + y * 4096 + z * 64 + w) = [of_nat (240 + x), of_nat (128 + y), of_nat (128 + z), of_nat (128 + w)]"
proof -
  define c where "c = x * 262144 + y * 4096 + z * 64 + w"
  have big: "65536 \<le> c" using assms by (cases x) (auto simp: c_def)
  have e: "c = ((x * 64 + y) * 64 + z) * 64 + w" by (simp add: c_def)
  have d1: "c div 64 = (x * 64 + y) * 64 + z" unfolding e using assms(4) by simp
  have d2: "c div 4096 = x * 64 + y"
  proof -
    have "c div 4096 = c div 64 div 64" by (simp add: div_mult2_eq[symmetric])
    then show ?thesis unfolding d1 using assms(3) by simp
  qed
  have d3: "c div 262144 = x"
  proof -
    have "c div 262144 = c div 4096 div 64" by (simp add: div_mult2_eq[symmetric])
    then show ?thesis unfolding d2 using assms(2) by simp
  qed
  have m: "c mod 64 = w" unfolding e mod_mult_self3 using assms(4) by simp
  have m1: "c div 64 mod 64 = z" unfolding d1 mod_mult_self3 using assms(3) by simp
  have m2: "c div 4096 mod 64 = y" unfolding d2 mod_mult_self3 using assms(2) by simp
  show ?thesis unfolding c_def[symmetric] using big by (simp add: utf8_encode_def d3 m m1 m2)
qed

text \<open>Every scalar value has one of the four forms.\<close>

lemma encode_cases:
  assumes "scalar c"
  obtains (one) "0 < c" "c < 128" "utf8_encode c = [of_nat c]"
  | (two) x y where "2 \<le> x" "x < 32" "y < 64" "utf8_encode c = [of_nat (192 + x), of_nat (128 + y)]"
  | (three) x y z where "x < 16" "y < 64" "z < 64" "x = 0 \<longrightarrow> 32 \<le> y" "x = 13 \<longrightarrow> y < 32"
      "utf8_encode c = [of_nat (224 + x), of_nat (128 + y), of_nat (128 + z)]"
  | (four) x y z w where "x < 5" "y < 64" "z < 64" "w < 64" "x = 0 \<longrightarrow> 16 \<le> y" "x = 4 \<longrightarrow> y < 16"
      "utf8_encode c = [of_nat (240 + x), of_nat (128 + y), of_nat (128 + z), of_nat (128 + w)]"
proof -
  have c: "0 < c" "c < 1114112" "\<not> (55296 \<le> c \<and> c \<le> 57343)" using assms by (auto simp: scalar_def)
  have b: "c mod 64 < 64" "c div 64 mod 64 < 64" "c div 4096 mod 64 < 64" by simp_all
  have e2: "c = c div 64 * 64 + c mod 64" by simp
  have d: "c div 64 = c div 4096 * 64 + c div 64 mod 64" "c div 4096 = c div 262144 * 64 + c div 4096 mod 64"
    by (simp_all add: div_mult2_eq[of c 64 64, simplified] div_mult2_eq[of c 4096 64, simplified])
  consider "c < 128" | "128 \<le> c" "c < 2048" | "2048 \<le> c" "c < 65536" | "65536 \<le> c" by linarith
  then show thesis
  proof cases
    case 1
    then show ?thesis using one c enc1 by blast
  next
    case 2
    then show ?thesis by (intro two[of "c div 64" "c mod 64"]) (auto simp: utf8_encode_def)
  next
    case 3
    show ?thesis
    proof (rule three[of "c div 4096" "c div 64 mod 64" "c mod 64"])
      show "c div 4096 = 0 \<longrightarrow> 32 \<le> c div 64 mod 64" using 3 d(1) e2 b by linarith
      show "c div 4096 = 13 \<longrightarrow> c div 64 mod 64 < 32" using c(3) d(1) e2 b by linarith
    qed (use 3 in \<open>auto simp: utf8_encode_def\<close>)
  next
    case 4
    show ?thesis
    proof (rule four[of "c div 262144" "c div 4096 mod 64" "c div 64 mod 64" "c mod 64"])
      show "c div 262144 = 0 \<longrightarrow> 16 \<le> c div 4096 mod 64" using 4 d e2 b by linarith
      show "c div 262144 = 4 \<longrightarrow> c div 4096 mod 64 < 16" using c(2) d b e2 by linarith
    qed (use 4 c in \<open>auto simp: utf8_encode_def\<close>)
  qed
qed

section \<open>The sanitizer\<close>

lemma byte_at_Cons [simp]:
  "byte_at (a # r) 0 = a" "byte_at (a # r) (Suc i) = byte_at r i" "byte_at (a # r) 1 = byte_at r 0"
  "byte_at (a # r) 2 = byte_at r 1" "byte_at (a # r) 3 = byte_at r 2"
  by (simp_all add: byte_at_def numeral_eq_Suc)

lemma byte_at_append: "byte_at (xs @ ys) i = (if i < length xs then xs ! i else byte_at ys (i - length xs))"
  by (auto simp: byte_at_def nth_append)

lemma step_nat_forms:
  "b < 128 \<Longrightarrow> step_nat b c d e = 1"
  "2 \<le> x \<Longrightarrow> x < 32 \<Longrightarrow> y < 64 \<Longrightarrow> step_nat (192 + x) (128 + y) d e = 2"
  "x < 16 \<Longrightarrow> y < 64 \<Longrightarrow> z < 64 \<Longrightarrow> (x = 0 \<longrightarrow> 32 \<le> y) \<Longrightarrow> (x = 13 \<longrightarrow> y < 32) \<Longrightarrow>
     step_nat (224 + x) (128 + y) (128 + z) e = 3"
  "x < 5 \<Longrightarrow> y < 64 \<Longrightarrow> z < 64 \<Longrightarrow> w < 64 \<Longrightarrow> (x = 0 \<longrightarrow> 16 \<le> y) \<Longrightarrow> (x = 4 \<longrightarrow> y < 16) \<Longrightarrow>
     step_nat (240 + x) (128 + y) (128 + z) (128 + w) = 4"
  by (auto simp: step_nat_def)

lemma unat_small: "n < 256 \<Longrightarrow> unat (of_nat n :: byte) = n"
  by simp

lemma step_encode:
  assumes "scalar c"
  shows "utf8_step (utf8_encode c @ r) = length (utf8_encode c)"
  using assms
proof (cases rule: encode_cases)
  case one
  have "unat (of_nat c :: byte) = c" using one by (intro unat_small) simp
  then show ?thesis using one step_nat_forms(1) by (simp add: utf8_step_nat)
next
  case (two x y)
  have "unat (of_nat (192 + x) :: byte) = 192 + x" "unat (of_nat (128 + y) :: byte) = 128 + y"
    using two by (intro unat_small, simp)+
  then show ?thesis using step_nat_forms(2)[OF two(1-3)] two(4) by (simp add: utf8_step_nat del: unat_of_nat_byte of_nat_add)
next
  case (three x y z)
  have "unat (of_nat (224 + x) :: byte) = 224 + x" "unat (of_nat (128 + y) :: byte) = 128 + y" "unat (of_nat (128 + z) :: byte) = 128 + z"
    using three by (intro unat_small, simp)+
  then show ?thesis using step_nat_forms(3)[OF three(1-5)] three(6)
    by (simp add: utf8_step_nat del: unat_of_nat_byte of_nat_add)
next
  case (four x y z w)
  have "unat (of_nat (240 + x) :: byte) = 240 + x" "unat (of_nat (128 + y) :: byte) = 128 + y" "unat (of_nat (128 + z) :: byte) = 128 + z"
    "unat (of_nat (128 + w) :: byte) = 128 + w"
    using four by (intro unat_small, simp)+
  then show ?thesis using step_nat_forms(4)[OF four(1-6)] four(7)
    by (simp add: utf8_step_nat del: unat_of_nat_byte of_nat_add)
qed

lemma encode_nonempty: "utf8_encode c \<noteq> []"
  by (simp add: utf8_encode_def)

lemma byte_at_pos: "byte_at p i \<noteq> 0 \<Longrightarrow> i < length p"
  by (auto simp: byte_at_def split: if_splits)

lemma take_bytes:
  assumes "k \<le> 4" and "\<And>i. i < k \<Longrightarrow> byte_at p i \<noteq> 0"
  shows "take k p = map (byte_at p) [0..<k]"
proof (rule nth_equalityI)
  have "k = 0 \<or> k - 1 < length p" using assms byte_at_pos by (cases k) auto
  then have l: "k \<le> length p" by auto
  then show "length (take k p) = length (map (byte_at p) [0..<k])" by simp
  fix i assume "i < length (take k p)"
  then show "take k p ! i = map (byte_at p) [0..<k] ! i" using l by (simp add: byte_at_def)
qed

text \<open>An accepted sequence is the encoding of a scalar value.\<close>

lemma step_nat_cases:
  assumes "step_nat B C D E = k" "k \<noteq> 0"
  obtains (one) "k = 1" "B < 128" | (two) "k = 2" "194 \<le> B" "B \<le> 223" "128 \<le> C" "C \<le> 191"
    | (three) "k = 3" "224 \<le> B" "B \<le> 239" "128 \<le> C" "C \<le> 191" "128 \<le> D" "D \<le> 191" "B = 224 \<longrightarrow> 160 \<le> C" "B = 237 \<longrightarrow> C \<le> 159"
    | (four) "k = 4" "240 \<le> B" "B \<le> 244" "128 \<le> C" "C \<le> 191" "128 \<le> D" "D \<le> 191" "128 \<le> E" "E \<le> 191"
        "B = 240 \<longrightarrow> 144 \<le> C" "B = 244 \<longrightarrow> C \<le> 143"
proof -
  let ?two = "k = 2 \<and> 194 \<le> B \<and> B \<le> 223 \<and> 128 \<le> C \<and> C \<le> 191"
  let ?three = "k = 3 \<and> 224 \<le> B \<and> B \<le> 239 \<and> 128 \<le> C \<and> C \<le> 191 \<and> 128 \<le> D \<and> D \<le> 191 \<and> (B = 224 \<longrightarrow> 160 \<le> C) \<and> (B = 237 \<longrightarrow> C \<le> 159)"
  let ?four = "k = 4 \<and> 240 \<le> B \<and> B \<le> 244 \<and> 128 \<le> C \<and> C \<le> 191 \<and> 128 \<le> D \<and> D \<le> 191 \<and> 128 \<le> E \<and> E \<le> 191 \<and>
     (B = 240 \<longrightarrow> 144 \<le> C) \<and> (B = 244 \<longrightarrow> C \<le> 143)"
  consider "B < 128" | "128 \<le> B" "B < 194" | "194 \<le> B" "B \<le> 223" | "B = 224" | "225 \<le> B" "B \<le> 236" | "B = 237" | "238 \<le> B" "B \<le> 239"
    | "B = 240" | "241 \<le> B" "B \<le> 243" | "B = 244" | "245 \<le> B" by linarith
  then have "(k = 1 \<and> B < 128) \<or> ?two \<or> ?three \<or> ?four"
    by cases (use assms in \<open>simp_all add: step_nat_def split: if_splits\<close>)
  then show thesis using one two three four by blast
qed

lemma scalar2: "2 \<le> x \<Longrightarrow> x < 32 \<Longrightarrow> y < 64 \<Longrightarrow> scalar (x * 64 + y)"
  unfolding scalar_def by (intro conjI notI; linarith)

lemma scalar3:
  assumes "x < 16" "y < 64" "z < 64" "x = 0 \<longrightarrow> 32 \<le> y" "x = 13 \<longrightarrow> y < 32"
  shows "scalar (x * 4096 + y * 64 + z)"
proof -
  consider "x = 0" "32 \<le> y" | "0 < x" "x < 13" | "x = 13" "y < 32" | "13 < x" using assms by linarith
  then show ?thesis unfolding scalar_def by cases (use assms(1-3) in \<open>intro conjI notI; linarith\<close>)+
qed

lemma scalar4:
  assumes "x < 5" "y < 64" "z < 64" "w < 64" "x = 0 \<longrightarrow> 16 \<le> y" "x = 4 \<longrightarrow> y < 16"
  shows "scalar (x * 262144 + y * 4096 + z * 64 + w)"
proof -
  consider "x = 0" "16 \<le> y" | "0 < x" "x < 4" | "x = 4" "y < 16" using assms by linarith
  then show ?thesis unfolding scalar_def by cases (use assms(1-4) in \<open>intro conjI notI; linarith\<close>)+
qed

lemma step_sound:
  assumes p: "p \<noteq> []" "0 \<notin> set p" and k: "utf8_step p = k" "k \<noteq> 0"
  shows "k \<le> length p \<and> (\<exists>c. scalar c \<and> take k p = utf8_encode c)"
proof -
  define B C D E where "B = unat (byte_at p 0)" and "C = unat (byte_at p 1)" and "D = unat (byte_at p 2)" and "E = unat (byte_at p 3)"
  have w: "byte_at p 0 = of_nat B" "byte_at p 1 = of_nat C" "byte_at p 2 = of_nat D" "byte_at p 3 = of_nat E"
    by (simp_all add: B_def C_def D_def E_def)
  have nz: "0 < B" using p by (cases p) (auto simp: B_def byte_at_def unat_gt_0)
  have st: "step_nat B C D E = k" using k(1) by (simp add: utf8_step_nat B_def C_def D_def E_def)
  have z: "byte_at p i \<noteq> 0" if "0 < unat (byte_at p i)" for i using that by (simp add: unat_gt_0)
  have tk: "take k p = map (byte_at p) [0..<k]" if "\<And>i. i < k \<Longrightarrow> 0 < unat (byte_at p i)" "k \<le> 4"
    using take_bytes[OF that(2)] z that(1) by blast
  have len: "k \<le> length p" if "take k p = map (byte_at p) [0..<k]" using arg_cong[OF that, of length] by simp
  have up: "map f [0..<2] = [f 0, f 1]" "map f [0..<3] = [f 0, f 1, f 2]" "map f [0..<4] = [f 0, f 1, f 2, f 3]"
    for f :: "nat \<Rightarrow> byte" by (simp_all add: upt_rec eval_nat_numeral)
  have small: "i < 2 \<Longrightarrow> i = 0 \<or> i = 1" "i < 3 \<Longrightarrow> i = 0 \<or> i = 1 \<or> i = 2" "i < 4 \<Longrightarrow> i = 0 \<or> i = 1 \<or> i = 2 \<or> i = 3"
    for i :: nat by auto
  from st k(2) show ?thesis
  proof (cases rule: step_nat_cases)
    case one
    have t: "take k p = map (byte_at p) [0..<k]" by (rule tk) (use one nz in \<open>auto simp: B_def less_Suc_eq\<close>)
    then have "take k p = utf8_encode B" using one enc1 w by simp
    moreover have "scalar B" using one nz by (simp add: scalar_def)
    ultimately show ?thesis using len[OF t] by blast
  next
    case two
    have t: "take k p = map (byte_at p) [0..<k]"
      by (rule tk) (use two nz small in \<open>fastforce simp: B_def C_def\<close>, use two in simp)
    let ?c = "(B - 192) * 64 + (C - 128)"
    have "utf8_encode ?c = [of_nat (192 + (B - 192)), of_nat (128 + (C - 128))]" by (rule enc2) (use two in auto)
    then have "take k p = utf8_encode ?c" using t two w up(1) by simp
    moreover have "scalar ?c" by (rule scalar2) (use two in auto)
    ultimately show ?thesis using len[OF t] by blast
  next
    case three
    have t: "take k p = map (byte_at p) [0..<k]"
      by (rule tk) (use three nz small in \<open>fastforce simp: B_def C_def D_def\<close>, use three in simp)
    let ?c = "(B - 224) * 4096 + (C - 128) * 64 + (D - 128)"
    have "utf8_encode ?c = [of_nat (224 + (B - 224)), of_nat (128 + (C - 128)), of_nat (128 + (D - 128))]"
      by (rule enc3) (use three in auto)
    then have "take k p = utf8_encode ?c" using t three w up(2) by (simp only: le_add_diff_inverse)
    moreover have "scalar ?c" by (rule scalar3) (use three in auto)
    ultimately show ?thesis using len[OF t] by blast
  next
    case four
    have t: "take k p = map (byte_at p) [0..<k]"
      by (rule tk) (use four nz small in \<open>fastforce simp: B_def C_def D_def E_def\<close>, use four in simp)
    let ?c = "(B - 240) * 262144 + (C - 128) * 4096 + (D - 128) * 64 + (E - 128)"
    have "utf8_encode ?c = [of_nat (240 + (B - 240)), of_nat (128 + (C - 128)), of_nat (128 + (D - 128)), of_nat (128 + (E - 128))]"
      by (rule enc4) (use four in auto)
    then have "take k p = utf8_encode ?c" using t four w up(3) by (simp only: le_add_diff_inverse)
    moreover have "scalar ?c" by (rule scalar4) (use four in auto)
    ultimately show ?thesis using len[OF t] by blast
  qed
qed

lemma utf8_text_simps [simp]: "utf8_text [] = []" "utf8_text (c # cs) = utf8_encode c @ utf8_text cs"
  "utf8_text (cs @ ds) = utf8_text cs @ utf8_text ds"
  by (simp_all add: utf8_text_def)

lemma scalar_question: "scalar 0x3F" "utf8_encode 0x3F = [0x3F]"
  by (simp_all add: scalar_def utf8_encode_def)

lemma sanitize_unfold:
  "utf8_sanitize [] = []"
  "p \<noteq> [] \<Longrightarrow> utf8_step p = 0 \<Longrightarrow> utf8_sanitize p = 0x3F # utf8_sanitize (tl p)"
  "p \<noteq> [] \<Longrightarrow> utf8_step p \<noteq> 0 \<Longrightarrow> utf8_sanitize p = take (utf8_step p) p @ utf8_sanitize (drop (utf8_step p) p)"
  by (simp_all add: utf8_sanitize.simps[of p] utf8_sanitize.simps[of "[]"] Let_def)

lemma sanitize_valid:
  assumes "0 \<notin> set p"
  shows "\<exists>cs. (\<forall>c \<in> set cs. scalar c) \<and> utf8_sanitize p = utf8_text cs \<and> length (utf8_sanitize p) = length p"
  using assms
proof (induction p rule: utf8_sanitize.induct)
  case (1 p)
  show ?case
  proof (cases "p = []")
    case True
    then show ?thesis by (intro exI[of _ "[]"]) (simp add: sanitize_unfold)
  next
    case ne: False
    show ?thesis
    proof (cases "utf8_step p = 0")
      case True
      have "0 \<notin> set (tl p)" using "1.prems" by (meson list.set_sel(2) ne)
      then obtain cs where "\<forall>c \<in> set cs. scalar c" "utf8_sanitize (tl p) = utf8_text cs" "length (utf8_sanitize (tl p)) = length (tl p)"
        using "1.IH"(1)[OF ne refl True] by blast
      then show ?thesis using True ne scalar_question
        by (intro exI[of _ "0x3F # cs"]) (simp add: sanitize_unfold)
    next
      case False
      obtain c where c: "scalar c" "take (utf8_step p) p = utf8_encode c" "utf8_step p \<le> length p"
        using step_sound[OF ne "1.prems" refl False] by blast
      have "0 \<notin> set (drop (utf8_step p) p)" using "1.prems" by (meson in_set_dropD)
      then obtain cs where "\<forall>c \<in> set cs. scalar c" "utf8_sanitize (drop (utf8_step p) p) = utf8_text cs"
        "length (utf8_sanitize (drop (utf8_step p) p)) = length (drop (utf8_step p) p)"
        using "1.IH"(2)[OF ne refl False] by blast
      moreover have "length (utf8_encode c) = utf8_step p" using arg_cong[OF c(2), of length] c(3) by simp
      ultimately show ?thesis using False ne c
        by (intro exI[of _ "c # cs"]) (simp add: sanitize_unfold)
    qed
  qed
qed

lemma sanitize_id:
  assumes "\<forall>c \<in> set cs. scalar c"
  shows "utf8_sanitize (utf8_text cs) = utf8_text cs"
  using assms
proof (induction cs)
  case (Cons c cs)
  let ?p = "utf8_encode c @ utf8_text cs"
  have st: "utf8_step ?p = length (utf8_encode c)" using step_encode Cons.prems by simp
  have "?p \<noteq> []" "utf8_step ?p \<noteq> 0" using encode_nonempty st by auto
  from sanitize_unfold(3)[OF this] show ?case using Cons st by simp
qed (simp add: sanitize_unfold)

section \<open>The cut\<close>

text \<open>The bytes of an encoding: a lead byte that announces the length, then continuation bytes.\<close>

lemma encode_shape:
  assumes "scalar c"
  obtains b bs where "utf8_encode c = b # bs" "lead_len b = Suc (length bs)" "\<not> is_cont b" "\<forall>x \<in> set bs. is_cont x" "length bs \<le> 3"
    "0 \<notin> set (utf8_encode c)"
  using assms
proof (cases rule: encode_cases)
  case one
  have u: "unat (of_nat c :: byte) = c" using one by (intro unat_small) simp
  then have "of_nat c \<noteq> (0 :: byte)" using one(1) by (metis unat_0 less_irrefl)
  then show ?thesis using that[of "of_nat c" "[]"] one u by (simp add: lead_len_ranges is_cont_iff word_le_nat_alt word_less_nat_alt)
next
  case (two x y)
  have u: "unat (of_nat (192 + x) :: byte) = 192 + x" "unat (of_nat (128 + y) :: byte) = 128 + y"
    using two by (intro unat_small, simp)+
  have z: "of_nat (192 + x) \<noteq> (0 :: byte)" "of_nat (128 + y) \<noteq> (0 :: byte)" using u by (metis unat_0 add_is_0 zero_neq_numeral)+
  show ?thesis using that[of "of_nat (192 + x)" "[of_nat (128 + y)]"] two u z
    by (simp add: lead_len_ranges is_cont_iff word_le_nat_alt word_less_nat_alt del: unat_of_nat_byte of_nat_add)
next
  case (three x y z)
  have u: "unat (of_nat (224 + x) :: byte) = 224 + x" "unat (of_nat (128 + y) :: byte) = 128 + y" "unat (of_nat (128 + z) :: byte) = 128 + z"
    using three by (intro unat_small, simp)+
  have n: "of_nat (224 + x) \<noteq> (0 :: byte)" "of_nat (128 + y) \<noteq> (0 :: byte)" "of_nat (128 + z) \<noteq> (0 :: byte)"
    using u by (metis unat_0 add_is_0 zero_neq_numeral)+
  show ?thesis using that[of "of_nat (224 + x)" "[of_nat (128 + y), of_nat (128 + z)]"] three u n
    by (simp add: lead_len_ranges is_cont_iff word_le_nat_alt word_less_nat_alt del: unat_of_nat_byte of_nat_add)
next
  case (four x y z w)
  have u: "unat (of_nat (240 + x) :: byte) = 240 + x" "unat (of_nat (128 + y) :: byte) = 128 + y" "unat (of_nat (128 + z) :: byte) = 128 + z"
    "unat (of_nat (128 + w) :: byte) = 128 + w"
    using four by (intro unat_small, simp)+
  have n: "of_nat (240 + x) \<noteq> (0 :: byte)" "of_nat (128 + y) \<noteq> (0 :: byte)" "of_nat (128 + z) \<noteq> (0 :: byte)" "of_nat (128 + w) \<noteq> (0 :: byte)"
    using u by (metis unat_0 add_is_0 zero_neq_numeral)+
  show ?thesis using that[of "of_nat (240 + x)" "[of_nat (128 + y), of_nat (128 + z), of_nat (128 + w)]"] four u n
    by (simp add: lead_len_ranges is_cont_iff word_le_nat_alt word_less_nat_alt del: unat_of_nat_byte of_nat_add)
qed

lemma count_cont_run:
  assumes "src = pre @ b # bs @ rest" "\<not> is_cont b" "\<forall>x \<in> set bs. is_cont x" "length bs \<le> 3" "m = length pre + Suc (length bs)"
    and "k \<le> length bs"
  shows "count_cont src m k = length bs"
  using assms(6)
proof (induction "length bs - k" arbitrary: k)
  case 0
  then have k: "k = length bs" by simp
  have "m - 1 - k = length pre" using assms(5) k by simp
  then have "src ! (m - 1 - k) = b" using assms(1) by (simp add: nth_append)
  then have "count_cont src m k = k" using assms(2) by (subst count_cont.simps) simp
  then show ?case using k by simp
next
  case (Suc n)
  then have lt: "k < length bs" by simp
  then obtain j where j: "length bs - k = Suc j" "j < length bs" by (cases "length bs - k") auto
  have "m - 1 - k = length pre + Suc j" using assms(5) lt j(1) by simp
  then have "src ! (m - 1 - k) = bs ! j" using j(2) by (simp only: assms(1) nth_append_length_plus nth_Cons_Suc) (simp add: nth_append)
  then have "is_cont (src ! (m - 1 - k))" using assms(3) j(2) by simp
  then have "count_cont src m k = count_cont src m (k + 1)" using lt assms(4,5) by (subst count_cont.simps) simp
  then show ?case using Suc.hyps(1)[of "k + 1"] Suc.hyps(2) lt by simp
qed

text \<open>Cutting inside or directly behind the encoding of \<open>c\<close>.\<close>

lemma cut_inside:
  assumes c: "scalar c" and src: "src = pre @ utf8_encode c @ rest" and r: "0 < r" "r \<le> length (utf8_encode c)"
    and m: "m = length pre + r"
  shows "utf8_cut src m = (if r < length (utf8_encode c) then length pre else m)"
proof -
  obtain b bs where e: "utf8_encode c = b # bs" "lead_len b = Suc (length bs)" "\<not> is_cont b" "\<forall>x \<in> set bs. is_cont x" "length bs \<le> 3"
    by (rule encode_shape[OF c])
  let ?bs = "take (r - 1) bs"
  have "count_cont src m 0 = length ?bs"
    by (rule count_cont_run[of _ pre b ?bs "drop (r - 1) bs @ rest"]) (use e src r m in \<open>auto dest: in_set_takeD\<close>)
  then have k: "count_cont src m 0 = r - 1" using r e(1) by simp
  have li: "m - 1 - (r - 1) = length pre" using m r by simp
  have at_lead: "src ! length pre = b" using src e(1) by (simp add: nth_append)
  have rm: "r - 1 < m" using m r by simp
  have "(m < length pre + lead_len b) = (r < length (utf8_encode c))" using m e(1,2) by simp
  then show ?thesis unfolding utf8_cut_def Let_def k li at_lead using rm by (simp only: if_True)
qed

text \<open>
  A cut of a well-formed text keeps exactly the characters that fit.
\<close>

lemma cut_text:
  assumes "\<forall>c \<in> set cs. scalar c" and "0 < m" and "m \<le> length (utf8_text cs)"
  obtains j where "j \<le> length cs" "utf8_cut (utf8_text cs) m = length (utf8_text (take j cs))"
    "length (utf8_text (take j cs)) \<le> m" "j < length cs \<longrightarrow> m < length (utf8_text (take (Suc j) cs))"
proof -
  let ?len = "\<lambda>j. length (utf8_text (take j cs))"
  have full: "m \<le> ?len (length cs)" using assms(3) by simp
  define j where "j = (LEAST j. m \<le> ?len j)"
  have j: "j \<le> length cs" "m \<le> ?len j" "\<And>i. i < j \<Longrightarrow> ?len i < m"
    unfolding j_def using Least_le[of "\<lambda>j. m \<le> ?len j", OF full] LeastI[of "\<lambda>j. m \<le> ?len j", OF full]
      not_less_Least[of _ "\<lambda>j. m \<le> ?len j"] by (simp_all add: not_le)
  have j0: "0 < j" using j(2) assms(2) by (cases j) auto
  then obtain i where i: "j = Suc i" by (cases j) auto
  define c where "c = cs ! i"
  have ic: "i < length cs" using j(1) i by simp
  have tk: "take j cs = take i cs @ [c]" using i ic by (simp add: take_Suc_conv_app_nth c_def)
  have sc: "scalar c" using assms(1) ic by (simp add: c_def)
  define pre where "pre = utf8_text (take i cs)"
  have split: "utf8_text cs = pre @ utf8_encode c @ utf8_text (drop j cs)"
    using arg_cong[OF append_take_drop_id[of j cs], of utf8_text] unfolding tk by (simp add: pre_def)
  define r where "r = m - length pre"
  have "length pre < m" using j(3)[of i] i by (simp add: pre_def)
  moreover have "?len j = length pre + length (utf8_encode c)" unfolding tk by (simp add: pre_def)
  ultimately have r: "0 < r" "r \<le> length (utf8_encode c)" "m = length pre + r" using j(2) by (auto simp: r_def)
  have cut: "utf8_cut (utf8_text cs) m = (if r < length (utf8_encode c) then length pre else m)"
    by (rule cut_inside[OF sc split r])
  show thesis
  proof (cases "r < length (utf8_encode c)")
    case True
    show ?thesis by (rule that[of i]) (use True cut r tk ic i in \<open>auto simp: pre_def\<close>)
  next
    case False
    then have m: "m = ?len j" using r tk by (simp add: pre_def)
    show ?thesis
    proof (rule that[of j])
      show "j < length cs \<longrightarrow> m < ?len (Suc j)" using m encode_nonempty by (simp add: take_Suc_conv_app_nth)
    qed (use False cut j m in simp_all)
  qed
qed

lemma text_no_nul: "\<forall>c \<in> set cs. scalar c \<Longrightarrow> 0 \<notin> set (utf8_text cs)"
proof (induction cs)
  case (Cons c cs)
  then have "scalar c" by simp
  then have "0 \<notin> set (utf8_encode c)" by (rule encode_shape)
  then show ?case using Cons by simp
qed simp

section \<open>Properties\<close>

text \<open>
  C17: Whatever bytes a C string holds, the sanitized string has the same length and is well-formed
  UTF-8: the concatenated encodings of Unicode scalar values, without overlong forms, surrogates
  or values above U+10FFFF.
\<close>

theorem utf8_sanitize_well_formed:
  assumes "0 \<notin> set p"
  shows "\<exists>cs. (\<forall>c \<in> set cs. scalar c) \<and> utf8_sanitize p = utf8_text cs \<and> length (utf8_sanitize p) = length p"
  by (rule sanitize_valid[OF assms])

theorem utf8_sanitize_well_formed_witness:
  "\<exists>cs. (\<forall>c \<in> set cs. scalar c) \<and> utf8_sanitize [0xC0, 0x80, 0x41] = utf8_text cs"
  using utf8_sanitize_well_formed[of "[0xC0, 0x80, 0x41]"] by auto

text \<open>A well-formed string is left as it is.\<close>

theorem utf8_sanitize_keeps_well_formed:
  assumes "\<forall>c \<in> set cs. scalar c"
  shows "utf8_sanitize (utf8_text cs) = utf8_text cs"
  by (rule sanitize_id[OF assms])

theorem utf8_sanitize_keeps_well_formed_witness:
  "utf8_sanitize (utf8_text [0x41, 0x20AC, 0x1F600]) = utf8_text [0x41, 0x20AC, 0x1F600]"
  by (rule utf8_sanitize_keeps_well_formed) (simp add: scalar_def)

text \<open>
  C18: Copying a well-formed string into a buffer keeps the longest prefix of whole characters that
  fits in front of the terminator: no character is split, none that fits is dropped, and the
  returned value is the length of the copy.
\<close>

theorem utf8_truncate_keeps_characters:
  assumes cs: "\<forall>c \<in> set cs. scalar c" and d: "0 < dst_size"
  shows "\<exists>j \<le> length cs. utf8_truncate_safe (Some (utf8_text cs)) dst_size =
       (length (utf8_text (take j cs)), Some (utf8_text (take j cs))) \<and>
     length (utf8_text (take j cs)) < dst_size \<and>
     (j < length cs \<longrightarrow> dst_size \<le> length (utf8_text (take (Suc j) cs)))"
proof -
  let ?s = "utf8_text cs"
  define n where "n = min (length ?s) dst_size"
  define m where "m = (if n < dst_size - 1 then n else dst_size - 1)"
  have mm: "m = min (length ?s) (dst_size - 1)" using d by (auto simp: m_def n_def)
  have run: "utf8_truncate_safe (Some ?s) dst_size = (if n = 0 \<or> m = 0 then (0, Some [])
      else (utf8_cut ?s m, Some (utf8_sanitize (takeWhile (\<lambda>b. b \<noteq> 0) (take (utf8_cut ?s m) ?s)))))"
    using d by (simp add: utf8_truncate_safe_def utf8_truncate_safe_bounded_def n_def[symmetric] Let_def m_def)
  show ?thesis
  proof (cases "m = 0")
    case True
    have "cs \<noteq> [] \<Longrightarrow> dst_size \<le> length (utf8_text (take 1 cs))"
    proof -
      assume "cs \<noteq> []"
      then obtain c r where c: "cs = c # r" by (cases cs) auto
      have l: "0 < length (utf8_encode c)" using encode_nonempty by simp
      then have "dst_size \<le> 1" using True mm d unfolding c by (simp add: min_def split: if_splits)
      then have "dst_size \<le> length (utf8_encode c)" using l by linarith
      then show ?thesis by (simp add: c)
    qed
    then show ?thesis using True run d by (intro exI[of _ 0]) (cases cs; simp)
  next
    case False
    then have m: "0 < m" "m \<le> length ?s" and n: "n \<noteq> 0" using mm by (auto simp: n_def)
    obtain j where j: "j \<le> length cs" "utf8_cut ?s m = length (utf8_text (take j cs))" "length (utf8_text (take j cs)) \<le> m"
        "j < length cs \<longrightarrow> m < length (utf8_text (take (Suc j) cs))"
      by (rule cut_text[OF cs m])
    have pre: "take (utf8_cut ?s m) ?s = utf8_text (take j cs)"
    proof -
      have "?s = utf8_text (take j cs) @ utf8_text (drop j cs)" by (metis append_take_drop_id utf8_text_simps(3))
      then show ?thesis using j(2) by (metis append_eq_conv_conj)
    qed
    have sj: "\<forall>c \<in> set (take j cs). scalar c" using cs by (meson in_set_takeD)
    have tw: "takeWhile (\<lambda>b. b \<noteq> 0) (utf8_text (take j cs)) = utf8_text (take j cs)"
      using text_no_nul[OF sj] by (simp add: takeWhile_eq_all_conv) metis
    have "j < length cs \<longrightarrow> dst_size \<le> length (utf8_text (take (Suc j) cs))"
    proof
      assume l: "j < length cs"
      have "length (utf8_text (take (Suc j) cs)) \<le> length ?s"
        by (metis append_take_drop_id le_add1 length_append utf8_text_simps(3))
      then show "dst_size \<le> length (utf8_text (take (Suc j) cs))" using mp[OF j(4) l] mm by (auto simp: min_def split: if_splits)
    qed
    moreover have "utf8_truncate_safe (Some ?s) dst_size = (length (utf8_text (take j cs)), Some (utf8_text (take j cs)))"
      unfolding run pre tw sanitize_id[OF sj] using False n j(2) by simp
    moreover have "length (utf8_text (take j cs)) < dst_size" using j(3) mm d by linarith
    ultimately show ?thesis using j(1) by blast
  qed
qed

theorem utf8_truncate_keeps_characters_witness:
  "\<exists>j \<le> 2. utf8_truncate_safe (Some (utf8_text [0x41, 0x20AC])) 3 =
       (length (utf8_text (take j [0x41, 0x20AC])), Some (utf8_text (take j [0x41, 0x20AC])))"
proof -
  have "\<forall>c \<in> set [0x41, 0x20AC :: nat]. scalar c" by (simp add: scalar_def)
  from utf8_truncate_keeps_characters[OF this, of 3]
  obtain j where "j \<le> length [0x41, 0x20AC :: nat]" "utf8_truncate_safe (Some (utf8_text [0x41, 0x20AC])) 3 =
       (length (utf8_text (take j [0x41, 0x20AC])), Some (utf8_text (take j [0x41, 0x20AC])))" by fastforce
  then show ?thesis by (intro exI[of _ j]) simp
qed

end
