(* ===== verification/Ogg_Demux.thy ===== *)
theory Ogg_Demux
  imports Bytes Audio_Helpers
begin

text \<open>
  The Ogg demuxer for Opus files (\<^verbatim>\<open>src/src/audio/ogg_demux.c\<close>): loading checked pages, handing out
  lacing segments, assembling packets, the header packets, the seek index and the seek.

  The file is the list of its bytes.  An access outside a buffer and a loop that does not end are
  the value \<open>None\<close> of the outer option; a buffer of fixed size is a function from indices, read and
  written through \<open>buf_get\<close> and \<open>buf_put\<close>, which check its size.  What an uninitialised buffer holds
  and which allocations succeed is part of the environment.  File offsets are natural numbers: a
  file is smaller than the range of \<^verbatim>\<open>long\<close>.
\<close>

unbundle bit_operations_syntax

section \<open>The environment and buffers\<close>

text \<open>\<open>env_grant k n\<close> says whether the \<open>k\<close>-th allocation, of \<open>n\<close> bytes, succeeds.\<close>

record ogg_env =
  env_file :: "byte list"
  env_grant :: "nat \<Rightarrow> nat \<Rightarrow> bool"
  env_junk :: "nat \<Rightarrow> byte"

definition buf_get :: "nat \<Rightarrow> (nat \<Rightarrow> byte) \<Rightarrow> nat \<Rightarrow> nat \<Rightarrow> byte list option" where
  "buf_get cap buf off n = (if off + n \<le> cap then Some (map buf [off..<off + n]) else None)"

definition buf_put :: "nat \<Rightarrow> (nat \<Rightarrow> byte) \<Rightarrow> nat \<Rightarrow> byte list \<Rightarrow> (nat \<Rightarrow> byte) option" where
  "buf_put cap buf off xs =
     (if off + length xs \<le> cap
      then Some (\<lambda>i. if off \<le> i \<and> i < off + length xs then xs ! (i - off) else buf i) else None)"

section \<open>Data\<close>

definition OGG_MAX_PAGE_SEGMENTS :: nat where "OGG_MAX_PAGE_SEGMENTS = 255"
definition OGG_MAX_PAGE_SIZE :: nat where
  "OGG_MAX_PAGE_SIZE = 27 + OGG_MAX_PAGE_SEGMENTS + OGG_MAX_PAGE_SEGMENTS * 255"
definition OGG_MAX_HEADER_PACKET_SIZE :: nat where "OGG_MAX_HEADER_PACKET_SIZE = 8 * 1024 * 1024"

datatype ogg_codec_t = OGG_CODEC_UNKNOWN | OGG_CODEC_OPUS | OGG_CODEC_VORBIS

text \<open>
  \<open>comments\<close> are the stored comments with their lengths, \<open>page_index\<close> the entries of the seek index
  (offset and granule), \<open>allocs\<close> counts the allocations made so far.
\<close>

record ogg_demux =
  serial_number :: u32
  channels :: byte
  pre_skip :: u16
  comments :: "byte list list"
  page_index :: "(nat \<times> u64) list"
  total_granule :: u64
  crc_table :: "u32 list"
  page_buf :: "nat \<Rightarrow> byte"
  current_page_offset :: nat
  segment_table :: "nat \<Rightarrow> byte"
  segment_count :: nat
  segment_index :: nat
  payload_cursor :: nat
  header_type :: byte
  next_page_offset :: nat
  allocs :: nat

definition ask :: "ogg_env \<Rightarrow> nat \<Rightarrow> ogg_demux \<Rightarrow> bool \<times> ogg_demux" where
  "ask e n d = (env_grant e (allocs d) n, d\<lparr>allocs := Suc (allocs d)\<rparr>)"

definition capture_pattern :: "byte list" where "capture_pattern = [0x4F, 0x67, 0x67, 0x53]"
definition opus_head_magic :: "byte list" where "opus_head_magic = [0x4F, 0x70, 0x75, 0x73, 0x48, 0x65, 0x61, 0x64]"
definition opus_tags_magic :: "byte list" where "opus_tags_magic = [0x4F, 0x70, 0x75, 0x73, 0x54, 0x61, 0x67, 0x73]"
definition vorbis_magic :: "byte list" where "vorbis_magic = [0x76, 0x6F, 0x72, 0x62, 0x69, 0x73]"

section \<open>Probing\<close>

text \<open>\<open>None\<close> is a file that cannot be opened.\<close>

definition ogg_detect_codec :: "byte list option \<Rightarrow> ogg_codec_t" where
  "ogg_detect_codec file = (case file of None \<Rightarrow> OGG_CODEC_UNKNOWN | Some f \<Rightarrow>
     (case fread 27 f of None \<Rightarrow> OGG_CODEC_UNKNOWN
      | Some (header, rest) \<Rightarrow>
          if take 4 header \<noteq> capture_pattern \<or> header ! 4 \<noteq> 0 \<or> header ! 5 AND 0x02 = 0 then OGG_CODEC_UNKNOWN
          else let segment_count = unat (header ! 26) in
            if segment_count = 0 then OGG_CODEC_UNKNOWN
            else case rest of [] \<Rightarrow> OGG_CODEC_UNKNOWN
              | first_lacing # rest \<Rightarrow>
                  let rest = (if 1 < segment_count then drop (segment_count - 1) rest else rest) in
                  if unat first_lacing < 8 then OGG_CODEC_UNKNOWN
                  else case fread 8 rest of None \<Rightarrow> OGG_CODEC_UNKNOWN
                    | Some (signature, _) \<Rightarrow>
                        if signature = opus_head_magic then OGG_CODEC_OPUS
                        else if signature ! 0 = 1 \<and> take 6 (drop 1 signature) = vorbis_magic then OGG_CODEC_VORBIS
                        else OGG_CODEC_UNKNOWN))"

section \<open>The checksum\<close>

definition crc_shift :: "u32 \<Rightarrow> u32" where
  "crc_shift r = (if r AND 0x80000000 \<noteq> 0 then push_bit 1 r XOR 0x04C11DB7 else push_bit 1 r)"

definition ogg_crc_init_table :: "u32 list" where
  "ogg_crc_init_table = map (\<lambda>i. (crc_shift ^^ 8) (push_bit 24 (of_nat i))) [0..<256]"

definition ogg_crc32 :: "u32 list \<Rightarrow> byte list \<Rightarrow> u32" where
  "ogg_crc32 table bytes =
     fold (\<lambda>b crc. push_bit 8 crc XOR table ! unat ((drop_bit 24 crc AND 0xFF) XOR ucast b)) bytes 0"

section \<open>Pages and segments\<close>

text \<open>The result is the return value and the demuxer; a failed load may have overwritten the page buffer.\<close>

definition load_page_at :: "ogg_env \<Rightarrow> nat \<Rightarrow> ogg_demux \<Rightarrow> (bool \<times> ogg_demux) option" where
  "load_page_at e offset d = (case fread 27 (drop offset (env_file e)) of None \<Rightarrow> Some (False, d)
     | Some (hdr, rest) \<Rightarrow>
         if take 4 hdr \<noteq> capture_pattern \<or> hdr ! 4 \<noteq> 0 then Some (False, d)
         else let page_segments = unat (hdr ! 26) in
           (case fread page_segments rest of None \<Rightarrow> Some (False, d)
            | Some (seg_table, rest) \<Rightarrow>
                let payload_size = sum_list (map unat seg_table); sz = 27 + page_segments + payload_size in
                if OGG_MAX_PAGE_SIZE < sz then None
                else do {
                  buf \<leftarrow> buf_put OGG_MAX_PAGE_SIZE (page_buf d) 0 hdr;
                  buf \<leftarrow> buf_put OGG_MAX_PAGE_SIZE buf 27 seg_table;
                  buf \<leftarrow> buf_put OGG_MAX_PAGE_SIZE buf (27 + page_segments) (take payload_size rest);
                  if length rest < payload_size then Some (False, d\<lparr>page_buf := buf\<rparr>)
                  else do {
                    saved_crc \<leftarrow> buf_get OGG_MAX_PAGE_SIZE buf 22 4;
                    zeroed \<leftarrow> buf_put OGG_MAX_PAGE_SIZE buf 22 [0, 0, 0, 0];
                    bytes \<leftarrow> buf_get OGG_MAX_PAGE_SIZE zeroed 0 sz;
                    let computed = ogg_crc32 (crc_table d) bytes;
                    buf \<leftarrow> buf_put OGG_MAX_PAGE_SIZE zeroed 22 saved_crc;
                    if computed \<noteq> audio_read_u32le (\<lambda>i. saved_crc ! i) then Some (False, d\<lparr>page_buf := buf\<rparr>)
                    else do {
                      table \<leftarrow> buf_put OGG_MAX_PAGE_SEGMENTS (segment_table d) 0 seg_table;
                      Some (True, d\<lparr>page_buf := buf, current_page_offset := offset, segment_table := table,
                        segment_count := page_segments, segment_index := 0, payload_cursor := 0,
                        header_type := hdr ! 5, next_page_offset := offset + sz\<rparr>) } } }))"

text \<open>The segment is its length and its position in the page buffer.\<close>

definition next_segment :: "ogg_env \<Rightarrow> ogg_demux \<Rightarrow> ((nat \<times> nat) option \<times> ogg_demux) option" where
  "next_segment e d = do {
     (ok, d) \<leftarrow> (if segment_count d \<le> segment_index d then load_page_at e (next_page_offset d) d else Some (True, d));
     if \<not> ok then Some (None, d)
     else do {
       len \<leftarrow> buf_get OGG_MAX_PAGE_SEGMENTS (segment_table d) (segment_index d) 1;
       let seg_len = unat (hd len);
       Some (Some (seg_len, 27 + segment_count d + payload_cursor d),
             d\<lparr>segment_index := segment_index d + 1, payload_cursor := payload_cursor d + seg_len\<rparr>) } }"

section \<open>Packets\<close>

text \<open>The loop that doubles the capacity.\<close>

partial_function (option) grow_capacity :: "nat \<Rightarrow> nat \<Rightarrow> nat option" where
  "grow_capacity need c =
     (if c < need then (if OGG_MAX_HEADER_PACKET_SIZE div 2 \<le> c then Some OGG_MAX_HEADER_PACKET_SIZE
        else grow_capacity need (c * 2))
      else Some c)"

text \<open>
  \<open>buf\<close> holds the \<^verbatim>\<open>written\<close> bytes at the front of a buffer of size \<open>capacity\<close>.  The result is the
  packet, or \<open>None\<close> when the function returns false.
\<close>

partial_function (option) growable_loop ::
    "ogg_env \<Rightarrow> nat \<Rightarrow> byte list \<Rightarrow> ogg_demux \<Rightarrow> (byte list option \<times> ogg_demux) option" where
  "growable_loop e capacity buf d = do {
     (seg, d) \<leftarrow> next_segment e d;
     case seg of None \<Rightarrow> Some (None, d)
     | Some (seg_len, pos) \<Rightarrow>
         if OGG_MAX_HEADER_PACKET_SIZE - seg_len < length buf then Some (None, d)
         else do {
           (capacity', d) \<leftarrow> (if capacity < length buf + seg_len then do {
               new_capacity \<leftarrow> grow_capacity (length buf + seg_len) capacity;
               let (ok, d) = ask e new_capacity d;
               Some (if ok then Some new_capacity else None, d) }
             else Some (Some capacity, d));
           case capacity' of None \<Rightarrow> Some (None, d)
           | Some capacity \<Rightarrow> do {
               bytes \<leftarrow> buf_get OGG_MAX_PAGE_SIZE (page_buf d) pos seg_len;
               if capacity < length buf + seg_len then None
               else if seg_len < 255 then Some (Some (buf @ bytes), d)
               else growable_loop e capacity (buf @ bytes) d } } }"

definition read_packet_growable :: "ogg_env \<Rightarrow> ogg_demux \<Rightarrow> (byte list option \<times> ogg_demux) option" where
  "read_packet_growable e d = (let (ok, d) = ask e 4096 d in
     if \<not> ok then Some (None, d) else growable_loop e 4096 [] d)"

text \<open>\<open>out\<close> are the bytes written to the caller's buffer of \<open>buf_size\<close> bytes.\<close>

partial_function (option) read_packet_loop ::
    "ogg_env \<Rightarrow> nat \<Rightarrow> byte list \<Rightarrow> ogg_demux \<Rightarrow> (nat \<times> byte list \<times> ogg_demux) option" where
  "read_packet_loop e buf_size out d = do {
     (seg, d) \<leftarrow> next_segment e d;
     case seg of None \<Rightarrow> Some (0, out, d)
     | Some (seg_len, pos) \<Rightarrow>
         if 0 < seg_len \<and> buf_size < length out + seg_len then Some (0, out, d)
         else do {
           bytes \<leftarrow> buf_get OGG_MAX_PAGE_SIZE (page_buf d) pos seg_len;
           if seg_len < 255 then Some (length out + seg_len, out @ bytes, d)
           else read_packet_loop e buf_size (out @ bytes) d } }"

definition ogg_demux_read_packet :: "ogg_env \<Rightarrow> nat \<Rightarrow> ogg_demux \<Rightarrow> (nat \<times> byte list \<times> ogg_demux) option" where
  "ogg_demux_read_packet e buf_size d = read_packet_loop e buf_size [] d"

section \<open>Header packets\<close>

text \<open>The result is the return value; the fields are set even when the packet is refused later.\<close>

definition parse_opus_head :: "byte list \<Rightarrow> ogg_demux \<Rightarrow> bool \<times> ogg_demux" where
  "parse_opus_head bytes d =
     (if length bytes < 19 \<or> take 8 bytes \<noteq> opus_head_magic then (False, d)
      else if bytes ! 8 AND 0xF0 \<noteq> 0 then (False, d)
      else let d = d\<lparr>channels := bytes ! 9, pre_skip := audio_read_u16le (\<lambda>i. bytes ! (10 + i))\<rparr> in
        if bytes ! 18 \<noteq> 0 then (False, d)
        else if channels d = 0 \<or> 2 < channels d then (False, d)
        else (True, d))"

definition byte_lower :: "byte \<Rightarrow> byte" where
  "byte_lower b = (if 0x41 \<le> b \<and> b \<le> 0x5A then b + 0x20 else b)"

text \<open>\<^verbatim>\<open>strncasecmp(bytes + off, key, strlen(key)) == 0\<close>, which reads up to the first difference.\<close>

fun starts_nocase :: "byte list \<Rightarrow> nat \<Rightarrow> byte list \<Rightarrow> bool option" where
  "starts_nocase bytes off [] = Some True"
| "starts_nocase bytes off (c # cs) =
     (if off < length bytes
      then (if byte_lower (bytes ! off) = byte_lower c then starts_nocase bytes (off + 1) cs else Some False)
      else None)"

definition comment_keys :: "byte list list" where
  "comment_keys = map (map char_byte) [''METADATA_BLOCK_PICTURE='', ''LYRICS='', ''UNSYNCEDLYRICS='']"

fun any_key :: "byte list \<Rightarrow> nat \<Rightarrow> u32 \<Rightarrow> byte list list \<Rightarrow> bool option" where
  "any_key bytes off len [] = Some False"
| "any_key bytes off len (k # ks) = do {
     hit \<leftarrow> (if length k \<le> unat len then starts_nocase bytes off k else Some False);
     if hit then Some True else any_key bytes off len ks }"

definition comment_is_large_scan_value :: "byte list \<Rightarrow> nat \<Rightarrow> u32 \<Rightarrow> bool option" where
  "comment_is_large_scan_value bytes off len = any_key bytes off len comment_keys"

definition read_u32_at :: "byte list \<Rightarrow> u32 \<Rightarrow> u32 option" where
  "read_u32_at bytes pos =
     (if unat pos + 4 \<le> length bytes then Some (audio_read_u32le (\<lambda>i. bytes ! (unat pos + i))) else None)"

text \<open>
  The loop over the comments.  Positions and lengths are 32-bit values, as \<^verbatim>\<open>size_t\<close> is on the
  device: the sum that is compared with the size of the packet and the size of the copy wrap around.
\<close>

fun tags_loop :: "ogg_env \<Rightarrow> bool \<Rightarrow> byte list \<Rightarrow> nat \<Rightarrow> u32 \<Rightarrow> byte list list \<Rightarrow> ogg_demux
    \<Rightarrow> (byte list list \<times> ogg_demux) option" where
  "tags_loop e skip_large_values bytes 0 pos stored d = Some (stored, d)"
| "tags_loop e skip_large_values bytes (Suc n) pos stored d =
     (if of_nat (length bytes) < pos + 4 then Some (stored, d)
      else do {
        clen \<leftarrow> read_u32_at bytes pos;
        let pos = pos + 4;
        if of_nat (length bytes) < pos + clen then Some (stored, d)
        else do {
          large \<leftarrow> (if skip_large_values then comment_is_large_scan_value bytes (unat pos) clen else Some False);
          if large then tags_loop e skip_large_values bytes n (pos + clen) stored d
          else let (ok, d) = ask e (unat (clen + 1)) d in
            if \<not> ok then tags_loop e skip_large_values bytes n (pos + clen) stored d
            else if unat clen < unat (clen + 1) \<and> unat pos + unat clen \<le> length bytes
            then tags_loop e skip_large_values bytes n (pos + clen) (stored @ [take (unat clen) (drop (unat pos) bytes)]) d
            else None } })"

definition parse_opus_tags :: "ogg_env \<Rightarrow> bool \<Rightarrow> byte list \<Rightarrow> ogg_demux \<Rightarrow> ogg_demux option" where
  "parse_opus_tags e skip_large_values bytes d =
     (let size = of_nat (length bytes) :: u32 in
      if length bytes < 8 \<or> take 8 bytes \<noteq> opus_tags_magic then Some d
      else let pos = 8 in
        if size < pos + 4 then Some d
        else do {
          vendor_len \<leftarrow> read_u32_at bytes pos;
          let pos = pos + 4;
          if size < pos + vendor_len then Some d
          else let pos = pos + vendor_len in
            if size < pos + 4 then Some d
            else do {
              comment_count \<leftarrow> read_u32_at bytes pos;
              let pos = pos + 4;
              let max_possible = unat (size - pos) div 4;
              let comment_count = (if max_possible < unat comment_count then max_possible else unat comment_count);
              if comment_count = 0 then Some d
              else let (ok1, d) = ask e (comment_count * 4) d; (ok2, d) = ask e (comment_count * 4) d in
                if \<not> ok1 \<or> \<not> ok2 then Some d
                else do {
                  (stored, d) \<leftarrow> tags_loop e skip_large_values bytes comment_count pos [] d;
                  Some (d\<lparr>comments := stored\<rparr>) } } })"

definition ogg_demux_get_comment_count :: "ogg_demux \<Rightarrow> nat" where
  "ogg_demux_get_comment_count d = length (comments d)"

definition ogg_demux_get_comment :: "ogg_demux \<Rightarrow> nat \<Rightarrow> (nat \<times> byte list) option" where
  "ogg_demux_get_comment d i =
     (if length (comments d) \<le> i then None else Some (length (comments d ! i), comments d ! i))"

section \<open>The seek index\<close>

partial_function (option) index_loop :: "ogg_env \<Rightarrow> nat \<Rightarrow> nat \<Rightarrow> ogg_demux \<Rightarrow> ogg_demux option" where
  "index_loop e capacity offset d = (case fread 27 (drop offset (env_file e)) of None \<Rightarrow> Some d
     | Some (hdr, rest) \<Rightarrow>
         if take 4 hdr \<noteq> capture_pattern \<or> hdr ! 4 \<noteq> 0 then Some d
         else let granule = audio_read_u64le (\<lambda>i. hdr ! (6 + i)); page_segments = unat (hdr ! 26) in
           (case fread page_segments rest of None \<Rightarrow> Some d
            | Some (seg_table, _) \<Rightarrow>
                let payload_size = sum_list (map unat seg_table);
                    d = d\<lparr>total_granule := granule\<rparr>;
                    nxt = offset + (27 + page_segments + payload_size) in
                if hdr ! 5 AND 0x01 = 0 then
                  let (grown, d) = (if length (page_index d) = capacity
                        then (let (ok, d) = ask e (16 * (capacity * 2)) d in (if ok then Some (capacity * 2) else None, d))
                        else (Some capacity, d)) in
                  (case grown of None \<Rightarrow> Some d
                   | Some capacity \<Rightarrow>
                       if capacity \<le> length (page_index d) then None
                       else let d = d\<lparr>page_index := page_index d @ [(offset, granule)]\<rparr> in
                         if nxt \<le> offset then Some d else index_loop e capacity nxt d)
                else if nxt \<le> offset then Some d else index_loop e capacity nxt d))"

definition build_page_index :: "ogg_env \<Rightarrow> ogg_demux \<Rightarrow> (bool \<times> ogg_demux) option" where
  "build_page_index e d = (let (ok, d) = ask e (16 * 64) d in
     if \<not> ok then Some (False, d)
     else do {
       d \<leftarrow> index_loop e 64 0 (d\<lparr>page_index := []\<rparr>);
       Some (0 < length (page_index d), d) })"

section \<open>Opening\<close>

definition fresh_demux :: "ogg_env \<Rightarrow> ogg_demux" where
  "fresh_demux e = \<lparr>serial_number = 0, channels = 0, pre_skip = 0, comments = [], page_index = [], total_granule = 0,
     crc_table = ogg_crc_init_table, page_buf = env_junk e, current_page_offset = 0, segment_table = (\<lambda>_. 0),
     segment_count = 0, segment_index = 0, payload_cursor = 0, header_type = 0, next_page_offset = 0, allocs = 0\<rparr>"

text \<open>The inner option is the returned pointer; \<open>None\<close> after the demuxer has been closed again.\<close>

definition ogg_demux_open_internal :: "ogg_env \<Rightarrow> bool \<Rightarrow> bool \<Rightarrow> ogg_demux option option" where
  "ogg_demux_open_internal e build_index skip_large_values =
     (let (ok1, d) = ask e 1 (fresh_demux e); (ok2, d) = ask e OGG_MAX_PAGE_SIZE d in
      if \<not> ok1 \<or> \<not> ok2 then Some None
      else do {
        (ok, d) \<leftarrow> load_page_at e 0 d;
        if \<not> ok \<or> header_type d AND 0x02 = 0 then Some None
        else do {
          serial \<leftarrow> buf_get OGG_MAX_PAGE_SIZE (page_buf d) 14 4;
          let d = d\<lparr>serial_number := audio_read_u32le (\<lambda>i. serial ! i)\<rparr>;
          (head_packet, d) \<leftarrow> read_packet_growable e d;
          case head_packet of None \<Rightarrow> Some None
          | Some head_packet \<Rightarrow>
              let (head_ok, d) = parse_opus_head head_packet d in
              if \<not> head_ok then Some None
              else do {
                (tags_packet, d) \<leftarrow> read_packet_growable e d;
                case tags_packet of None \<Rightarrow> Some None
                | Some tags_packet \<Rightarrow> do {
                    d \<leftarrow> parse_opus_tags e skip_large_values tags_packet d;
                    if \<not> build_index then Some (Some d)
                    else do {
                      let first_audio_page_offset = current_page_offset d;
                      let first_audio_segment_index = segment_index d;
                      let first_audio_payload_cursor = payload_cursor d;
                      (ok, d) \<leftarrow> build_page_index e d;
                      if \<not> ok then Some None
                      else do {
                        (ok, d) \<leftarrow> load_page_at e first_audio_page_offset d;
                        if \<not> ok then Some None
                        else Some (Some (d\<lparr>segment_index := first_audio_segment_index,
                                           payload_cursor := first_audio_payload_cursor\<rparr>)) } } } } } })"

definition ogg_demux_open :: "ogg_env \<Rightarrow> ogg_demux option option" where
  "ogg_demux_open e = ogg_demux_open_internal e True False"

definition ogg_demux_open_metadata :: "ogg_env \<Rightarrow> bool \<Rightarrow> ogg_demux option option" where
  "ogg_demux_open_metadata e skip_large_values = ogg_demux_open_internal e False skip_large_values"

section \<open>Seeking\<close>

partial_function (option) seek_loop :: "(nat \<times> u64) list \<Rightarrow> u64 \<Rightarrow> nat \<Rightarrow> nat \<Rightarrow> nat \<Rightarrow> nat option" where
  "seek_loop idx target lo hi result =
     (if lo \<le> hi then
        (let mid = lo + (hi - lo) div 2 in
         if length idx \<le> mid then None
         else if snd (idx ! mid) \<le> target then
           (if mid = length idx - 1 then Some mid else seek_loop idx target (mid + 1) hi mid)
         else (if mid = 0 then Some result else seek_loop idx target lo (mid - 1) result))
      else Some result)"

definition ogg_demux_seek_near_granule :: "u64 \<Rightarrow> ogg_demux \<Rightarrow> (u64 \<times> ogg_demux) option" where
  "ogg_demux_seek_near_granule target_granule d =
     (if length (page_index d) = 0 then Some (0, d)
      else do {
        result \<leftarrow> seek_loop (page_index d) target_granule 0 (length (page_index d) - 1) 0;
        if length (page_index d) \<le> result then None
        else let (offset, granule) = page_index d ! result in
          Some (granule, d\<lparr>next_page_offset := offset, segment_index := 0, segment_count := 0, payload_cursor := 0\<rparr>) })"

end
