(* ===== verification/Audio_Bytes.thy ===== *)
theory Audio_Bytes
  imports Bytes Audio_Helpers
begin

text \<open>
  The byte readers of \<^verbatim>\<open>audio_helpers.h\<close> compute the numbers the bytes stand for.
\<close>

unbundle bit_operations_syntax

lemma push_or_add:
  assumes m: "m < 2 ^ k"
  shows "push_bit k n OR m = n * 2 ^ k + (m :: nat)"
proof -
  have "push_bit k n AND m = 0"
  proof (rule bit_eqI)
    fix i
    have "\<not> bit m i" if "k \<le> i"
      using m that by (metis bit_take_bit_iff not_le take_bit_nat_eq_self)
    then show "bit (push_bit k n AND m) i = bit (0 :: nat) i" by (auto simp: bit_simps)
  qed
  then show ?thesis by (simp add: disjunctive_add_eq_or[symmetric] push_bit_eq_mult)
qed

lemma unat_push_or:
  fixes v w :: "'a :: len word"
  assumes "unat v * 2 ^ k < 2 ^ LENGTH('a)" and "unat w < 2 ^ k"
  shows "unat (push_bit k v OR w) = unat v * 2 ^ k + unat w"
proof -
  have "unat (push_bit k v) = take_bit LENGTH('a) (push_bit k (unat v))" by (rule unsigned_push_bit_eq)
  also have "\<dots> = push_bit k (unat v)" using assms(1) by (intro take_bit_nat_eq_self) (simp add: push_bit_eq_mult)
  finally show ?thesis using push_or_add[OF assms(2), of "unat v"] by (simp only: unsigned_or_eq)
qed

lemma unat_ucast_byte: "8 \<le> LENGTH('a) \<Longrightarrow> unat (ucast (b :: byte) :: 'a :: len word) = unat b"
proof -
  assume a: "8 \<le> LENGTH('a)"
  have "(2 :: nat) ^ 8 \<le> 2 ^ LENGTH('a)" using a by (rule power_increasing) simp
  then have "unat b < 2 ^ LENGTH('a)" using unat_byte_less[of b] by simp
  then show ?thesis by (simp add: unsigned_ucast_eq take_bit_nat_eq_self)
qed

text \<open>One byte behind the bytes read so far.\<close>

lemma unat_shift_in:
  fixes v :: "'a :: len word"
  assumes "8 \<le> LENGTH('a)" and "unat v * 256 < 2 ^ LENGTH('a)"
  shows "unat (push_bit 8 v OR ucast (b :: byte)) = unat v * 256 + unat b"
  using unat_push_or[of v 8 "ucast b"] assms unat_byte_less[of b] by (simp add: unat_ucast_byte)

lemma audio_read_u16le_val: "unat (audio_read_u16le b) = le_val [b 0, b 1]"
proof -
  have e: "audio_read_u16le b = push_bit 8 (ucast (b 1)) OR ucast (b 0)" by (simp add: audio_read_u16le_def or.commute)
  show ?thesis unfolding e using unat_byte_less[of "b 1"] by (subst unat_shift_in) (simp_all add: unat_ucast_byte)
qed

lemma audio_read_u16be_val: "unat (audio_read_u16be b) = be_val [b 0, b 1]"
  unfolding audio_read_u16be_def be_val_def using unat_byte_less[of "b 0"]
  by (subst unat_shift_in) (simp_all add: unat_ucast_byte)

lemma unat_bytes32:
  "unat (push_bit 8 (push_bit 8 (push_bit 8 (ucast a) OR ucast b) OR ucast c) OR ucast d :: u32) = le_val [d, c, b, a :: byte]"
proof -
  define v1 where "v1 = (push_bit 8 (ucast a) OR ucast b :: u32)"
  define v2 where "v2 = push_bit 8 v1 OR ucast c"
  have 1: "unat v1 = unat a * 256 + unat b"
    unfolding v1_def using unat_byte_less[of a] by (subst unat_shift_in) (simp_all add: unat_ucast_byte)
  have 2: "unat v2 = unat v1 * 256 + unat c"
    unfolding v2_def using unat_byte_less[of a] unat_byte_less[of b] 1 by (intro unat_shift_in) simp_all
  have "unat (push_bit 8 v2 OR ucast d) = unat v2 * 256 + unat d"
    using unat_byte_less[of a] unat_byte_less[of b] unat_byte_less[of c] 1 2 by (intro unat_shift_in) simp_all
  then show ?thesis unfolding v1_def[symmetric] v2_def[symmetric] using 1 2 by simp
qed

lemma audio_read_u32le_val: "unat (audio_read_u32le b) = le_val [b 0, b 1, b 2, b 3]"
proof -
  have "audio_read_u32le b = push_bit 8 (push_bit 8 (push_bit 8 (ucast (b 3)) OR ucast (b 2)) OR ucast (b 1)) OR ucast (b 0)"
    unfolding audio_read_u32le_def by (rule bit_word_eqI) (auto simp: bit_simps)
  then show ?thesis by (simp only: unat_bytes32)
qed

lemma audio_read_u32be_val: "unat (audio_read_u32be b) = be_val [b 0, b 1, b 2, b 3]"
proof -
  have "audio_read_u32be b = push_bit 8 (push_bit 8 (push_bit 8 (ucast (b 0)) OR ucast (b 1)) OR ucast (b 2)) OR ucast (b 3)"
    unfolding audio_read_u32be_def by (rule bit_word_eqI) (auto simp: bit_simps)
  then show ?thesis by (simp only: unat_bytes32 be_val_def) simp
qed

text \<open>The loops of the 64-bit readers.\<close>

lemma fold_shift_in:
  fixes v :: u64
  assumes "unat v < 256 ^ k" and "k + length is \<le> 8"
  shows "unat (fold (\<lambda>i v. push_bit 8 v OR ucast (b i)) is v) = le_val (rev (map b is)) + unat v * 256 ^ length is"
  using assms
proof (induction "is" arbitrary: v k)
  case (Cons i "is")
  have "(256 :: nat) ^ k \<le> 256 ^ 7" using Cons.prems(2) by (intro power_increasing) simp_all
  then have v: "unat v * 256 < 2 ^ LENGTH(64)" using Cons.prems(1) by simp
  then have s: "unat (push_bit 8 v OR ucast (b i)) = unat v * 256 + unat (b i)" by (intro unat_shift_in) simp_all
  have "unat v * 256 + unat (b i) < (unat v + 1) * 256" using unat_byte_less[of "b i"] by simp
  also have "\<dots> \<le> 256 ^ k * 256" using Cons.prems(1) by (intro mult_le_mono1) simp
  finally have "unat (push_bit 8 v OR ucast (b i)) < 256 ^ Suc k" unfolding s by (simp add: mult.commute)
  then have "unat (fold (\<lambda>i v. push_bit 8 v OR ucast (b i)) is (push_bit 8 v OR ucast (b i))) =
      le_val (rev (map b is)) + (unat v * 256 + unat (b i)) * 256 ^ length is"
    using Cons.IH[of "push_bit 8 v OR ucast (b i)" "Suc k"] Cons.prems(2) s by simp
  moreover have "le_val (xs @ [x]) = le_val xs + unat x * 256 ^ length xs" for xs x by (induction xs) (simp_all add: algebra_simps)
  ultimately show ?case by (simp add: algebra_simps)
qed simp

lemma audio_read_u64le_val: "unat (audio_read_u64le b) = le_val (map b [0, 1, 2, 3, 4, 5, 6, 7])"
  using fold_shift_in[of 0 0 "[7, 6, 5, 4, 3, 2, 1, 0]" b] by (simp add: audio_read_u64le_def)

lemma audio_read_u64be_val: "unat (audio_read_u64be b) = be_val (map b [0, 1, 2, 3, 4, 5, 6, 7])"
  using fold_shift_in[of 0 0 "[0, 1, 2, 3, 4, 5, 6, 7]" b] by (simp add: audio_read_u64be_def be_val_def)

lemmas audio_read_vals = audio_read_u16le_val audio_read_u16be_val audio_read_u32le_val audio_read_u32be_val
  audio_read_u64le_val audio_read_u64be_val

lemma unat_add_small: "unat (a :: u32) + unat b < 4294967296 \<Longrightarrow> unat (a + b) = unat a + unat b"
  by (simp add: unat_word_ariths)

end
