(* ===== verification/Ogg_Demux_Inv.thy ===== *)
theory Ogg_Demux_Inv
  imports Ogg_Demux Audio_Bytes
begin

text \<open>
  The demuxer stays inside its buffers and its loops end, whatever bytes the file holds; the seek
  index only points at page headers with a clear continuation bit.
\<close>

unbundle bit_operations_syntax

section \<open>The invariant of the page cursor\<close>

definition segments_left :: "ogg_demux \<Rightarrow> nat" where
  "segments_left d = sum_list (map (\<lambda>i. unat (segment_table d i)) [segment_index d..<segment_count d])"

definition cursor_ok :: "ogg_demux \<Rightarrow> bool" where
  "cursor_ok d \<longleftrightarrow> (segment_index d < segment_count d \<longrightarrow> segment_count d \<le> 255 \<and>
     27 + segment_count d + payload_cursor d + segments_left d \<le> OGG_MAX_PAGE_SIZE)"

text \<open>What the loops over segments use up: bytes of the file, then segments of the page.\<close>

definition budget :: "ogg_env \<Rightarrow> ogg_demux \<Rightarrow> nat" where
  "budget e d = (length (env_file e) - next_page_offset d) * 256 + (segment_count d - segment_index d)"

text \<open>What loading pages and reading segments leaves alone.\<close>

definition same_stream :: "ogg_demux \<Rightarrow> ogg_demux \<Rightarrow> bool" where
  "same_stream d d' \<longleftrightarrow> page_index d' = page_index d \<and> comments d' = comments d \<and> channels d' = channels d \<and>
     pre_skip d' = pre_skip d \<and> crc_table d' = crc_table d \<and> total_granule d' = total_granule d \<and> serial_number d' = serial_number d"

lemma same_stream_refl [simp]: "same_stream d d"
  by (simp add: same_stream_def)

lemma same_stream_trans: "same_stream d d' \<Longrightarrow> same_stream d' d'' \<Longrightarrow> same_stream d d''"
  by (simp add: same_stream_def)

lemma same_stream_allocs [simp]: "same_stream d (d'\<lparr>allocs := n\<rparr>) = same_stream d d'" "same_stream (d\<lparr>allocs := n\<rparr>) d' = same_stream d d'"
  by (simp_all add: same_stream_def)

lemma OGG_MAX_PAGE_SIZE_val: "OGG_MAX_PAGE_SIZE = 65307"
  by (simp add: OGG_MAX_PAGE_SIZE_def OGG_MAX_PAGE_SEGMENTS_def)

lemma lacing_sum_bound: "sum_list (map unat (xs :: byte list)) \<le> 255 * length xs"
proof (induction xs)
  case (Cons b xs)
  then show ?case using unat_byte_less[of b] by simp
qed simp

lemma page_size_fits: "length (xs :: byte list) \<le> 255 \<Longrightarrow> 27 + length xs + sum_list (map unat xs) \<le> OGG_MAX_PAGE_SIZE"
  using lacing_sum_bound[of xs] by (simp add: OGG_MAX_PAGE_SIZE_val)

section \<open>Buffers\<close>

definition overlay :: "(nat \<Rightarrow> byte) \<Rightarrow> nat \<Rightarrow> byte list \<Rightarrow> nat \<Rightarrow> byte" where
  "overlay buf off xs = (\<lambda>i. if off \<le> i \<and> i < off + length xs then xs ! (i - off) else buf i)"

lemma buf_put_overlay: "off + length xs \<le> cap \<Longrightarrow> buf_put cap buf off xs = Some (overlay buf off xs)"
  by (simp add: buf_put_def overlay_def)

lemma overlay_append: "j = off + length xs \<Longrightarrow> overlay (overlay buf off xs) j ys = overlay buf off (xs @ ys)"
  by (auto simp: overlay_def fun_eq_iff nth_append)

lemma overlay_inside:
  assumes "off + length ys \<le> length xs"
  shows "overlay (overlay buf 0 xs) off ys = overlay buf 0 (take off xs @ ys @ drop (off + length ys) xs)"
  using assms by (auto simp: overlay_def fun_eq_iff nth_append min_def)

lemma buf_get_overlay:
  assumes "off + n \<le> length xs" and "length xs \<le> cap"
  shows "buf_get cap (overlay buf 0 xs) off n = Some (take n (drop off xs))"
proof -
  have "map (overlay buf 0 xs) [off..<off + n] = take n (drop off xs)"
    using assms by (intro nth_equalityI) (simp_all add: overlay_def)
  then show ?thesis using assms by (simp add: buf_get_def)
qed

section \<open>Loading a page\<close>

definition page_loaded :: "ogg_env \<Rightarrow> nat \<Rightarrow> ogg_demux \<Rightarrow> bool" where
  "page_loaded e offset d \<longleftrightarrow> current_page_offset d = offset \<and> segment_index d = 0 \<and> payload_cursor d = 0 \<and>
     segment_count d \<le> 255 \<and> 27 + segment_count d + segments_left d \<le> OGG_MAX_PAGE_SIZE \<and>
     next_page_offset d = offset + 27 + segment_count d + segments_left d \<and> next_page_offset d \<le> length (env_file e)"

text \<open>The segment table is the one of the current page, and the cursor stands behind the segments handed out.\<close>

definition page_of :: "ogg_env \<Rightarrow> ogg_demux \<Rightarrow> bool" where
  "page_of e d \<longleftrightarrow> (\<exists>hdr tab pay. fread 27 (drop (current_page_offset d) (env_file e)) = Some (hdr, tab @ pay) \<and>
     length tab = unat (hdr ! 26) \<and> segment_count d = length tab \<and> (\<forall>i < length tab. segment_table d i = tab ! i) \<and>
     (segment_index d \<le> segment_count d \<longrightarrow>
        payload_cursor d = sum_list (map (\<lambda>i. unat (segment_table d i)) [0..<segment_index d])))"

lemma page_of_frame [simp]: "page_of e (d\<lparr>allocs := k\<rparr>) = page_of e d" "page_of e (d\<lparr>page_buf := b\<rparr>) = page_of e d"
  by (simp_all add: page_of_def)

lemma page_of_advance:
  assumes "page_of e d" and "segment_index d < segment_count d \<or> segment_count d = 0"
  shows "page_of e (d\<lparr>segment_index := segment_index d + 1, payload_cursor := payload_cursor d + unat (segment_table d (segment_index d))\<rparr>)"
  using assms by (auto simp: page_of_def)

lemma page_buf_only: "d' = d\<lparr>page_buf := b\<rparr> \<Longrightarrow> segment_count d' = segment_count d \<and> segment_index d' = segment_index d"
  by simp

lemma page_buf_self [simp]: "d\<lparr>page_buf := page_buf d\<rparr> = d"
  by (cases d) simp

text \<open>The outcome of a load whose header and segment table can be read.\<close>

lemma load_page_at_eq:
  assumes h: "fread 27 (drop offset (env_file e)) = Some (hdr, tab @ pay)" "take 4 hdr = capture_pattern" "hdr ! 4 = 0"
    and t: "length tab = unat (hdr ! 26)" and p: "p = sum_list (map unat tab)"
  shows "load_page_at e offset d =
     (let buf = overlay (page_buf d) 0 (hdr @ tab @ take p pay) in
      if length pay < p then Some (False, d\<lparr>page_buf := buf\<rparr>)
      else if ogg_crc32 (crc_table d) (take 22 hdr @ [0, 0, 0, 0] @ drop 26 hdr @ tab @ take p pay) \<noteq> audio_read_u32le (\<lambda>i. hdr ! (22 + i))
      then Some (False, d\<lparr>page_buf := buf\<rparr>)
      else Some (True, d\<lparr>page_buf := buf, current_page_offset := offset, segment_table := overlay (segment_table d) 0 tab,
                        segment_count := length tab, segment_index := 0, payload_cursor := 0,
                        header_type := hdr ! 5, next_page_offset := offset + (27 + length tab + p)\<rparr>))"
proof -
  let ?x = "hdr @ tab @ take p pay"
  let ?z = "take 22 hdr @ [0, 0, 0, 0] @ drop 26 hdr @ tab @ take p pay"
  have lh: "length hdr = 27" using freadD[OF h(1)] by simp
  have n: "length tab \<le> 255" using unat_byte_less[of "hdr ! 26"] t by simp
  have fits: "27 + length tab + p \<le> OGG_MAX_PAGE_SIZE" using page_size_fits[of tab] n p by simp
  have fr: "fread (length tab) (tab @ pay) = Some (tab, pay)" by simp
  have b1: "overlay (overlay (overlay (page_buf d) 0 hdr) 27 tab) (27 + length tab) (take p pay) = overlay (page_buf d) 0 ?x"
    using lh by (simp add: overlay_append)
  have q1: "buf_put OGG_MAX_PAGE_SIZE (page_buf d) 0 hdr = Some (overlay (page_buf d) 0 hdr)"
    using fits lh by (simp add: buf_put_overlay)
  have q2: "buf_put OGG_MAX_PAGE_SIZE (overlay (page_buf d) 0 hdr) 27 tab = Some (overlay (overlay (page_buf d) 0 hdr) 27 tab)"
    using fits by (simp add: buf_put_overlay)
  have q3: "buf_put OGG_MAX_PAGE_SIZE (overlay (overlay (page_buf d) 0 hdr) 27 tab) (27 + length tab) (take p pay) = Some (overlay (page_buf d) 0 ?x)"
    unfolding b1[symmetric] using fits by (intro buf_put_overlay) simp
  have c1: "(OGG_MAX_PAGE_SIZE < 27 + length tab + p) = False" using fits by simp
  have c2: "(take 4 hdr \<noteq> capture_pattern \<or> hdr ! 4 \<noteq> 0) = False" using h by simp
  note start = load_page_at_def h(1) option.case prod.case fr Let_def c2 if_False t[symmetric] p[symmetric] c1 q1 q2 q3 bind.bind_lunit
  show ?thesis
  proof (cases "length pay < p")
    case True
    then have "(length pay < p) = True" by simp
    then show ?thesis by (simp only: start if_True)
  next
    case False
    then have c3: "(length pay < p) = False" by simp
    have lx: "length ?x = 27 + length tab + p" using lh False by simp
    have s: "take 4 (drop 22 ?x) = take 4 (drop 22 hdr)" using lh by simp
    have ls: "length (take 4 (drop 22 hdr)) = 4" using lh by simp
    have g1: "buf_get OGG_MAX_PAGE_SIZE (overlay (page_buf d) 0 ?x) 22 4 = Some (take 4 (drop 22 hdr))"
      using buf_get_overlay[of 22 4 ?x OGG_MAX_PAGE_SIZE] fits lx s by simp
    have lz: "length ?z = length ?x" using lh by simp
    have z: "buf_put OGG_MAX_PAGE_SIZE (overlay (page_buf d) 0 ?x) 22 [0, 0, 0, 0] = Some (overlay (page_buf d) 0 ?z)"
      using overlay_inside[of 22 "[0, 0, 0, 0]" ?x] lh fits by (simp add: buf_put_overlay)
    have g2: "buf_get OGG_MAX_PAGE_SIZE (overlay (page_buf d) 0 ?z) 0 (27 + length tab + p) = Some ?z"
      using buf_get_overlay[of 0 "27 + length tab + p" ?z OGG_MAX_PAGE_SIZE] fits lx lz by simp
    have "take 4 (drop 22 hdr) @ drop 26 hdr = drop 22 hdr" using append_take_drop_id[of 4 "drop 22 hdr"] by simp
    then have "take 22 hdr @ take 4 (drop 22 hdr) @ drop 26 hdr = hdr" using append_take_drop_id[of 22 hdr] by simp
    then have "take 22 hdr @ take 4 (drop 22 hdr) @ drop 26 hdr @ tab @ take p pay = ?x" by (metis append.assoc)
    moreover have "take 22 ?z = take 22 hdr" "drop (22 + 4) ?z = drop 26 hdr @ tab @ take p pay" using lh by simp_all
    ultimately have "overlay (overlay (page_buf d) 0 ?z) 22 (take 4 (drop 22 hdr)) = overlay (page_buf d) 0 ?x"
      using overlay_inside[of 22 "take 4 (drop 22 hdr)" ?z "page_buf d"] ls lz lx by (simp only:)
    then have z2: "buf_put OGG_MAX_PAGE_SIZE (overlay (page_buf d) 0 ?z) 22 (take 4 (drop 22 hdr)) = Some (overlay (page_buf d) 0 ?x)"
      using fits lh by (simp add: buf_put_overlay)
    have r: "audio_read_u32le ((!) (take 4 (drop 22 hdr))) = audio_read_u32le (\<lambda>i. hdr ! (22 + i))"
      using lh by (simp add: audio_read_u32le_def)
    have q6: "buf_put OGG_MAX_PAGE_SEGMENTS (segment_table d) 0 tab = Some (overlay (segment_table d) 0 tab)"
      using n by (simp add: buf_put_overlay OGG_MAX_PAGE_SEGMENTS_def)
    show ?thesis by (simp only: start c3 g1 z g2 z2 r q6)
  qed
qed

lemma load_page_at_cases:
  obtains "load_page_at e offset d = Some (False, d)"
    | hdr tab pay where "fread 27 (drop offset (env_file e)) = Some (hdr, tab @ pay)" "take 4 hdr = capture_pattern" "hdr ! 4 = 0"
        "length tab = unat (hdr ! 26)"
proof (cases "fread 27 (drop offset (env_file e))")
  case (Some a)
  obtain hdr rest where a: "a = (hdr, rest)" by (cases a)
  show ?thesis
  proof (cases "fread (unat (hdr ! 26)) rest")
    case (Some b)
    obtain tab pay where "b = (tab, pay)" by (cases b)
    then show ?thesis using that freadD[of _ rest tab pay] Some a \<open>fread 27 _ = _\<close>
      by (cases "take 4 hdr \<noteq> capture_pattern \<or> hdr ! 4 \<noteq> 0") (auto simp: load_page_at_def)
  qed (use that(1) Some a in \<open>simp add: load_page_at_def\<close>)
qed (use that(1) in \<open>simp add: load_page_at_def\<close>)

lemma load_page_at_ok:
  "\<exists>ok d'. load_page_at e offset d = Some (ok, d') \<and> same_stream d d' \<and> allocs d' = allocs d \<and>
     (ok \<longrightarrow> page_loaded e offset d' \<and> page_of e d') \<and> (\<not> ok \<longrightarrow> d' = d\<lparr>page_buf := page_buf d'\<rparr>)"
proof (cases rule: load_page_at_cases[of e offset d])
  case 1
  then show ?thesis by (intro exI[of _ False] exI[of _ d]) simp
next
  case (2 hdr tab pay)
  define p where "p = sum_list (map unat tab)"
  have f: "drop offset (env_file e) = hdr @ tab @ pay" "length hdr = 27" using freadD[OF 2(1)] by auto
  have n: "length tab \<le> 255" using unat_byte_less[of "hdr ! 26"] 2(4) by simp
  have fits: "27 + length tab + p \<le> OGG_MAX_PAGE_SIZE" using page_size_fits[of tab] n p_def by simp
  have "length (drop offset (env_file e)) = 27 + length tab + length pay" using f by simp
  then have len: "length (env_file e) = offset + 27 + length tab + length pay" by simp
  note eq = load_page_at_eq[OF 2 p_def, of d, unfolded Let_def]
  have "map (\<lambda>i. unat (overlay (segment_table d) 0 tab i)) [0..<length tab] = map unat tab"
    by (rule nth_equalityI) (simp_all add: overlay_def)
  then have left: "sum_list (map (\<lambda>i. unat (overlay (segment_table d) 0 tab i)) [0..<length tab]) = p"
    by (simp add: p_def)
  show ?thesis
  proof (cases "length pay < p \<or> ogg_crc32 (crc_table d) (take 22 hdr @ [0, 0, 0, 0] @ drop 26 hdr @ tab @ take p pay) \<noteq> audio_read_u32le (\<lambda>i. hdr ! (22 + i))")
    case True
    then have "load_page_at e offset d = Some (False, d\<lparr>page_buf := overlay (page_buf d) 0 (hdr @ tab @ take p pay)\<rparr>)"
      unfolding eq by (cases "length pay < p") (simp_all only: if_True if_False simp_thms)
    then show ?thesis by (intro exI[of _ False] exI) (auto simp: same_stream_def)
  next
    case False
    then have "\<exists>b h. load_page_at e offset d = Some (True, d\<lparr>page_buf := b, current_page_offset := offset, segment_table := overlay (segment_table d) 0 tab,
                        segment_count := length tab, segment_index := 0, payload_cursor := 0,
                        header_type := h, next_page_offset := offset + (27 + length tab + p)\<rparr>)"
      unfolding eq by auto
    then obtain b h where l: "load_page_at e offset d = Some (True, d\<lparr>page_buf := b, current_page_offset := offset,
        segment_table := overlay (segment_table d) 0 tab, segment_count := length tab, segment_index := 0, payload_cursor := 0,
        header_type := h, next_page_offset := offset + (27 + length tab + p)\<rparr>)" (is "_ = Some (True, ?d)") by auto
    have "page_of e ?d" using 2(1,4) by (auto simp: page_of_def overlay_def)
    moreover have "page_loaded e offset ?d" using n fits len False left by (simp add: page_loaded_def segments_left_def)
    ultimately show ?thesis using l by (intro exI[of _ True] exI[of _ ?d]) (simp add: same_stream_def)
  qed
qed

lemma segments_left_step:
  "segment_index d < segment_count d \<Longrightarrow>
     segments_left d = unat (segment_table d (segment_index d)) + segments_left (d\<lparr>segment_index := segment_index d + 1, payload_cursor := c\<rparr>)"
  by (simp add: segments_left_def upt_conv_Cons)

lemma cursor_ok_loaded: "page_loaded e offset d \<Longrightarrow> cursor_ok d"
  by (simp add: page_loaded_def cursor_ok_def)

lemma cursor_ok_spent: "segment_count d \<le> segment_index d \<Longrightarrow> cursor_ok d"
  by (simp add: cursor_ok_def)

lemma budget_loaded:
  assumes "page_loaded e (next_page_offset d) d'"
  shows "budget e d' < budget e d"
proof -
  have p: "segment_count d' \<le> 255" "next_page_offset d + 27 \<le> next_page_offset d'" "next_page_offset d' \<le> length (env_file e)" "segment_index d' = 0"
    using assms by (auto simp: page_loaded_def)
  have "(length (env_file e) - next_page_offset d') * 256 + 27 * 256 \<le> (length (env_file e) - next_page_offset d) * 256"
    using p by (simp flip: add_mult_distrib)
  then show ?thesis using p(1,4) by (simp add: budget_def)
qed

text \<open>Handing out one segment.\<close>

lemma next_segment_ok:
  assumes "cursor_ok d"
  shows "\<exists>r d'. next_segment e d = Some (r, d') \<and> cursor_ok d' \<and> same_stream d d' \<and> allocs d' = allocs d \<and>
     (page_of e d \<longrightarrow> page_of e d') \<and>
     (\<forall>seg_len pos. r = Some (seg_len, pos) \<longrightarrow> seg_len \<le> 255 \<and> pos + seg_len \<le> OGG_MAX_PAGE_SIZE \<and> budget e d' < budget e d)"
proof -
  have step: "\<exists>r d'. next_segment e d = Some (r, d') \<and> cursor_ok d' \<and> same_stream d0 d' \<and> allocs d' = allocs d0 \<and>
      (page_of e d0 \<longrightarrow> page_of e d') \<and>
      (\<forall>seg_len pos. r = Some (seg_len, pos) \<longrightarrow> seg_len \<le> 255 \<and> pos + seg_len \<le> OGG_MAX_PAGE_SIZE \<and> budget e d' \<le> budget e d0 \<and>
         (segment_index d0 < segment_count d0 \<longrightarrow> budget e d' < budget e d0))"
    if n: "next_segment e d = (do {
         len \<leftarrow> buf_get OGG_MAX_PAGE_SEGMENTS (segment_table d0) (segment_index d0) 1;
         let seg_len = unat (hd len);
         Some (Some (seg_len, 27 + segment_count d0 + payload_cursor d0),
             d0\<lparr>segment_index := segment_index d0 + 1, payload_cursor := payload_cursor d0 + seg_len\<rparr>) })"
      and c: "cursor_ok d0" "segment_index d0 < segment_count d0 \<or> segment_index d0 = 0 \<and> payload_cursor d0 = 0 \<and> segment_count d0 = 0" for d0
  proof -
    have l: "unat (segment_table d0 (segment_index d0)) \<le> 255" using unat_byte_less[of "segment_table d0 (segment_index d0)"] by simp
    have "segment_index d0 + 1 \<le> 255" using c by (auto simp: cursor_ok_def)
    then have "next_segment e d = Some (Some (unat (segment_table d0 (segment_index d0)), 27 + segment_count d0 + payload_cursor d0),
        d0\<lparr>segment_index := segment_index d0 + 1, payload_cursor := payload_cursor d0 + unat (segment_table d0 (segment_index d0))\<rparr>)"
      unfolding n by (simp add: buf_get_def OGG_MAX_PAGE_SEGMENTS_def Let_def)
    then show ?thesis using c l page_of_advance[of e d0] segments_left_step[of d0 "payload_cursor d0 + unat (segment_table d0 (segment_index d0))"]
      by (auto simp: same_stream_def cursor_ok_def budget_def OGG_MAX_PAGE_SIZE_val)
  qed
  show ?thesis
  proof (cases "segment_count d \<le> segment_index d")
    case True
    obtain ok d' where l: "load_page_at e (next_page_offset d) d = Some (ok, d')" "same_stream d d'" "allocs d' = allocs d"
        "ok \<longrightarrow> page_loaded e (next_page_offset d) d' \<and> page_of e d'" "\<not> ok \<longrightarrow> d' = d\<lparr>page_buf := page_buf d'\<rparr>"
      using load_page_at_ok by blast
    show ?thesis
    proof (cases ok)
      case False
      have "cursor_ok d'" using True page_buf_only[OF mp[OF l(5)]] False by (simp add: cursor_ok_def)
      moreover have "page_of e d \<longrightarrow> page_of e d'" using page_of_frame(2)[of e "page_buf d'" d] mp[OF l(5)] False by simp
      ultimately show ?thesis using l False True by (simp add: next_segment_def)
    next
      case ok: True
      have p: "page_loaded e (next_page_offset d) d'" and po: "page_of e d'" using l(4) ok by simp_all
      then have "segment_index d' < segment_count d' \<or> segment_index d' = 0 \<and> payload_cursor d' = 0 \<and> segment_count d' = 0"
        by (auto simp: page_loaded_def)
      moreover have "next_segment e d = (do {
         len \<leftarrow> buf_get OGG_MAX_PAGE_SEGMENTS (segment_table d') (segment_index d') 1;
         let seg_len = unat (hd len);
         Some (Some (seg_len, 27 + segment_count d' + payload_cursor d'),
             d'\<lparr>segment_index := segment_index d' + 1, payload_cursor := payload_cursor d' + seg_len\<rparr>) })"
        using l(1) ok True by (simp add: next_segment_def)
      ultimately show ?thesis using step[of d'] cursor_ok_loaded[OF p] budget_loaded[OF p] po l(2,3) same_stream_trans
        by (smt (verit) le_less_trans)
    qed
  next
    case False
    have "next_segment e d = (do {
         len \<leftarrow> buf_get OGG_MAX_PAGE_SEGMENTS (segment_table d) (segment_index d) 1;
         let seg_len = unat (hd len);
         Some (Some (seg_len, 27 + segment_count d + payload_cursor d),
             d\<lparr>segment_index := segment_index d + 1, payload_cursor := payload_cursor d + seg_len\<rparr>) })"
      using False by (simp add: next_segment_def)
    then show ?thesis using step[of d] assms False by fastforce
  qed
qed

section \<open>Reading packets\<close>

lemma buf_get_Some: "off + n \<le> cap \<Longrightarrow> buf_get cap buf off n = Some (map buf [off..<off + n])"
  by (simp add: buf_get_def)

lemma read_packet_loop_ok:
  "cursor_ok d \<Longrightarrow> length out \<le> buf_size \<Longrightarrow>
   \<exists>n bs d'. read_packet_loop e buf_size out d = Some (n, bs, d') \<and> cursor_ok d' \<and> same_stream d d' \<and> allocs d' = allocs d \<and>
     length bs \<le> buf_size \<and> (n = 0 \<or> n = length bs)"
proof (induction "budget e d" arbitrary: d out rule: less_induct)
  case less
  obtain r d' where n: "next_segment e d = Some (r, d')" "cursor_ok d'" "same_stream d d'" "allocs d' = allocs d"
      "page_of e d \<longrightarrow> page_of e d'" "\<forall>seg_len pos. r = Some (seg_len, pos) \<longrightarrow> seg_len \<le> 255 \<and> pos + seg_len \<le> OGG_MAX_PAGE_SIZE \<and> budget e d' < budget e d"
    using next_segment_ok[OF less.prems(1), of e] by blast
  show ?case
  proof (cases r)
    case None
    then show ?thesis using n less.prems by (subst read_packet_loop.simps) simp
  next
    case (Some a)
    obtain seg_len pos where a: "a = (seg_len, pos)" by (cases a)
    have s: "seg_len \<le> 255" "pos + seg_len \<le> OGG_MAX_PAGE_SIZE" "budget e d' < budget e d" using n(6) Some a by auto
    note g = buf_get_Some[OF s(2), of "page_buf d'"]
    show ?thesis
    proof (cases "0 < seg_len \<and> buf_size < length out + seg_len")
      case True
      then show ?thesis using n Some a less.prems by (subst read_packet_loop.simps) simp
    next
      case False
      then have l: "length (out @ map (page_buf d') [pos..<pos + seg_len]) \<le> buf_size" using less.prems(2) by auto
      show ?thesis
      proof (cases "seg_len < 255")
        case True
        then show ?thesis using n Some a False g l by (subst read_packet_loop.simps) simp
      next
        case more: False
        have "read_packet_loop e buf_size out d = read_packet_loop e buf_size (out @ map (page_buf d') [pos..<pos + seg_len]) d'"
          using n Some a False g more by (subst read_packet_loop.simps) simp
        then show ?thesis using less.hyps[OF s(3) n(2) l] same_stream_trans[OF n(3)] n(4) by metis
      qed
    qed
  qed
qed

lemma grow_capacity_ok:
  "0 < c \<Longrightarrow> need \<le> OGG_MAX_HEADER_PACKET_SIZE \<Longrightarrow> \<exists>c'. grow_capacity need c = Some c' \<and> need \<le> c' \<and> 0 < c'"
proof (induction "OGG_MAX_HEADER_PACKET_SIZE - c" arbitrary: c rule: less_induct)
  case less
  show ?case
  proof (cases "need \<le> c \<or> OGG_MAX_HEADER_PACKET_SIZE div 2 \<le> c")
    case True
    then show ?thesis using less.prems by (subst grow_capacity.simps) (auto simp: OGG_MAX_HEADER_PACKET_SIZE_def)
  next
    case False
    then have "OGG_MAX_HEADER_PACKET_SIZE - c * 2 < OGG_MAX_HEADER_PACKET_SIZE - c" using less.prems(1) by linarith
    then have "\<exists>c'. grow_capacity need (c * 2) = Some c' \<and> need \<le> c' \<and> 0 < c'" using less by simp
    then show ?thesis using False by (subst grow_capacity.simps) simp
  qed
qed

lemma growable_loop_ok:
  "cursor_ok d \<Longrightarrow> 0 < capacity \<Longrightarrow> length buf \<le> OGG_MAX_HEADER_PACKET_SIZE \<Longrightarrow>
   \<exists>p d'. growable_loop e capacity buf d = Some (p, d') \<and> cursor_ok d' \<and> same_stream d d' \<and> (page_of e d \<longrightarrow> page_of e d') \<and>
     (\<forall>bs. p = Some bs \<longrightarrow> length bs \<le> OGG_MAX_HEADER_PACKET_SIZE)"
proof (induction "budget e d" arbitrary: d capacity buf rule: less_induct)
  case less
  obtain r d' where n: "next_segment e d = Some (r, d')" "cursor_ok d'" "same_stream d d'" "allocs d' = allocs d"
      "page_of e d \<longrightarrow> page_of e d'" "\<forall>seg_len pos. r = Some (seg_len, pos) \<longrightarrow> seg_len \<le> 255 \<and> pos + seg_len \<le> OGG_MAX_PAGE_SIZE \<and> budget e d' < budget e d"
    using next_segment_ok[OF less.prems(1), of e] by blast
  show ?case
  proof (cases r)
    case None
    then show ?thesis using n less.prems by (subst growable_loop.simps) simp
  next
    case (Some a)
    obtain seg_len pos where a: "a = (seg_len, pos)" by (cases a)
    have s: "seg_len \<le> 255" "pos + seg_len \<le> OGG_MAX_PAGE_SIZE" "budget e d' < budget e d" using n(6) Some a by auto
    let ?need = "length buf + seg_len" and ?bs = "map (page_buf d') [pos..<pos + seg_len]"
    show ?thesis
    proof (cases "OGG_MAX_HEADER_PACKET_SIZE - seg_len < length buf")
      case True
      then show ?thesis using n Some a by (subst growable_loop.simps) simp
    next
      case False
      then have need: "?need \<le> OGG_MAX_HEADER_PACKET_SIZE" using s(1) by (simp add: OGG_MAX_HEADER_PACKET_SIZE_def)
      have go: "\<exists>p d''. (do { bytes \<leftarrow> buf_get OGG_MAX_PAGE_SIZE (page_buf d0) pos seg_len;
               if c < ?need then None
               else if seg_len < 255 then Some (Some (buf @ bytes), d0)
               else growable_loop e c (buf @ bytes) d0 }) = Some (p, d'') \<and> cursor_ok d'' \<and> same_stream d d'' \<and> (page_of e d \<longrightarrow> page_of e d'') \<and>
           (\<forall>bs. p = Some bs \<longrightarrow> length bs \<le> OGG_MAX_HEADER_PACKET_SIZE)"
        if c: "?need \<le> c" "0 < c" and d0: "d0 = d'\<lparr>allocs := k\<rparr>" for c d0 k
      proof -
        have b: "budget e d0 < budget e d" "cursor_ok d0" "same_stream d d0" "page_of e d \<longrightarrow> page_of e d0" using s(3) n(2,3,5) d0
          by (auto simp: budget_def cursor_ok_def segments_left_def)
        have "length (buf @ ?bs) \<le> OGG_MAX_HEADER_PACKET_SIZE" using need by simp
        from less.hyps[OF b(1,2) c(2) this] same_stream_trans[OF b(3)] b(4)
        have "\<exists>p d''. growable_loop e c (buf @ ?bs) d0 = Some (p, d'') \<and> cursor_ok d'' \<and> same_stream d d'' \<and> (page_of e d \<longrightarrow> page_of e d'') \<and>
           (\<forall>bs. p = Some bs \<longrightarrow> length bs \<le> OGG_MAX_HEADER_PACKET_SIZE)" by metis
        then show ?thesis using b need c(1) buf_get_Some[OF s(2)] d0 by simp
      qed
      show ?thesis
      proof (cases "capacity < ?need")
        case True
        obtain c' where c': "grow_capacity ?need capacity = Some c'" "?need \<le> c'" "0 < c'"
          using grow_capacity_ok[OF less.prems(2) need] by blast
        show ?thesis
        proof (cases "env_grant e (allocs d') c'")
          case granted: True
          show ?thesis using go[OF c'(2,3), of _ "Suc (allocs d')"] n(1) Some a False True c'(1) granted
            by (subst growable_loop.simps) (simp add: ask_def)
        next
          case denied: False
          then show ?thesis using n Some a False True c'(1)
            by (subst growable_loop.simps) (simp add: ask_def cursor_ok_def segments_left_def)
        qed
      next
        case enough: False
        have d0: "d' = d'\<lparr>allocs := allocs d'\<rparr>" by (cases d') simp
        show ?thesis using go[OF _ less.prems(2) d0] n(1) Some a False enough
          by (subst growable_loop.simps) simp
      qed
    qed
  qed
qed

lemma read_packet_growable_ok:
  assumes "cursor_ok d"
  shows "\<exists>p d'. read_packet_growable e d = Some (p, d') \<and> cursor_ok d' \<and> same_stream d d' \<and> (page_of e d \<longrightarrow> page_of e d') \<and>
     (\<forall>bs. p = Some bs \<longrightarrow> length bs \<le> OGG_MAX_HEADER_PACKET_SIZE)"
proof -
  have c: "cursor_ok (d\<lparr>allocs := Suc (allocs d)\<rparr>)" using assms by (simp add: cursor_ok_def segments_left_def)
  show ?thesis using growable_loop_ok[OF c, of 4096 "[]" e] c by (auto simp: read_packet_growable_def ask_def Let_def)
qed

section \<open>The comments\<close>

lemma starts_nocase_ok: "off + length k \<le> length bytes \<Longrightarrow> starts_nocase bytes off k \<noteq> None"
  by (induction k arbitrary: off) auto

lemma any_key_ok: "off + unat len \<le> length bytes \<Longrightarrow> any_key bytes off len ks \<noteq> None"
proof (induction ks)
  case (Cons k ks)
  then show ?case using starts_nocase_ok[of off k bytes] by (auto split: bind_splits)
qed simp

text \<open>A packet the size limit lets through, without the byte that no UTF-8 text and no sane length contains.\<close>

definition plain_packet :: "byte list \<Rightarrow> bool" where
  "plain_packet bytes \<longleftrightarrow> length bytes \<le> OGG_MAX_HEADER_PACKET_SIZE \<and> 0xFF \<notin> set bytes"

lemma read_u32_at_plain:
  assumes p: "plain_packet bytes" and "unat pos + 4 \<le> length bytes"
  obtains v where "read_u32_at bytes pos = Some v" "unat v < 4278190080"
proof -
  let ?b = "\<lambda>i. bytes ! (unat pos + i)"
  have "?b 3 \<in> set bytes" using assms(2) by simp
  then have "?b 3 \<noteq> 0xFF" using p by (auto simp: plain_packet_def)
  then have "unat (?b 3) \<noteq> 255" by (metis of_nat_numeral of_nat_unat ucast_id)
  then have "unat (?b 3) < 255" using unat_byte_less[of "?b 3"] by simp
  then have "unat (audio_read_u32le ?b) < 4278190080"
    using unat_byte_less[of "?b 0"] unat_byte_less[of "?b 1"] unat_byte_less[of "?b 2"] by (simp add: audio_read_vals)
  then show thesis using that assms(2) by (simp add: read_u32_at_def)
qed

lemma unat_length_packet: "plain_packet bytes \<Longrightarrow> unat (of_nat (length bytes) :: u32) = length bytes"
  by (simp add: plain_packet_def OGG_MAX_HEADER_PACKET_SIZE_def unat_of_nat)

definition tags_frame :: "ogg_demux \<Rightarrow> ogg_demux \<Rightarrow> bool" where
  "tags_frame d d' \<longleftrightarrow> d'\<lparr>comments := [], allocs := 0\<rparr> = d\<lparr>comments := [], allocs := 0\<rparr>"

lemma tags_frame_simps [simp]:
  "tags_frame d d" "tags_frame d (d'\<lparr>allocs := k\<rparr>) = tags_frame d d'" "tags_frame (d\<lparr>allocs := k\<rparr>) d' = tags_frame d d'"
  "tags_frame d (d'\<lparr>comments := cs\<rparr>) = tags_frame d d'"
  by (simp_all add: tags_frame_def)

lemma tags_loop_ok:
  assumes p: "plain_packet bytes"
  shows "unat pos \<le> length bytes \<Longrightarrow> \<exists>st d'. tags_loop e skip bytes n pos stored d = Some (st, d') \<and> tags_frame d d'"
proof (induction n arbitrary: pos stored d)
  case (Suc n)
  have l: "length bytes \<le> 8388608" using p by (simp add: plain_packet_def OGG_MAX_HEADER_PACKET_SIZE_def)
  have p4: "unat (pos + 4) = unat pos + 4" using Suc.prems l by (subst unat_add_small) simp_all
  show ?case
  proof (cases "of_nat (length bytes) < pos + 4")
    case True
    then show ?thesis by simp
  next
    case False
    then have fit: "unat pos + 4 \<le> length bytes" using p4 unat_length_packet[OF p] by (simp add: word_less_nat_alt)
    obtain clen where c: "read_u32_at bytes pos = Some clen" "unat clen < 4278190080" by (rule read_u32_at_plain[OF p fit])
    have pc: "unat (pos + 4 + clen) = unat pos + 4 + unat clen" using p4 c(2) fit l by (subst unat_add_small) simp_all
    show ?thesis
    proof (cases "of_nat (length bytes) < pos + 4 + clen")
      case True
      then show ?thesis using c False by simp
    next
      case in_range: False
      then have inb: "unat pos + 4 + unat clen \<le> length bytes" using pc unat_length_packet[OF p] by (simp add: word_less_nat_alt)
      have next_pos: "unat (pos + 4 + clen) \<le> length bytes" using pc inb by simp
      obtain large where large: "(if skip then comment_is_large_scan_value bytes (unat (pos + 4)) clen else Some False) = Some large"
        using any_key_ok[of "unat (pos + 4)" clen bytes comment_keys] inb p4 by (cases skip) (auto simp: comment_is_large_scan_value_def)
      have c1: "unat (clen + 1) = unat clen + 1" using c(2) by (subst unat_add_small) simp_all
      have rec: "\<exists>st d''. tags_loop e skip bytes n (pos + 4 + clen) st0 d' = Some (st, d'') \<and> tags_frame d d''"
        if "d' = d \<or> d' = d\<lparr>allocs := Suc (allocs d)\<rparr>" for st0 d'
        using Suc.IH[OF next_pos, of st0 d'] that by auto
      have c2: "unat clen < unat (clen + 1) \<and> unat (pos + 4) + unat clen \<le> length bytes" using c1 inb p4 by simp
      have unfolded: "tags_loop e skip bytes (Suc n) pos stored d =
          (if large then tags_loop e skip bytes n (pos + 4 + clen) stored d
           else if env_grant e (allocs d) (unat (clen + 1))
           then tags_loop e skip bytes n (pos + 4 + clen) (stored @ [take (unat clen) (drop (unat (pos + 4)) bytes)]) (d\<lparr>allocs := Suc (allocs d)\<rparr>)
           else tags_loop e skip bytes n (pos + 4 + clen) stored (d\<lparr>allocs := Suc (allocs d)\<rparr>))"
        using False in_range c2 by (simp only: tags_loop.simps c(1) bind.bind_lunit Let_def large ask_def prod.case if_False if_True) simp
      show ?thesis unfolding unfolded using rec by simp
    qed
  qed
qed simp

lemma parse_opus_tags_ok:
  assumes p: "plain_packet bytes"
  shows "\<exists>d'. parse_opus_tags e skip bytes d = Some d' \<and> tags_frame d d'"
proof -
  have l: "length bytes \<le> 8388608" using p by (simp add: plain_packet_def OGG_MAX_HEADER_PACKET_SIZE_def)
  note ul = unat_length_packet[OF p]
  let ?size = "of_nat (length bytes) :: u32"
  show ?thesis
  proof (cases "length bytes < 8 \<or> take 8 bytes \<noteq> opus_tags_magic \<or> ?size < 8 + 4")
    case True
    then have "parse_opus_tags e skip bytes d = Some d" by (auto simp: parse_opus_tags_def Let_def)
    then show ?thesis by simp
  next
    case a: False
    then have "12 \<le> length bytes" using ul by (simp add: word_less_nat_alt)
    then obtain vendor_len where v: "read_u32_at bytes 8 = Some vendor_len" "unat vendor_len < 4278190080"
      using read_u32_at_plain[OF p, of 8] by auto
    have pv: "unat (12 + vendor_len) = 12 + unat vendor_len" using v(2) by (subst unat_add_small) simp_all
    show ?thesis
    proof (cases "?size < 12 + vendor_len \<or> ?size < 12 + vendor_len + 4")
      case True
      then have "parse_opus_tags e skip bytes d = Some d" using a v by (auto simp: parse_opus_tags_def Let_def)
      then show ?thesis by simp
    next
      case b: False
      then have "unat (12 + vendor_len) \<le> length bytes" using ul by (simp add: word_less_nat_alt)
      then have p4: "unat (12 + vendor_len + 4) = unat (12 + vendor_len) + 4" using l by (subst unat_add_small) simp_all
      then have fit: "unat (12 + vendor_len) + 4 \<le> length bytes" using b ul by (simp add: word_less_nat_alt)
      obtain count where c: "read_u32_at bytes (12 + vendor_len) = Some count" by (rule read_u32_at_plain[OF p fit])
      have posok: "unat (12 + vendor_len + 4) \<le> length bytes" using p4 fit by simp
      define k where "k = (let m = unat (?size - (12 + vendor_len + 4)) div 4 in if m < unat count then m else unat count)"
      define d2 where "d2 = d\<lparr>allocs := Suc (Suc (allocs d))\<rparr>"
      have "parse_opus_tags e skip bytes d = (if k = 0 then Some d
          else if \<not> env_grant e (allocs d) (k * 4) \<or> \<not> env_grant e (Suc (allocs d)) (k * 4) then Some d2
          else do { (stored, d) \<leftarrow> tags_loop e skip bytes k (12 + vendor_len + 4) [] d2; Some (d\<lparr>comments := stored\<rparr>) })"
        using a b v c unfolding parse_opus_tags_def k_def Let_def d2_def ask_def by simp
      moreover obtain st d' where "tags_loop e skip bytes k (12 + vendor_len + 4) [] d2 = Some (st, d')" "tags_frame d2 d'"
        using tags_loop_ok[OF p posok] by blast
      ultimately show ?thesis by (simp add: d2_def)
    qed
  qed
qed

section \<open>The seek index\<close>

text \<open>An entry names a page that starts at its offset and does not continue a packet.\<close>

definition index_entry_ok :: "ogg_env \<Rightarrow> nat \<times> u64 \<Rightarrow> bool" where
  "index_entry_ok e entry \<longleftrightarrow> (\<exists>hdr rest. fread 27 (drop (fst entry) (env_file e)) = Some (hdr, rest) \<and>
     take 4 hdr = capture_pattern \<and> hdr ! 5 AND 0x01 = 0 \<and> snd entry = audio_read_u64le (\<lambda>i. hdr ! (6 + i)))"

definition index_ok :: "ogg_env \<Rightarrow> (nat \<times> u64) list \<Rightarrow> bool" where
  "index_ok e idx \<longleftrightarrow> (\<forall>entry \<in> set idx. index_entry_ok e entry) \<and> sorted_wrt (<) (map fst idx)"

definition index_frame :: "ogg_demux \<Rightarrow> ogg_demux \<Rightarrow> bool" where
  "index_frame d d' \<longleftrightarrow> d'\<lparr>page_index := [], total_granule := 0, allocs := 0\<rparr> = d\<lparr>page_index := [], total_granule := 0, allocs := 0\<rparr>"

lemma index_frame_simps [simp]:
  "index_frame d d" "index_frame d (d'\<lparr>allocs := k\<rparr>) = index_frame d d'" "index_frame (d\<lparr>allocs := k\<rparr>) d' = index_frame d d'"
  "index_frame d (d'\<lparr>page_index := i\<rparr>) = index_frame d d'" "index_frame d (d'\<lparr>total_granule := g\<rparr>) = index_frame d d'"
  "index_frame (d\<lparr>page_index := i\<rparr>) d' = index_frame d d'" "index_frame (d\<lparr>total_granule := g\<rparr>) d' = index_frame d d'"
  by (simp_all add: index_frame_def)

lemma index_loop_ok:
  "0 < capacity \<Longrightarrow> length (page_index d) \<le> capacity \<Longrightarrow> index_ok e (page_index d) \<Longrightarrow> (\<forall>entry \<in> set (page_index d). fst entry < offset) \<Longrightarrow>
   \<exists>d'. index_loop e capacity offset d = Some d' \<and> index_frame d d' \<and> index_ok e (page_index d')"
proof (induction "length (env_file e) - offset" arbitrary: d capacity offset rule: less_induct)
  case less
  show ?case
  proof (cases "fread 27 (drop offset (env_file e))")
    case None
    then show ?thesis using less.prems by (subst index_loop.simps) simp
  next
    case (Some a)
    obtain hdr rest where a: "a = (hdr, rest)" by (cases a)
    have f: "drop offset (env_file e) = hdr @ rest" "length hdr = 27" using freadD[of 27] Some a by auto
    have "27 \<le> length (drop offset (env_file e))" using f by simp
    then have short: "length (env_file e) - (offset + (27 + k)) < length (env_file e) - offset" for k by simp
    let ?n = "unat (hdr ! 26)" and ?g = "audio_read_u64le (\<lambda>i. hdr ! (6 + i))"
    show ?thesis
    proof (cases "(take 4 hdr \<noteq> capture_pattern \<or> hdr ! 4 \<noteq> 0) \<or> fread ?n rest = None")
      case True
      then show ?thesis using Some a less.prems by (subst index_loop.simps) auto
    next
      case False
      then obtain tab pay where t: "fread ?n rest = Some (tab, pay)" by (cases "fread ?n rest") auto
      have h: "(take 4 hdr \<noteq> capture_pattern \<or> hdr ! 4 \<noteq> 0) = False" using False by simp
      then have h': "take 4 hdr = capture_pattern" "hdr ! 4 = 0" by simp_all
      define nxt where "nxt = offset + (27 + ?n + sum_list (map unat tab))"
      have nx: "(nxt \<le> offset) = False" by (simp add: nxt_def)
      have sh: "length (env_file e) - nxt < length (env_file e) - offset" using short[of "?n + sum_list (map unat tab)"] by (simp add: nxt_def add.assoc)
      define d1 where "d1 = d\<lparr>total_granule := ?g\<rparr>"
      have d1: "page_index d1 = page_index d" "allocs d1 = allocs d" by (simp_all add: d1_def)
      note start = Some a h t nxt_def[symmetric] nx option.case prod.case Let_def d1_def[symmetric]
      have later: "\<forall>entry \<in> set (page_index d). fst entry < nxt" using less.prems(4) by (auto simp: nxt_def)
      show ?thesis
      proof (cases "hdr ! 5 AND 0x01 = 0")
        case False
        then have "index_loop e capacity offset d = index_loop e capacity nxt d1"
          by (subst index_loop.simps) (simp only: start if_False)
        then show ?thesis using less.hyps[OF sh less.prems(1), of d1] less.prems(2,3) later by (simp add: d1_def)
      next
        case boundary: True
        define idx where "idx = page_index d @ [(offset, ?g)]"
        have iok: "index_ok e idx" using less.prems(3,4) Some a h boundary
          by (auto simp: idx_def index_ok_def index_entry_ok_def sorted_wrt_append)
        have rec: "\<exists>d'. index_loop e c nxt (d1\<lparr>allocs := k, page_index := idx\<rparr>) = Some d' \<and> index_frame d d' \<and> index_ok e (page_index d')"
          if "length (page_index d) < c" for c k
          using less.hyps[OF sh, of c "d1\<lparr>allocs := k, page_index := idx\<rparr>"] iok that later by (auto simp: d1_def idx_def nxt_def)
        show ?thesis
        proof (cases "length (page_index d) = capacity")
          case full: True
          show ?thesis
          proof (cases "env_grant e (allocs d) (16 * (capacity * 2))")
            case True
            have c: "length (page_index d) < capacity * 2" using full less.prems(1) by simp
            have "index_loop e capacity offset d = index_loop e (capacity * 2) nxt (d1\<lparr>allocs := Suc (allocs d), page_index := idx\<rparr>)"
              using full True boundary c by (subst index_loop.simps) (simp add: start h' ask_def d1 idx_def)
            then show ?thesis using rec[OF c] by simp
          next
            case False
            then have "index_loop e capacity offset d = Some (d1\<lparr>allocs := Suc (allocs d)\<rparr>)"
              using full boundary by (subst index_loop.simps) (simp add: start h' ask_def d1)
            then show ?thesis using less.prems(3) by (simp add: d1_def)
          qed
        next
          case False
          then have c: "length (page_index d) < capacity" using less.prems(2) by simp
          have self: "d1\<lparr>allocs := allocs d\<rparr> = d1" by (cases d) (simp add: d1_def)
          have "index_loop e capacity offset d = index_loop e capacity nxt (d1\<lparr>allocs := allocs d, page_index := idx\<rparr>)"
            using False boundary c unfolding self by (subst index_loop.simps) (simp add: start h' d1 idx_def)
          then show ?thesis using rec[OF c] by simp
        qed
      qed
    qed
  qed
qed

section \<open>Opening\<close>

definition demux_inv :: "ogg_env \<Rightarrow> ogg_demux \<Rightarrow> bool" where
  "demux_inv e d \<longleftrightarrow> cursor_ok d \<and> index_ok e (page_index d)"

text \<open>Going back to a position inside a page after the index has been built.\<close>

lemma cursor_ok_restored:
  assumes "page_of e d" and "page_loaded e (current_page_offset d) d'" and "page_of e d'"
  shows "cursor_ok (d'\<lparr>segment_index := segment_index d, payload_cursor := payload_cursor d\<rparr>)"
proof -
  let ?off = "current_page_offset d" and ?d = "d'\<lparr>segment_index := segment_index d, payload_cursor := payload_cursor d\<rparr>"
  have off: "current_page_offset d' = ?off" using assms(2) by (simp add: page_loaded_def)
  obtain hdr tab pay where a: "fread 27 (drop ?off (env_file e)) = Some (hdr, tab @ pay)" "length tab = unat (hdr ! 26)"
      "segment_count d = length tab" "\<forall>i < length tab. segment_table d i = tab ! i"
      "segment_index d \<le> segment_count d \<longrightarrow> payload_cursor d = sum_list (map (\<lambda>i. unat (segment_table d i)) [0..<segment_index d])"
    using assms(1) unfolding page_of_def by blast
  obtain hdr' tab' pay' where b: "fread 27 (drop ?off (env_file e)) = Some (hdr', tab' @ pay')" "length tab' = unat (hdr' ! 26)"
      "segment_count d' = length tab'" "\<forall>i < length tab'. segment_table d' i = tab' ! i"
    using assms(3) unfolding page_of_def off by blast
  have same: "segment_count d' = segment_count d" "\<forall>i < segment_count d. segment_table d' i = segment_table d i"
    using a b by (auto simp: append_eq_append_conv)
  show ?thesis
  proof (cases "segment_index d < segment_count d")
    case True
    have "payload_cursor d = sum_list (map (\<lambda>i. unat (segment_table d' i)) [0..<segment_index d])"
      using a(5) True same(2) by (auto intro!: arg_cong[where f = sum_list])
    moreover have "[0..<segment_count d'] = [0..<segment_index d] @ [segment_index d..<segment_count d']"
      using True same(1) by (metis less_imp_le_nat upt_add_eq_append zero_le le_add_diff_inverse)
    ultimately have "payload_cursor d + segments_left ?d = segments_left d'"
      using assms(2) by (simp add: segments_left_def page_loaded_def)
    then show ?thesis using assms(2) by (simp add: cursor_ok_def page_loaded_def)
  qed (use same in \<open>simp add: cursor_ok_def\<close>)
qed

lemma cursor_ok_cong:
  "segment_index d' = segment_index d \<Longrightarrow> segment_count d' = segment_count d \<Longrightarrow> segment_table d' = segment_table d \<Longrightarrow>
   payload_cursor d' = payload_cursor d \<Longrightarrow> cursor_ok d' = cursor_ok d"
  by (simp add: cursor_ok_def segments_left_def)

lemma page_of_cong:
  "segment_index d' = segment_index d \<Longrightarrow> segment_count d' = segment_count d \<Longrightarrow> segment_table d' = segment_table d \<Longrightarrow>
   payload_cursor d' = payload_cursor d \<Longrightarrow> current_page_offset d' = current_page_offset d \<Longrightarrow> page_of e d' = page_of e d"
  by (simp add: page_of_def)

lemma frames_cursor:
  assumes "tags_frame d d' \<or> index_frame d d'"
  shows "segment_index d' = segment_index d" "segment_count d' = segment_count d" "segment_table d' = segment_table d"
    "payload_cursor d' = payload_cursor d" "current_page_offset d' = current_page_offset d" "crc_table d' = crc_table d"
  using assms by (cases d; cases d'; auto simp: tags_frame_def index_frame_def)+

lemma tags_frame_index: "tags_frame d d' \<Longrightarrow> page_index d' = page_index d"
  by (cases d; cases d') (simp add: tags_frame_def)

lemma tags_loop_frame: "tags_loop e skip bytes n pos stored d = Some (st, d') \<Longrightarrow> tags_frame d d'"
proof (induction n arbitrary: skip pos stored d)
  case (Suc n)
  show ?case using Suc.prems by (auto simp: ask_def Let_def split: if_splits bind_splits dest!: Suc.IH)
qed simp

lemma parse_opus_tags_frame: "parse_opus_tags e skip bytes d = Some d' \<Longrightarrow> tags_frame d d'"
  by (auto simp: parse_opus_tags_def ask_def Let_def split: if_splits bind_splits dest!: tags_loop_frame)

lemma parse_opus_head_frame:
  assumes "parse_opus_head bs d = (ok, d')"
  shows "segment_index d' = segment_index d" "segment_count d' = segment_count d" "segment_table d' = segment_table d"
    "payload_cursor d' = payload_cursor d" "current_page_offset d' = current_page_offset d" "page_index d' = page_index d"
  using assms by (auto simp: parse_opus_head_def Let_def split: if_splits)

lemma build_page_index_ok:
  "\<exists>ok d'. build_page_index e d = Some (ok, d') \<and> index_frame d d' \<and> (ok \<longrightarrow> index_ok e (page_index d'))"
proof -
  have "\<exists>d'. index_loop e 64 0 (d\<lparr>allocs := Suc (allocs d), page_index := []\<rparr>) = Some d' \<and>
      index_frame (d\<lparr>allocs := Suc (allocs d), page_index := []\<rparr>) d' \<and> index_ok e (page_index d')"
    by (rule index_loop_ok) (simp_all add: index_ok_def)
  then show ?thesis by (auto simp: build_page_index_def ask_def Let_def)
qed

text \<open>The part of the opening behind the header packets.\<close>

lemma open_index_ok:
  assumes "cursor_ok d" "page_of e d"
  shows "\<exists>r. (do { (ok, d2) \<leftarrow> build_page_index e d;
                if \<not> ok then Some None
                else do {
                  (ok, d3) \<leftarrow> load_page_at e (current_page_offset d) d2;
                  if \<not> ok then Some None
                  else Some (Some (d3\<lparr>segment_index := segment_index d, payload_cursor := payload_cursor d\<rparr>)) } }) = Some r \<and>
     (\<forall>d'. r = Some d' \<longrightarrow> demux_inv e d')"
proof -
  obtain ok d2 where b: "build_page_index e d = Some (ok, d2)" "index_frame d d2" "ok \<longrightarrow> index_ok e (page_index d2)"
    using build_page_index_ok by blast
  obtain ok3 d3 where l: "load_page_at e (current_page_offset d) d2 = Some (ok3, d3)" "same_stream d2 d3"
      "ok3 \<longrightarrow> page_loaded e (current_page_offset d) d3 \<and> page_of e d3"
    using load_page_at_ok by blast
  have "ok3 \<longrightarrow> cursor_ok (d3\<lparr>segment_index := segment_index d, payload_cursor := payload_cursor d\<rparr>)"
    using cursor_ok_restored[OF assms(2)] l(3) by blast
  moreover have "page_index d3 = page_index d2" using l(2) by (simp add: same_stream_def)
  ultimately show ?thesis using b l(1) by (cases ok; cases ok3) (simp_all add: demux_inv_def)
qed

lemma fresh_cursor: "cursor_ok (fresh_demux e)" "page_index (fresh_demux e) = []"
  by (simp_all add: fresh_demux_def cursor_ok_def)

lemma open_unfold:
  "ogg_demux_open_internal e build skip = (if \<not> env_grant e 0 1 \<or> \<not> env_grant e (Suc 0) OGG_MAX_PAGE_SIZE then Some None else do {
        (ok, d) \<leftarrow> load_page_at e 0 (fresh_demux e\<lparr>allocs := Suc (Suc 0)\<rparr>);
        if \<not> ok \<or> header_type d AND 0x02 = 0 then Some None
        else do {
          serial \<leftarrow> buf_get OGG_MAX_PAGE_SIZE (page_buf d) 14 4;
          let d = d\<lparr>serial_number := audio_read_u32le (\<lambda>i. serial ! i)\<rparr>;
          (head_packet, d) \<leftarrow> read_packet_growable e d;
          case head_packet of None \<Rightarrow> Some None
          | Some head_packet \<Rightarrow>
              let (head_ok, d) = parse_opus_head head_packet d in
              if \<not> head_ok then Some None
              else do {
                (tags_packet, d) \<leftarrow> read_packet_growable e d;
                case tags_packet of None \<Rightarrow> Some None
                | Some tags_packet \<Rightarrow> do {
                    d \<leftarrow> parse_opus_tags e skip tags_packet d;
                    if \<not> build then Some (Some d)
                    else do { (ok, d2) \<leftarrow> build_page_index e d;
                      if \<not> ok then Some None
                      else do {
                        (ok, d3) \<leftarrow> load_page_at e (current_page_offset d) d2;
                        if \<not> ok then Some None
                        else Some (Some (d3\<lparr>segment_index := segment_index d, payload_cursor := payload_cursor d\<rparr>)) } } } } } })"
  unfolding ogg_demux_open_internal_def ask_def Let_def by (simp add: fresh_demux_def)

lemma open_cases:
  "(\<exists>r. ogg_demux_open_internal e build skip = Some r \<and> (\<forall>d. r = Some d \<longrightarrow> demux_inv e d)) \<or>
   ogg_demux_open_internal e build skip = None \<and>
     (\<exists>bytes d. length bytes \<le> OGG_MAX_HEADER_PACKET_SIZE \<and> parse_opus_tags e skip bytes d = None)"
proof -
  define d0 where "d0 = fresh_demux e\<lparr>allocs := Suc (Suc 0)\<rparr>"
  obtain ok d1 where l: "load_page_at e 0 d0 = Some (ok, d1)" "same_stream d0 d1" "ok \<longrightarrow> page_loaded e 0 d1 \<and> page_of e d1"
    using load_page_at_ok by blast
  have i1: "page_index d1 = []" using l(2) by (simp add: same_stream_def d0_def fresh_demux_def)
  let ?open = "ogg_demux_open_internal e build skip"
  note start = open_unfold[of e build skip, folded d0_def]
  show ?thesis
  proof (cases "(\<not> env_grant e 0 1 \<or> \<not> env_grant e (Suc 0) OGG_MAX_PAGE_SIZE) \<or> \<not> ok \<or> header_type d1 AND 0x02 = 0")
    case True
    then have "?open = Some None" unfolding start l(1) by auto
    then show ?thesis by simp
  next
    case go: False
    obtain serial where serial: "buf_get OGG_MAX_PAGE_SIZE (page_buf d1) 14 4 = Some serial"
      by (simp add: buf_get_def OGG_MAX_PAGE_SIZE_val)
    define d2 where "d2 = d1\<lparr>serial_number := audio_read_u32le (\<lambda>i. serial ! i)\<rparr>"
    have p2: "cursor_ok d2" "page_of e d2" "page_index d2 = []"
      using go l(3) cursor_ok_loaded[of e 0 d1] cursor_ok_cong[of d2 d1] page_of_cong[of d2 d1 e] i1 by (simp_all add: d2_def)
    obtain hp d3 where h: "read_packet_growable e d2 = Some (hp, d3)" "cursor_ok d3" "same_stream d2 d3" "page_of e d3"
      using read_packet_growable_ok[OF p2(1)] p2(2) by blast
    show ?thesis
    proof (cases hp)
      case None
      then have "?open = Some None" unfolding start l(1) using go serial h(1) by (simp add: d2_def Let_def)
      then show ?thesis by simp
    next
      case hps: (Some head)
      obtain hok d4 where ph: "parse_opus_head head d3 = (hok, d4)" by (cases "parse_opus_head head d3")
      note fr = parse_opus_head_frame[OF ph]
      have p4: "cursor_ok d4" "page_of e d4" "page_index d4 = []"
        using h cursor_ok_cong[OF fr(1-4)] page_of_cong[OF fr(1-5)] fr(6) p2(3) by (simp_all add: same_stream_def)
      obtain tp d5 where t: "read_packet_growable e d4 = Some (tp, d5)" "cursor_ok d5" "same_stream d4 d5" "page_of e d5"
          "\<forall>bs. tp = Some bs \<longrightarrow> length bs \<le> OGG_MAX_HEADER_PACKET_SIZE"
        using read_packet_growable_ok[OF p4(1)] p4(2) by blast
      show ?thesis
      proof (cases "hok \<and> tp \<noteq> None")
        case False
        then have "?open = Some None" unfolding start l(1) using go serial h(1) hps ph t(1) by (auto simp: d2_def Let_def)
        then show ?thesis by simp
      next
        case True
        then obtain tags where tps: "tp = Some tags" "hok" by auto
        show ?thesis
        proof (cases "parse_opus_tags e skip tags d5")
          case None
          then have "?open = None" unfolding start l(1) using go serial h(1) hps ph t(1) tps by (simp add: d2_def Let_def)
          then show ?thesis using None t(5) tps(1) by blast
        next
          case parsed: (Some d6)
          have tg: "parse_opus_tags e skip tags d5 = Some d6" "tags_frame d5 d6" using parsed parse_opus_tags_frame by blast+
        note tf = frames_cursor[OF disjI1[OF tg(2)]]
        have p6: "cursor_ok d6" "page_of e d6" "page_index d6 = []"
          using t cursor_ok_cong[OF tf(1-4)] page_of_cong[OF tf(1-5)] tags_frame_index[OF tg(2)] p4(3) by (simp_all add: same_stream_def)
        have "?open = (if \<not> build then Some (Some d6) else do { (ok, d2) \<leftarrow> build_page_index e d6;
                      if \<not> ok then Some None
                      else do {
                        (ok, d3) \<leftarrow> load_page_at e (current_page_offset d6) d2;
                        if \<not> ok then Some None
                        else Some (Some (d3\<lparr>segment_index := segment_index d6, payload_cursor := payload_cursor d6\<rparr>)) } })"
          unfolding start l(1) using go serial h(1) hps ph t(1) tps tg(1) by (simp add: d2_def Let_def)
        then show ?thesis using open_index_ok[OF p6(1,2)] p6 by (cases build) (simp_all add: demux_inv_def index_ok_def)
        qed
      qed
    qed
  qed
qed

section \<open>Seeking\<close>

lemma seek_loop_step:
  assumes "lo \<le> hi" and mid: "mid = lo + (hi - lo) div 2" and "mid < length idx"
  shows "seek_loop idx target lo hi result =
     (if snd (idx ! mid) \<le> target then (if mid = length idx - 1 then Some mid else seek_loop idx target (mid + 1) hi mid)
      else if mid = 0 then Some result else seek_loop idx target lo (mid - 1) result)"
  unfolding seek_loop.simps[of idx target lo hi result] Let_def mid[symmetric] using assms(1,3) by simp

lemma seek_loop_ok:
  assumes "hi < length idx" and "result < length idx"
  shows "\<exists>r. seek_loop idx target lo hi result = Some r \<and> r < length idx"
  using assms
proof (induction "Suc hi - lo" arbitrary: lo hi result rule: less_induct)
  case less
  define mid where "mid = lo + (hi - lo) div 2"
  show ?case
  proof (cases "lo \<le> hi")
    case True
    have m: "lo \<le> mid" "mid \<le> hi" using True by (auto simp: mid_def)
    then have inb: "mid < length idx" using less.prems(1) by simp
    have right: "\<exists>r. seek_loop idx target (mid + 1) hi mid = Some r \<and> r < length idx"
      using less.hyps[of hi "mid + 1" mid] m less.prems(1) inb by auto
    have left: "\<exists>r. seek_loop idx target lo (mid - 1) result = Some r \<and> r < length idx" if "mid \<noteq> 0"
      using less.hyps[of "mid - 1" lo result] m less.prems inb that by auto
    show ?thesis using right left inb less.prems(2) unfolding seek_loop_step[OF True mid_def inb] by auto
  next
    case False
    then show ?thesis using less.prems by (subst seek_loop.simps) simp
  qed
qed

text \<open>On a sorted index the search finds the last entry at or before the target.\<close>

lemma seek_loop_sorted:
  assumes "sorted (map snd idx)" and "lo \<le> Suc hi" and "hi < length idx" and "result = lo - 1"
    and "\<forall>i < lo. snd (idx ! i) \<le> target" and "\<forall>i. hi < i \<and> i < length idx \<longrightarrow> target < snd (idx ! i)"
  shows "\<exists>r < length idx. seek_loop idx target lo hi result = Some r \<and>
     (\<forall>i < length idx. r < i \<longrightarrow> target < snd (idx ! i)) \<and> (r = 0 \<or> snd (idx ! r) \<le> target)"
  using assms(2-)
proof (induction "Suc hi - lo" arbitrary: lo hi result rule: less_induct)
  case less
  define mid where "mid = lo + (hi - lo) div 2"
  have mono: "snd (idx ! i) \<le> snd (idx ! j)" if "i \<le> j" "j < length idx" for i j
    using sorted_nth_mono[OF assms(1) that(1)] that by simp
  show ?case
  proof (cases "lo \<le> hi")
    case True
    have m: "lo \<le> mid" "mid \<le> hi" using True by (auto simp: mid_def)
    then have inb: "mid < length idx" using less.prems(2) by simp
    show ?thesis
    proof (cases "snd (idx ! mid) \<le> target")
      case below: True
      have lows: "\<forall>i < mid + 1. snd (idx ! i) \<le> target" 
      proof (intro allI impI)
        fix i assume "i < mid + 1"
        then have "snd (idx ! i) \<le> snd (idx ! mid)" using mono inb by simp
        also note below
        finally show "snd (idx ! i) \<le> target" .
      qed
      show ?thesis
      proof (cases "mid = length idx - 1")
        case True
        then have "seek_loop idx target lo hi result = Some mid"
          using below unfolding seek_loop_step[OF \<open>lo \<le> hi\<close> mid_def inb] by simp
        moreover have "\<forall>i < length idx. mid < i \<longrightarrow> target < snd (idx ! i)" 
        proof (intro allI impI)
          fix i assume "i < length idx" "mid < i"
          then have False using True by linarith
          then show "target < snd (idx ! i)" ..
        qed
        ultimately show ?thesis using inb below by blast
      next
        case False
        then have "seek_loop idx target lo hi result = seek_loop idx target (mid + 1) hi mid"
          using below unfolding seek_loop_step[OF \<open>lo \<le> hi\<close> mid_def inb] by simp
        moreover have "Suc hi - (mid + 1) < Suc hi - lo" "mid + 1 \<le> Suc hi" using m by auto
        ultimately show ?thesis using less.hyps[of hi "mid + 1" mid] less.prems(2,5) lows by simp
      qed
    next
      case above: False
      have highs: "\<forall>i. mid - 1 < i \<and> i < length idx \<longrightarrow> target < snd (idx ! i)"
      proof (intro allI impI)
        fix i assume i: "mid - 1 < i \<and> i < length idx"
        then have "mid \<le> i" by linarith
        have "target < snd (idx ! mid)" using above by (simp only: not_le)
        also have "\<dots> \<le> snd (idx ! i)" using mono \<open>mid \<le> i\<close> i by blast
        finally show "target < snd (idx ! i)" .
      qed
      have lo0: "mid = 0 \<Longrightarrow> lo = 0" using m by simp
      show ?thesis
      proof (cases "mid = 0")
        case True
        then have "seek_loop idx target lo hi result = Some result"
          using above unfolding seek_loop_step[OF \<open>lo \<le> hi\<close> mid_def inb] by simp
        moreover have "result = 0" using less.prems(3) lo0[OF True] by simp
        moreover have "\<forall>i < length idx. 0 < i \<longrightarrow> target < snd (idx ! i)" using highs True by simp
        ultimately show ?thesis using inb unfolding True by (intro exI[of _ 0]) simp
      next
        case False
        then have "seek_loop idx target lo hi result = seek_loop idx target lo (mid - 1) result"
          using above unfolding seek_loop_step[OF \<open>lo \<le> hi\<close> mid_def inb] by simp
        moreover have "Suc (mid - 1) - lo < Suc hi - lo" "lo \<le> Suc (mid - 1)" "mid - 1 < length idx" using m inb False by auto
        ultimately show ?thesis using less.hyps[of "mid - 1" lo result] less.prems(3,4) highs by simp
      qed
    qed
  next
    case False
    then have lo: "lo = Suc hi" using less.prems(1) by simp
    have "seek_loop idx target lo hi result = Some result" using False by (subst seek_loop.simps) simp
    moreover have "result = hi" using less.prems(3) lo by simp
    ultimately show ?thesis using less.prems(2,4,5) lo by (intro exI[of _ hi]) simp
  qed
qed

lemma seek_ok:
  assumes "demux_inv e d"
  shows "\<exists>g d'. ogg_demux_seek_near_granule target d = Some (g, d') \<and> demux_inv e d'"
proof (cases "page_index d = []")
  case True
  then show ?thesis using assms by (simp add: ogg_demux_seek_near_granule_def)
next
  case False
  then have "length (page_index d) - 1 < length (page_index d)" "0 < length (page_index d)" by auto
  from seek_loop_ok[OF this] obtain r where "seek_loop (page_index d) target 0 (length (page_index d) - 1) 0 = Some r" "r < length (page_index d)" by blast
  then show ?thesis using assms False
    by (cases "page_index d ! r") (auto simp: ogg_demux_seek_near_granule_def demux_inv_def cursor_ok_def)
qed

section \<open>The demuxer as a machine\<close>

datatype demux_call = Read_packet nat | Seek_granule u64

fun run_demux :: "ogg_env \<Rightarrow> demux_call \<Rightarrow> ogg_demux \<Rightarrow> ogg_demux option" where
  "run_demux e (Read_packet buf_size) d = map_option (\<lambda>(n, bytes, d'). d') (ogg_demux_read_packet e buf_size d)"
| "run_demux e (Seek_granule target) d = map_option snd (ogg_demux_seek_near_granule target d)"

definition demux_opened :: "ogg_env \<Rightarrow> ogg_demux \<Rightarrow> bool" where
  "demux_opened e d \<longleftrightarrow> ogg_demux_open e = Some (Some d) \<or> ogg_demux_open_metadata e True = Some (Some d) \<or>
     ogg_demux_open_metadata e False = Some (Some d)"

lemma run_demux_ok: "demux_inv e d \<Longrightarrow> \<exists>d'. run_demux e c d = Some d' \<and> demux_inv e d'"
proof (cases c)
  case (Read_packet n)
  assume inv: "demux_inv e d"
  then obtain k bs d' where "read_packet_loop e n [] d = Some (k, bs, d')" "cursor_ok d'" "same_stream d d'"
    using read_packet_loop_ok[of d "[]" n e] by (auto simp: demux_inv_def)
  then show ?thesis using inv Read_packet by (simp add: ogg_demux_read_packet_def demux_inv_def same_stream_def)
next
  case (Seek_granule t)
  assume "demux_inv e d"
  then show ?thesis using seek_ok[of e d t] Seek_granule by auto
qed

interpretation dm: safe_machine "demux_opened e" "\<lambda>c d. True" "run_demux e" "demux_inv e" for e
proof
  fix d assume o: "demux_opened e d"
  then obtain b s where "ogg_demux_open_internal e b s = Some (Some d)"
    unfolding demux_opened_def ogg_demux_open_def ogg_demux_open_metadata_def by blast
  then show "demux_inv e d" using open_cases[of e b s] by auto
qed (rule run_demux_ok)

end
