(* ===== verification/Ogg_Demux_Stream.thy ===== *)
theory Ogg_Demux_Stream
  imports Ogg_Demux_Inv
begin

text \<open>
  What the demuxer delivers: a reference multiplexer that lays pages out as RFC 3533 describes, the
  packets of a list of lacing segments, and the proof that opening such a file and reading from it
  delivers exactly its packets.
\<close>

unbundle bit_operations_syntax

section \<open>Reference\<close>

record ogg_page =
  pg_type :: byte
  pg_granule :: u64
  pg_serial :: u32
  pg_seqno :: u32
  pg_segs :: "byte list list"

definition page_ok :: "ogg_page \<Rightarrow> bool" where
  "page_ok p \<longleftrightarrow> pg_segs p \<noteq> [] \<and> length (pg_segs p) \<le> 255 \<and> (\<forall>s \<in> set (pg_segs p). length s \<le> 255)"

definition lacing :: "ogg_page \<Rightarrow> byte list" where
  "lacing p = map (\<lambda>s. of_nat (length s)) (pg_segs p)"

definition page_head :: "ogg_page \<Rightarrow> byte list \<Rightarrow> byte list" where
  "page_head p crc = capture_pattern @ [0, pg_type p] @ le_bytes 8 (unat (pg_granule p)) @ le_bytes 4 (unat (pg_serial p)) @
     le_bytes 4 (unat (pg_seqno p)) @ crc @ [of_nat (length (pg_segs p))]"

definition page_crc :: "ogg_page \<Rightarrow> u32" where
  "page_crc p = ogg_crc32 ogg_crc_init_table (page_head p [0, 0, 0, 0] @ lacing p @ concat (pg_segs p))"

definition page_bytes :: "ogg_page \<Rightarrow> byte list" where
  "page_bytes p = page_head p (le_bytes 4 (unat (page_crc p))) @ lacing p @ concat (pg_segs p)"

text \<open>A packet ends with the first segment that is shorter than 255 bytes.\<close>

fun next_packet :: "byte list list \<Rightarrow> (byte list \<times> byte list list) option" where
  "next_packet [] = None"
| "next_packet (s # ss) = (if length s < 255 then Some (s, ss)
     else map_option (\<lambda>(p, rest). (s @ p, rest)) (next_packet ss))"

lemma next_packet_shorter: "next_packet ss = Some (p, rest) \<Longrightarrow> length rest < length ss"
  by (induction ss arbitrary: p) (fastforce split: if_splits)+

function packets :: "byte list list \<Rightarrow> byte list list" where
  "packets ss = (case next_packet ss of None \<Rightarrow> [] | Some (p, rest) \<Rightarrow> p # packets rest)"
  by pat_completeness auto
termination
  by (relation "measure length") (auto dest: next_packet_shorter)

declare packets.simps [simp del]

section \<open>Loading a page of the reference\<close>

lemma length_page_head [simp]: "length crc = 4 \<Longrightarrow> length (page_head p crc) = 27"
  by (simp add: page_head_def capture_pattern_def)

lemma page_head_parts:
  assumes "length crc = 4"
  shows "take 4 (page_head p crc) = capture_pattern" "page_head p crc ! 4 = 0" "page_head p crc ! 5 = pg_type p"
    "page_head p crc ! 26 = of_nat (length (pg_segs p))" "take 22 (page_head p crc) @ [0, 0, 0, 0] @ drop 26 (page_head p crc) = page_head p [0, 0, 0, 0]"
    "page_head p crc ! 22 = crc ! 0" "page_head p crc ! 23 = crc ! 1" "page_head p crc ! 24 = crc ! 2" "page_head p crc ! 25 = crc ! 3"
  using assms by (simp_all add: page_head_def capture_pattern_def nth_append)

lemma list4: "length xs = 4 \<Longrightarrow> xs = [xs ! 0, xs ! 1, xs ! 2, xs ! 3]"
  by (auto simp: numeral_eq_Suc length_Suc_conv)

lemma lacing_sum: "page_ok p \<Longrightarrow> sum_list (map unat (lacing p)) = length (concat (pg_segs p))"
proof -
  assume "page_ok p"
  then have "\<forall>s \<in> set (pg_segs p). length s \<le> 255" by (simp add: page_ok_def)
  then have "map (\<lambda>s. unat (of_nat (length s) :: byte)) (pg_segs p) = map length (pg_segs p)"
    by (intro map_cong refl) (use le_imp_less_Suc in fastforce)
  from arg_cong[OF this, of sum_list] show ?thesis by (simp add: lacing_def comp_def length_concat del: unat_of_nat_byte)
qed

lemma length_page_bytes: "length (page_bytes p) = 27 + length (pg_segs p) + length (concat (pg_segs p))"
  by (simp add: page_bytes_def lacing_def)

lemma load_reference_page:
  assumes ok: "page_ok p" and crc: "crc_table d = ogg_crc_init_table" and f: "drop offset (env_file e) = page_bytes p @ rest"
  shows "load_page_at e offset d = Some (True, d\<lparr>page_buf := overlay (page_buf d) 0 (page_bytes p), current_page_offset := offset,
     segment_table := overlay (segment_table d) 0 (lacing p), segment_count := length (pg_segs p), segment_index := 0, payload_cursor := 0,
     header_type := pg_type p, next_page_offset := offset + length (page_bytes p)\<rparr>)"
proof -
  let ?c = "le_bytes 4 (unat (page_crc p))"
  let ?h = "page_head p ?c"
  have lc: "length ?c = 4" by simp
  note hp = page_head_parts[OF lc, of p]
  have n: "length (pg_segs p) \<le> 255" using ok by (simp add: page_ok_def)
  have fr: "fread 27 (drop offset (env_file e)) = Some (?h, lacing p @ concat (pg_segs p) @ rest)"
    unfolding f page_bytes_def using fread_append[of 27 ?h "lacing p @ concat (pg_segs p) @ rest"] by simp
  have lt: "length (lacing p) = unat (?h ! 26)" using n by (simp only: hp(4)) (simp add: lacing_def)
  have stored: "audio_read_u32le (\<lambda>i. ?h ! (22 + i)) = page_crc p"
  proof -
    have four: "?c = [?c ! 0, ?c ! 1, ?c ! 2, ?c ! 3]" by (rule list4[OF lc])
    have "unat (audio_read_u32le (\<lambda>i. ?h ! (22 + i))) = le_val [?c ! 0, ?c ! 1, ?c ! 2, ?c ! 3]"
      using hp(6-9) by (simp add: audio_read_u32le_val del: le_val.simps)
    also have "\<dots> = unat (page_crc p) mod 256 ^ 4" using le_val_le_bytes[of 4 "unat (page_crc p)"] by (simp only: four[symmetric])
    also have "\<dots> = unat (page_crc p)" using unsigned_less[of "page_crc p", where ?'a = nat] by simp
    finally show ?thesis by (simp only: word_unat_eq_iff)
  qed
  have all: "?h @ lacing p @ take (length (concat (pg_segs p))) (concat (pg_segs p) @ rest) = page_bytes p"
    by (simp add: page_bytes_def)
  have zeroed: "take 22 ?h @ [0, 0, 0, 0] @ drop 26 ?h @ lacing p @ take (length (concat (pg_segs p))) (concat (pg_segs p) @ rest) =
      page_head p [0, 0, 0, 0] @ lacing p @ concat (pg_segs p)"
  proof -
    have "(take 22 ?h @ [0, 0, 0, 0] @ drop 26 ?h) @ lacing p @ concat (pg_segs p) = page_head p [0, 0, 0, 0] @ lacing p @ concat (pg_segs p)"
      by (simp only: hp(5))
    then show ?thesis by (simp only: append.assoc) simp
  qed
  note eq = load_page_at_eq[OF fr hp(1,2) lt lacing_sum[OF ok, symmetric], of d, unfolded Let_def all zeroed stored crc hp(3)]
  have "length (lacing p) = length (pg_segs p)" by (simp add: lacing_def)
  then show ?thesis unfolding eq length_page_bytes by (simp add: page_crc_def)
qed

section \<open>The stream a demuxer stands in\<close>

definition pages_file :: "ogg_page list \<Rightarrow> byte list" where
  "pages_file ps = concat (map page_bytes ps)"

definition pages_segs :: "ogg_page list \<Rightarrow> byte list list" where
  "pages_segs ps = concat (map pg_segs ps)"

lemma pages_simps [simp]:
  "pages_file [] = []" "pages_file (p # ps) = page_bytes p @ pages_file ps"
  "pages_segs [] = []" "pages_segs (p # ps) = pg_segs p @ pages_segs ps"
  by (simp_all add: pages_file_def pages_segs_def)

text \<open>The demuxer has loaded page \<open>p\<close>, with the pages \<open>after\<close> behind it.\<close>

definition stream_on :: "ogg_env \<Rightarrow> ogg_demux \<Rightarrow> ogg_page \<Rightarrow> ogg_page list \<Rightarrow> bool" where
  "stream_on e d p after \<longleftrightarrow> page_ok p \<and> (\<forall>q \<in> set after. page_ok q) \<and> crc_table d = ogg_crc_init_table \<and>
     drop (current_page_offset d) (env_file e) = page_bytes p @ pages_file after \<and>
     next_page_offset d = current_page_offset d + length (page_bytes p) \<and>
     segment_count d = length (pg_segs p) \<and> segment_index d \<le> segment_count d \<and>
     (\<forall>i < segment_count d. segment_table d i = lacing p ! i) \<and>
     payload_cursor d = length (concat (take (segment_index d) (pg_segs p))) \<and>
     (\<forall>i < length (page_bytes p). page_buf d i = page_bytes p ! i)"

definition stream_at :: "ogg_env \<Rightarrow> ogg_demux \<Rightarrow> byte list list \<Rightarrow> bool" where
  "stream_at e d ss \<longleftrightarrow> (\<exists>p after. stream_on e d p after \<and> ss = drop (segment_index d) (pg_segs p) @ pages_segs after)"

lemma stream_on_cong:
  "crc_table d' = crc_table d \<Longrightarrow> current_page_offset d' = current_page_offset d \<Longrightarrow> next_page_offset d' = next_page_offset d \<Longrightarrow>
   segment_count d' = segment_count d \<Longrightarrow> segment_index d' = segment_index d \<Longrightarrow> segment_table d' = segment_table d \<Longrightarrow>
   payload_cursor d' = payload_cursor d \<Longrightarrow> page_buf d' = page_buf d \<Longrightarrow> stream_on e d' p after = stream_on e d p after"
  by (simp add: stream_on_def)

lemma stream_at_cong:
  "crc_table d' = crc_table d \<Longrightarrow> current_page_offset d' = current_page_offset d \<Longrightarrow> next_page_offset d' = next_page_offset d \<Longrightarrow>
   segment_count d' = segment_count d \<Longrightarrow> segment_index d' = segment_index d \<Longrightarrow> segment_table d' = segment_table d \<Longrightarrow>
   payload_cursor d' = payload_cursor d \<Longrightarrow> page_buf d' = page_buf d \<Longrightarrow> stream_at e d' ss = stream_at e d ss"
  by (simp add: stream_at_def stream_on_def)

lemma stream_on_loaded:
  assumes "page_ok p" "\<forall>q \<in> set after. page_ok q" "crc_table d = ogg_crc_init_table" "drop offset (env_file e) = page_bytes p @ pages_file after"
  obtains d' where "load_page_at e offset d = Some (True, d')" "stream_on e d' p after" "segment_index d' = 0" "header_type d' = pg_type p"
    "same_stream d d'" "allocs d' = allocs d" "current_page_offset d' = offset"
proof -
  have "length (lacing p) = length (pg_segs p)" by (simp add: lacing_def)
  then show thesis using that[OF load_reference_page[OF assms(1,3,4)]] assms
    by (simp add: stream_on_def overlay_def same_stream_def)
qed

text \<open>The bytes of a segment of the loaded page.\<close>

lemma segment_bytes:
  assumes "i < length segs"
  shows "take (length (segs ! i)) (drop (length (concat (take i segs))) (concat segs)) = segs ! i"
proof -
  have "concat segs = concat (take i segs) @ segs ! i @ concat (drop (Suc i) segs)"
    using id_take_nth_drop[OF assms] by (metis concat.simps(2) concat_append)
  then show ?thesis by simp
qed

lemma stream_on_segment:
  assumes on: "stream_on e d p after" and i: "segment_index d < segment_count d"
  defines "s \<equiv> pg_segs p ! segment_index d" and "pos \<equiv> 27 + segment_count d + payload_cursor d"
  shows "unat (segment_table d (segment_index d)) = length s" "map (page_buf d) [pos..<pos + length s] = s"
    "pos + length s \<le> OGG_MAX_PAGE_SIZE"
    "stream_on e (d\<lparr>segment_index := segment_index d + 1, payload_cursor := payload_cursor d + length s\<rparr>) p after"
proof -
  let ?i = "segment_index d" and ?segs = "pg_segs p"
  have o: "page_ok p" "segment_count d = length ?segs" "payload_cursor d = length (concat (take ?i ?segs))"
      "\<forall>i < segment_count d. segment_table d i = lacing p ! i" "\<forall>i < length (page_bytes p). page_buf d i = page_bytes p ! i"
    using on by (auto simp: stream_on_def)
  have il: "?i < length ?segs" using i o(2) by simp
  have ls: "length s \<le> 255" using o(1) il by (simp add: page_ok_def s_def)
  then show "unat (segment_table d ?i) = length s" using o(4) i il by (simp add: lacing_def s_def)
  have split: "concat ?segs = concat (take ?i ?segs) @ s @ concat (drop (Suc ?i) ?segs)"
    using id_take_nth_drop[OF il] by (metis concat.simps(2) concat_append s_def)
  then have inb: "pos + length s \<le> length (page_bytes p)" using o(2,3) by (simp add: pos_def length_page_bytes)
  have "page_bytes p = (page_head p (le_bytes 4 (unat (page_crc p))) @ lacing p @ concat (take ?i ?segs)) @ s @ concat (drop (Suc ?i) ?segs)"
    using split by (simp add: page_bytes_def)
  moreover have "length (page_head p (le_bytes 4 (unat (page_crc p))) @ lacing p @ concat (take ?i ?segs)) = pos"
    using o(2,3) by (simp add: pos_def lacing_def)
  ultimately have "take (length s) (drop pos (page_bytes p)) = s" by (metis append_eq_conv_conj)
  moreover have "map (page_buf d) [pos..<pos + length s] = take (length s) (drop pos (page_bytes p))"
    using inb o(5) by (intro nth_equalityI) simp_all
  ultimately show "map (page_buf d) [pos..<pos + length s] = s" by simp
  have "length (page_bytes p) \<le> OGG_MAX_PAGE_SIZE"
    using page_size_fits[of "lacing p"] o(1) lacing_sum[OF o(1)] by (simp add: length_page_bytes page_ok_def lacing_def)
  then show "pos + length s \<le> OGG_MAX_PAGE_SIZE" using inb by simp
  show "stream_on e (d\<lparr>segment_index := ?i + 1, payload_cursor := payload_cursor d + length s\<rparr>) p after"
    using on i il by (simp add: stream_on_def take_Suc_conv_app_nth s_def)
qed

lemma next_segment_in_page:
  assumes on: "stream_on e d q rest" and i: "segment_index d < segment_count d"
    and ss: "s # ss = drop (segment_index d) (pg_segs q) @ pages_segs rest"
  shows "\<exists>pos d'. next_segment e d = Some (Some (length s, pos), d') \<and> map (page_buf d') [pos..<pos + length s] = s \<and>
     pos + length s \<le> OGG_MAX_PAGE_SIZE \<and> stream_at e d' ss \<and> same_stream d d' \<and> allocs d' = allocs d"
proof -
  let ?pos = "27 + segment_count d + payload_cursor d"
  let ?d = "d\<lparr>segment_index := segment_index d + 1, payload_cursor := payload_cursor d + length s\<rparr>"
  have q: "segment_count d = length (pg_segs q)" "length (pg_segs q) \<le> 255" using on by (auto simp: stream_on_def page_ok_def)
  have hd: "s = pg_segs q ! segment_index d" "ss = drop (Suc (segment_index d)) (pg_segs q) @ pages_segs rest"
    using ss i q(1) by (auto simp: Cons_nth_drop_Suc[symmetric])
  note seg = stream_on_segment[OF on i, folded hd(1)]
  have "buf_get OGG_MAX_PAGE_SEGMENTS (segment_table d) (segment_index d) 1 = Some [segment_table d (segment_index d)]"
    using i q by (simp add: buf_get_def OGG_MAX_PAGE_SEGMENTS_def)
  then have "next_segment e d = Some (Some (length s, ?pos), ?d)"
    using i by (simp add: next_segment_def Let_def seg(1))
  moreover have "stream_at e ?d ss" unfolding stream_at_def using seg(4) hd(2) by auto
  ultimately show ?thesis using seg(2,3) by (intro exI[of _ ?pos] exI[of _ ?d]) (simp add: same_stream_def)
qed

lemma next_segment_loaded:
  "segment_count d \<le> segment_index d \<Longrightarrow> load_page_at e (next_page_offset d) d = Some (True, d0) \<Longrightarrow>
   segment_index d0 < segment_count d0 \<Longrightarrow> next_segment e d = next_segment e d0"
  by (simp add: next_segment_def)

lemma next_segment_stream:
  assumes "stream_at e d (s # ss)"
  shows "\<exists>pos d'. next_segment e d = Some (Some (length s, pos), d') \<and> map (page_buf d') [pos..<pos + length s] = s \<and>
     pos + length s \<le> OGG_MAX_PAGE_SIZE \<and> stream_at e d' ss \<and> same_stream d d' \<and> allocs d' = allocs d"
proof -
  obtain p after where on: "stream_on e d p after" and ss: "s # ss = drop (segment_index d) (pg_segs p) @ pages_segs after"
    using assms by (auto simp: stream_at_def)
  have count: "segment_count d = length (pg_segs p)" using on by (simp add: stream_on_def)
  show ?thesis
  proof (cases "segment_index d < segment_count d")
    case True
    show ?thesis by (rule next_segment_in_page[OF on True ss])
  next
    case False
    then have ss': "s # ss = pages_segs after" using ss count by simp
    then obtain q rest where after: "after = q # rest" by (cases after) auto
    have ok: "page_ok q" "\<forall>r \<in> set rest. page_ok r" "crc_table d = ogg_crc_init_table" using on after by (auto simp: stream_on_def)
    have o: "drop (current_page_offset d) (env_file e) = page_bytes p @ pages_file after"
        "next_page_offset d = current_page_offset d + length (page_bytes p)" using on by (simp_all add: stream_on_def)
    have "drop (next_page_offset d) (env_file e) = drop (length (page_bytes p)) (drop (current_page_offset d) (env_file e))"
      unfolding o(2) by (simp only: drop_drop add.commute)
    also have "\<dots> = page_bytes q @ pages_file rest" unfolding o(1) after by simp
    finally have f: "drop (next_page_offset d) (env_file e) = page_bytes q @ pages_file rest" .
    obtain d0 where l: "load_page_at e (next_page_offset d) d = Some (True, d0)" "stream_on e d0 q rest" "segment_index d0 = 0"
        "same_stream d d0" "allocs d0 = allocs d"
      by (rule stream_on_loaded[OF ok f])
    have i: "segment_index d0 < segment_count d0" using l(2,3) ok(1) by (auto simp: stream_on_def page_ok_def)
    have "s # ss = drop (segment_index d0) (pg_segs q) @ pages_segs rest" using ss' after l(3) by simp
    from next_segment_in_page[OF l(2) i this] obtain pos d' where
      "next_segment e d0 = Some (Some (length s, pos), d')" "map (page_buf d') [pos..<pos + length s] = s"
      "pos + length s \<le> OGG_MAX_PAGE_SIZE" "stream_at e d' ss" "same_stream d0 d'" "allocs d' = allocs d0" by blast
    moreover have "next_segment e d = next_segment e d0" using False l(1) i by (intro next_segment_loaded) simp_all
    ultimately show ?thesis using same_stream_trans[OF l(4)] l(5) by auto
  qed
qed

lemma next_segment_end:
  assumes "stream_at e d []"
  shows "next_segment e d = Some (None, d)"
proof -
  obtain p after where on: "stream_on e d p after" and ss: "drop (segment_index d) (pg_segs p) @ pages_segs after = []"
    using assms by (auto simp: stream_at_def)
  have after: "after = []" using ss on by (cases after) (auto simp: stream_on_def page_ok_def)
  have o: "drop (current_page_offset d) (env_file e) = page_bytes p" "next_page_offset d = current_page_offset d + length (page_bytes p)"
      "segment_count d \<le> segment_index d"
    using on ss unfolding after by (auto simp: stream_on_def)
  have "drop (next_page_offset d) (env_file e) = drop (length (page_bytes p)) (drop (current_page_offset d) (env_file e))"
    unfolding o(2) by (simp only: drop_drop add.commute)
  also have "\<dots> = []" unfolding o(1) by simp
  finally show ?thesis using o(3) by (simp add: next_segment_def load_page_at_def fread_def)
qed

section \<open>Reading packets\<close>

lemma read_packet_loop_stream:
  assumes "stream_at e d ss" and "next_packet ss = Some (p, rest)" and "length out + length p \<le> buf_size"
  shows "\<exists>d'. read_packet_loop e buf_size out d = Some (length out + length p, out @ p, d') \<and> stream_at e d' rest"
  using assms
proof (induction ss arbitrary: d p out)
  case (Cons s ss)
  obtain pos d' where n: "next_segment e d = Some (Some (length s, pos), d')" "map (page_buf d') [pos..<pos + length s] = s"
      "pos + length s \<le> OGG_MAX_PAGE_SIZE" "stream_at e d' ss"
    using next_segment_stream[OF Cons.prems(1)] by blast
  have g: "buf_get OGG_MAX_PAGE_SIZE (page_buf d') pos (length s) = Some s" using n(2) buf_get_Some[OF n(3)] by simp
  show ?case
  proof (cases "length s < 255")
    case True
    then have "p = s" "rest = ss" using Cons.prems(2) by auto
    then show ?thesis using Cons.prems(3) n(1,4) g True by (subst read_packet_loop.simps) simp
  next
    case False
    then obtain p' where p': "next_packet ss = Some (p', rest)" "p = s @ p'" using Cons.prems(2) by auto
    have "read_packet_loop e buf_size out d = read_packet_loop e buf_size (out @ s) d'"
      using Cons.prems(3) p'(2) n(1) g False by (subst read_packet_loop.simps) simp
    then show ?thesis using Cons.IH[OF n(4) p'(1), of "out @ s"] Cons.prems(3) p'(2) by (simp add: add.assoc)
  qed
qed simp

lemma read_packet_stream:
  assumes "stream_at e d ss" and "next_packet ss = Some (p, rest)" and "length p \<le> buf_size"
  shows "\<exists>d'. ogg_demux_read_packet e buf_size d = Some (length p, p, d') \<and> stream_at e d' rest"
  using read_packet_loop_stream[OF assms(1,2), of "[]" buf_size] assms(3) by (simp add: ogg_demux_read_packet_def)

lemma read_packet_end:
  assumes "stream_at e d []"
  shows "ogg_demux_read_packet e buf_size d = Some (0, [], d)"
  unfolding ogg_demux_read_packet_def by (subst read_packet_loop.simps) (simp add: next_segment_end[OF assms])

lemma growable_loop_stream:
  assumes "stream_at e d ss" and "next_packet ss = Some (p, rest)" and "length buf + length p \<le> OGG_MAX_HEADER_PACKET_SIZE"
    and "0 < capacity" and "\<forall>k n. env_grant e k n"
  shows "\<exists>d'. growable_loop e capacity buf d = Some (Some (buf @ p), d') \<and> stream_at e d' rest \<and> same_stream d d'"
  using assms(1-4)
proof (induction ss arbitrary: d p buf capacity)
  case (Cons s ss)
  obtain pos d' where n: "next_segment e d = Some (Some (length s, pos), d')" "map (page_buf d') [pos..<pos + length s] = s"
      "pos + length s \<le> OGG_MAX_PAGE_SIZE" "stream_at e d' ss" "same_stream d d'"
    using next_segment_stream[OF Cons.prems(1)] by blast
  have len: "length s \<le> length p" using Cons.prems(2) by (auto split: if_splits)
  have room: "\<not> OGG_MAX_HEADER_PACKET_SIZE - length s < length buf" using Cons.prems(3) len by simp
  obtain c where c: "grow_capacity (length buf + length s) capacity = Some c" "length buf + length s \<le> c" "0 < c"
    using grow_capacity_ok[OF Cons.prems(4), of "length buf + length s"] Cons.prems(3) len by auto
  define d0 where "d0 = (if capacity < length buf + length s then d'\<lparr>allocs := Suc (allocs d')\<rparr> else d')"
  define c0 where "c0 = (if capacity < length buf + length s then c else capacity)"
  have c0: "length buf + length s \<le> c0" "0 < c0" using c Cons.prems(4) by (auto simp: c0_def)
  have d0: "stream_at e d0 ss" "same_stream d d0"
    using n(4,5) stream_at_cong[of "d'\<lparr>allocs := Suc (allocs d')\<rparr>" d'] by (auto simp: d0_def)
  have g: "buf_get OGG_MAX_PAGE_SIZE (page_buf d') pos (length s) = Some s" using n(2) buf_get_Some[OF n(3)] by simp
  have run: "growable_loop e capacity buf d = (if length s < 255 then Some (Some (buf @ s), d0) else growable_loop e c0 (buf @ s) d0)"
    using n(1) room c(1,2) g assms(5) by (subst growable_loop.simps) (simp add: ask_def d0_def c0_def not_less)
  show ?case
  proof (cases "length s < 255")
    case True
    then show ?thesis using run d0 Cons.prems(2) by simp
  next
    case False
    then obtain p' where p': "next_packet ss = Some (p', rest)" "p = s @ p'" using Cons.prems(2) by auto
    have "\<exists>d'. growable_loop e c0 (buf @ s) d0 = Some (Some ((buf @ s) @ p'), d') \<and> stream_at e d' rest \<and> same_stream d0 d'"
      using Cons.IH[OF d0(1) p'(1) _ c0(2), of "buf @ s"] Cons.prems(3) p'(2) by simp
    then show ?thesis using run False p'(2) same_stream_trans[OF d0(2)] by auto
  qed
qed simp

lemma read_packet_growable_stream:
  assumes "stream_at e d ss" and "next_packet ss = Some (p, rest)" and "length p \<le> OGG_MAX_HEADER_PACKET_SIZE" and "\<forall>k n. env_grant e k n"
  shows "\<exists>d'. read_packet_growable e d = Some (Some p, d') \<and> stream_at e d' rest \<and> same_stream d d'"
proof -
  have "stream_at e (d\<lparr>allocs := Suc (allocs d)\<rparr>) ss" using stream_at_cong[of "d\<lparr>allocs := Suc (allocs d)\<rparr>" d] assms(1) by simp
  from growable_loop_stream[OF this assms(2) _ _ assms(4), of "[]" 4096] show ?thesis
    using assms(3,4) by (simp add: read_packet_growable_def ask_def)
qed

section \<open>Opening\<close>

lemma stream_on_restored:
  assumes "stream_on e d p after" "stream_on e d' p after" "current_page_offset d' = current_page_offset d"
  shows "stream_on e (d'\<lparr>segment_index := segment_index d, payload_cursor := payload_cursor d\<rparr>) p after"
  using assms by (simp add: stream_on_def)

lemma parse_opus_head_stream:
  "parse_opus_head bs d = (ok, d') \<Longrightarrow> stream_at e d' ss = stream_at e d ss"
  by (rule stream_at_cong) (auto simp: parse_opus_head_def Let_def split: if_splits)

lemma tags_frame_stream:
  assumes "tags_frame d d'"
  shows "stream_at e d' ss = stream_at e d ss" "channels d' = channels d" "pre_skip d' = pre_skip d"
proof -
  have "d'\<lparr>comments := [], allocs := 0\<rparr> = d\<lparr>comments := [], allocs := 0\<rparr>" using assms by (simp add: tags_frame_def)
  then have "crc_table d' = crc_table d" "current_page_offset d' = current_page_offset d" "next_page_offset d' = next_page_offset d"
     "segment_count d' = segment_count d" "segment_index d' = segment_index d" "segment_table d' = segment_table d"
     "payload_cursor d' = payload_cursor d" "page_buf d' = page_buf d"
    by (cases d; cases d'; simp)+
  then show "stream_at e d' ss = stream_at e d ss" by (rule stream_at_cong)
  show "channels d' = channels d" "pre_skip d' = pre_skip d" using assms by (cases d; cases d'; simp add: tags_frame_def)+
qed

lemma index_frame_fields:
  assumes "index_frame d d'"
  shows "crc_table d' = crc_table d" "channels d' = channels d" "pre_skip d' = pre_skip d" "comments d' = comments d"
  using assms by (cases d; cases d'; simp add: index_frame_def)+

text \<open>The first page is always indexed when it starts a packet.\<close>

lemma index_loop_grows:
  "index_loop e capacity offset d = Some d' \<Longrightarrow> length (page_index d) \<le> length (page_index d')"
proof (induction "length (env_file e) - offset" arbitrary: d capacity offset rule: less_induct)
  case less
  show ?case
  proof (cases "fread 27 (drop offset (env_file e))")
    case None
    then show ?thesis using less.prems by (subst (asm) index_loop.simps) simp
  next
    case (Some a)
    obtain hdr rest where a: "a = (hdr, rest)" by (cases a)
    have "drop offset (env_file e) = hdr @ rest" "length hdr = 27" using freadD[of 27] Some a by auto
    then have "27 \<le> length (drop offset (env_file e))" by simp
    then have IH: "length (page_index d0) \<le> length (page_index d')" if "offset < nxt" "index_loop e c nxt d0 = Some d'" for c nxt d0
      using less.hyps[of nxt c d0] that by (simp add: diff_less_mono2)
    show ?thesis using less.prems Some a
      by (subst (asm) index_loop.simps)
        (auto simp: Let_def ask_def split: if_splits option.splits prod.splits dest!: IH[rotated])
  qed
qed

lemma build_page_index_indexed:
  assumes "page_ok p" "pg_type p AND 1 = 0" "env_file e = page_bytes p @ rest" "\<forall>k n. env_grant e k n"
  shows "\<exists>d'. build_page_index e d = Some (True, d') \<and> index_frame d d'"
proof -
  let ?c = "le_bytes 4 (unat (page_crc p))"
  let ?h = "page_head p ?c"
  define d0 where "d0 = d\<lparr>allocs := Suc (allocs d), page_index := []\<rparr>"
  note hp = page_head_parts[of ?c p, simplified]
  have fr: "fread 27 (drop 0 (env_file e)) = Some (?h, lacing p @ concat (pg_segs p) @ rest)"
    unfolding assms(3) page_bytes_def using fread_append[of 27 ?h "lacing p @ concat (pg_segs p) @ rest"] by simp
  have n: "unat (?h ! 26) = length (lacing p)" using assms(1) by (simp add: hp page_ok_def lacing_def)
  have fr2: "fread (unat (?h ! 26)) (lacing p @ concat (pg_segs p) @ rest) = Some (lacing p, concat (pg_segs p) @ rest)"
    unfolding n by simp
  have empty: "page_index d0 = []" by (simp add: d0_def)
  obtain d' where d': "index_loop e 64 0 d0 = Some d'" "index_frame d0 d'"
    using index_loop_ok[of 64 d0 e 0] empty by (auto simp: index_ok_def)
  have "0 < length (page_index d')"
  proof -
    define g where "g = audio_read_u64le (\<lambda>i. ?h ! (6 + i))"
    have "index_loop e 64 0 d0 = index_loop e 64 (0 + (27 + unat (?h ! 26) + sum_list (map unat (lacing p))))
        (d0\<lparr>total_granule := g, page_index := [(0, g)]\<rparr>)"
      by (subst index_loop.simps) (simp add: fr[simplified] fr2 hp(1-3) Let_def empty assms(2) g_def)
    then have "length (page_index (d0\<lparr>total_granule := g, page_index := [(0, g)]\<rparr>)) \<le> length (page_index d')"
      using d'(1) by (intro index_loop_grows) simp
    then show ?thesis by auto
  qed
  then show ?thesis using d' assms(4) by (simp add: build_page_index_def ask_def d0_def)
qed

text \<open>What a playable file looks like: its pages, the two header packets and the segments behind them.\<close>

definition playable :: "ogg_env \<Rightarrow> ogg_page list \<Rightarrow> byte list \<Rightarrow> byte list \<Rightarrow> byte list list \<Rightarrow> bool" where
  "playable e pages head tags audio \<longleftrightarrow>
     env_file e = pages_file pages \<and> pages \<noteq> [] \<and> (\<forall>p \<in> set pages. page_ok p) \<and>
     pg_type (hd pages) AND 2 \<noteq> 0 \<and> pg_type (hd pages) AND 1 = 0 \<and>
     (\<exists>rest. next_packet (pages_segs pages) = Some (head, rest) \<and> next_packet rest = Some (tags, audio)) \<and>
     length head \<le> OGG_MAX_HEADER_PACKET_SIZE \<and> fst (parse_opus_head head (fresh_demux e)) \<and> plain_packet tags \<and>
     (\<forall>k n. env_grant e k n)"

lemma parse_opus_head_result:
  assumes "fst (parse_opus_head bs d0)"
  obtains d' where "parse_opus_head bs d = (True, d')" "channels d' = bs ! 9" "pre_skip d' = audio_read_u16le (\<lambda>i. bs ! (10 + i))"
    "crc_table d' = crc_table d"
  using assms that by (auto simp: parse_opus_head_def Let_def split: if_splits)

lemma open_playable:
  assumes "playable e pages head tags audio"
  shows "\<exists>d. ogg_demux_open e = Some (Some d) \<and> stream_at e d audio \<and>
     channels d = head ! 9 \<and> pre_skip d = audio_read_u16le (\<lambda>i. head ! (10 + i))"
proof -
  obtain p after where pages: "pages = p # after" using assms by (cases pages) (auto simp: playable_def)
  obtain rest where np: "next_packet (pg_segs p @ pages_segs after) = Some (head, rest)" "next_packet rest = Some (tags, audio)"
    using assms by (auto simp: playable_def pages)
  have grant: "\<forall>k n. env_grant e k n" and bos: "pg_type p AND 2 \<noteq> 0" and cont: "pg_type p AND 1 = 0"
    and ok: "page_ok p" "\<forall>q \<in> set after. page_ok q" and f: "env_file e = page_bytes p @ pages_file after"
    and len: "length head \<le> OGG_MAX_HEADER_PACKET_SIZE" "plain_packet tags" and headok: "fst (parse_opus_head head (fresh_demux e))"
    using assms by (auto simp: playable_def pages)
  define d0 where "d0 = fresh_demux e\<lparr>allocs := Suc (Suc 0)\<rparr>"
  have "crc_table d0 = ogg_crc_init_table" by (simp add: d0_def fresh_demux_def)
  then obtain d1 where l: "load_page_at e 0 d0 = Some (True, d1)" "stream_on e d1 p after" "segment_index d1 = 0" "header_type d1 = pg_type p"
      "same_stream d0 d1"
    using stream_on_loaded[OF ok, of d0 0 e] f by auto
  obtain serial where serial: "buf_get OGG_MAX_PAGE_SIZE (page_buf d1) 14 4 = Some serial" by (simp add: buf_get_def OGG_MAX_PAGE_SIZE_val)
  define d2 where "d2 = d1\<lparr>serial_number := audio_read_u32le (\<lambda>i. serial ! i)\<rparr>"
  have "stream_on e d2 p after" using l(2) stream_on_cong[of d2 d1] by (simp add: d2_def)
  moreover have "segment_index d2 = 0" using l(3) by (simp add: d2_def)
  ultimately have s2: "stream_at e d2 (pg_segs p @ pages_segs after)" unfolding stream_at_def by auto
  obtain d3 where r1: "read_packet_growable e d2 = Some (Some head, d3)" "stream_at e d3 rest" "same_stream d2 d3"
    using read_packet_growable_stream[OF s2 np(1) len(1) grant] by blast
  obtain d4 where ph: "parse_opus_head head d3 = (True, d4)" "channels d4 = head ! 9" "pre_skip d4 = audio_read_u16le (\<lambda>i. head ! (10 + i))"
    by (rule parse_opus_head_result[OF headok])
  have s4: "stream_at e d4 rest" using r1(2) parse_opus_head_stream[OF ph(1)] by simp
  have lt: "length tags \<le> OGG_MAX_HEADER_PACKET_SIZE" using len(2) by (simp add: plain_packet_def)
  obtain d5 where r2: "read_packet_growable e d4 = Some (Some tags, d5)" "stream_at e d5 audio" "same_stream d4 d5"
    using read_packet_growable_stream[OF s4 np(2) lt grant] by blast
  obtain d6 where tg: "parse_opus_tags e False tags d5 = Some d6" "tags_frame d5 d6" using parse_opus_tags_ok[OF len(2)] by blast
  have s6: "stream_at e d6 audio" using r2(2) tags_frame_stream(1)[OF tg(2)] by simp
  obtain q rest6 where on6: "stream_on e d6 q rest6" and au: "audio = drop (segment_index d6) (pg_segs q) @ pages_segs rest6"
    using s6 by (auto simp: stream_at_def)
  obtain d7 where b: "build_page_index e d6 = Some (True, d7)" "index_frame d6 d7" using build_page_index_indexed[OF ok(1) cont f grant] by blast
  have c7: "crc_table d7 = ogg_crc_init_table" using index_frame_fields(1)[OF b(2)] on6 by (simp add: stream_on_def)
  have on6': "page_ok q" "\<forall>r \<in> set rest6. page_ok r" "drop (current_page_offset d6) (env_file e) = page_bytes q @ pages_file rest6"
    using on6 by (auto simp: stream_on_def)
  obtain d8 where l8: "load_page_at e (current_page_offset d6) d7 = Some (True, d8)" "stream_on e d8 q rest6" "same_stream d7 d8"
      "current_page_offset d8 = current_page_offset d6"
    by (rule stream_on_loaded[OF on6'(1,2) c7 on6'(3)])
  define d where "d = d8\<lparr>segment_index := segment_index d6, payload_cursor := payload_cursor d6\<rparr>"
  have "ogg_demux_open e = Some (Some d)"
    unfolding ogg_demux_open_def open_unfold d0_def[symmetric] l(1) using grant bos l(4) serial r1(1) ph(1) r2(1) tg(1) b(1) l8(1)
    by (simp add: d2_def Let_def d_def)
  moreover have "stream_at e d audio" unfolding stream_at_def
    using stream_on_restored[OF on6 l8(2,4)] au by (auto simp: d_def)
  moreover have "channels d = channels d4" "pre_skip d = pre_skip d4"
    using l8(3) index_frame_fields(2,3)[OF b(2)] tags_frame_stream(2,3)[OF tg(2)] r2(3) by (simp_all add: d_def same_stream_def)
  ultimately show ?thesis using ph(2,3) by auto
qed

text \<open>Reading packet after packet, until a read returns 0.\<close>

primrec read_packets :: "ogg_env \<Rightarrow> nat \<Rightarrow> nat \<Rightarrow> ogg_demux \<Rightarrow> byte list list option" where
  "read_packets e buf_size 0 d = Some []"
| "read_packets e buf_size (Suc k) d = do {
     (n, bytes, d) \<leftarrow> ogg_demux_read_packet e buf_size d;
     ps \<leftarrow> read_packets e buf_size k d;
     Some (take n bytes # ps) }"

lemma read_packets_stream:
  "stream_at e d ss \<Longrightarrow> \<forall>p \<in> set (packets ss). length p \<le> buf_size \<Longrightarrow>
   read_packets e buf_size (length (packets ss)) d = Some (packets ss)"
proof (induction ss arbitrary: d rule: packets.induct)
  case (1 ss)
  show ?case
  proof (cases "next_packet ss")
    case None
    then show ?thesis by (simp add: packets.simps[of ss])
  next
    case (Some a)
    obtain p rest where a: "a = (p, rest)" by (cases a)
    have pk: "packets ss = p # packets rest" using Some a by (simp add: packets.simps[of ss])
    obtain d' where "ogg_demux_read_packet e buf_size d = Some (length p, p, d')" "stream_at e d' rest"
      using read_packet_stream[OF "1.prems"(1) Some[unfolded a], of buf_size] "1.prems"(2) pk by auto
    then show ?thesis using "1.IH"[OF Some a[symmetric], of d'] "1.prems"(2) pk by simp
  qed
qed

end
