(* ===== verification/Ogg_Crc.thy ===== *)
theory Ogg_Crc
  imports Ogg_Demux_Inv
begin

text \<open>
  The checksum of the Ogg demuxer: the table-driven routine divides the bits of the page by the
  generator polynomial, and no change of a single byte of a page goes unnoticed.
\<close>

unbundle bit_operations_syntax

section \<open>The reference: one bit at a time\<close>

text \<open>The register is shifted; the polynomial is subtracted when the bit shifted out differs from the message bit.\<close>

definition crc_bit :: "bool \<Rightarrow> u32 \<Rightarrow> u32" where
  "crc_bit b crc = (if bit crc 31 \<noteq> b then push_bit 1 crc XOR 0x04C11DB7 else push_bit 1 crc)"

definition byte_bits :: "byte \<Rightarrow> bool list" where
  "byte_bits b = map (bit b) [7, 6, 5, 4, 3, 2, 1, 0]"

definition crc_bitwise :: "byte list \<Rightarrow> u32" where
  "crc_bitwise bytes = fold crc_bit (concat (map byte_bits bytes)) 0"

section \<open>Linearity\<close>

lemma top_bit: "(r AND 0x80000000 \<noteq> 0) = bit (r :: u32) 31"
proof -
  have "r AND 0x80000000 = (if bit r 31 then 0x80000000 else 0)"
    by (rule bit_word_eqI) (auto simp: bit_simps bit_numeral_word_iff less_Suc_eq numeral_eq_Suc)
  then show ?thesis by simp
qed

lemma crc_shift_bit: "crc_shift r = push_bit 1 r XOR (if bit r 31 then 0x04C11DB7 else 0)"
  by (simp add: crc_shift_def top_bit)

lemma crc_shift_xor: "crc_shift (a XOR b) = crc_shift a XOR crc_shift b"
proof -
  have p: "push_bit 1 (a XOR b) = push_bit 1 a XOR push_bit 1 b" by (rule push_bit_xor)
  have t: "bit (a XOR b) 31 = (bit a 31 \<noteq> bit b 31)" by (simp add: bit_xor_iff)
  show ?thesis unfolding crc_shift_bit p t by (cases "bit a 31"; cases "bit b 31") (simp_all add: ac_simps)
qed

lemma crc_shifts_xor: "(crc_shift ^^ n) (a XOR b) = (crc_shift ^^ n) a XOR (crc_shift ^^ n) b"
  by (induction n) (simp_all add: crc_shift_xor)

lemma crc_shift_zero: "crc_shift r = 0 \<Longrightarrow> r = 0"
proof -
  assume z: "crc_shift r = 0"
  have t: "\<not> bit r 31"
  proof
    assume "bit r 31"
    then have "bit (crc_shift r) 0" by (simp only: crc_shift_bit bit_xor_iff bit_push_bit_iff if_True) simp
    then show False using z by simp
  qed
  then have p: "push_bit 1 r = 0" using z by (simp add: crc_shift_bit)
  show "r = 0"
  proof (rule bit_word_eqI)
    fix i assume "i < LENGTH(32)"
    then have i: "i < 32" by simp
    have "\<not> bit r i"
    proof (cases "i = 31")
      case False
      then have "bit (push_bit 1 r) (Suc i) = bit r i" using i by (simp only: bit_push_bit_iff) simp
      then show ?thesis unfolding p by simp
    qed (use t in simp)
    then show "bit r i = bit (0 :: u32) i" by simp
  qed
qed

lemma xor_zero_eq: "a XOR b = (0 :: u32) \<Longrightarrow> a = b"
  by (metis xor.assoc xor.right_neutral xor_self_eq xor.left_neutral)

lemma crc_shift_inj: "crc_shift a = crc_shift b \<Longrightarrow> a = b"
proof -
  assume "crc_shift a = crc_shift b"
  then have "crc_shift (a XOR b) = 0" by (simp add: crc_shift_xor)
  then show ?thesis by (rule xor_zero_eq[OF crc_shift_zero])
qed

lemma crc_shifts_inj: "(crc_shift ^^ n) a = (crc_shift ^^ n) b \<Longrightarrow> a = b"
  by (induction n) (auto dest: crc_shift_inj)

text \<open>As long as only zero bits are shifted out, the register is just shifted.\<close>

lemma crc_shifts_low: "n \<le> 32 \<Longrightarrow> (\<And>i. 32 - n \<le> i \<Longrightarrow> i < 32 \<Longrightarrow> \<not> bit r i) \<Longrightarrow> (crc_shift ^^ n) r = push_bit n r"
proof (induction n)
  case (Suc n)
  have "(crc_shift ^^ n) r = push_bit n r" using Suc by simp
  moreover have "\<not> bit (push_bit n r) 31" using Suc.prems(1) Suc.prems(2)[of "31 - n"] by (simp add: bit_push_bit_iff)
  moreover have "(crc_shift ^^ Suc n) r = crc_shift ((crc_shift ^^ n) r)" by simp
  ultimately show ?case by (simp only: crc_shift_bit[of "push_bit n r"] if_False xor.right_neutral push_bit_push_bit plus_1_eq_Suc)
qed simp

section \<open>One byte\<close>

definition crc_byte :: "byte \<Rightarrow> u32 \<Rightarrow> u32" where
  "crc_byte b crc = (crc_shift ^^ 8) (crc XOR push_bit 24 (ucast b))"

lemma table_step:
  "push_bit 8 crc XOR ogg_crc_init_table ! unat ((drop_bit 24 crc AND 0xFF) XOR ucast b) = crc_byte b crc"
proof -
  define k where "k = (drop_bit 24 crc AND 0xFF) XOR (ucast b :: u32)"
  have "(0xFF :: u32) = mask 8" by (simp add: mask_eq_exp_minus_1)
  then have k_bits: "k = take_bit 8 (drop_bit 24 crc) XOR ucast b" by (simp only: k_def take_bit_eq_mask)
  have byte_bit: "bit b i \<Longrightarrow> i < 8" for i using bit_imp_le_length[of b i] by simp
  have kt: "k = take_bit 8 k" unfolding k_bits
    by (rule bit_word_eqI) (auto simp: bit_simps dest: byte_bit)
  have "unat k < 256"
  proof -
    have "unat (take_bit 8 k) = take_bit 8 (unat k)" by (rule unsigned_take_bit_eq)
    also have "\<dots> < 256" by (simp add: take_bit_eq_mod)
    finally show ?thesis using kt by simp
  qed
  then have table: "ogg_crc_init_table ! unat k = (crc_shift ^^ 8) (push_bit 24 k)" by (simp add: ogg_crc_init_table_def)
  have split: "crc XOR push_bit 24 (ucast b) = push_bit 24 k XOR take_bit 24 crc"
    unfolding k_bits by (rule bit_word_eqI) (auto simp: bit_simps dest: byte_bit)
  have "(crc_shift ^^ 8) (take_bit 24 crc) = push_bit 8 (take_bit 24 crc)"
    by (rule crc_shifts_low) (simp_all add: bit_simps)
  also have "\<dots> = push_bit 8 crc" by (rule bit_word_eqI) (auto simp: bit_simps)
  finally have "crc_byte b crc = (crc_shift ^^ 8) (push_bit 24 k) XOR push_bit 8 crc"
    by (simp only: crc_byte_def split crc_shifts_xor)
  then show ?thesis unfolding k_def[symmetric] table by (simp only: xor.commute)
qed

lemma ogg_crc32_fold: "ogg_crc32 ogg_crc_init_table bytes = fold crc_byte bytes 0"
  unfolding ogg_crc32_def table_step ..

section \<open>Eight bits\<close>

lemma crc_bit_shift: "crc_bit b crc = crc_shift (crc XOR (if b then 0x80000000 else 0))"
proof -
  have "push_bit 1 (crc XOR 0x80000000) = push_bit 1 crc" by (rule bit_word_eqI) (auto simp: bit_simps bit_numeral_word_iff less_Suc_eq numeral_eq_Suc)
  moreover have "bit (0x80000000 :: u32) 31" by simp
  ultimately show ?thesis by (simp add: crc_bit_def crc_shift_bit bit_xor_iff)
qed

text \<open>The bits that are fed in, at the top of a word.\<close>

fun align :: "bool list \<Rightarrow> u32" where
  "align [] = 0"
| "align (b # bs) = (if b then 0x80000000 else 0) XOR drop_bit 1 (align bs)"

lemma align_low: "bit (align bs) i \<Longrightarrow> 32 \<le> i + length bs"
proof (induction bs arbitrary: i)
  case (Cons b bs)
  have "bit (0x80000000 :: u32) i \<Longrightarrow> i = 31" by (cases "i = 31") (auto simp: bit_numeral_word_iff less_Suc_eq numeral_eq_Suc)
  then show ?case using Cons by (auto simp: bit_xor_iff bit_drop_bit_eq split: if_splits dest!: Cons.IH)
qed simp

lemma crc_bits_fold: "length bs < 32 \<Longrightarrow> fold crc_bit bs crc = (crc_shift ^^ length bs) (crc XOR align bs)"
proof (induction bs arbitrary: crc)
  case (Cons b bs)
  let ?t = "if b then 0x80000000 else 0 :: u32"
  have "\<not> bit (drop_bit 1 (align bs)) 31" using bit_imp_le_length[of "align bs" 32] by (auto simp: bit_drop_bit_eq)
  then have "crc_shift (drop_bit 1 (align bs)) = push_bit 1 (drop_bit 1 (align bs))" by (simp add: crc_shift_bit)
  also have "\<dots> = align bs"
  proof (rule bit_word_eqI)
    fix i assume "i < LENGTH(32)"
    then show "bit (push_bit 1 (drop_bit 1 (align bs))) i = bit (align bs) i"
      using align_low[of bs 0] Cons.prems by (simp only: bit_push_bit_iff bit_drop_bit_eq comp_apply) (cases i; auto)
  qed
  finally have up: "crc_shift (drop_bit 1 (align bs)) = align bs" .
  have "fold crc_bit (b # bs) crc = (crc_shift ^^ length bs) (crc_bit b crc XOR align bs)" using Cons by simp
  also have "crc_bit b crc XOR align bs = crc_shift (crc XOR ?t) XOR crc_shift (drop_bit 1 (align bs))"
    unfolding up crc_bit_shift ..
  also have "\<dots> = crc_shift (crc XOR align (b # bs))" unfolding crc_shift_xor[symmetric] by (simp only: align.simps xor.assoc)
  finally show ?case by (simp add: funpow_swap1)
qed simp

lemma align_byte: "align (byte_bits b) = push_bit 24 (ucast b)"
  by (rule byte_forall) code_simp

lemma crc_bitwise_fold: "crc_bitwise bytes = fold crc_byte bytes 0"
proof -
  have "fold crc_bit (byte_bits b) crc = crc_byte b crc" for b crc
  proof -
    have "length (byte_bits b) = 8" by (simp add: byte_bits_def)
    then show ?thesis using crc_bits_fold[of "byte_bits b" crc] by (simp only: align_byte crc_byte_def)
  qed
  then have "fold crc_bit (concat (map byte_bits bytes)) crc = fold crc_byte bytes crc" for crc
    by (induction bytes arbitrary: crc) simp_all
  then show ?thesis by (simp add: crc_bitwise_def)
qed

section \<open>Detecting changes\<close>

lemma crc_byte_inj: "crc_byte b x = crc_byte b y \<Longrightarrow> x = y"
proof -
  assume "crc_byte b x = crc_byte b y"
  then have "x XOR push_bit 24 (ucast b) = y XOR push_bit 24 (ucast b)" unfolding crc_byte_def by (rule crc_shifts_inj)
  then have "(x XOR push_bit 24 (ucast b)) XOR push_bit 24 (ucast b) = (y XOR push_bit 24 (ucast b)) XOR push_bit 24 (ucast b)" by (simp only:)
  then show ?thesis by (simp only: xor.assoc xor_self_eq xor.right_neutral)
qed

lemma crc_byte_inj_byte: "crc_byte b x = crc_byte c x \<Longrightarrow> b = c"
proof -
  assume "crc_byte b x = crc_byte c x"
  then have "x XOR push_bit 24 (ucast b) = x XOR push_bit 24 (ucast c)" unfolding crc_byte_def by (rule crc_shifts_inj)
  then have "x XOR (x XOR push_bit 24 (ucast b)) = x XOR (x XOR push_bit 24 (ucast c))" by (simp only:)
  then have e: "push_bit 24 (ucast b :: u32) = push_bit 24 (ucast c)" by (simp only: xor.assoc[symmetric] xor_self_eq xor.left_neutral)
  show ?thesis
  proof (rule bit_word_eqI)
    fix i assume "i < LENGTH(8)"
    then have "bit (push_bit 24 (ucast b :: u32)) (24 + i) = bit b i" "bit (push_bit 24 (ucast c :: u32)) (24 + i) = bit c i"
      by (simp_all add: bit_simps)
    then show "bit b i = bit c i" using e by simp
  qed
qed

lemma crc_fold_inj: "fold crc_byte bs x = fold crc_byte bs y \<Longrightarrow> x = y"
  by (induction bs arbitrary: x y) (auto dest: crc_byte_inj)

lemma crc_detects:
  assumes "x \<noteq> y"
  shows "ogg_crc32 ogg_crc_init_table (pre @ x # post) \<noteq> ogg_crc32 ogg_crc_init_table (pre @ y # post)"
proof
  assume "ogg_crc32 ogg_crc_init_table (pre @ x # post) = ogg_crc32 ogg_crc_init_table (pre @ y # post)"
  then have "fold crc_byte post (crc_byte x (fold crc_byte pre 0)) = fold crc_byte post (crc_byte y (fold crc_byte pre 0))"
    by (simp add: ogg_crc32_fold)
  then show False using crc_fold_inj crc_byte_inj_byte assms by blast
qed

end
