(* ===== verification/Ogg_Props.thy ===== *)
theory Ogg_Props
  imports Ogg_Demux_Stream Ogg_Crc
begin

text \<open>
  The properties of the Ogg demuxer, with a small playable file for the witnesses.
\<close>

unbundle bit_operations_syntax

section \<open>A small file\<close>

definition sample_head :: "byte list" where
  "sample_head = opus_head_magic @ [1, 2, 0x38, 0x01, 0x80, 0xBB, 0, 0, 0, 0, 0]"

definition sample_tags :: "byte list" where
  "sample_tags = opus_tags_magic @ [0, 0, 0, 0, 0, 0, 0, 0]"

definition sample_pages :: "ogg_page list" where
  "sample_pages =
     [\<lparr>pg_type = 2, pg_granule = 0, pg_serial = 7, pg_seqno = 0, pg_segs = [sample_head]\<rparr>,
      \<lparr>pg_type = 0, pg_granule = 960, pg_serial = 7, pg_seqno = 1, pg_segs = [sample_tags, [1, 2, 3]]\<rparr>]"

definition sample_env :: ogg_env where
  "sample_env = \<lparr>env_file = pages_file sample_pages, env_grant = (\<lambda>k n. True), env_junk = (\<lambda>i. 0)\<rparr>"

lemma sample_packets: "packets [[1, 2, 3 :: byte]] = [[1, 2, 3]]" "packets [] = []"
  by (simp_all add: packets.simps)

lemma sample_playable: "playable sample_env sample_pages sample_head sample_tags [[1, 2, 3]]"
proof -
  have head: "length sample_head = 19" "fst (parse_opus_head sample_head (fresh_demux sample_env))"
    by (simp_all add: sample_head_def opus_head_magic_def parse_opus_head_def Let_def)
  have tags: "length sample_tags = 16" "plain_packet sample_tags"
    by (simp_all add: sample_tags_def opus_tags_magic_def plain_packet_def OGG_MAX_HEADER_PACKET_SIZE_def)
  show ?thesis using head tags
    by (simp add: playable_def sample_env_def sample_pages_def page_ok_def OGG_MAX_HEADER_PACKET_SIZE_def)
qed

lemma sample_opened: "\<exists>d. ogg_demux_open sample_env = Some (Some d) \<and> reachable_by (demux_opened sample_env) (\<lambda>c d. True) (run_demux sample_env) d"
proof -
  obtain d where d: "ogg_demux_open sample_env = Some (Some d)" using open_playable[OF sample_playable] by blast
  then have "demux_opened sample_env d" by (simp add: demux_opened_def)
  from reach_start[of "demux_opened sample_env", OF this] d show ?thesis by blast
qed

section \<open>Properties\<close>

text \<open>
  C19: After a file has been opened, every sequence of packet reads and seeks stays inside the page
  buffer, the segment table and the caller's buffer and comes to an end, whatever bytes the file
  holds: in every reachable state a read returns with at most the requested number of bytes, and
  a seek returns.
\<close>

theorem ogg_calls_safe:
  assumes "reachable_by (demux_opened e) (\<lambda>c d. True) (run_demux e) d"
  shows "(\<exists>n bytes d'. ogg_demux_read_packet e buf_size d = Some (n, bytes, d') \<and> length bytes \<le> buf_size \<and> n \<le> length bytes) \<and>
     (\<exists>g d'. ogg_demux_seek_near_granule target d = Some (g, d'))"
proof -
  have inv: "demux_inv e d" by (rule dm.reachable_inv[OF assms])
  then have "cursor_ok d" by (simp add: demux_inv_def)
  from read_packet_loop_ok[OF this, of "[]" buf_size e] seek_ok[OF inv, of target] show ?thesis
    by (fastforce simp: ogg_demux_read_packet_def)
qed

theorem ogg_calls_safe_witness:
  "\<exists>d. ogg_demux_open sample_env = Some (Some d) \<and>
     (\<exists>n bytes d'. ogg_demux_read_packet sample_env 100 d = Some (n, bytes, d') \<and> length bytes \<le> 100 \<and> n \<le> length bytes)"
  using sample_opened ogg_calls_safe[where e = sample_env and buf_size = 100] by blast

text \<open>
  Opening a file ends with a demuxer or with NULL, without an access outside a buffer and without
  an endless loop, except that the comment parser may leave the packet it is given, and that only
  for a packet that contains the byte \<open>0xFF\<close>.
\<close>

theorem ogg_open_outcome:
  "(\<exists>r. ogg_demux_open_internal e build_index skip_large_values = Some r) \<or>
   (\<exists>bytes d. 0xFF \<in> set bytes \<and> length bytes \<le> OGG_MAX_HEADER_PACKET_SIZE \<and> parse_opus_tags e skip_large_values bytes d = None)"
proof -
  have "0xFF \<in> set bytes" if "length bytes \<le> OGG_MAX_HEADER_PACKET_SIZE" "parse_opus_tags e skip_large_values bytes d = None" for bytes d
    using parse_opus_tags_ok[of bytes e skip_large_values d] that by (auto simp: plain_packet_def)
  then show ?thesis using open_cases[of e build_index skip_large_values] by blast
qed

text \<open>
  The comment parser does leave its packet: a comment length of \<open>0xFFFFFFFF\<close> wraps around in the
  comparison with the size of the packet and in the size of the copy, so that \<^verbatim>\<open>malloc(0)\<close> is
  filled with four gigabytes.
\<close>

theorem opus_tags_length_wraps:
  "parse_opus_tags sample_env False (opus_tags_magic @ [0, 0, 0, 0, 1, 0, 0, 0, 0xFF, 0xFF, 0xFF, 0xFF]) (fresh_demux sample_env) = None"
proof -
  let ?b = "opus_tags_magic @ [0, 0, 0, 0, 1, 0, 0, 0, 0xFF, 0xFF, 0xFF, 0xFF]"
  have r: "read_u32_at ?b 8 = Some 0" "read_u32_at ?b 12 = Some 1" "read_u32_at ?b 16 = Some 0xFFFFFFFF"
    by code_simp+
  have l: "length ?b = 20" "take 8 ?b = opus_tags_magic" by (simp_all add: opus_tags_magic_def)
  show ?thesis unfolding parse_opus_tags_def Let_def l r ask_def
    by (simp add: r[simplified] l[simplified] ask_def sample_env_def)
qed

text \<open>
  C20: A file laid out by the reference multiplexer is played completely: opening it succeeds with the
  channels of its OpusHead packet, and reading packet after packet delivers exactly the packets its
  lacing values delimit, in order.
\<close>

theorem ogg_demux_delivers:
  assumes "playable e pages head tags audio" and "\<forall>p \<in> set (packets audio). length p \<le> buf_size"
  shows "\<exists>d. ogg_demux_open e = Some (Some d) \<and> channels d = head ! 9 \<and>
     read_packets e buf_size (length (packets audio)) d = Some (packets audio)"
  using open_playable[OF assms(1)] read_packets_stream[OF _ assms(2)] by blast

theorem ogg_demux_delivers_witness:
  "\<exists>d. ogg_demux_open sample_env = Some (Some d) \<and> channels d = 2 \<and> read_packets sample_env 100 1 d = Some [[1, 2, 3]]"
  using ogg_demux_delivers[OF sample_playable, of 100] by (simp add: sample_packets sample_head_def opus_head_magic_def)

text \<open>
  C21: On an index whose granules ascend and start at or before the target, a seek lands on the last
  indexed page at or before the target: it reports that page's granule, the next read loads that
  page, the page starts with the capture pattern and does not continue a packet, and every indexed
  page behind it lies past the target.
\<close>

theorem ogg_seek_lands:
  assumes ok: "index_ok e (page_index d)" and ne: "page_index d \<noteq> []" and so: "sorted (map snd (page_index d))"
    and first: "snd (hd (page_index d)) \<le> target"
  shows "\<exists>offset granule d'. ogg_demux_seek_near_granule target d = Some (granule, d') \<and> granule \<le> target \<and>
     (offset, granule) \<in> set (page_index d) \<and> index_entry_ok e (offset, granule) \<and> next_page_offset d' = offset \<and>
     segment_count d' = segment_index d' \<and>
     (\<forall>entry \<in> set (page_index d). offset < fst entry \<longrightarrow> target < snd entry)"
proof -
  let ?idx = "page_index d"
  have l: "length ?idx - 1 < length ?idx" using ne by simp
  have above: "\<forall>i. length ?idx - 1 < i \<and> i < length ?idx \<longrightarrow> target < snd (?idx ! i)" using l by auto
  obtain r where r: "r < length ?idx" "seek_loop ?idx target 0 (length ?idx - 1) 0 = Some r"
      "\<forall>i < length ?idx. r < i \<longrightarrow> target < snd (?idx ! i)" "r = 0 \<or> snd (?idx ! r) \<le> target"
    using seek_loop_sorted[OF so _ l _ _ above, of 0 0] by auto
  obtain offset granule where e: "?idx ! r = (offset, granule)" by (cases "?idx ! r")
  have fits: "granule \<le> target" using r(4) first e ne by (auto simp: hd_conv_nth)
  have inn: "(offset, granule) \<in> set ?idx" using nth_mem[OF r(1)] e by simp
  have behind: "\<forall>entry \<in> set ?idx. offset < fst entry \<longrightarrow> target < snd entry"
  proof (intro ballI impI)
    fix entry assume m: "entry \<in> set ?idx" and o: "offset < fst entry"
    obtain i where i: "i < length ?idx" "entry = ?idx ! i" using m by (auto simp: in_set_conv_nth)
    have asc: "fst (?idx ! j) < fst (?idx ! k)" if "j < k" "k < length ?idx" for j k
      using ok sorted_wrt_nth_less[of "(<)" "map fst ?idx" j k] that by (simp add: index_ok_def)
    have "r < i"
    proof (rule ccontr)
      assume "\<not> r < i"
      then consider "i = r" | "i < r" by linarith
      then show False using o asc[of i r] r(1) i(2) e by cases auto
    qed
    then show "target < snd entry" using r(3) i by simp
  qed
  have "index_entry_ok e (offset, granule)" using ok inn by (simp add: index_ok_def)
  moreover have "ogg_demux_seek_near_granule target d =
      Some (granule, d\<lparr>next_page_offset := offset, segment_index := 0, segment_count := 0, payload_cursor := 0\<rparr>)"
    using r(1,2) e ne by (simp add: ogg_demux_seek_near_granule_def)
  ultimately show ?thesis using fits inn behind
    by (intro exI[of _ offset] exI[of _ granule] exI[of _ "d\<lparr>next_page_offset := offset, segment_index := 0, segment_count := 0, payload_cursor := 0\<rparr>"])
      simp
qed

lemma sample_index_ok: "index_ok sample_env [(0, 0)]"
proof -
  let ?p = "hd sample_pages" and ?r = "page_bytes (sample_pages ! 1)"
  let ?h = "page_head ?p (le_bytes 4 (unat (page_crc ?p)))"
  have "fread 27 (env_file sample_env) = Some (?h, lacing ?p @ concat (pg_segs ?p) @ ?r)"
    using fread_append[of 27 ?h "lacing ?p @ concat (pg_segs ?p) @ ?r"] by (simp add: sample_env_def sample_pages_def page_bytes_def)
  moreover have "take 4 ?h = capture_pattern" "?h ! 5 AND 1 = 0" by (simp_all add: page_head_parts sample_pages_def)
  moreover have "audio_read_u64le (\<lambda>i. ?h ! (6 + i)) = 0"
  proof -
    have "le_bytes 8 0 = [0, 0, 0, 0, 0, 0, 0, 0]" by code_simp
    then show ?thesis by (simp add: sample_pages_def page_head_def capture_pattern_def audio_read_u64le_def)
  qed
  ultimately show ?thesis by (auto simp: index_ok_def index_entry_ok_def)
qed

theorem ogg_seek_lands_witness:
  "\<exists>offset granule d'. ogg_demux_seek_near_granule 960 (fresh_demux sample_env\<lparr>page_index := [(0, 0)]\<rparr>) = Some (granule, d') \<and>
     granule \<le> 960 \<and> next_page_offset d' = offset"
  using ogg_seek_lands[of sample_env "fresh_demux sample_env\<lparr>page_index := [(0, 0)]\<rparr>" 960] sample_index_ok by auto

text \<open>
  C22: The table-driven checksum is the remainder of the page's bits under division by the generator
  polynomial, computed one bit at a time.
\<close>

theorem ogg_crc32_is_bitwise: "ogg_crc32 ogg_crc_init_table bytes = crc_bitwise bytes"
  by (simp add: ogg_crc32_fold crc_bitwise_fold)

text \<open>
  A page in which one byte of the payload has changed is rejected: if a page loads, it no longer
  loads after any of its payload bytes has been replaced by a different one.
\<close>

theorem corrupt_page_rejected:
  assumes load: "load_page_at e offset d = Some (True, d1)" and crc: "crc_table d = ogg_crc_init_table"
    and k: "27 + segment_count d1 \<le> k" "offset + k < next_page_offset d1"
    and b: "env_file e ! (offset + k) \<noteq> b"
  shows "\<exists>d'. load_page_at (e\<lparr>env_file := (env_file e)[offset + k := b]\<rparr>) offset d = Some (False, d')"
proof (cases rule: load_page_at_cases[of e offset d])
  case 1
  then show ?thesis using load by simp
next
  case (2 hdr tab pay)
  define p where "p = sum_list (map unat tab)"
  define j where "j = k - 27 - length tab"
  let ?e = "e\<lparr>env_file := (env_file e)[offset + k := b]\<rparr>"
  have f: "drop offset (env_file e) = hdr @ tab @ pay" "length hdr = 27" using freadD[OF 2(1)] by auto
  note eq = load_page_at_eq[OF 2 p_def, of d, unfolded Let_def crc]
  have enough: "\<not> length pay < p" and stored: "ogg_crc32 ogg_crc_init_table (take 22 hdr @ [0, 0, 0, 0] @ drop 26 hdr @ tab @ take p pay) =
      audio_read_u32le (\<lambda>i. hdr ! (22 + i))" and d1: "segment_count d1 = length tab" "next_page_offset d1 = offset + (27 + length tab + p)"
    using load unfolding eq by (auto split: if_splits)
  have j: "j < p" "k = 27 + length tab + j" using k d1 by (auto simp: j_def)
  have jl: "j < length pay" using j(1) enough by simp
  have len: "offset + k < length (env_file e)"
  proof -
    have "length (drop offset (env_file e)) = 27 + length tab + length pay" using f by simp
    then show ?thesis using j jl by simp
  qed
  have same: "env_file e ! (offset + k) = pay ! j"
  proof -
    have "env_file e ! (offset + k) = drop offset (env_file e) ! k" using len by simp
    also have "\<dots> = pay ! j" unfolding f(1) j(2) using f(2) by (simp add: nth_append)
    finally show ?thesis .
  qed
  have "drop offset (env_file ?e) = hdr @ tab @ pay[j := b]"
    using f len unfolding j(2) by (simp add: drop_update_swap list_update_append)
  then have fr: "fread 27 (drop offset (env_file ?e)) = Some (hdr, tab @ pay[j := b])" using f(2) by (simp add: fread_def)
  have jp: "j < length (take p pay)" "take p pay ! j = pay ! j" "take j (take p pay) = take j pay" using j(1) jl by (simp_all add: min_def)
  have tk: "take p pay = take j pay @ pay ! j # drop (Suc j) (take p pay)"
    using id_take_nth_drop[OF jp(1)] by (simp only: jp)
  have tk': "take p (pay[j := b]) = take j pay @ b # drop (Suc j) (take p pay)"
    using upd_conv_take_nth_drop[OF jp(1), of b] by (simp only: take_update_swap jp)
  let ?x = "take 22 hdr @ [0, 0, 0, 0] @ drop 26 hdr @ tab @ take j pay" and ?post = "drop (Suc j) (take p pay)"
  have "ogg_crc32 ogg_crc_init_table (?x @ b # ?post) \<noteq> ogg_crc32 ogg_crc_init_table (?x @ pay ! j # ?post)"
    by (rule crc_detects) (use b same in simp)
  moreover have "take 22 hdr @ [0, 0, 0, 0] @ drop 26 hdr @ tab @ take p pay = ?x @ pay ! j # ?post" by (subst tk) simp
  moreover have "take 22 hdr @ [0, 0, 0, 0] @ drop 26 hdr @ tab @ take p (pay[j := b]) = ?x @ b # ?post" by (subst tk') simp
  ultimately have "ogg_crc32 ogg_crc_init_table (take 22 hdr @ [0, 0, 0, 0] @ drop 26 hdr @ tab @ take p (pay[j := b])) \<noteq> audio_read_u32le (\<lambda>i. hdr ! (22 + i))"
    by (simp only: stored[symmetric] not_False_eq_True)
  then show ?thesis using load_page_at_eq[OF fr 2(2-4) p_def, of d, unfolded Let_def crc] by simp
qed

theorem corrupt_page_rejected_witness:
  "\<exists>d'. load_page_at (sample_env\<lparr>env_file := (env_file sample_env)[0 + 28 := 0]\<rparr>) 0 (fresh_demux sample_env) = Some (False, d')"
proof -
  let ?p = "hd sample_pages" and ?r = "page_bytes (sample_pages ! 1)"
  have ok: "page_ok ?p" using sample_playable by (simp add: playable_def)
  have crc: "crc_table (fresh_demux sample_env) = ogg_crc_init_table" by (simp add: fresh_demux_def)
  have whole: "env_file sample_env = page_bytes ?p @ ?r" by (simp add: sample_env_def sample_pages_def)
  then have f: "drop 0 (env_file sample_env) = page_bytes ?p @ ?r" by simp
  have len: "length (page_bytes ?p) = 47" by (simp add: length_page_bytes sample_pages_def sample_head_def opus_head_magic_def)
  have "page_bytes ?p ! 28 = 0x4F"
    by (simp add: page_bytes_def lacing_def nth_append) (simp add: sample_pages_def sample_head_def opus_head_magic_def)
  then have differs: "env_file sample_env ! (0 + 28) \<noteq> 0" using len by (simp add: whole nth_append)
  show ?thesis
    by (rule corrupt_page_rejected[OF load_reference_page[OF ok crc f] crc _ _ differs])
      (simp_all add: len, simp_all add: sample_pages_def)
qed

end
