(* ===== verification/Charge_Limiter.thy ===== *)
theory Charge_Limiter
  imports C_Text
begin

text \<open>
  The charge limiter (\<^verbatim>\<open>src/src/hardware/charge_limiter.c\<close>): a cap on the charge voltage and a cap on the
  charge current of the power chips, set over I2C, with the stock current kept in a file.

  The chips are register files.  Which transfers fail, what a register holds after a write and
  which steps of saving the file fail is decided by the environment.  \<open>mp\<close> says whether the board
  has the second chip (\<^verbatim>\<open>HAS_MP2731\<close>).
\<close>

unbundle bit_operations_syntax

section \<open>The bus\<close>

datatype chip = AXP | MP

record save_io =
  sv_mkdir :: bool
  sv_open :: bool
  sv_flush :: bool
  sv_rename :: bool

text \<open>
  \<open>xfer_ok k\<close>: the \<open>k\<close>-th transfer succeeds.  \<open>settle k c r v\<close>: what register \<open>r\<close> of chip \<open>c\<close> holds after
  the \<open>k\<close>-th transfer has written \<open>v\<close> to it.
\<close>

record hw_env =
  xfer_ok :: "nat \<Rightarrow> bool"
  settle :: "nat \<Rightarrow> chip \<Rightarrow> byte \<Rightarrow> byte \<Rightarrow> byte"
  saves :: "nat \<Rightarrow> save_io"

record bus =
  regs :: "chip \<Rightarrow> byte \<Rightarrow> byte"
  xfers :: nat

definition xfer_read :: "hw_env \<Rightarrow> chip \<Rightarrow> byte \<Rightarrow> bus \<Rightarrow> byte option \<times> bus" where
  "xfer_read h c r w = (if xfer_ok h (xfers w) then Some (regs w c r) else None, w\<lparr>xfers := xfers w + 1\<rparr>)"

definition xfer_write :: "hw_env \<Rightarrow> chip \<Rightarrow> byte \<Rightarrow> byte \<Rightarrow> bus \<Rightarrow> bool \<times> bus" where
  "xfer_write h c r v w =
     (if xfer_ok h (xfers w)
      then (True, w\<lparr>regs := (regs w)(c := (regs w c)(r := settle h (xfers w) c r v)), xfers := xfers w + 1\<rparr>)
      else (False, w\<lparr>xfers := xfers w + 1\<rparr>))"

section \<open>Registers and constants\<close>

definition CHARGE_LIMITER_REEVALUATE_SECONDS :: int where "CHARGE_LIMITER_REEVALUATE_SECONDS = 5"
definition CHARGE_RETRY_SECONDS :: int where "CHARGE_RETRY_SECONDS = 1"
definition AXP_REG_MODULE_EN :: byte where "AXP_REG_MODULE_EN = 0x18"
definition AXP_CHG_EN :: byte where "AXP_CHG_EN = 0x02"
definition AXP_REG_STATUS :: byte where "AXP_REG_STATUS = 0x01"
definition AXP_REG_VOLTAGE :: byte where "AXP_REG_VOLTAGE = 0x64"
definition AXP_REG_CURRENT :: byte where "AXP_REG_CURRENT = 0x62"
definition AXP_CURRENT_MASK :: byte where "AXP_CURRENT_MASK = 0x1F"
definition AXP_CURRENT_CAP :: byte where "AXP_CURRENT_CAP = 0x0B"
definition MP_REG_CURRENT :: byte where "MP_REG_CURRENT = 0x05"
definition MP_REG_VOLTAGE :: byte where "MP_REG_VOLTAGE = 0x07"
definition MP_CURRENT_MASK :: byte where "MP_CURRENT_MASK = 0x7F"
definition MP_CURRENT_CAP :: byte where "MP_CURRENT_CAP = 0x04"
definition MP_VOLTAGE_MASK :: byte where "MP_VOLTAGE_MASK = 0xFE"
definition MP_VOLTAGE_BASELINE :: byte where "MP_VOLTAGE_BASELINE = 0xC8"
definition BASELINE_VERSION :: nat where "BASELINE_VERSION = 2"

definition AXP_VOLTAGE_BASELINE :: "bool \<Rightarrow> byte" where
  "AXP_VOLTAGE_BASELINE mp = (if mp then 5 else 4)"

section \<open>Setting registers\<close>

text \<open>
  What all setters do: read the register, leave it alone if it is as wanted, else write it and
  read it back.
\<close>

definition update_reg :: "hw_env \<Rightarrow> chip \<Rightarrow> byte \<Rightarrow> (byte \<Rightarrow> bool) \<Rightarrow> (byte \<Rightarrow> byte) \<Rightarrow> (byte \<Rightarrow> bool) \<Rightarrow> bus \<Rightarrow> bool \<times> bus" where
  "update_reg h c r keep desired good w =
     (case xfer_read h c r w of (None, w) \<Rightarrow> (False, w)
      | (Some v, w) \<Rightarrow>
          if keep v then (True, w)
          else (case xfer_write h c r (desired v) w of (ok, w) \<Rightarrow>
            if \<not> ok then (False, w)
            else (case xfer_read h c r w of (None, w) \<Rightarrow> (False, w) | (Some v, w) \<Rightarrow> (good v, w))))"

definition set_axp_voltage :: "hw_env \<Rightarrow> byte \<Rightarrow> bus \<Rightarrow> bool \<times> bus" where
  "set_axp_voltage h target = update_reg h AXP AXP_REG_VOLTAGE
     (\<lambda>v. v AND 7 = target) (\<lambda>v. target) (\<lambda>v. v AND 7 = target)"

definition set_axp_current_capped :: "hw_env \<Rightarrow> byte \<Rightarrow> bus \<Rightarrow> bool \<times> bus" where
  "set_axp_current_capped h target = update_reg h AXP AXP_REG_CURRENT
     (\<lambda>v. v AND AXP_CURRENT_MASK \<le> target) (\<lambda>v. (v AND NOT AXP_CURRENT_MASK) OR target) (\<lambda>v. v AND AXP_CURRENT_MASK = target)"

definition set_axp_current_exact :: "hw_env \<Rightarrow> byte \<Rightarrow> bus \<Rightarrow> bool \<times> bus" where
  "set_axp_current_exact h target = update_reg h AXP AXP_REG_CURRENT
     (\<lambda>v. v AND AXP_CURRENT_MASK = target) (\<lambda>v. (v AND NOT AXP_CURRENT_MASK) OR target) (\<lambda>v. v AND AXP_CURRENT_MASK = target)"

definition enable_axp_charger :: "hw_env \<Rightarrow> bus \<Rightarrow> bool \<times> bus" where
  "enable_axp_charger h = update_reg h AXP AXP_REG_MODULE_EN
     (\<lambda>v. v AND AXP_CHG_EN \<noteq> 0) (\<lambda>v. v OR AXP_CHG_EN) (\<lambda>v. v AND AXP_CHG_EN \<noteq> 0)"

definition set_mp_voltage :: "hw_env \<Rightarrow> byte \<Rightarrow> bus \<Rightarrow> bool \<times> bus" where
  "set_mp_voltage h target = update_reg h MP MP_REG_VOLTAGE
     (\<lambda>v. v AND MP_VOLTAGE_MASK = target) (\<lambda>v. (v AND NOT MP_VOLTAGE_MASK) OR target) (\<lambda>v. v AND MP_VOLTAGE_MASK = target)"

definition set_mp_current_capped :: "hw_env \<Rightarrow> byte \<Rightarrow> bus \<Rightarrow> bool \<times> bus" where
  "set_mp_current_capped h target = update_reg h MP MP_REG_CURRENT
     (\<lambda>v. v AND MP_CURRENT_MASK \<le> target) (\<lambda>v. (v AND NOT MP_CURRENT_MASK) OR target) (\<lambda>v. v AND MP_CURRENT_MASK = target)"

definition set_mp_current_exact :: "hw_env \<Rightarrow> byte \<Rightarrow> bus \<Rightarrow> bool \<times> bus" where
  "set_mp_current_exact h target = update_reg h MP MP_REG_CURRENT
     (\<lambda>v. v AND MP_CURRENT_MASK = target) (\<lambda>v. (v AND NOT MP_CURRENT_MASK) OR target) (\<lambda>v. v AND MP_CURRENT_MASK = target)"

section \<open>State\<close>

record chip_baseline_t =
  cb_valid :: bool
  cb_current :: byte

record baseline_t =
  bl_loaded :: bool
  bl_axp :: chip_baseline_t
  bl_mp :: chip_baseline_t

type_synonym timespec = "int \<times> int"

text \<open>
  The static variables of the module, and of the world the bus, the two baseline files and the
  number of attempts to save.
\<close>

record limiter =
  baseline :: baseline_t
  voltage_limited :: bool
  v_next_run :: timespec
  v_retry_deadline :: timespec
  c_next_run :: timespec
  c_retry_deadline :: timespec
  io_bus :: bus
  base_file :: "string option"
  legacy_file :: "string option"
  save_count :: nat

definition no_chip :: chip_baseline_t where "no_chip = \<lparr>cb_valid = False, cb_current = 0\<rparr>"
definition no_baseline :: baseline_t where "no_baseline = \<lparr>bl_loaded = False, bl_axp = no_chip, bl_mp = no_chip\<rparr>"

definition before :: "timespec \<Rightarrow> timespec \<Rightarrow> bool" where
  "before a b \<longleftrightarrow> fst a < fst b \<or> (fst a = fst b \<and> snd a < snd b)"

definition plus_seconds :: "timespec \<Rightarrow> int \<Rightarrow> timespec" where
  "plus_seconds t n = (fst t + n, snd t)"

text \<open>\<^verbatim>\<open>retry_at\<close> with the clock at \<open>now\<close>.\<close>

definition retry_at :: "timespec \<Rightarrow> timespec" where
  "retry_at now = plus_seconds now CHARGE_RETRY_SECONDS"

section \<open>The baseline file\<close>

definition scan_axp :: "string \<Rightarrow> (nat \<times> string) option" where
  "scan_axp s = (case scan_lit ''version='' s of None \<Rightarrow> None
     | Some s \<Rightarrow> (case scan_u s of None \<Rightarrow> None
        | Some (ver, s) \<Rightarrow> (case scan_lit '' axp_current='' s of None \<Rightarrow> None
           | Some s \<Rightarrow> (case scan_u s of None \<Rightarrow> None
              | Some (ai, s) \<Rightarrow> if ver = BASELINE_VERSION \<and> ai \<le> unat AXP_CURRENT_MASK then Some (ai, s) else None))))"

definition scan_mp :: "string \<Rightarrow> nat option" where
  "scan_mp s = (case scan_lit '' mp_current='' s of None \<Rightarrow> None
     | Some s \<Rightarrow> (case scan_u s of None \<Rightarrow> None
        | Some (mi, s) \<Rightarrow> if mi \<le> unat MP_CURRENT_MASK then Some mi else None))"

text \<open>The chips' baselines in a file's text, \<open>None\<close> when the file is unusable.\<close>

definition read_baseline :: "bool \<Rightarrow> string \<Rightarrow> (chip_baseline_t \<times> chip_baseline_t option) option" where
  "read_baseline mp s = (case scan_axp s of None \<Rightarrow> None
     | Some (ai, s) \<Rightarrow>
         if mp then (case scan_mp s of None \<Rightarrow> None
           | Some mi \<Rightarrow> Some (\<lparr>cb_valid = True, cb_current = of_nat ai\<rparr>, Some \<lparr>cb_valid = True, cb_current = of_nat mi\<rparr>))
         else Some (\<lparr>cb_valid = True, cb_current = of_nat ai\<rparr>, None))"

definition load_baseline :: "bool \<Rightarrow> limiter \<Rightarrow> limiter" where
  "load_baseline mp s =
     (case base_file s of
        Some text \<Rightarrow>
          (case read_baseline mp text of None \<Rightarrow> s\<lparr>baseline := no_baseline, base_file := None\<rparr>
           | Some (a, m) \<Rightarrow> s\<lparr>baseline := (baseline s)\<lparr>bl_axp := a, bl_mp := (case m of None \<Rightarrow> bl_mp (baseline s) | Some m \<Rightarrow> m)\<rparr>\<rparr>)
      | None \<Rightarrow>
          (case legacy_file s of None \<Rightarrow> s
           | Some text \<Rightarrow>
               (case read_baseline mp text of None \<Rightarrow> s\<lparr>baseline := no_baseline, legacy_file := None\<rparr>
                | Some (a, m) \<Rightarrow> s\<lparr>baseline := (baseline s)\<lparr>bl_axp := a, bl_mp := (case m of None \<Rightarrow> bl_mp (baseline s) | Some m \<Rightarrow> m)\<rparr>\<rparr>)))"

definition baseline_text :: "bool \<Rightarrow> baseline_t \<Rightarrow> string" where
  "baseline_text mp b = ''version='' @ dec BASELINE_VERSION @ '' axp_current='' @ dec (unat (cb_current (bl_axp b))) @
     (if mp then '' mp_current='' @ dec (unat (cb_current (bl_mp b))) else []) @ [char_of (10 :: nat)]"

text \<open>A step that fails leaves the file as it was: the text goes to a temporary file that is renamed.\<close>

definition save_baseline :: "hw_env \<Rightarrow> bool \<Rightarrow> limiter \<Rightarrow> bool \<times> limiter" where
  "save_baseline h mp s = (let io = saves h (save_count s); s = s\<lparr>save_count := save_count s + 1\<rparr> in
     if \<not> sv_mkdir io then (False, s)
     else if \<not> sv_open io then (False, s)
     else if \<not> sv_flush io then (False, s)
     else if \<not> sv_rename io then (False, s)
     else (True, s\<lparr>base_file := Some (baseline_text mp (baseline s))\<rparr>))"

definition capture_axp :: "hw_env \<Rightarrow> limiter \<Rightarrow> bool \<times> limiter" where
  "capture_axp h s =
     (if cb_valid (bl_axp (baseline s)) then (True, s)
      else case xfer_read h AXP AXP_REG_CURRENT (io_bus s) of
        (None, w) \<Rightarrow> (False, s\<lparr>io_bus := w\<rparr>)
      | (Some v, w) \<Rightarrow> (True, s\<lparr>io_bus := w,
          baseline := (baseline s)\<lparr>bl_axp := \<lparr>cb_valid = True, cb_current = v AND AXP_CURRENT_MASK\<rparr>\<rparr>\<rparr>))"

definition capture_mp :: "hw_env \<Rightarrow> limiter \<Rightarrow> bool \<times> limiter" where
  "capture_mp h s =
     (if cb_valid (bl_mp (baseline s)) then (True, s)
      else case xfer_read h MP MP_REG_CURRENT (io_bus s) of
        (None, w) \<Rightarrow> (False, s\<lparr>io_bus := w\<rparr>)
      | (Some v, w) \<Rightarrow> (True, s\<lparr>io_bus := w,
          baseline := (baseline s)\<lparr>bl_mp := \<lparr>cb_valid = True, cb_current = v AND MP_CURRENT_MASK\<rparr>\<rparr>\<rparr>))"

definition capture_baseline :: "hw_env \<Rightarrow> bool \<Rightarrow> limiter \<Rightarrow> bool \<times> limiter" where
  "capture_baseline h mp s =
     (if bl_loaded (baseline s) then (cb_valid (bl_axp (baseline s)), s)
      else let s = load_baseline mp s; (ok, s) = capture_axp h s in
        if \<not> ok then (False, s)
        else let (ok, s) = (if mp then capture_mp h s else (True, s)) in
          if \<not> ok then (False, s)
          else let (ok, s) = save_baseline h mp s in
            if \<not> ok then (False, s\<lparr>baseline := no_baseline\<rparr>)
            else (True, s\<lparr>baseline := (baseline s)\<lparr>bl_loaded := True\<rparr>\<rparr>))"

section \<open>Polling\<close>

text \<open>\<open>now\<close> is the clock at the call, \<open>later\<close> the clock that \<^verbatim>\<open>retry_at\<close> reads.\<close>

definition not_due :: "timespec \<Rightarrow> bool \<Rightarrow> timespec \<Rightarrow> timespec \<Rightarrow> bool" where
  "not_due now force next_run retry_deadline \<longleftrightarrow>
     \<not> force \<and> fst next_run \<noteq> 0 \<and> before now next_run \<and> (fst retry_deadline = 0 \<or> before now retry_deadline)"

definition set_voltages :: "hw_env \<Rightarrow> bool \<Rightarrow> byte \<Rightarrow> byte \<Rightarrow> bus \<Rightarrow> bool \<times> bus" where
  "set_voltages h mp axp_target mp_target w =
     (let (ok, w) = set_axp_voltage h axp_target w;
          (ok, w) = (if mp then let (ok2, w) = set_mp_voltage h mp_target w in (ok2 \<and> ok, w) else (ok, w))
      in if ok then enable_axp_charger h w else (False, w))"

definition charge_limiter_poll :: "hw_env \<Rightarrow> bool \<Rightarrow> timespec \<Rightarrow> timespec \<Rightarrow> bool \<Rightarrow> bool \<Rightarrow> limiter \<Rightarrow> limiter" where
  "charge_limiter_poll h mp now later enabled force s =
     (if not_due now force (v_next_run s) (v_retry_deadline s) then s
      else let s = s\<lparr>v_next_run := plus_seconds now CHARGE_LIMITER_REEVALUATE_SECONDS\<rparr>;
          (ok, w) = (if enabled then set_voltages h mp 3 0xA0 (io_bus s)
                     else set_voltages h mp (AXP_VOLTAGE_BASELINE mp) MP_VOLTAGE_BASELINE (io_bus s));
          s = s\<lparr>io_bus := w, voltage_limited := enabled \<and> ok\<rparr>
        in if ok then s\<lparr>v_retry_deadline := (0, snd (v_retry_deadline s))\<rparr>
           else s\<lparr>v_retry_deadline := retry_at later\<rparr>)"

definition charge_limiter_is_holding :: "limiter \<Rightarrow> bool" where
  "charge_limiter_is_holding s = voltage_limited s"

text \<open>\<open>full\<close> is the answer of \<^verbatim>\<open>battery_is_full\<close>.\<close>

definition charge_limiter_is_confirmed_off :: "hw_env \<Rightarrow> bool \<Rightarrow> bool \<Rightarrow> limiter \<Rightarrow> bool \<times> limiter" where
  "charge_limiter_is_confirmed_off h mp full s =
     (if \<not> voltage_limited s then (False, s)
      else if mp then (full, s)
      else case xfer_read h AXP AXP_REG_STATUS (io_bus s) of
        (None, w) \<Rightarrow> (False, s\<lparr>io_bus := w\<rparr>)
      | (Some status, w) \<Rightarrow> (status AND 7 = 4, s\<lparr>io_bus := w\<rparr>))"

definition cap_currents :: "hw_env \<Rightarrow> bool \<Rightarrow> bus \<Rightarrow> bool \<times> bus" where
  "cap_currents h mp w =
     (let (ok, w) = set_axp_current_capped h AXP_CURRENT_CAP w
      in if mp then let (ok2, w) = set_mp_current_capped h MP_CURRENT_CAP w in (ok2 \<and> ok, w) else (ok, w))"

definition restore_currents :: "hw_env \<Rightarrow> bool \<Rightarrow> baseline_t \<Rightarrow> bus \<Rightarrow> bool \<times> bus" where
  "restore_currents h mp b w =
     (let (ok, w) = (if AXP_CURRENT_CAP < cb_current (bl_axp b) then set_axp_current_exact h (cb_current (bl_axp b)) w else (True, w))
      in if mp \<and> MP_CURRENT_CAP < cb_current (bl_mp b)
         then let (ok2, w) = set_mp_current_exact h (cb_current (bl_mp b)) w in (ok2 \<and> ok, w) else (ok, w))"

definition safe_charging_poll :: "hw_env \<Rightarrow> bool \<Rightarrow> timespec \<Rightarrow> timespec \<Rightarrow> bool \<Rightarrow> bool \<Rightarrow> limiter \<Rightarrow> limiter" where
  "safe_charging_poll h mp now later enabled force s =
     (if not_due now force (c_next_run s) (c_retry_deadline s) then s
      else let s = s\<lparr>c_next_run := plus_seconds now CHARGE_LIMITER_REEVALUATE_SECONDS\<rparr>;
          (captured, s) = capture_baseline h mp s
        in if \<not> captured then s\<lparr>c_retry_deadline := retry_at later\<rparr>
           else let (ok, w) = (if enabled then cap_currents h mp (io_bus s) else restore_currents h mp (baseline s) (io_bus s));
                    s = s\<lparr>io_bus := w\<rparr>
                in if ok then s\<lparr>c_retry_deadline := (0, snd (c_retry_deadline s))\<rparr>
                   else s\<lparr>c_retry_deadline := retry_at later\<rparr>)"

end
