(* ===== verification/Charge_Limiter_Props.thy ===== *)
theory Charge_Limiter_Props
  imports Charge_Limiter
begin

text \<open>
  The charge limiter reports the voltage cap only when the chips hold it, never raises the charge
  current while the current cap is on, and gives the chips back the current they had before, also
  across a restart.
\<close>

unbundle bit_operations_syntax

section \<open>Setting a register\<close>

definition other_regs :: "chip \<Rightarrow> byte \<Rightarrow> bus \<Rightarrow> bus \<Rightarrow> bool" where
  "other_regs c r w w' \<longleftrightarrow> (\<forall>c' r'. (c', r') \<noteq> (c, r) \<longrightarrow> regs w' c' r' = regs w c' r')"

text \<open>On any hardware: only the named register changes, and success means it was read back as wanted.\<close>

lemma update_reg_sound:
  assumes "update_reg h c r keep desired good w = (ok, w')"
  shows "other_regs c r w w'" "ok \<longrightarrow> keep (regs w' c r) \<or> good (regs w' c r)"
  using assms
  by (auto simp: update_reg_def xfer_read_def xfer_write_def other_regs_def split: if_splits option.splits prod.splits)

text \<open>On chips that keep what is written, the register ends with its old or with the desired value.\<close>

definition latching :: "hw_env \<Rightarrow> bool" where
  "latching h \<longleftrightarrow> (\<forall>k c r v. settle h k c r v = v)"

lemma update_reg_latching:
  assumes "update_reg h c r keep desired good w = (ok, w')" and "latching h"
  shows "regs w' c r = regs w c r \<or> \<not> keep (regs w c r) \<and> regs w' c r = desired (regs w c r)"
  using assms
  by (auto simp: update_reg_def xfer_read_def xfer_write_def latching_def split: if_splits option.splits prod.splits)

definition working :: "hw_env \<Rightarrow> bool" where
  "working h \<longleftrightarrow> latching h \<and> (\<forall>k. xfer_ok h k) \<and> (\<forall>k. sv_mkdir (saves h k) \<and> sv_open (saves h k) \<and> sv_flush (saves h k) \<and> sv_rename (saves h k))"

text \<open>On working hardware a setter has exactly the effect it is meant to have.\<close>

definition with_reg :: "chip \<Rightarrow> byte \<Rightarrow> byte \<Rightarrow> (chip \<Rightarrow> byte \<Rightarrow> byte) \<Rightarrow> chip \<Rightarrow> byte \<Rightarrow> byte" where
  "with_reg c r v f = f(c := (f c)(r := v))"

lemma update_reg_working:
  assumes "working h" and "keep (regs w c r) \<or> good (desired (regs w c r))"
  shows "\<exists>k. update_reg h c r keep desired good w =
     (True, w\<lparr>regs := with_reg c r (if keep (regs w c r) then regs w c r else desired (regs w c r)) (regs w), xfers := k\<rparr>)"
proof (cases "keep (regs w c r)")
  case True
  have "with_reg c r (regs w c r) (regs w) = regs w" by (simp add: with_reg_def fun_upd_idem)
  moreover have "w\<lparr>regs := regs w, xfers := xfers w + 1\<rparr> = w\<lparr>xfers := xfers w + 1\<rparr>" by simp
  ultimately show ?thesis using assms True
    by (intro exI[of _ "xfers w + 1"]) (simp add: update_reg_def xfer_read_def working_def)
next
  case False
  then show ?thesis using assms
    by (intro exI[of _ "xfers w + 1 + 1 + 1"]) (simp add: update_reg_def xfer_read_def xfer_write_def working_def latching_def with_reg_def)
qed

section \<open>The voltage cap\<close>

lemma set_voltages_sound:
  assumes "set_voltages h mp a m w = (True, w')"
  shows "regs w' AXP AXP_REG_VOLTAGE AND 7 = a" "mp \<longrightarrow> regs w' MP MP_REG_VOLTAGE AND MP_VOLTAGE_MASK = m"
    "regs w' AXP AXP_REG_MODULE_EN AND AXP_CHG_EN \<noteq> 0"
proof -
  obtain ok1 w1 where 1: "set_axp_voltage h a w = (ok1, w1)" by (cases "set_axp_voltage h a w")
  obtain ok2 w2 where 2: "(if mp then let (ok2, w) = set_mp_voltage h m w1 in (ok2 \<and> ok1, w) else (ok1, w1)) = (ok2, w2)"
    by (cases "(if mp then let (ok2, w) = set_mp_voltage h m w1 in (ok2 \<and> ok1, w) else (ok1, w1))")
  have 3: "ok2" "enable_axp_charger h w2 = (True, w')"
    using assms by (auto simp: set_voltages_def 1 2 Let_def split: if_splits)
  note s1 = update_reg_sound[OF 1[unfolded set_axp_voltage_def]] and s3 = update_reg_sound[OF 3(2)[unfolded enable_axp_charger_def]]
  have o1: "ok1" using 2 3(1) by (auto split: if_splits prod.splits)
  have mpv: "other_regs MP MP_REG_VOLTAGE w1 w2" "mp \<longrightarrow> regs w2 MP MP_REG_VOLTAGE AND MP_VOLTAGE_MASK = m"
  proof (atomize (full), cases mp)
    case True
    then obtain okm where "set_mp_voltage h m w1 = (okm, w2)" "okm" using 2 3(1) by (auto split: prod.splits)
    from update_reg_sound[OF this(1)[unfolded set_mp_voltage_def]] this(2)
    show "other_regs MP MP_REG_VOLTAGE w1 w2 \<and> (mp \<longrightarrow> regs w2 MP MP_REG_VOLTAGE AND MP_VOLTAGE_MASK = m)" by auto
  qed (use 2 in \<open>simp add: other_regs_def\<close>)
  show "regs w' AXP AXP_REG_VOLTAGE AND 7 = a"
    using s1 o1 mpv(1) s3(1) by (auto simp: other_regs_def AXP_REG_VOLTAGE_def AXP_REG_MODULE_EN_def)
  show "mp \<longrightarrow> regs w' MP MP_REG_VOLTAGE AND MP_VOLTAGE_MASK = m" using mpv(2) s3(1) by (auto simp: other_regs_def)
  show "regs w' AXP AXP_REG_MODULE_EN AND AXP_CHG_EN \<noteq> 0" using s3(2) by auto
qed

section \<open>The current cap\<close>

lemma masked_bits:
  fixes v t m :: byte
  assumes "t AND m = t"
  shows "((v AND NOT m) OR t) AND m = t" "((v AND NOT m) OR t) AND NOT m = v AND NOT m"
proof -
  have "bit m i" if "bit t i" for i using that by (subst (asm) assms[symmetric]) (simp add: bit_and_iff)
  then show "((v AND NOT m) OR t) AND m = t" "((v AND NOT m) OR t) AND NOT m = v AND NOT m"
    by (auto intro!: bit_word_eqI simp: bit_simps)
qed

lemma caps_masked: "AXP_CURRENT_CAP AND AXP_CURRENT_MASK = AXP_CURRENT_CAP" "MP_CURRENT_CAP AND MP_CURRENT_MASK = MP_CURRENT_CAP"
  by code_simp+

lemmas capped_bits = caps_masked[THEN masked_bits(1)] caps_masked[THEN masked_bits(2)]

lemma field_restored: "((((v AND NOT m) OR t) AND NOT m) OR (v AND m)) = (v :: byte)" if "t AND m = t"
proof -
  have "((v AND NOT m) OR t) AND NOT m = v AND NOT m" using that by (rule masked_bits(2))
  then show ?thesis by (simp add: bit_eq_iff bit_simps) blast
qed

text \<open>A register that is only ever lowered in its field.\<close>

definition lowered :: "byte \<Rightarrow> byte \<Rightarrow> byte \<Rightarrow> bool" where
  "lowered m v v' \<longleftrightarrow> v' AND m \<le> v AND m \<and> v' AND NOT m = v AND NOT m"

lemma lowered_refl [simp]: "lowered m v v"
  by (simp add: lowered_def)

lemma cap_currents_lowers:
  assumes "cap_currents h mp w = (ok, w')" and l: "latching h"
  shows "lowered AXP_CURRENT_MASK (regs w AXP AXP_REG_CURRENT) (regs w' AXP AXP_REG_CURRENT)"
    "lowered MP_CURRENT_MASK (regs w MP MP_REG_CURRENT) (regs w' MP MP_REG_CURRENT)"
    "\<forall>c r. (c, r) \<noteq> (AXP, AXP_REG_CURRENT) \<and> (c, r) \<noteq> (MP, MP_REG_CURRENT) \<longrightarrow> regs w' c r = regs w c r"
    "ok \<longrightarrow> regs w' AXP AXP_REG_CURRENT AND AXP_CURRENT_MASK \<le> AXP_CURRENT_CAP"
    "ok \<and> mp \<longrightarrow> regs w' MP MP_REG_CURRENT AND MP_CURRENT_MASK \<le> MP_CURRENT_CAP"
proof -
  obtain ok1 w1 where 1: "set_axp_current_capped h AXP_CURRENT_CAP w = (ok1, w1)" by (cases "set_axp_current_capped h AXP_CURRENT_CAP w")
  obtain ok2 w2 where 2: "set_mp_current_capped h MP_CURRENT_CAP w1 = (ok2, w2)" by (cases "set_mp_current_capped h MP_CURRENT_CAP w1")
  note s1 = update_reg_sound[OF 1[unfolded set_axp_current_capped_def]] and t1 = update_reg_latching[OF 1[unfolded set_axp_current_capped_def] l]
  note s2 = update_reg_sound[OF 2[unfolded set_mp_current_capped_def]] and t2 = update_reg_latching[OF 2[unfolded set_mp_current_capped_def] l]
  have r: "ok = (if mp then ok2 \<and> ok1 else ok1)" "w' = (if mp then w2 else w1)" using assms(1) by (auto simp: cap_currents_def 1 2 Let_def)
  have a: "regs w2 AXP AXP_REG_CURRENT = regs w1 AXP AXP_REG_CURRENT" and m: "regs w1 MP MP_REG_CURRENT = regs w MP MP_REG_CURRENT"
    using s2(1) s1(1) by (auto simp: other_regs_def)
  have low: "lowered AXP_CURRENT_MASK (regs w AXP AXP_REG_CURRENT) (regs w1 AXP AXP_REG_CURRENT)"
    using t1 by (auto simp: lowered_def capped_bits)
  have low2: "lowered MP_CURRENT_MASK (regs w1 MP MP_REG_CURRENT) (regs w2 MP MP_REG_CURRENT)"
    using t2 by (auto simp: lowered_def capped_bits)
  show "lowered AXP_CURRENT_MASK (regs w AXP AXP_REG_CURRENT) (regs w' AXP AXP_REG_CURRENT)" using low a r(2) by simp
  show "lowered MP_CURRENT_MASK (regs w MP MP_REG_CURRENT) (regs w' MP MP_REG_CURRENT)" using low2 m r(2) by simp
  show "\<forall>c r. (c, r) \<noteq> (AXP, AXP_REG_CURRENT) \<and> (c, r) \<noteq> (MP, MP_REG_CURRENT) \<longrightarrow> regs w' c r = regs w c r"
    using s1(1) s2(1) r(2) by (auto simp: other_regs_def)
  show "ok \<longrightarrow> regs w' AXP AXP_REG_CURRENT AND AXP_CURRENT_MASK \<le> AXP_CURRENT_CAP" using s1(2) a r by auto
  show "ok \<and> mp \<longrightarrow> regs w' MP MP_REG_CURRENT AND MP_CURRENT_MASK \<le> MP_CURRENT_CAP" using s2(2) r by auto
qed

section \<open>The baseline file\<close>

lemma scan_version: "scan_lit ''version='' (''version='' @ s) = Some s"
  by (simp add: isspace_def)

lemma scan_axp_key: "scan_lit '' axp_current='' ('' axp_current='' @ s) = Some s"
  by (simp add: isspace_def)

lemma scan_mp_key: "scan_lit '' mp_current='' ('' mp_current='' @ s) = Some s"
  by (simp add: isspace_def)

lemma small_byte: "unat (b :: byte) < 4294967296"
  using unat_byte_less[of b] by simp

lemma read_baseline_text:
  assumes "cb_current (bl_axp b) \<le> AXP_CURRENT_MASK" and "mp \<longrightarrow> cb_current (bl_mp b) \<le> MP_CURRENT_MASK"
  shows "read_baseline mp (baseline_text mp b) =
     Some (\<lparr>cb_valid = True, cb_current = cb_current (bl_axp b)\<rparr>,
       if mp then Some \<lparr>cb_valid = True, cb_current = cb_current (bl_mp b)\<rparr> else None)"
proof -
  let ?a = "unat (cb_current (bl_axp b))" and ?m = "unat (cb_current (bl_mp b))"
  let ?nl = "[char_of (10 :: nat)]"
  let ?tail = "(if mp then '' mp_current='' @ dec ?m else []) @ ?nl"
  have nd: "\<not> isdigit (at_ptr ?tail)" "\<not> isdigit (at_ptr ?nl)" by (auto simp: at_ptr_def isdigit_def)
  have 1: "scan_u (dec 2 @ '' axp_current='' @ dec ?a @ ?tail) = Some (2, '' axp_current='' @ dec ?a @ ?tail)"
    by (rule scan_u_dec) (simp_all add: at_ptr_def isdigit_def)
  have 2: "scan_u (dec ?a @ ?tail) = Some (?a, ?tail)" using small_byte nd(1) by (rule scan_u_dec)
  have ax: "scan_axp (baseline_text mp b) = Some (?a, ?tail)"
    unfolding scan_axp_def baseline_text_def scan_version BASELINE_VERSION_def option.case 1 prod.case scan_axp_key 2
    using assms(1) by (simp add: word_le_nat_alt)
  have "scan_mp ('' mp_current='' @ dec ?m @ ?nl) = Some ?m" if mp
    unfolding scan_mp_def scan_mp_key option.case scan_u_dec[OF small_byte nd(2)] prod.case
    using assms(2) that by (simp add: word_le_nat_alt)
  then show ?thesis unfolding read_baseline_def ax by simp
qed

section \<open>Restoring the current\<close>

text \<open>A restart clears the variables; the chips and the files stay.\<close>

definition restart :: "limiter \<Rightarrow> limiter" where
  "restart s = s\<lparr>baseline := no_baseline, voltage_limited := False, v_next_run := (0, 0), v_retry_deadline := (0, 0),
     c_next_run := (0, 0), c_retry_deadline := (0, 0)\<rparr>"

definition stock_baseline :: "bool \<Rightarrow> (chip \<Rightarrow> byte \<Rightarrow> byte) \<Rightarrow> baseline_t" where
  "stock_baseline mp f = \<lparr>bl_loaded = True, bl_axp = \<lparr>cb_valid = True, cb_current = f AXP AXP_REG_CURRENT AND AXP_CURRENT_MASK\<rparr>,
     bl_mp = (if mp then \<lparr>cb_valid = True, cb_current = f MP MP_REG_CURRENT AND MP_CURRENT_MASK\<rparr> else no_chip)\<rparr>"

lemma capture_fresh:
  assumes "working h" and "baseline s = no_baseline" and "base_file s = None" and "legacy_file s = None"
  shows "\<exists>k. capture_baseline h mp s = (True, s\<lparr>io_bus := (io_bus s)\<lparr>xfers := k\<rparr>, baseline := stock_baseline mp (regs (io_bus s)),
     save_count := save_count s + 1, base_file := Some (baseline_text mp (stock_baseline mp (regs (io_bus s))))\<rparr>)"
  using assms
  by (intro exI[of _ "if mp then xfers (io_bus s) + 2 else xfers (io_bus s) + 1"])
    (simp add: capture_baseline_def load_baseline_def capture_axp_def capture_mp_def xfer_read_def working_def
      save_baseline_def no_baseline_def no_chip_def stock_baseline_def baseline_text_def Let_def)

lemma and_mask_le: "(v AND m :: byte) \<le> m"
  by (simp add: word_and_le1)

lemma capture_again:
  assumes "working h" and "baseline s = no_baseline" and "base_file s = Some (baseline_text mp (stock_baseline mp f))"
  shows "capture_baseline h mp s = (True, s\<lparr>baseline := stock_baseline mp f, save_count := save_count s + 1\<rparr>)"
proof -
  have "read_baseline mp (baseline_text mp (stock_baseline mp f)) =
      Some (bl_axp (stock_baseline mp f), if mp then Some (bl_mp (stock_baseline mp f)) else None)"
    by (subst read_baseline_text) (auto simp: stock_baseline_def and_mask_le)
  then show ?thesis using assms
    by (cases mp) (auto simp: capture_baseline_def load_baseline_def capture_axp_def capture_mp_def working_def
      save_baseline_def no_baseline_def no_chip_def stock_baseline_def baseline_text_def Let_def)
qed

definition capped :: "byte \<Rightarrow> byte \<Rightarrow> byte \<Rightarrow> byte" where
  "capped m t v = (if v AND m \<le> t then v else (v AND NOT m) OR t)"

definition capped_regs :: "bool \<Rightarrow> (chip \<Rightarrow> byte \<Rightarrow> byte) \<Rightarrow> chip \<Rightarrow> byte \<Rightarrow> byte" where
  "capped_regs mp f = (let g = with_reg AXP AXP_REG_CURRENT (capped AXP_CURRENT_MASK AXP_CURRENT_CAP (f AXP AXP_REG_CURRENT)) f
     in if mp then with_reg MP MP_REG_CURRENT (capped MP_CURRENT_MASK MP_CURRENT_CAP (f MP MP_REG_CURRENT)) g else g)"

lemma with_reg_other [simp]: "(c', r') \<noteq> (c, r) \<Longrightarrow> with_reg c r v f c' r' = f c' r'" "with_reg c r v f c r = v"
  by (auto simp: with_reg_def)

lemma cap_currents_working:
  assumes h: "working h"
  shows "\<exists>k. cap_currents h mp w = (True, w\<lparr>regs := capped_regs mp (regs w), xfers := k\<rparr>)"
proof -
  obtain k1 where 1: "set_axp_current_capped h AXP_CURRENT_CAP w =
      (True, w\<lparr>regs := with_reg AXP AXP_REG_CURRENT (capped AXP_CURRENT_MASK AXP_CURRENT_CAP (regs w AXP AXP_REG_CURRENT)) (regs w), xfers := k1\<rparr>)"
    using update_reg_working[OF h, of "\<lambda>v. v AND AXP_CURRENT_MASK \<le> AXP_CURRENT_CAP" w AXP AXP_REG_CURRENT
        "\<lambda>v. v AND AXP_CURRENT_MASK = AXP_CURRENT_CAP" "\<lambda>v. (v AND NOT AXP_CURRENT_MASK) OR AXP_CURRENT_CAP"]
    by (auto simp: set_axp_current_capped_def capped_def capped_bits)
  define w1 where "w1 = w\<lparr>regs := with_reg AXP AXP_REG_CURRENT (capped AXP_CURRENT_MASK AXP_CURRENT_CAP (regs w AXP AXP_REG_CURRENT)) (regs w), xfers := k1\<rparr>"
  obtain k2 where 2: "set_mp_current_capped h MP_CURRENT_CAP w1 =
      (True, w1\<lparr>regs := with_reg MP MP_REG_CURRENT (capped MP_CURRENT_MASK MP_CURRENT_CAP (regs w1 MP MP_REG_CURRENT)) (regs w1), xfers := k2\<rparr>)"
    using update_reg_working[OF h, of "\<lambda>v. v AND MP_CURRENT_MASK \<le> MP_CURRENT_CAP" w1 MP MP_REG_CURRENT
        "\<lambda>v. v AND MP_CURRENT_MASK = MP_CURRENT_CAP" "\<lambda>v. (v AND NOT MP_CURRENT_MASK) OR MP_CURRENT_CAP"]
    by (auto simp: set_mp_current_capped_def capped_def capped_bits)
  show ?thesis
  proof (cases mp)
    case True
    then show ?thesis using 2 by (auto simp: cap_currents_def 1 w1_def[symmetric]) (auto simp: w1_def capped_regs_def)
  next
    case False
    then show ?thesis by (auto simp: cap_currents_def 1 capped_regs_def)
  qed
qed

text \<open>Writing the captured field back gives the register its old value.\<close>

lemma restored: "t AND m = t \<Longrightarrow> t < v AND m \<Longrightarrow> ((capped m t v AND NOT m) OR (v AND m)) = v"
  using field_restored[of t m v] by (simp add: capped_def not_le[symmetric])

lemma uncapped: "\<not> t < v AND m \<Longrightarrow> capped m t v = v"
  by (simp add: capped_def not_less)

lemma and_and_mask: "(v AND m) AND m = (v AND m :: byte)"
  by (simp add: and.assoc)

lemma exact_working:
  assumes h: "working h" and w: "regs w c r = capped m t v" "t AND m = t" "t < v AND m"
  shows "\<exists>k. update_reg h c r (\<lambda>x. x AND m = v AND m) (\<lambda>x. (x AND NOT m) OR (v AND m)) (\<lambda>x. x AND m = v AND m) w =
     (True, w\<lparr>regs := with_reg c r v (regs w), xfers := k\<rparr>)"
proof -
  have "capped m t v AND m = t" using w(3) masked_bits(1)[OF w(2)] by (simp add: capped_def not_le[symmetric])
  then have "regs w c r AND m \<noteq> v AND m" using w(1,3) by simp
  moreover have "((regs w c r AND NOT m) OR (v AND m)) AND m = v AND m" by (rule masked_bits(1)[OF and_and_mask])
  moreover have "(regs w c r AND NOT m) OR (v AND m) = v" using restored[OF w(2,3)] w(1) by simp
  ultimately show ?thesis
    using update_reg_working[OF h, of "\<lambda>x. x AND m = v AND m" w c r "\<lambda>x. x AND m = v AND m" "\<lambda>x. (x AND NOT m) OR (v AND m)"] by simp
qed

lemma restore_currents_working:
  assumes h: "working h" and w: "regs w = capped_regs mp f"
  shows "\<exists>k. restore_currents h mp (stock_baseline mp f) w = (True, w\<lparr>regs := f, xfers := k\<rparr>)"
proof -
  let ?a = "f AXP AXP_REG_CURRENT" and ?m = "f MP MP_REG_CURRENT"
  have wa: "regs w AXP AXP_REG_CURRENT = capped AXP_CURRENT_MASK AXP_CURRENT_CAP ?a"
    by (auto simp: w capped_regs_def Let_def)
  define g where "g = with_reg AXP AXP_REG_CURRENT ?a (regs w)"
  have axp: "\<exists>k. (if AXP_CURRENT_CAP < ?a AND AXP_CURRENT_MASK then set_axp_current_exact h (?a AND AXP_CURRENT_MASK) w else (True, w)) =
      (True, w\<lparr>regs := g, xfers := k\<rparr>)"
  proof (cases "AXP_CURRENT_CAP < ?a AND AXP_CURRENT_MASK")
    case True
    then show ?thesis using exact_working[OF h wa caps_masked(1)] by (simp add: set_axp_current_exact_def g_def)
  next
    case False
    then have "g = regs w" using uncapped[OF False] wa by (simp add: g_def with_reg_def fun_upd_idem)
    then have "w\<lparr>regs := g, xfers := xfers w\<rparr> = w" by (cases w) simp
    then show ?thesis using False by (metis (no_types))
  qed
  then obtain k1 where 1: "(if AXP_CURRENT_CAP < ?a AND AXP_CURRENT_MASK then set_axp_current_exact h (?a AND AXP_CURRENT_MASK) w else (True, w)) =
      (True, w\<lparr>regs := g, xfers := k1\<rparr>)" by blast
  define w1 where "w1 = w\<lparr>regs := g, xfers := k1\<rparr>"
  have f: "(if mp then with_reg MP MP_REG_CURRENT ?m g else g) = f"
    by (auto simp: g_def w capped_regs_def Let_def with_reg_def fun_eq_iff)
  have "\<exists>k. (if mp \<and> MP_CURRENT_CAP < ?m AND MP_CURRENT_MASK then let (ok2, w) = set_mp_current_exact h (?m AND MP_CURRENT_MASK) w1 in (ok2 \<and> True, w)
       else (True, w1)) = (True, w1\<lparr>regs := f, xfers := k\<rparr>)"
  proof (cases "mp \<and> MP_CURRENT_CAP < ?m AND MP_CURRENT_MASK")
    case True
    have "regs w1 MP MP_REG_CURRENT = capped MP_CURRENT_MASK MP_CURRENT_CAP ?m"
      using True by (simp add: w1_def g_def w capped_regs_def Let_def)
    moreover have "with_reg MP MP_REG_CURRENT ?m (regs w1) = f" using f True by (simp add: w1_def)
    ultimately show ?thesis using exact_working[OF h _ caps_masked(2), of w1 MP MP_REG_CURRENT ?m] True by (auto simp: set_mp_current_exact_def)
  next
    case False
    have idem: "mp \<Longrightarrow> with_reg MP MP_REG_CURRENT ?m g = g"
    proof -
      assume mp
      then have "g MP MP_REG_CURRENT = ?m"
        using False uncapped[of MP_CURRENT_CAP ?m MP_CURRENT_MASK] by (simp add: g_def w capped_regs_def Let_def)
      then show ?thesis by (metis fun_upd_triv with_reg_def)
    qed
    have "g = f" by (cases mp) (use f idem in simp_all)
    then have "w1\<lparr>regs := f, xfers := k1\<rparr> = w1" by (simp add: w1_def)
    then show ?thesis using False by (metis (no_types))
  qed
  then obtain k where k: "(if mp \<and> MP_CURRENT_CAP < ?m AND MP_CURRENT_MASK then let (ok2, w) = set_mp_current_exact h (?m AND MP_CURRENT_MASK) w1 in (ok2 \<and> True, w)
       else (True, w1)) = (True, w1\<lparr>regs := f, xfers := k\<rparr>)" by blast
  have b: "cb_current (bl_axp (stock_baseline mp f)) = ?a AND AXP_CURRENT_MASK" "mp \<Longrightarrow> cb_current (bl_mp (stock_baseline mp f)) = ?m AND MP_CURRENT_MASK"
    by (simp_all add: stock_baseline_def)
  have "restore_currents h mp (stock_baseline mp f) w =
      (if mp \<and> MP_CURRENT_CAP < ?m AND MP_CURRENT_MASK then let (ok2, w) = set_mp_current_exact h (?m AND MP_CURRENT_MASK) w1 in (ok2 \<and> True, w)
       else (True, w1))"
    unfolding restore_currents_def b(1) 1 w1_def[symmetric] Let_def prod.case using b(2) by (simp cong: conj_cong)
  moreover have "w1\<lparr>regs := f, xfers := k\<rparr> = w\<lparr>regs := f, xfers := k\<rparr>" by (simp add: w1_def)
  ultimately show ?thesis using k by metis
qed

section \<open>The polls\<close>

lemma retry_at_later: "0 \<le> fst later \<Longrightarrow> fst (retry_at later) \<noteq> 0"
  by (simp add: retry_at_def plus_seconds_def CHARGE_RETRY_SECONDS_def)

text \<open>Capturing the baseline only reads the chips.\<close>

lemma capture_baseline_regs: "regs (io_bus (snd (capture_baseline h mp s))) = regs (io_bus s)"
  by (auto simp: capture_baseline_def load_baseline_def capture_axp_def capture_mp_def xfer_read_def save_baseline_def Let_def
      split: option.splits prod.splits if_splits)

lemma safe_charging_poll_step:
  assumes "\<not> not_due now force (c_next_run s) (c_retry_deadline s)"
    and "capture_baseline h mp (s\<lparr>c_next_run := plus_seconds now CHARGE_LIMITER_REEVALUATE_SECONDS\<rparr>) = (True, t)"
    and "(if enabled then cap_currents h mp (io_bus t) else restore_currents h mp (baseline t) (io_bus t)) = (ok, w)"
  shows "safe_charging_poll h mp now later enabled force s =
     t\<lparr>io_bus := w, c_retry_deadline := (if ok then (0, snd (c_retry_deadline t)) else retry_at later)\<rparr>"
  unfolding safe_charging_poll_def Let_def assms(2) prod.case assms(3) using assms(1) by simp

section \<open>Properties\<close>

text \<open>Hardware that works, with every current field at its largest value.\<close>

definition good_hw :: hw_env where
  "good_hw = \<lparr>xfer_ok = \<lambda>k. True, settle = \<lambda>k c r v. v, saves = \<lambda>k. \<lparr>sv_mkdir = True, sv_open = True, sv_flush = True, sv_rename = True\<rparr>\<rparr>"

definition booted :: limiter where
  "booted = \<lparr>baseline = no_baseline, voltage_limited = False, v_next_run = (0, 0), v_retry_deadline = (0, 0),
     c_next_run = (0, 0), c_retry_deadline = (0, 0), io_bus = \<lparr>regs = \<lambda>c r. 0xFF, xfers = 0\<rparr>,
     base_file = None, legacy_file = None, save_count = 0\<rparr>"

lemma good_hw: "working good_hw" "latching good_hw"
  by (simp_all add: working_def latching_def good_hw_def)

lemma charge_poll_confirmed_parts:
  assumes "\<not> not_due now force (v_next_run s) (v_retry_deadline s)" and "0 \<le> fst later"
    and "s' = charge_limiter_poll h mp now later enabled force s"
  shows "charge_limiter_is_holding s' \<longleftrightarrow> enabled \<and> fst (v_retry_deadline s') = 0"
    and "fst (v_retry_deadline s') = 0 \<Longrightarrow>
       regs (io_bus s') AXP AXP_REG_VOLTAGE AND 7 = (if enabled then 3 else AXP_VOLTAGE_BASELINE mp) \<and>
       (mp \<longrightarrow> regs (io_bus s') MP MP_REG_VOLTAGE AND MP_VOLTAGE_MASK = (if enabled then 0xA0 else MP_VOLTAGE_BASELINE)) \<and>
       regs (io_bus s') AXP AXP_REG_MODULE_EN AND AXP_CHG_EN \<noteq> 0"
proof -
  define a :: byte where "a = (if enabled then 3 else AXP_VOLTAGE_BASELINE mp)"
  define m :: byte where "m = (if enabled then 0xA0 else MP_VOLTAGE_BASELINE)"
  obtain ok w where v: "set_voltages h mp a m (io_bus s) = (ok, w)" by (cases "set_voltages h mp a m (io_bus s)")
  have s': "voltage_limited s' = (enabled \<and> ok)" "io_bus s' = w"
      "v_retry_deadline s' = (if ok then (0, snd (v_retry_deadline s)) else retry_at later)"
    using assms(1) v unfolding assms(3) charge_limiter_poll_def a_def m_def by (cases enabled; simp add: Let_def)+
  then have ok: "fst (v_retry_deadline s') = 0 \<longleftrightarrow> ok" using retry_at_later[OF assms(2)] by simp
  then show "charge_limiter_is_holding s' \<longleftrightarrow> enabled \<and> fst (v_retry_deadline s') = 0"
    by (simp add: charge_limiter_is_holding_def s'(1))
  assume "fst (v_retry_deadline s') = 0"
  then have "set_voltages h mp a m (io_bus s) = (True, w)" using v ok by simp
  from set_voltages_sound[OF this] show "regs (io_bus s') AXP AXP_REG_VOLTAGE AND 7 = (if enabled then 3 else AXP_VOLTAGE_BASELINE mp) \<and>
       (mp \<longrightarrow> regs (io_bus s') MP MP_REG_VOLTAGE AND MP_VOLTAGE_MASK = (if enabled then 0xA0 else MP_VOLTAGE_BASELINE)) \<and>
       regs (io_bus s') AXP AXP_REG_MODULE_EN AND AXP_CHG_EN \<noteq> 0"
    by (simp add: s'(2) a_def m_def)
qed



lemma safe_charging_only_lowers_parts:
  assumes "latching h" and "s' = safe_charging_poll h mp now later True force s"
  shows "lowered AXP_CURRENT_MASK (regs (io_bus s) AXP AXP_REG_CURRENT) (regs (io_bus s') AXP AXP_REG_CURRENT) \<and>
     lowered MP_CURRENT_MASK (regs (io_bus s) MP MP_REG_CURRENT) (regs (io_bus s') MP MP_REG_CURRENT)"
    and "(c, r) \<noteq> (AXP, AXP_REG_CURRENT) \<and> (c, r) \<noteq> (MP, MP_REG_CURRENT) \<Longrightarrow> regs (io_bus s') c r = regs (io_bus s) c r"
    and "\<not> not_due now force (c_next_run s) (c_retry_deadline s) \<and> 0 \<le> fst later \<and> fst (c_retry_deadline s') = 0 \<Longrightarrow>
       regs (io_bus s') AXP AXP_REG_CURRENT AND AXP_CURRENT_MASK \<le> AXP_CURRENT_CAP \<and>
       (mp \<longrightarrow> regs (io_bus s') MP MP_REG_CURRENT AND MP_CURRENT_MASK \<le> MP_CURRENT_CAP)"
proof -
  let ?s = "s\<lparr>c_next_run := plus_seconds now CHARGE_LIMITER_REEVALUATE_SECONDS\<rparr>"
  obtain cap t where t: "capture_baseline h mp ?s = (cap, t)" by (cases "capture_baseline h mp ?s")
  have rt: "regs (io_bus t) = regs (io_bus s)" using capture_baseline_regs[of h mp ?s] t by simp
  obtain ok w where w: "cap_currents h mp (io_bus t) = (ok, w)" by (cases "cap_currents h mp (io_bus t)")
  note low = cap_currents_lowers[OF w assms(1), unfolded rt]
  have late: "0 \<le> fst later \<longrightarrow> fst (retry_at later) \<noteq> 0" using retry_at_later by blast
  consider (idle) "not_due now force (c_next_run s) (c_retry_deadline s)" "s' = s"
    | (failed) "\<not> cap" "s' = t\<lparr>c_retry_deadline := retry_at later\<rparr>"
    | (polled) "s' = t\<lparr>io_bus := w, c_retry_deadline := (if ok then (0, snd (c_retry_deadline t)) else retry_at later)\<rparr>"
  proof (cases "not_due now force (c_next_run s) (c_retry_deadline s)")
    case True
    then show ?thesis using idle assms(2) by (simp add: safe_charging_poll_def)
  next
    case due: False
    show ?thesis
    proof (cases cap)
      case True
      then have t': "capture_baseline h mp ?s = (True, t)" using t by simp
      show ?thesis by (rule polled) (simp add: assms(2) safe_charging_poll_step[OF due t', of True] w)
    next
      case False
      then show ?thesis using failed due t assms(2) by (simp add: safe_charging_poll_def)
    qed
  qed
  then show "lowered AXP_CURRENT_MASK (regs (io_bus s) AXP AXP_REG_CURRENT) (regs (io_bus s') AXP AXP_REG_CURRENT) \<and>
     lowered MP_CURRENT_MASK (regs (io_bus s) MP MP_REG_CURRENT) (regs (io_bus s') MP MP_REG_CURRENT)"
    and "(c, r) \<noteq> (AXP, AXP_REG_CURRENT) \<and> (c, r) \<noteq> (MP, MP_REG_CURRENT) \<Longrightarrow> regs (io_bus s') c r = regs (io_bus s) c r"
    and "\<not> not_due now force (c_next_run s) (c_retry_deadline s) \<and> 0 \<le> fst later \<and> fst (c_retry_deadline s') = 0 \<Longrightarrow>
       regs (io_bus s') AXP AXP_REG_CURRENT AND AXP_CURRENT_MASK \<le> AXP_CURRENT_CAP \<and>
       (mp \<longrightarrow> regs (io_bus s') MP MP_REG_CURRENT AND MP_CURRENT_MASK \<le> MP_CURRENT_CAP)"
    by (atomize (full), cases) (use low rt late in \<open>auto split: if_splits\<close>)
qed

text \<open>
  C24: while the current cap is on, a poll never raises the charge current of either chip and
  touches nothing else; when it clears its retry deadline, both currents are within the cap.
\<close>

theorem safe_charging_only_lowers:
  assumes "latching h" and "s' = safe_charging_poll h mp now later True force s"
  shows "lowered AXP_CURRENT_MASK (regs (io_bus s) AXP AXP_REG_CURRENT) (regs (io_bus s') AXP AXP_REG_CURRENT) \<and>
     lowered MP_CURRENT_MASK (regs (io_bus s) MP MP_REG_CURRENT) (regs (io_bus s') MP MP_REG_CURRENT) \<and>
     (\<forall>c r. (c, r) \<noteq> (AXP, AXP_REG_CURRENT) \<and> (c, r) \<noteq> (MP, MP_REG_CURRENT) \<longrightarrow> regs (io_bus s') c r = regs (io_bus s) c r) \<and>
     (\<not> not_due now force (c_next_run s) (c_retry_deadline s) \<and> 0 \<le> fst later \<and> fst (c_retry_deadline s') = 0 \<longrightarrow>
       regs (io_bus s') AXP AXP_REG_CURRENT AND AXP_CURRENT_MASK \<le> AXP_CURRENT_CAP \<and>
       (mp \<longrightarrow> regs (io_bus s') MP MP_REG_CURRENT AND MP_CURRENT_MASK \<le> MP_CURRENT_CAP))"
  using safe_charging_only_lowers_parts[OF assms] by blast

theorem safe_charging_only_lowers_witness:
  "regs (io_bus (safe_charging_poll good_hw True (7, 0) (7, 1) True True booted)) AXP AXP_REG_CURRENT AND AXP_CURRENT_MASK \<le> AXP_CURRENT_CAP \<and>
   regs (io_bus (safe_charging_poll good_hw True (7, 0) (7, 1) True True booted)) AXP AXP_REG_VOLTAGE = 0xFF"
proof -
  let ?s = "safe_charging_poll good_hw True (7, 0) (7, 1) True True booted"
  have "fst (c_retry_deadline ?s) = 0" by code_simp
  moreover have "regs (io_bus booted) AXP AXP_REG_VOLTAGE = 0xFF" by (simp add: booted_def)
  ultimately show ?thesis
    using safe_charging_only_lowers[OF good_hw(2) refl, where mp = True and now = "(7, 0)" and later = "(7, 1)" and force = True and s = booted]
    by (simp add: not_due_def AXP_REG_VOLTAGE_def AXP_REG_CURRENT_def)
qed

lemma safe_charging_restores_parts:
  assumes "working h" and "baseline s = no_baseline" and "base_file s = None" and "legacy_file s = None"
    and "s1 = safe_charging_poll h mp now later True True s"
    and "s2 = safe_charging_poll h mp now' later' False True (restart s1)"
  shows "regs (io_bus s1) = capped_regs mp (regs (io_bus s))" and "regs (io_bus s2) = regs (io_bus s)"
    and "fst (c_retry_deadline s1) = 0" and "fst (c_retry_deadline s2) = 0"
proof -
  let ?f = "regs (io_bus s)"
  have due: "\<not> not_due now True (c_next_run s) (c_retry_deadline s)" "\<not> not_due now' True (c_next_run (restart s1)) (c_retry_deadline (restart s1))"
    by (simp_all add: not_due_def)
  let ?s = "s\<lparr>c_next_run := plus_seconds now CHARGE_LIMITER_REEVALUATE_SECONDS\<rparr>"
  obtain t where t: "capture_baseline h mp ?s = (True, t)" "regs (io_bus t) = ?f" "base_file t = Some (baseline_text mp (stock_baseline mp ?f))"
    using capture_fresh[OF assms(1), of ?s mp] assms(2-4) by auto
  obtain k where k: "cap_currents h mp (io_bus t) = (True, (io_bus t)\<lparr>regs := capped_regs mp ?f, xfers := k\<rparr>)"
    using cap_currents_working[OF assms(1), of mp "io_bus t"] t(2) by auto
  have s1: "s1 = t\<lparr>io_bus := (io_bus t)\<lparr>regs := capped_regs mp ?f, xfers := k\<rparr>, c_retry_deadline := (0, snd (c_retry_deadline t))\<rparr>"
    unfolding assms(5) by (subst safe_charging_poll_step[OF due(1) t(1), of True, simplified, OF k]) simp
  then show "regs (io_bus s1) = capped_regs mp ?f" "fst (c_retry_deadline s1) = 0" by simp_all
  let ?r = "(restart s1)\<lparr>c_next_run := plus_seconds now' CHARGE_LIMITER_REEVALUATE_SECONDS\<rparr>"
  have r: "baseline ?r = no_baseline" "base_file ?r = Some (baseline_text mp (stock_baseline mp ?f))" "regs (io_bus ?r) = capped_regs mp ?f"
    by (simp_all add: restart_def s1 t(3))
  note again = capture_again[OF assms(1) r(1,2)]
  obtain k' where k': "restore_currents h mp (stock_baseline mp ?f) (io_bus ?r) = (True, (io_bus ?r)\<lparr>regs := ?f, xfers := k'\<rparr>)"
    using restore_currents_working[OF assms(1) r(3)] by blast
  have "(if False then cap_currents h mp (io_bus (?r\<lparr>baseline := stock_baseline mp ?f, save_count := save_count ?r + 1\<rparr>))
      else restore_currents h mp (baseline (?r\<lparr>baseline := stock_baseline mp ?f, save_count := save_count ?r + 1\<rparr>))
         (io_bus (?r\<lparr>baseline := stock_baseline mp ?f, save_count := save_count ?r + 1\<rparr>))) = (True, (io_bus ?r)\<lparr>regs := ?f, xfers := k'\<rparr>)"
    using k' by simp
  from safe_charging_poll_step[OF due(2) again this]
  show "regs (io_bus s2) = ?f" "fst (c_retry_deadline s2) = 0" unfolding assms(6) by simp_all
qed

text \<open>
  on hardware that works, switching the current cap on, restarting the player and switching
  the cap off again leaves every register of both chips as it was at first.
\<close>

theorem safe_charging_restores:
  assumes "working h" and "baseline s = no_baseline" and "base_file s = None" and "legacy_file s = None"
    and "s1 = safe_charging_poll h mp now later True True s"
    and "s2 = safe_charging_poll h mp now' later' False True (restart s1)"
  shows "regs (io_bus s1) = capped_regs mp (regs (io_bus s)) \<and> regs (io_bus s2) = regs (io_bus s) \<and>
     fst (c_retry_deadline s1) = 0 \<and> fst (c_retry_deadline s2) = 0"
  using safe_charging_restores_parts[OF assms] by blast

theorem safe_charging_restores_witness:
  "regs (io_bus (safe_charging_poll good_hw True (9, 0) (9, 1) False True
     (restart (safe_charging_poll good_hw True (7, 0) (7, 1) True True booted)))) = (\<lambda>c r. 0xFF)"
  using safe_charging_restores[OF good_hw(1), of booted _ True "(7, 0)" "(7, 1)" _ "(9, 0)" "(9, 1)"] by (simp add: booted_def)

end
