(* ===== verification/Sd_Ready.thy ===== *)
theory Sd_Ready
  imports Prelude
begin

text \<open>
  Waiting for the SD card at boot (\<^verbatim>\<open>src/src/bootloader/sd_ready.c\<close>): a polling loop over probes of the
  card, with three deadlines.

  The probes are callbacks of the caller.  What they answer may change from call to call, so the
  environment gives the answer to the \<open>k\<close>-th call; the calls of \<^verbatim>\<open>try_mount\<close> and \<^verbatim>\<open>wait_ms\<close>, which
  answer nothing, are recorded in the order in which they are made.
\<close>

section \<open>Stages\<close>

datatype sd_ready_stage_t = SD_READY_STAGE_NONE | SD_READY_STAGE_MMC_EVIDENCE | SD_READY_STAGE_NODE_PRESENT
  | SD_READY_STAGE_MOUNTED | SD_READY_STAGE_EXEC_READY

text \<open>The stages are compared as the numbers of the C enumeration.\<close>

fun stage_no :: "sd_ready_stage_t \<Rightarrow> nat" where
  "stage_no SD_READY_STAGE_NONE = 0"
| "stage_no SD_READY_STAGE_MMC_EVIDENCE = 1"
| "stage_no SD_READY_STAGE_NODE_PRESENT = 2"
| "stage_no SD_READY_STAGE_MOUNTED = 3"
| "stage_no SD_READY_STAGE_EXEC_READY = 4"

lemma stage_no_inject: "stage_no a = stage_no b \<longleftrightarrow> a = b"
  by (cases a; cases b) simp_all

instantiation sd_ready_stage_t :: linorder
begin

definition less_eq_sd_ready_stage_t :: "sd_ready_stage_t \<Rightarrow> sd_ready_stage_t \<Rightarrow> bool" where
  "a \<le> b \<longleftrightarrow> stage_no a \<le> stage_no b"

definition less_sd_ready_stage_t :: "sd_ready_stage_t \<Rightarrow> sd_ready_stage_t \<Rightarrow> bool" where
  "a < b \<longleftrightarrow> stage_no a < stage_no b"

instance
  by standard (auto simp: less_eq_sd_ready_stage_t_def less_sd_ready_stage_t_def stage_no_inject[symmetric])

end

lemma stage_none_least [simp]: "SD_READY_STAGE_NONE \<le> a"
  by (simp add: less_eq_sd_ready_stage_t_def)

section \<open>Probes and results\<close>

record sd_ready_probes_t =
  path_exists :: "nat \<Rightarrow> string \<Rightarrow> bool"
  mount_point_mounted :: "nat \<Rightarrow> bool"
  mmc_evidence_present :: "nat \<Rightarrow> bool"
  path_is_executable :: "nat \<Rightarrow> string \<Rightarrow> bool"
  monotonic_ms :: "nat \<Rightarrow> int"

datatype sd_call = Try_mount string int | Wait_ms int

record sd_io =
  probe_no :: nat
  calls :: "sd_call list"

record sd_ready_result_t =
  stage :: sd_ready_stage_t
  saw_mmc_evidence :: bool
  saw_whole_node :: bool
  saw_partition_node :: bool
  mounted :: bool
  executable_ready :: bool
  device_node_used :: "string option"
  elapsed_ms :: int

text \<open>The other arguments of \<^verbatim>\<open>wait_for_sd_ready\<close>.\<close>

record sd_params =
  partition_node :: string
  whole_disk_node :: string
  exec_candidates :: "string list"
  short_deadline_ms :: int
  extended_deadline_ms :: int
  hard_deadline_ms :: int
  poll_interval_ms :: int
  exec_grace_ms :: int

definition tick :: "sd_io \<Rightarrow> sd_io" where
  "tick s = s\<lparr>probe_no := probe_no s + 1\<rparr>"

definition record_call :: "sd_call \<Rightarrow> sd_io \<Rightarrow> sd_io" where
  "record_call c s = s\<lparr>calls := calls s @ [c]\<rparr>"

definition stage_from_evidence :: "bool \<Rightarrow> bool \<Rightarrow> bool \<Rightarrow> bool \<Rightarrow> bool \<Rightarrow> sd_ready_stage_t" where
  "stage_from_evidence mmc_evidence whole_node part_node mnt exec_ready =
     (if exec_ready then SD_READY_STAGE_EXEC_READY
      else if mnt then SD_READY_STAGE_MOUNTED
      else if whole_node \<or> part_node then SD_READY_STAGE_NODE_PRESENT
      else if mmc_evidence then SD_READY_STAGE_MMC_EVIDENCE
      else SD_READY_STAGE_NONE)"

fun any_exec_ready :: "sd_ready_probes_t \<Rightarrow> string list \<Rightarrow> sd_io \<Rightarrow> bool \<times> sd_io" where
  "any_exec_ready p [] s = (False, s)"
| "any_exec_ready p (c # cs) s = (if path_is_executable p (probe_no s) c then (True, tick s) else any_exec_ready p cs (tick s))"

text \<open>Whether the node exists, and whether the card is mounted after the attempt.\<close>

definition try_mount_candidate_node :: "sd_ready_probes_t \<Rightarrow> string \<Rightarrow> int \<Rightarrow> int \<Rightarrow> int \<Rightarrow> sd_io \<Rightarrow> bool \<times> bool \<times> sd_io" where
  "try_mount_candidate_node p node start elapsed hard s =
     (if \<not> path_exists p (probe_no s) node then (False, False, tick s)
      else let s = tick s;
          before = monotonic_ms p (probe_no s);
          s = tick s;
          remaining = hard - (if 0 \<le> before then before - start else elapsed);
          s = record_call (Try_mount node remaining) s
        in (True, mount_point_mounted p (probe_no s), tick s))"

section \<open>The polling loop\<close>

record sd_loop =
  result :: sd_ready_result_t
  io :: sd_io
  stage_at_short_checkpoint :: sd_ready_stage_t
  short_checkpoint_done :: bool
  extended_checkpoint_done :: bool
  mounted_at_ms :: int

datatype 'r sd_next = Return 'r | Again sd_loop | Onward sd_loop

text \<open>The card is mounted: look for an executable, give up after the grace time.\<close>

definition poll_mounted :: "sd_ready_probes_t \<Rightarrow> sd_params \<Rightarrow> int \<Rightarrow> sd_loop \<Rightarrow> (sd_ready_result_t \<times> sd_io) sd_next" where
  "poll_mounted p c elapsed l =
     (let l = (if mounted_at_ms l < 0 then l\<lparr>mounted_at_ms := elapsed\<rparr> else l);
          l = l\<lparr>result := (result l)\<lparr>mounted := True\<rparr>\<rparr>;
          (ready, s) = any_exec_ready p (exec_candidates c) (io l);
          l = l\<lparr>io := s\<rparr>
      in if ready
         then Return ((result l)\<lparr>executable_ready := True, elapsed_ms := elapsed, stage := SD_READY_STAGE_EXEC_READY\<rparr>, io l)
         else if exec_grace_ms c \<le> elapsed - mounted_at_ms l
         then Return ((result l)\<lparr>elapsed_ms := elapsed, stage := SD_READY_STAGE_MOUNTED\<rparr>, io l)
         else Onward l)"

text \<open>The card is not mounted: try the partition, then the whole disk, then look for other evidence.\<close>

definition poll_unmounted :: "sd_ready_probes_t \<Rightarrow> sd_params \<Rightarrow> int \<Rightarrow> int \<Rightarrow> sd_loop \<Rightarrow> (sd_ready_result_t \<times> sd_io) sd_next" where
  "poll_unmounted p c start elapsed l =
     (let (saw, ok, s) = try_mount_candidate_node p (partition_node c) start elapsed (hard_deadline_ms c) (io l);
          l = l\<lparr>io := s, result := (result l)\<lparr>saw_partition_node := saw_partition_node (result l) \<or> saw\<rparr>\<rparr>
      in if ok then Again (l\<lparr>result := (result l)\<lparr>device_node_used := Some (partition_node c)\<rparr>\<rparr>)
         else let (saw, ok, s) = try_mount_candidate_node p (whole_disk_node c) start elapsed (hard_deadline_ms c) (io l);
                  l = l\<lparr>io := s, result := (result l)\<lparr>saw_whole_node := saw_whole_node (result l) \<or> saw\<rparr>\<rparr>
              in if ok then Again (l\<lparr>result := (result l)\<lparr>device_node_used := Some (whole_disk_node c)\<rparr>\<rparr>)
                 else if \<not> saw_whole_node (result l) \<and> \<not> saw_partition_node (result l)
                 then (if mmc_evidence_present p (probe_no (io l))
                       then Onward (l\<lparr>io := tick (io l), result := (result l)\<lparr>saw_mmc_evidence := True\<rparr>\<rparr>)
                       else Onward (l\<lparr>io := tick (io l)\<rparr>))
                 else Onward l)"

definition current_stage :: "sd_ready_result_t \<Rightarrow> sd_ready_stage_t" where
  "current_stage r = stage_from_evidence (saw_mmc_evidence r) (saw_whole_node r) (saw_partition_node r) (mounted r) (executable_ready r)"

definition sleep_ms :: "sd_params \<Rightarrow> int \<Rightarrow> int" where
  "sleep_ms c elapsed = (if hard_deadline_ms c - elapsed < poll_interval_ms c then hard_deadline_ms c - elapsed else poll_interval_ms c)"

text \<open>The deadlines and the sleep at the end of an iteration.\<close>

definition check_deadlines :: "sd_params \<Rightarrow> int \<Rightarrow> sd_loop \<Rightarrow> (sd_ready_result_t \<times> sd_io) sd_next" where
  "check_deadlines c elapsed l =
     (let cur = current_stage (result l); r = (result l)\<lparr>elapsed_ms := elapsed, stage := cur\<rparr>
      in if hard_deadline_ms c \<le> elapsed then Return (r, io l)
         else let ext = (extended_deadline_ms c \<le> elapsed \<and> \<not> extended_checkpoint_done l);
                  l = (if ext then l\<lparr>extended_checkpoint_done := True\<rparr> else l)
              in if ext \<and> cur \<le> stage_at_short_checkpoint l then Return (r, io l)
                 else let shrt = (short_deadline_ms c \<le> elapsed \<and> \<not> short_checkpoint_done l);
                          l = (if shrt then l\<lparr>short_checkpoint_done := True, stage_at_short_checkpoint := cur\<rparr> else l)
                      in if shrt \<and> cur = SD_READY_STAGE_NONE then Return (r, io l)
                         else Again (l\<lparr>io := record_call (Wait_ms (sleep_ms c elapsed)) (io l)\<rparr>))"

definition sd_iteration :: "sd_ready_probes_t \<Rightarrow> sd_params \<Rightarrow> int \<Rightarrow> sd_loop \<Rightarrow> (sd_ready_result_t \<times> sd_io) sd_next" where
  "sd_iteration p c start l =
     (let now = monotonic_ms p (probe_no (io l)); l = l\<lparr>io := tick (io l)\<rparr>
      in if now < 0 then Return ((result l)\<lparr>elapsed_ms := -1\<rparr>, io l)
         else let elapsed = now - start;
                  is_mounted = mount_point_mounted p (probe_no (io l));
                  l = l\<lparr>io := tick (io l)\<rparr>
              in case (if is_mounted then poll_mounted p c elapsed l else poll_unmounted p c start elapsed l) of
                   Return r \<Rightarrow> Return r
                 | Again l \<Rightarrow> Again l
                 | Onward l \<Rightarrow> check_deadlines c elapsed l)"

text \<open>The loop may poll for ever when the clock stands still; then there is no result.\<close>

partial_function (option) sd_poll_loop :: "sd_ready_probes_t \<Rightarrow> sd_params \<Rightarrow> int \<Rightarrow> sd_loop \<Rightarrow> (sd_ready_result_t \<times> sd_io) option" where
  "sd_poll_loop p c start l =
     (case sd_iteration p c start l of Return r \<Rightarrow> Some r | Again l \<Rightarrow> sd_poll_loop p c start l | Onward l \<Rightarrow> None)"

declare sd_poll_loop.simps [code]

definition no_result :: sd_ready_result_t where
  "no_result = \<lparr>stage = SD_READY_STAGE_NONE, saw_mmc_evidence = False, saw_whole_node = False, saw_partition_node = False,
     mounted = False, executable_ready = False, device_node_used = None, elapsed_ms = 0\<rparr>"

definition wait_for_sd_ready :: "sd_ready_probes_t \<Rightarrow> sd_params \<Rightarrow> (sd_ready_result_t \<times> sd_io) option" where
  "wait_for_sd_ready p c =
     (let s = \<lparr>probe_no = 0, calls = []\<rparr>; start = monotonic_ms p (probe_no s); s = tick s
      in if start < 0
         then let mnt = mount_point_mounted p (probe_no s); s = tick s;
                  (ready, s) = (if mnt then any_exec_ready p (exec_candidates c) s else (False, s))
              in Some (no_result\<lparr>mounted := mnt, executable_ready := ready,
                   stage := stage_from_evidence False False False mnt ready, elapsed_ms := -1\<rparr>, s)
         else sd_poll_loop p c start \<lparr>result = no_result, io = s, stage_at_short_checkpoint = SD_READY_STAGE_NONE,
                short_checkpoint_done = False, extended_checkpoint_done = False, mounted_at_ms = -1\<rparr>)"

end
