(* ===== verification/Sd_Ready_Props.thy ===== *)
theory Sd_Ready_Props
  imports Sd_Ready
begin

text \<open>
  The wait for the SD card reports only what a probe has seen, ends when the clock passes the hard
  deadline, and gives up at the first deadline when no card shows up.
\<close>

section \<open>What the probes have seen\<close>

definition seen :: "(nat \<Rightarrow> bool) \<Rightarrow> nat \<Rightarrow> bool" where
  "seen P n \<longleftrightarrow> (\<exists>k < n. P k)"

lemma seen_mono: "seen P n \<Longrightarrow> n \<le> m \<Longrightarrow> seen P m"
  by (auto simp: seen_def dest: less_le_trans)

lemma seen_here: "P n \<Longrightarrow> seen P (Suc n)"
  by (auto simp: seen_def)

definition evidence :: "sd_ready_probes_t \<Rightarrow> sd_params \<Rightarrow> sd_ready_result_t \<Rightarrow> sd_io \<Rightarrow> bool" where
  "evidence p c r s \<longleftrightarrow>
     (saw_partition_node r \<longrightarrow> seen (\<lambda>k. path_exists p k (partition_node c)) (probe_no s)) \<and>
     (saw_whole_node r \<longrightarrow> seen (\<lambda>k. path_exists p k (whole_disk_node c)) (probe_no s)) \<and>
     (saw_mmc_evidence r \<longrightarrow> seen (mmc_evidence_present p) (probe_no s)) \<and>
     (mounted r \<longrightarrow> seen (mount_point_mounted p) (probe_no s)) \<and>
     (executable_ready r \<longrightarrow> mounted r \<and> seen (\<lambda>k. \<exists>f \<in> set (exec_candidates c). path_is_executable p k f) (probe_no s)) \<and>
     (\<forall>n. device_node_used r = Some n \<longrightarrow>
        (n = partition_node c \<and> saw_partition_node r \<or> n = whole_disk_node c \<and> saw_whole_node r) \<and>
        seen (mount_point_mounted p) (probe_no s) \<and> (\<exists>t. Try_mount n t \<in> set (calls s)))"

definition waits_ok :: "sd_params \<Rightarrow> sd_io \<Rightarrow> bool" where
  "waits_ok c s \<longleftrightarrow> (\<forall>ms. Wait_ms ms \<in> set (calls s) \<longrightarrow> 0 < ms \<and> ms \<le> poll_interval_ms c)"

text \<open>More probes and more calls keep the evidence.\<close>

lemma evidence_later:
  assumes "evidence p c r s" and "probe_no s \<le> probe_no s'" and "set (calls s) \<subseteq> set (calls s')"
  shows "evidence p c r s'"
  using assms(1,3) seen_mono[OF _ assms(2)] unfolding evidence_def by (intro conjI allI impI) blast+

lemma evidence_partition: "evidence p c r s \<Longrightarrow> saw \<longrightarrow> seen (\<lambda>k. path_exists p k (partition_node c)) (probe_no s) \<Longrightarrow>
    evidence p c (r\<lparr>saw_partition_node := saw_partition_node r \<or> saw\<rparr>) s"
  by (cases saw) (simp_all add: evidence_def, blast)

lemma evidence_whole: "evidence p c r s \<Longrightarrow> saw \<longrightarrow> seen (\<lambda>k. path_exists p k (whole_disk_node c)) (probe_no s) \<Longrightarrow>
    evidence p c (r\<lparr>saw_whole_node := saw_whole_node r \<or> saw\<rparr>) s"
  by (cases saw) (simp_all add: evidence_def, blast)

lemma evidence_used:
  assumes "evidence p c r s" and "n = partition_node c \<and> saw_partition_node r \<or> n = whole_disk_node c \<and> saw_whole_node r"
    and "seen (mount_point_mounted p) (probe_no s)" and "\<exists>t. Try_mount n t \<in> set (calls s)"
  shows "evidence p c (r\<lparr>device_node_used := Some n\<rparr>) s"
  using assms by (simp add: evidence_def)

lemma any_exec_ready_sound:
  assumes "any_exec_ready p cs s = (b, s')"
  shows "probe_no s \<le> probe_no s'" "calls s' = calls s"
    "b \<longrightarrow> seen (\<lambda>k. \<exists>f \<in> set cs. path_is_executable p k f) (probe_no s')"
  using assms
proof (atomize (full), induction cs arbitrary: s)
  case (Cons f cs)
  show ?case
  proof (cases "path_is_executable p (probe_no s) f")
    case True
    then have "s' = tick s" "b" using Cons.prems by simp_all
    then show ?thesis using True by (auto simp: tick_def intro!: seen_here)
  next
    case False
    then have "any_exec_ready p cs (tick s) = (b, s')" using Cons.prems by simp
    from Cons.IH[OF this] show ?thesis by (auto simp: tick_def seen_def)
  qed
qed simp

lemma try_mount_sound:
  assumes "try_mount_candidate_node p node start elapsed hard s = (saw, ok, s')"
  shows "probe_no s < probe_no s'" "saw \<longrightarrow> seen (\<lambda>k. path_exists p k node) (probe_no s')"
    "ok \<longrightarrow> saw \<and> seen (mount_point_mounted p) (probe_no s') \<and> mount_point_mounted p (probe_no s' - 1) \<and> (\<exists>t. Try_mount node t \<in> set (calls s'))"
    "set (calls s) \<subseteq> set (calls s')" "waits_ok c s \<longrightarrow> waits_ok c s'"
  using assms
  by (auto simp: try_mount_candidate_node_def tick_def record_call_def waits_ok_def Let_def
      intro: seen_mono[OF seen_here] seen_here split: if_splits)

section \<open>The invariant of the loop\<close>

definition loop_inv :: "sd_ready_probes_t \<Rightarrow> sd_params \<Rightarrow> sd_loop \<Rightarrow> bool" where
  "loop_inv p c l \<longleftrightarrow> evidence p c (result l) (io l) \<and> \<not> executable_ready (result l) \<and> (0 < poll_interval_ms c \<longrightarrow> waits_ok c (io l))"

definition result_ok :: "sd_ready_probes_t \<Rightarrow> sd_params \<Rightarrow> sd_ready_result_t \<Rightarrow> sd_io \<Rightarrow> bool" where
  "result_ok p c r s \<longleftrightarrow> evidence p c r s \<and> (elapsed_ms r \<noteq> -1 \<longrightarrow> stage r = current_stage r) \<and> (0 < poll_interval_ms c \<longrightarrow> waits_ok c s)"

text \<open>What an iteration may do to a state that satisfies the invariant.\<close>

definition next_ok :: "sd_ready_probes_t \<Rightarrow> sd_params \<Rightarrow> (sd_ready_result_t \<times> sd_io) sd_next \<Rightarrow> bool" where
  "next_ok p c n = (case n of Return (r, s) \<Rightarrow> result_ok p c r s | Again l \<Rightarrow> loop_inv p c l | Onward l \<Rightarrow> loop_inv p c l)"

lemma next_ok_simps [simp]: "next_ok p c (Return (r, s)) = result_ok p c r s" "next_ok p c (Again l) = loop_inv p c l"
    "next_ok p c (Onward l) = loop_inv p c l"
  by (simp_all add: next_ok_def)

lemma loop_inv_tick: "loop_inv p c l \<Longrightarrow> loop_inv p c (l\<lparr>io := tick (io l)\<rparr>)"
  unfolding loop_inv_def by (auto simp: tick_def waits_ok_def elim!: evidence_later)

lemma poll_mounted_ok:
  assumes "loop_inv p c l" and "seen (mount_point_mounted p) (probe_no (io l))"
  shows "next_ok p c (poll_mounted p c elapsed l)"
proof -
  obtain ready s where r: "any_exec_ready p (exec_candidates c) (io l) = (ready, s)" by (cases "any_exec_ready p (exec_candidates c) (io l)")
  note s = any_exec_ready_sound[OF r]
  have "evidence p c (result l) s" using assms(1) s(1,2) by (auto simp: loop_inv_def elim: evidence_later)
  moreover have "seen (mount_point_mounted p) (probe_no s)" using assms(2) s(1) by (rule seen_mono)
  ultimately show ?thesis using assms(1) s(2,3) r
    by (auto simp: poll_mounted_def next_ok_def loop_inv_def result_ok_def evidence_def waits_ok_def current_stage_def stage_from_evidence_def Let_def)
qed

lemma poll_unmounted_ok:
  assumes "loop_inv p c l"
  shows "next_ok p c (poll_unmounted p c start elapsed l)"
proof -
  obtain saw1 ok1 s1 where 1: "try_mount_candidate_node p (partition_node c) start elapsed (hard_deadline_ms c) (io l) = (saw1, ok1, s1)"
    by (cases "try_mount_candidate_node p (partition_node c) start elapsed (hard_deadline_ms c) (io l)") auto
  obtain saw2 ok2 s2 where 2: "try_mount_candidate_node p (whole_disk_node c) start elapsed (hard_deadline_ms c) s1 = (saw2, ok2, s2)"
    by (cases "try_mount_candidate_node p (whole_disk_node c) start elapsed (hard_deadline_ms c) s1") auto
  note t1 = try_mount_sound[OF 1] and t2 = try_mount_sound[OF 2]
  define l1 where "l1 = l\<lparr>io := s1, result := (result l)\<lparr>saw_partition_node := saw_partition_node (result l) \<or> saw1\<rparr>\<rparr>"
  define l2 where "l2 = l1\<lparr>io := s2, result := (result l1)\<lparr>saw_whole_node := saw_whole_node (result l1) \<or> saw2\<rparr>\<rparr>"
  have e1: "evidence p c (result l) s1" using assms t1(1,4) by (auto simp: loop_inv_def elim!: evidence_later)
  have i1: "loop_inv p c l1" using evidence_partition[OF e1 t1(2)] assms t1(5)[of c] by (simp add: loop_inv_def l1_def)
  have e2: "evidence p c (result l1) s2" using i1 t2(1,4) by (auto simp: loop_inv_def l1_def elim!: evidence_later)
  have i2: "loop_inv p c l2" using evidence_whole[OF e2 t2(2)] i1 t2(5)[of c] by (simp add: loop_inv_def l1_def l2_def)
  have u1: "loop_inv p c (l1\<lparr>result := (result l1)\<lparr>device_node_used := Some (partition_node c)\<rparr>\<rparr>)" if ok1
    using i1 t1(3) that evidence_used[of p c "result l1" s1 "partition_node c"] by (simp add: loop_inv_def l1_def)
  have u2: "loop_inv p c (l2\<lparr>result := (result l2)\<lparr>device_node_used := Some (whole_disk_node c)\<rparr>\<rparr>)" if ok2
    using i2 t2(3) that evidence_used[of p c "result l2" s2 "whole_disk_node c"] by (simp add: loop_inv_def l2_def)
  have u3: "loop_inv p c (l2\<lparr>io := tick (io l2), result := (result l2)\<lparr>saw_mmc_evidence := True\<rparr>\<rparr>)" if "mmc_evidence_present p (probe_no (io l2))"
    using loop_inv_tick[OF i2] seen_here[of "mmc_evidence_present p", OF that] by (simp add: loop_inv_def evidence_def tick_def)
  have "poll_unmounted p c start elapsed l =
      (if ok1 then Again (l1\<lparr>result := (result l1)\<lparr>device_node_used := Some (partition_node c)\<rparr>\<rparr>)
       else if ok2 then Again (l2\<lparr>result := (result l2)\<lparr>device_node_used := Some (whole_disk_node c)\<rparr>\<rparr>)
       else if \<not> saw_whole_node (result l2) \<and> \<not> saw_partition_node (result l2)
       then (if mmc_evidence_present p (probe_no (io l2))
             then Onward (l2\<lparr>io := tick (io l2), result := (result l2)\<lparr>saw_mmc_evidence := True\<rparr>\<rparr>)
             else Onward (l2\<lparr>io := tick (io l2)\<rparr>))
       else Onward l2)"
    by (simp add: poll_unmounted_def 1 2 Let_def l1_def l2_def)
  then show ?thesis using u1 u2 u3 i2 loop_inv_tick[OF i2] by simp
qed

lemma check_deadlines_ok:
  assumes "loop_inv p c l"
  shows "next_ok p c (check_deadlines c elapsed l)"
proof -
  have r: "result_ok p c ((result l)\<lparr>elapsed_ms := elapsed, stage := current_stage (result l)\<rparr>) (io l)"
    using assms by (auto simp: loop_inv_def result_ok_def evidence_def current_stage_def)
  have w: "waits_ok c (record_call (Wait_ms (sleep_ms c elapsed)) (io l))" if "elapsed < hard_deadline_ms c" "0 < poll_interval_ms c"
    using that assms by (auto simp: loop_inv_def waits_ok_def record_call_def sleep_ms_def)
  have e: "evidence p c (result l) (record_call (Wait_ms (sleep_ms c elapsed)) (io l))"
    using assms by (auto simp: loop_inv_def record_call_def elim!: evidence_later)
  show ?thesis using r w e assms by (auto simp: check_deadlines_def next_ok_def loop_inv_def Let_def)
qed

lemma sd_iteration_ok:
  assumes "loop_inv p c l"
  shows "next_ok p c (sd_iteration p c start l)"
proof -
  let ?l1 = "l\<lparr>io := tick (io l)\<rparr>" and ?e = "monotonic_ms p (probe_no (io l)) - start"
  let ?l2 = "l\<lparr>io := tick (tick (io l))\<rparr>"
  have l1: "loop_inv p c ?l1" and l2: "loop_inv p c ?l2" using loop_inv_tick[OF assms] loop_inv_tick[OF loop_inv_tick[OF assms]] by simp_all
  have r: "result_ok p c ((result ?l1)\<lparr>elapsed_ms := -1\<rparr>) (io ?l1)" using l1 by (auto simp: loop_inv_def result_ok_def evidence_def)
  have "next_ok p c (poll_mounted p c ?e ?l2)" if "mount_point_mounted p (probe_no (io ?l1))"
    using l2 seen_here[of "mount_point_mounted p", OF that] by (intro poll_mounted_ok) (simp_all add: tick_def)
  moreover have "next_ok p c (poll_unmounted p c start ?e ?l2)" using l2 by (rule poll_unmounted_ok)
  moreover have "next_ok p c (check_deadlines c ?e l')" if "loop_inv p c l'" for l' using that by (rule check_deadlines_ok)
  moreover define n where "n = (if mount_point_mounted p (probe_no (io ?l1)) then poll_mounted p c ?e ?l2 else poll_unmounted p c start ?e ?l2)"
  ultimately have "next_ok p c (case n of Return r \<Rightarrow> Return r | Again l \<Rightarrow> Again l | Onward l \<Rightarrow> check_deadlines c ?e l)"
    by (cases n) (metis next_ok_simps(2,3) sd_next.case)+
  then show ?thesis using r by (cases "mount_point_mounted p (probe_no (io ?l1))") (simp_all add: sd_iteration_def Let_def n_def)
qed

lemma sd_poll_loop_ok:
  assumes "sd_poll_loop p c start l = Some y" and "loop_inv p c l"
  shows "next_ok p c (Return y)"
proof -
  have "loop_inv p c l \<longrightarrow> next_ok p c (Return y)" using assms(1)
  proof (rule sd_poll_loop.raw_induct[rotated])
    fix loop p c start l y
    assume IH: "\<And>p c start l y. loop p c start l = Some y \<Longrightarrow> loop_inv p c l \<longrightarrow> next_ok p c (Return y)"
      and step: "(case sd_iteration p c start l of Return r \<Rightarrow> Some r | Again l \<Rightarrow> loop p c start l | Onward l \<Rightarrow> None) = Some y"
    show "loop_inv p c l \<longrightarrow> next_ok p c (Return y)"
      using sd_iteration_ok[of p c l start] step IH by (cases "sd_iteration p c start l") auto
  qed
  then show ?thesis using assms(2) by blast
qed

section \<open>Progress of the loop\<close>

lemma poll_mounted_next: "poll_mounted p c elapsed l \<noteq> Again l'" "poll_mounted p c elapsed l = Onward l' \<Longrightarrow> probe_no (io l) \<le> probe_no (io l')"
  using any_exec_ready_sound(1)[of p "exec_candidates c" "io l"]
  by (auto simp: poll_mounted_def Let_def split: prod.splits if_splits)

lemma poll_unmounted_next:
  "poll_unmounted p c start elapsed l = Again l' \<Longrightarrow> probe_no (io l) < probe_no (io l') \<and> mount_point_mounted p (probe_no (io l') - 1)"
  "poll_unmounted p c start elapsed l = Onward l' \<Longrightarrow> probe_no (io l) \<le> probe_no (io l')"
  by (auto simp: poll_unmounted_def try_mount_candidate_node_def tick_def record_call_def Let_def split: prod.splits if_splits)

lemma check_deadlines_next:
  "check_deadlines c elapsed l \<noteq> Onward l'"
  "check_deadlines c elapsed l = Again l' \<Longrightarrow> probe_no (io l') = probe_no (io l) \<and> elapsed < hard_deadline_ms c"
  by (auto simp: check_deadlines_def record_call_def Let_def split: if_splits)

lemma sd_iteration_not_onward: "sd_iteration p c start l \<noteq> Onward l'"
  by (auto simp: sd_iteration_def Let_def check_deadlines_next(1) split: sd_next.splits if_splits)

text \<open>After the hard deadline an iteration goes round again only when it has just mounted the card.\<close>

lemma sd_iteration_again:
  assumes "sd_iteration p c start l = Again l'"
  shows "probe_no (io l) < probe_no (io l')" "0 \<le> monotonic_ms p (probe_no (io l))"
    "start + hard_deadline_ms c \<le> monotonic_ms p (probe_no (io l)) \<longrightarrow>
       \<not> mount_point_mounted p (probe_no (io l) + 1) \<and> mount_point_mounted p (probe_no (io l') - 1)"
proof -
  let ?e = "monotonic_ms p (probe_no (io l)) - start" and ?l = "l\<lparr>io := tick (tick (io l))\<rparr>"
  have l: "probe_no (io ?l) = probe_no (io l) + 2" by (simp add: tick_def)
  show c: "0 \<le> monotonic_ms p (probe_no (io l))" using assms by (simp add: sd_iteration_def Let_def split: if_splits)
  define n where "n = (if mount_point_mounted p (probe_no (io l) + 1) then poll_mounted p c ?e ?l else poll_unmounted p c start ?e ?l)"
  have it: "(case n of Return r \<Rightarrow> Return r | Again l \<Rightarrow> Again l | Onward l \<Rightarrow> check_deadlines c ?e l) = Again l'"
    using assms c by (cases "mount_point_mounted p (probe_no (io l) + 1)") (simp_all add: sd_iteration_def n_def Let_def tick_def)
  then consider (mnt) "n = Again l'" | (late) l2 where "n = Onward l2" "check_deadlines c ?e l2 = Again l'" by (cases n) auto
  then have "probe_no (io l) < probe_no (io l') \<and> (start + hard_deadline_ms c \<le> monotonic_ms p (probe_no (io l)) \<longrightarrow>
       \<not> mount_point_mounted p (probe_no (io l) + 1) \<and> mount_point_mounted p (probe_no (io l') - 1))"
  proof cases
    case mnt
    then have "\<not> mount_point_mounted p (probe_no (io l) + 1)" "poll_unmounted p c start ?e ?l = Again l'"
      using poll_mounted_next(1) by (auto simp: n_def split: if_splits)
    then show ?thesis using poll_unmounted_next(1)[of p c start ?e ?l l'] l by auto
  next
    case late
    then have "probe_no (io ?l) \<le> probe_no (io l2)"
      using poll_mounted_next(2)[of p c ?e ?l l2] poll_unmounted_next(2)[of p c start ?e ?l l2] by (auto simp: n_def split: if_splits)
    then show ?thesis using check_deadlines_next(2)[OF late(2)] l by auto
  qed
  then show "probe_no (io l) < probe_no (io l')" "start + hard_deadline_ms c \<le> monotonic_ms p (probe_no (io l)) \<longrightarrow>
       \<not> mount_point_mounted p (probe_no (io l) + 1) \<and> mount_point_mounted p (probe_no (io l') - 1)" by blast+
qed

text \<open>The clock fails or is past the hard deadline from the \<open>n\<close>-th probe on.\<close>

definition clock_passes :: "sd_ready_probes_t \<Rightarrow> sd_params \<Rightarrow> int \<Rightarrow> nat \<Rightarrow> bool" where
  "clock_passes p c start n \<longleftrightarrow> (\<forall>k \<ge> n. monotonic_ms p k < 0 \<or> start + hard_deadline_ms c \<le> monotonic_ms p k)"

text \<open>A card once mounted stays mounted.\<close>

definition stays_mounted :: "sd_ready_probes_t \<Rightarrow> bool" where
  "stays_mounted p \<longleftrightarrow> (\<forall>k j. mount_point_mounted p k \<and> k \<le> j \<longrightarrow> mount_point_mounted p j)"

lemma sd_poll_loop_step:
  "sd_iteration p c start l = Return y \<Longrightarrow> sd_poll_loop p c start l = Some y"
  "sd_iteration p c start l = Again l' \<Longrightarrow> sd_poll_loop p c start l = sd_poll_loop p c start l'"
  by (subst sd_poll_loop.simps, simp)+

lemma sd_poll_loop_late:
  assumes "clock_passes p c start n" and "stays_mounted p" and "n \<le> probe_no (io l)"
  shows "\<exists>y. sd_poll_loop p c start l = Some y"
proof (cases "sd_iteration p c start l")
  case (Again l')
  note a = sd_iteration_again[OF this]
  have "start + hard_deadline_ms c \<le> monotonic_ms p (probe_no (io l))" using assms(1,3) a(2) by (force simp: clock_passes_def)
  then have "mount_point_mounted p (probe_no (io l') - 1)" using a(3) by blast
  then have m: "mount_point_mounted p (probe_no (io l') + 1)" using assms(2) unfolding stays_mounted_def by (meson le_add1 diff_le_self le_trans)
  show ?thesis
  proof (cases "sd_iteration p c start l'")
    case again: (Again l'')
    note b = sd_iteration_again[OF again]
    have "n \<le> probe_no (io l')" using assms(3) a(1) by simp
    then have "start + hard_deadline_ms c \<le> monotonic_ms p (probe_no (io l'))" using assms(1) b(2) by (force simp: clock_passes_def)
    then show ?thesis using b(3) m by blast
  qed (use sd_iteration_not_onward sd_poll_loop_step(2)[OF Again] sd_poll_loop_step(1) in auto)
qed (use sd_iteration_not_onward sd_poll_loop_step(1) in auto)

lemma sd_poll_loop_returns:
  assumes "clock_passes p c start n" and "stays_mounted p"
  shows "\<exists>y. sd_poll_loop p c start l = Some y"
proof (induction "n - probe_no (io l)" arbitrary: l rule: less_induct)
  case less
  show ?case
  proof (cases "n \<le> probe_no (io l)")
    case False
    show ?thesis
    proof (cases "sd_iteration p c start l")
      case (Again l')
      have "n - probe_no (io l') < n - probe_no (io l)" using sd_iteration_again(1)[OF Again] False by simp
      from less[OF this] show ?thesis using sd_poll_loop_step(2)[OF Again] by simp
    qed (use sd_iteration_not_onward sd_poll_loop_step(1) in auto)
  qed (rule sd_poll_loop_late[OF assms])
qed

section \<open>No card\<close>

definition no_card :: "sd_ready_probes_t \<Rightarrow> bool" where
  "no_card p \<longleftrightarrow> (\<forall>k. 0 \<le> monotonic_ms p k \<and> \<not> mount_point_mounted p k \<and> \<not> mmc_evidence_present p k \<and> (\<forall>f. \<not> path_exists p k f))"

definition idle_loop :: "nat \<Rightarrow> sd_call list \<Rightarrow> sd_loop" where
  "idle_loop k cs = \<lparr>result = no_result, io = \<lparr>probe_no = k, calls = cs\<rparr>, stage_at_short_checkpoint = SD_READY_STAGE_NONE,
     short_checkpoint_done = False, extended_checkpoint_done = False, mounted_at_ms = -1\<rparr>"

text \<open>An iteration without a card makes five probes; the earliest deadline decides.\<close>

definition first_deadline :: "sd_params \<Rightarrow> int" where
  "first_deadline c = min (short_deadline_ms c) (min (extended_deadline_ms c) (hard_deadline_ms c))"

lemma idle_poll: "no_card p \<Longrightarrow> poll_unmounted p c start elapsed (idle_loop k cs) = Onward (idle_loop (k + 3) cs)"
  by (simp add: no_card_def poll_unmounted_def try_mount_candidate_node_def tick_def idle_loop_def no_result_def Let_def)

lemma idle_iteration:
  assumes "no_card p" and "e = monotonic_ms p k - start"
  shows "sd_iteration p c start (idle_loop k cs) =
     (if first_deadline c \<le> e then Return (no_result\<lparr>elapsed_ms := e\<rparr>, \<lparr>probe_no = k + 5, calls = cs\<rparr>)
      else Again (idle_loop (k + 5) (cs @ [Wait_ms (sleep_ms c e)])))"
proof -
  have clk: "\<not> monotonic_ms p k < 0" "\<not> mount_point_mounted p (Suc k)" using assms(1) by (simp_all add: no_card_def not_less)
  have t: "(idle_loop k cs)\<lparr>io := tick (tick (io (idle_loop k cs)))\<rparr> = idle_loop (k + 2) cs" by (simp add: idle_loop_def tick_def)
  have "sd_iteration p c start (idle_loop k cs) = check_deadlines c e (idle_loop (k + 5) cs)"
    using clk assms(2) idle_poll[OF assms(1), of c start e "k + 2" cs] unfolding t[symmetric]
    by (simp add: sd_iteration_def Let_def idle_loop_def tick_def add.commute)
  also have "check_deadlines c e (idle_loop (k + 5) cs) =
     (if first_deadline c \<le> e then Return (no_result\<lparr>elapsed_ms := e\<rparr>, \<lparr>probe_no = k + 5, calls = cs\<rparr>)
      else Again (idle_loop (k + 5) (cs @ [Wait_ms (sleep_ms c e)])))"
    by (auto simp: check_deadlines_def first_deadline_def idle_loop_def current_stage_def stage_from_evidence_def no_result_def
        record_call_def min_le_iff_disj Let_def)
  finally show ?thesis .
qed

lemma idle_run:
  assumes "no_card p" and "\<forall>j < n. monotonic_ms p (k + 5 * j) - start < first_deadline c"
    and "first_deadline c \<le> monotonic_ms p (k + 5 * n) - start"
  shows "sd_poll_loop p c start (idle_loop k cs) =
     Some (no_result\<lparr>elapsed_ms := monotonic_ms p (k + 5 * n) - start\<rparr>,
       \<lparr>probe_no = k + 5 * n + 5, calls = cs @ map (\<lambda>j. Wait_ms (sleep_ms c (monotonic_ms p (k + 5 * j) - start))) [0..<n]\<rparr>)"
  using assms(2,3)
proof (induction n arbitrary: k cs)
  case 0
  then show ?case using idle_iteration[OF assms(1) refl, of c start k cs] by (intro sd_poll_loop_step(1)) simp
next
  case (Suc n)
  let ?w = "\<lambda>k. Wait_ms (sleep_ms c (monotonic_ms p k - start))"
  have u: "[0..<Suc n] = 0 # map Suc [0..<n]" by (simp add: upt_conv_Cons map_Suc_upt del: upt_Suc)
  have "monotonic_ms p k - start < first_deadline c" using Suc.prems(1)[rule_format, of 0] by simp
  then have "sd_iteration p c start (idle_loop k cs) = Again (idle_loop (k + 5) (cs @ [?w k]))"
    using idle_iteration[OF assms(1) refl, of c start k cs] by simp
  from sd_poll_loop_step(2)[OF this]
  have "sd_poll_loop p c start (idle_loop k cs) = sd_poll_loop p c start (idle_loop (k + 5) (cs @ [?w k]))" .
  also have "\<dots> = Some (no_result\<lparr>elapsed_ms := monotonic_ms p (k + 5 + 5 * n) - start\<rparr>,
       \<lparr>probe_no = k + 5 + 5 * n + 5, calls = (cs @ [?w k]) @ map (\<lambda>j. ?w (k + 5 + 5 * j)) [0..<n]\<rparr>)"
  proof (rule Suc.IH)
    show "\<forall>j < n. monotonic_ms p (k + 5 + 5 * j) - start < first_deadline c"
      using Suc.prems(1)[rule_format, of "Suc _"] by (simp add: algebra_simps)
    show "first_deadline c \<le> monotonic_ms p (k + 5 + 5 * n) - start" using Suc.prems(2) by (simp add: algebra_simps)
  qed
  also have "(cs @ [?w k]) @ map (\<lambda>j. ?w (k + 5 + 5 * j)) [0..<n] = cs @ map (\<lambda>j. ?w (k + 5 * j)) [0..<Suc n]"
    unfolding u by (simp add: algebra_simps)
  finally show ?case by (simp only: mult_Suc_right add.assoc)
qed

section \<open>Properties\<close>

text \<open>A boot with an empty slot, and one with a card that mounts at the first attempt.\<close>

definition boot_params :: sd_params where
  "boot_params = \<lparr>partition_node = ''/dev/mmcblk0p1'', whole_disk_node = ''/dev/mmcblk0'', exec_candidates = [''/data/player''],
     short_deadline_ms = 300, extended_deadline_ms = 1000, hard_deadline_ms = 2000, poll_interval_ms = 50, exec_grace_ms = 100\<rparr>"

definition empty_slot :: sd_ready_probes_t where
  "empty_slot = \<lparr>path_exists = \<lambda>k f. False, mount_point_mounted = \<lambda>k. False, mmc_evidence_present = \<lambda>k. False,
     path_is_executable = \<lambda>k f. False, monotonic_ms = \<lambda>k. int k * 100\<rparr>"

definition card_in :: sd_ready_probes_t where
  "card_in = \<lparr>path_exists = \<lambda>k f. True, mount_point_mounted = \<lambda>k. 4 \<le> k, mmc_evidence_present = \<lambda>k. True,
     path_is_executable = \<lambda>k f. True, monotonic_ms = \<lambda>k. int k * 100\<rparr>"

lemma sd_result_sound_parts:
  assumes "wait_for_sd_ready p c = Some (r, s)"
  shows "evidence p c r s" and "elapsed_ms r \<noteq> -1 \<Longrightarrow> stage r = current_stage r"
    and "0 < poll_interval_ms c \<Longrightarrow> waits_ok c s"
proof -
  have "result_ok p c r s"
  proof (cases "monotonic_ms p 0 < 0")
    case True
    obtain ready s' where s': "any_exec_ready p (exec_candidates c) \<lparr>probe_no = 2, calls = []\<rparr> = (ready, s')"
      by (cases "any_exec_ready p (exec_candidates c) \<lparr>probe_no = 2, calls = []\<rparr>")
    note a = any_exec_ready_sound[OF s']
    have m: "mount_point_mounted p 1 \<Longrightarrow> seen (mount_point_mounted p) (probe_no s')"
      using seen_mono[OF seen_here[of "mount_point_mounted p" 1], of "probe_no s'"] a(1) by (simp add: numeral_2_eq_2)
    from assms True s' show ?thesis
      by (cases "mount_point_mounted p 1")
        (use a m in \<open>auto simp: wait_for_sd_ready_def Let_def tick_def numeral_2_eq_2 no_result_def result_ok_def evidence_def waits_ok_def\<close>)
  next
    case False
    then have "sd_poll_loop p c (monotonic_ms p 0) (idle_loop 1 []) = Some (r, s)"
      using assms by (simp add: wait_for_sd_ready_def Let_def tick_def idle_loop_def)
    moreover have "loop_inv p c (idle_loop 1 [])" by (simp add: loop_inv_def idle_loop_def evidence_def no_result_def waits_ok_def)
    ultimately show ?thesis using sd_poll_loop_ok by fastforce
  qed
  then show "evidence p c r s" "elapsed_ms r \<noteq> -1 \<Longrightarrow> stage r = current_stage r" "0 < poll_interval_ms c \<Longrightarrow> waits_ok c s"
    by (simp_all add: result_ok_def)
qed

text \<open>
  C25: whatever the probes answer, the result of the wait reports only what a probe has seen: the
  flags, the executable and the node that was mounted; the stage agrees with the flags unless the
  clock failed, and no sleep is longer than the polling interval or not positive.
\<close>

theorem sd_result_sound:
  assumes "wait_for_sd_ready p c = Some (r, s)"
  shows "evidence p c r s \<and> (elapsed_ms r \<noteq> -1 \<longrightarrow> stage r = current_stage r) \<and> (0 < poll_interval_ms c \<longrightarrow> waits_ok c s)"
  using sd_result_sound_parts[OF assms] by blast

theorem sd_result_sound_witness:
  "\<exists>r s. wait_for_sd_ready card_in boot_params = Some (r, s) \<and> executable_ready r \<and>
     evidence card_in boot_params r s \<and> stage r = current_stage r \<and> waits_ok boot_params s"
proof -
  obtain r s where w: "wait_for_sd_ready card_in boot_params = Some (r, s)" "executable_ready r" "elapsed_ms r \<noteq> -1"
  proof -
    have "(case wait_for_sd_ready card_in boot_params of Some (r, s) \<Rightarrow> executable_ready r \<and> elapsed_ms r \<noteq> -1 | None \<Rightarrow> False)"
      by code_simp
    then show ?thesis using that by (auto split: option.splits)
  qed
  moreover have "0 < poll_interval_ms boot_params" by (simp add: boot_params_def)
  ultimately show ?thesis using sd_result_sound[OF w(1)] by blast
qed

text \<open>
  C26: the wait ends when, from some probe on, the clock fails or is past the hard deadline, provided
  that a card that has been mounted stays mounted.
\<close>

theorem sd_wait_returns:
  assumes "clock_passes p c (monotonic_ms p 0) n" and "stays_mounted p"
  shows "\<exists>r s. wait_for_sd_ready p c = Some (r, s)"
  using sd_poll_loop_returns[OF assms] by (auto simp: wait_for_sd_ready_def Let_def tick_def split: prod.splits)

theorem sd_wait_returns_witness: "\<exists>r s. wait_for_sd_ready empty_slot boot_params = Some (r, s)"
  by (rule sd_wait_returns[where n = 20]) (auto simp: clock_passes_def stays_mounted_def empty_slot_def boot_params_def)

text \<open>
  without a card the wait sleeps until the first poll at or past the earliest of its deadlines
  and returns there with no evidence, having slept exactly once for every earlier poll.
\<close>

theorem sd_no_card_gives_up:
  assumes "no_card p" and "\<forall>j < n. monotonic_ms p (1 + 5 * j) - monotonic_ms p 0 < first_deadline c"
    and "first_deadline c \<le> monotonic_ms p (1 + 5 * n) - monotonic_ms p 0"
  shows "wait_for_sd_ready p c =
     Some (no_result\<lparr>elapsed_ms := monotonic_ms p (1 + 5 * n) - monotonic_ms p 0\<rparr>,
       \<lparr>probe_no = 1 + 5 * n + 5, calls = map (\<lambda>j. Wait_ms (sleep_ms c (monotonic_ms p (1 + 5 * j) - monotonic_ms p 0))) [0..<n]\<rparr>)"
proof -
  have "\<not> monotonic_ms p 0 < 0" using assms(1) by (simp add: no_card_def not_less)
  then have "wait_for_sd_ready p c = sd_poll_loop p c (monotonic_ms p 0) (idle_loop 1 [])"
    by (simp add: wait_for_sd_ready_def Let_def tick_def idle_loop_def)
  then show ?thesis using idle_run[OF assms] by simp
qed

theorem sd_no_card_gives_up_witness:
  "wait_for_sd_ready empty_slot boot_params = Some (no_result\<lparr>elapsed_ms := 600\<rparr>, \<lparr>probe_no = 11, calls = [Wait_ms 50]\<rparr>)"
  using sd_no_card_gives_up[of empty_slot 1 boot_params]
  by (simp add: no_card_def empty_slot_def boot_params_def first_deadline_def sleep_ms_def)

end
