(* ===== verification/Cue_Parser.thy ===== *)
theory Cue_Parser
  imports Complex_Main C_Text
begin

text \<open>
  Parsing of cue sheets (\<^verbatim>\<open>src/src/library/cue_parser.c\<close>).

  The file is the string of its bytes; \<^verbatim>\<open>fgets\<close> cuts it into lines of at most 1023 bytes, of which
  the parser sees the part before the first NUL.  \<open>grow_ok n\<close> says whether the reallocation of the
  track array to \<open>n\<close> elements succeeds.  A function that writes into the track array returns an
  option, with \<open>None\<close> for a write outside the array.

  \<^verbatim>\<open>start_seconds\<close> is a real number, computed exactly.  The program rounds to doubles; the fields of
  a time have at most seven digits, so that times which differ by a frame stay apart and in order.
\<close>

section \<open>Lines\<close>

definition quote :: char where "quote = char_of (34 :: nat)"

function file_lines :: "string \<Rightarrow> string list" where
  "file_lines s = (if s = [] then [] else let (l, r) = fgets 1023 s in l # file_lines r)"
  by pat_completeness auto
termination
proof (relation "measure length")
  show "(r, s) \<in> measure length" if "s \<noteq> []" "x = fgets 1023 s" "(l, r) = x" for s x l r
    using that fgets_progress[of 1022 "hd s" "tl s" l r] by (cases s) (auto simp: numeral_eq_Suc)
qed simp

declare file_lines.simps [simp del]

section \<open>Arguments\<close>

definition extract_arg :: "string \<Rightarrow> nat \<Rightarrow> string" where
  "extract_arg line out_size =
     (let line = dropWhile blank line
      in if at_ptr line = quote then take (out_size - 1) (takeWhile (\<lambda>c. c \<noteq> quote) (tl line))
         else take (out_size - 1) (takeWhile (\<lambda>c. c \<noteq> carriage_return \<and> c \<noteq> newline \<and> \<not> isspace c) line))"

text \<open>The digits of one field: at most seven.\<close>

fun cue_digits :: "nat \<Rightarrow> nat \<Rightarrow> string \<Rightarrow> (nat \<times> string) option" where
  "cue_digits digits v [] = Some (v, [])"
| "cue_digits digits v (c # s) =
     (if isdigit c
      then (if 7 < digits + 1 \<or> 10000000 < v then None else cue_digits (digits + 1) (v * 10 + digit_val c) s)
      else Some (v, c # s))"

definition cue_field :: "string \<Rightarrow> (nat \<times> string) option" where
  "cue_field s = (if \<not> isdigit (at_ptr s) then None else cue_digits 0 0 s)"

definition cue_colon :: "string \<Rightarrow> string option" where
  "cue_colon s = (if at_ptr s = CHR '':'' then Some (tl s) else None)"

definition parse_cue_time :: "string \<Rightarrow> real option" where
  "parse_cue_time s = do {
     (mins, s) \<leftarrow> cue_field s;
     s \<leftarrow> cue_colon s;
     (secs, s) \<leftarrow> cue_field s;
     s \<leftarrow> cue_colon s;
     (frames, s) \<leftarrow> cue_field s;
     let s = dropWhile (\<lambda>c. c = CHR '' '' \<or> of_char c = (9 :: nat) \<or> c = carriage_return \<or> c = newline) s;
     if s \<noteq> [] \<or> 59 < secs \<or> 74 < frames then None
     else Some (real mins * 60 + real secs + real frames / 75) }"

definition match_keyword :: "string \<Rightarrow> string \<Rightarrow> string option" where
  "match_keyword line keyword =
     (let len = length keyword
      in if \<not> same_nocase len line keyword then None
         else let nxt = at_ptr (drop len line)
              in if nxt \<noteq> NUL \<and> nxt \<noteq> CHR '' '' \<and> of_char nxt \<noteq> (9 :: nat) \<and> nxt \<noteq> carriage_return \<and> nxt \<noteq> newline then None
                 else Some (dropWhile blank (drop len line)))"

text \<open>The word behind the first word of an argument.\<close>

definition second_word :: "string \<Rightarrow> string" where
  "second_word arg = dropWhile blank (dropWhile (\<lambda>c. \<not> isspace c) arg)"

section \<open>The parser\<close>

record cue_track_t =
  number :: int
  title :: string
  performer :: string
  start_seconds :: real
  has_index_01 :: bool

record cue_sheet_t =
  audio_path :: string
  tracks :: "cue_track_t list"

text \<open>The local variables of \<^verbatim>\<open>cue_parse_file\<close>; \<open>cue_tracks\<close> holds the \<^verbatim>\<open>track_count\<close> tracks.\<close>

record cue_state =
  file_name :: string
  file_command_count :: nat
  cue_tracks :: "cue_track_t list"
  track_capacity :: nat
  have_current_track :: bool
  current_track_is_audio :: bool

definition new_track :: "int \<Rightarrow> cue_track_t" where
  "new_track n = \<lparr>number = n, title = [], performer = [], start_seconds = 0, has_index_01 = False\<rparr>"

definition append_track :: "(nat \<Rightarrow> bool) \<Rightarrow> int \<Rightarrow> cue_state \<Rightarrow> bool \<times> cue_state" where
  "append_track grow_ok n s =
     (let full = (length (cue_tracks s) = track_capacity s);
          new_capacity = (if track_capacity s = 0 then 8 else track_capacity s * 2)
      in if full \<and> \<not> grow_ok new_capacity then (False, s)
         else (True, s\<lparr>track_capacity := (if full then new_capacity else track_capacity s), cue_tracks := cue_tracks s @ [new_track n]\<rparr>))"

definition upd_last :: "(cue_track_t \<Rightarrow> cue_track_t) \<Rightarrow> cue_state \<Rightarrow> cue_state option" where
  "upd_last f s = do {
     let i = int (length (cue_tracks s)) - 1;
     t \<leftarrow> aget (cue_tracks s) i;
     ts \<leftarrow> aset (cue_tracks s) i (f t);
     Some (s\<lparr>cue_tracks := ts\<rparr>) }"

definition cue_track_line :: "(nat \<Rightarrow> bool) \<Rightarrow> string \<Rightarrow> cue_state \<Rightarrow> bool \<times> cue_state" where
  "cue_track_line grow_ok arg s =
     (let n = atoi arg; audio = same_nocase 5 (second_word arg) ''AUDIO''; s = s\<lparr>current_track_is_audio := audio\<rparr>
      in if audio then let (ok, s) = append_track grow_ok n s in (ok, s\<lparr>have_current_track := ok\<rparr>)
         else (True, s\<lparr>have_current_track := False\<rparr>))"

definition cue_index_line :: "string \<Rightarrow> cue_state \<Rightarrow> (bool \<times> cue_state) option" where
  "cue_index_line arg s =
     (if atoi arg = 1
      then (case parse_cue_time (second_word arg) of
              None \<Rightarrow> Some (False, s)
            | Some t \<Rightarrow> do { s \<leftarrow> upd_last (\<lambda>k. k\<lparr>start_seconds := t, has_index_01 := True\<rparr>) s; Some (True, s) })
      else Some (True, s))"

text \<open>One line; the flag is false when the parser gives up.\<close>

definition cue_line :: "(nat \<Rightarrow> bool) \<Rightarrow> string \<Rightarrow> cue_state \<Rightarrow> (bool \<times> cue_state) option" where
  "cue_line grow_ok p s =
     (let p = dropWhile blank p; in_track = (have_current_track s \<and> current_track_is_audio s) in
      case match_keyword p ''FILE'' of
        Some arg \<Rightarrow> Some (True, s\<lparr>file_command_count := file_command_count s + 1, file_name := extract_arg arg 512\<rparr>)
      | None \<Rightarrow>
      case match_keyword p ''TRACK'' of
        Some arg \<Rightarrow> Some (cue_track_line grow_ok arg s)
      | None \<Rightarrow>
      if \<not> in_track then Some (True, s) else
      case match_keyword p ''TITLE'' of
        Some arg \<Rightarrow> do { s \<leftarrow> upd_last (\<lambda>k. k\<lparr>title := extract_arg arg 128\<rparr>) s; Some (True, s) }
      | None \<Rightarrow>
      case match_keyword p ''PERFORMER'' of
        Some arg \<Rightarrow> do { s \<leftarrow> upd_last (\<lambda>k. k\<lparr>performer := extract_arg arg 128\<rparr>) s; Some (True, s) }
      | None \<Rightarrow>
      case match_keyword p ''INDEX'' of
        Some arg \<Rightarrow> cue_index_line arg s
      | None \<Rightarrow> Some (True, s))"

primrec cue_loop :: "(nat \<Rightarrow> bool) \<Rightarrow> string list \<Rightarrow> bool \<Rightarrow> cue_state \<Rightarrow> (bool \<times> cue_state) option" where
  "cue_loop grow_ok [] first_line s = Some (True, s)"
| "cue_loop grow_ok (l # ls) first_line s = do {
     let p = c_string l;
     let p = (if first_line \<and> library_utf8_bom_skip p = 3 then drop 3 p else p);
     (ok, s) \<leftarrow> cue_line grow_ok p s;
     if ok then cue_loop grow_ok ls False s else Some (False, s) }"

text \<open>The check of the tracks: every one has a start, and the starts ascend.\<close>

fun starts_ascend :: "cue_track_t list \<Rightarrow> bool" where
  "starts_ascend [] \<longleftrightarrow> True"
| "starts_ascend [t] \<longleftrightarrow> has_index_01 t"
| "starts_ascend (t # u # ts) \<longleftrightarrow> has_index_01 t \<and> \<not> start_seconds u \<le> start_seconds t \<and> starts_ascend (u # ts)"

text \<open>The audio file beside the sheet, in a buffer of 600 bytes.\<close>

definition resolve_audio :: "string \<Rightarrow> string \<Rightarrow> string" where
  "resolve_audio cue_path name =
     (if CHR ''/'' \<in> set cue_path
      then let dir = rev (dropWhile (\<lambda>c. c \<noteq> CHR ''/'') (rev cue_path));
               dir_len = (if 600 \<le> length dir then 599 else length dir)
           in take dir_len cue_path @ take (600 - dir_len - 1) name
      else take 599 name)"

definition cue_parse_file :: "(nat \<Rightarrow> bool) \<Rightarrow> string \<Rightarrow> string option \<Rightarrow> cue_sheet_t option option" where
  "cue_parse_file grow_ok cue_path content =
     (case content of None \<Rightarrow> Some None
      | Some text \<Rightarrow> do {
          (ok, s) \<leftarrow> cue_loop grow_ok (file_lines text) True
            \<lparr>file_name = [], file_command_count = 0, cue_tracks = [], track_capacity = 0,
             have_current_track = False, current_track_is_audio = False\<rparr>;
          if \<not> ok \<or> \<not> starts_ascend (cue_tracks s) \<or> file_command_count s \<noteq> 1 \<or> cue_tracks s = [] \<or> file_name s = []
          then Some None
          else Some (Some \<lparr>audio_path = resolve_audio cue_path (file_name s), tracks = cue_tracks s\<rparr>) })"

definition no_sheet :: cue_sheet_t where
  "no_sheet = \<lparr>audio_path = [], tracks = []\<rparr>"

definition cue_sheet_free :: "cue_sheet_t \<Rightarrow> cue_sheet_t" where
  "cue_sheet_free sheet = no_sheet"

end
