(* ===== verification/Cue_Parser_Props.thy ===== *)
theory Cue_Parser_Props
  imports Cue_Parser
begin

text \<open>
  The cue parser never writes outside its track array, accepts only sheets with ascending track
  starts, and reads back every sheet that the reference writer below prints.
\<close>

section \<open>Safety\<close>

text \<open>While there is a current track, the array is not empty; all strings fit their buffers.\<close>

definition track_ok :: "cue_track_t \<Rightarrow> bool" where
  "track_ok t \<longleftrightarrow> length (title t) < 128 \<and> length (performer t) < 128 \<and> 0 \<le> start_seconds t"

definition cue_inv :: "cue_state \<Rightarrow> bool" where
  "cue_inv s \<longleftrightarrow> (have_current_track s \<longrightarrow> cue_tracks s \<noteq> []) \<and> list_all track_ok (cue_tracks s) \<and> length (file_name s) < 512"

lemma extract_arg_fits: "0 < n \<Longrightarrow> length (extract_arg line n) < n"
  by (auto simp: extract_arg_def Let_def)

lemma parse_cue_time_nonneg: "parse_cue_time s = Some t \<Longrightarrow> 0 \<le> t"
  by (auto simp: parse_cue_time_def Let_def split: bind_splits if_splits)

text \<open>A step that stays inside the array and keeps the invariant.\<close>

definition kept :: "(bool \<times> cue_state) option \<Rightarrow> bool" where
  "kept r = (case r of None \<Rightarrow> False | Some (ok, s) \<Rightarrow> cue_inv s)"

lemma kept_simps [simp]: "kept (Some (ok, s)) = cue_inv s" "\<not> kept None"
  by (simp_all add: kept_def)

lemma upd_last_ok:
  assumes "cue_inv s" and "have_current_track s" and "\<And>t. track_ok t \<Longrightarrow> track_ok (f t)"
  shows "kept (do { s \<leftarrow> upd_last f s; Some (True, s) })"
proof -
  obtain ts t where ts: "cue_tracks s = ts @ [t]" using assms(1,2) by (cases "cue_tracks s" rule: rev_cases) (auto simp: cue_inv_def)
  then have "upd_last f s = Some (s\<lparr>cue_tracks := ts @ [f t]\<rparr>)" by (simp add: upd_last_def aget_def aset_def)
  then show ?thesis using assms ts by (auto simp: cue_inv_def)
qed

lemma cue_track_line_ok: "cue_inv s \<Longrightarrow> kept (Some (cue_track_line g arg s))"
  by (auto simp: cue_track_line_def append_track_def cue_inv_def new_track_def track_ok_def Let_def split: if_splits)

lemma cue_index_line_ok:
  assumes "cue_inv s" and "have_current_track s"
  shows "kept (cue_index_line arg s)"
proof (cases "parse_cue_time (second_word arg)")
  case (Some t)
  have "kept (do { s \<leftarrow> upd_last (\<lambda>k. k\<lparr>start_seconds := t, has_index_01 := True\<rparr>) s; Some (True, s) })"
    using parse_cue_time_nonneg[OF Some] by (intro upd_last_ok[OF assms]) (simp add: track_ok_def)
  then show ?thesis using assms by (simp add: cue_index_line_def Some)
qed (simp add: cue_index_line_def assms)

lemma cue_line_ok:
  assumes "cue_inv s"
  shows "kept (cue_line g p s)"
proof -
  have f: "cue_inv (s\<lparr>file_command_count := n, file_name := extract_arg arg 512\<rparr>)" for n arg
    using assms extract_arg_fits[of 512 arg] by (simp add: cue_inv_def)
  have ti: "kept (do { s \<leftarrow> upd_last (\<lambda>k. k\<lparr>title := extract_arg arg 128\<rparr>) s; Some (True, s) })" if "have_current_track s" for arg
    using extract_arg_fits[of 128 arg] by (intro upd_last_ok[OF assms that]) (simp add: track_ok_def)
  have pe: "kept (do { s \<leftarrow> upd_last (\<lambda>k. k\<lparr>performer := extract_arg arg 128\<rparr>) s; Some (True, s) })" if "have_current_track s" for arg
    using extract_arg_fits[of 128 arg] by (intro upd_last_ok[OF assms that]) (simp add: track_ok_def)
  show ?thesis
    unfolding cue_line_def Let_def
    by (simp add: assms f ti pe cue_track_line_ok cue_index_line_ok split: option.split)
qed

lemma cue_loop_ok: "cue_inv s \<Longrightarrow> kept (cue_loop g ls b s)"
proof (induction ls arbitrary: b s)
  case (Cons l ls)
  let ?p = "if b \<and> library_utf8_bom_skip (c_string l) = 3 then drop 3 (c_string l) else c_string l"
  obtain ok s' where s': "cue_line g ?p s = Some (ok, s')" "cue_inv s'"
    using cue_line_ok[OF Cons.prems, of g ?p] by (auto simp: kept_def split: option.splits)
  show ?case using Cons.IH[OF s'(2), of False] s' by (cases ok) (simp_all add: Let_def)
qed simp

lemma starts_ascend_sorted: "starts_ascend ts \<longleftrightarrow> list_all has_index_01 ts \<and> sorted_wrt (\<lambda>t u. start_seconds t < start_seconds u) ts"
proof (induction ts rule: starts_ascend.induct)
  case (3 t u ts)
  have "sorted_wrt (\<lambda>t u. start_seconds t < start_seconds u) (t # u # ts) \<longleftrightarrow>
      start_seconds t < start_seconds u \<and> sorted_wrt (\<lambda>t u. start_seconds t < start_seconds u) (u # ts)"
    by (auto intro: less_trans)
  then show ?case using 3 by auto
qed auto

lemma resolve_audio_fits: "length (resolve_audio path name) < 600"
  by (auto simp: resolve_audio_def Let_def)

section \<open>A reference writer\<close>

record cue_entry =
  e_number :: nat
  e_title :: string
  e_performer :: string
  e_frames :: nat

definition two_digits :: "nat \<Rightarrow> string" where
  "two_digits n = (if n < 10 then ''0'' else []) @ dec n"

definition time_text :: "nat \<Rightarrow> string" where
  "time_text fr = two_digits (fr div 4500) @ '':'' @ two_digits (fr div 75 mod 60) @ '':'' @ two_digits (fr mod 75)"

definition track_lines :: "cue_entry \<Rightarrow> string list" where
  "track_lines e =
     [''  TRACK '' @ two_digits (e_number e) @ '' AUDIO'' @ [newline],
      ''    TITLE '' @ [quote] @ e_title e @ [quote, newline],
      ''    PERFORMER '' @ [quote] @ e_performer e @ [quote, newline],
      ''    INDEX 01 '' @ time_text (e_frames e) @ [newline]]"

definition sheet_lines :: "string \<Rightarrow> cue_entry list \<Rightarrow> string list" where
  "sheet_lines name es = (''FILE '' @ [quote] @ name @ [quote] @ '' WAVE'' @ [newline]) # concat (map track_lines es)"

definition sheet_text :: "string \<Rightarrow> cue_entry list \<Rightarrow> string" where
  "sheet_text name es = concat (sheet_lines name es)"

definition plain :: "string \<Rightarrow> bool" where
  "plain s \<longleftrightarrow> quote \<notin> set s \<and> newline \<notin> set s \<and> NUL \<notin> set s"

definition entry_ok :: "cue_entry \<Rightarrow> bool" where
  "entry_ok e \<longleftrightarrow> e_number e < 2147483648 \<and> plain (e_title e) \<and> length (e_title e) < 128 \<and>
     plain (e_performer e) \<and> length (e_performer e) < 128 \<and> e_frames e div 4500 < 10000000"

definition entry_track :: "cue_entry \<Rightarrow> cue_track_t" where
  "entry_track e = \<lparr>number = int (e_number e), title = e_title e, performer = e_performer e,
     start_seconds = real (e_frames e) / 75, has_index_01 = True\<rparr>"

section \<open>Lines\<close>

definition line_ok :: "string \<Rightarrow> bool" where
  "line_ok l \<longleftrightarrow> (\<exists>b. l = b @ [newline] \<and> newline \<notin> set b \<and> NUL \<notin> set b \<and> length b < 1023)"

lemma fgets_line: "newline \<notin> set b \<Longrightarrow> length b < n \<Longrightarrow> fgets n (b @ newline # r) = (b @ [newline], r)"
proof (induction b arbitrary: n)
  case Nil
  then show ?case by (cases n) auto
next
  case (Cons c b)
  then show ?case by (cases n) auto
qed

lemma file_lines_line: "line_ok l \<Longrightarrow> file_lines (l @ r) = l # file_lines r"
  by (subst file_lines.simps) (auto simp: line_ok_def fgets_line)

lemma file_lines_concat: "list_all line_ok ls \<Longrightarrow> file_lines (concat ls) = ls"
  by (induction ls) (simp_all add: file_lines_line, simp add: file_lines.simps)

lemma c_string_line: "line_ok l \<Longrightarrow> c_string l = l"
  by (auto simp: line_ok_def c_string_def takeWhile_eq_all_conv newline_def NUL_def)

section \<open>Numbers and times\<close>

lemma digit_val_less: "isdigit c \<Longrightarrow> digit_val c < 10"
  unfolding isdigit_def digit_val_def by linarith

lemma cue_digits_run:
  assumes "\<forall>c \<in> set ds. isdigit c" and "d + length ds \<le> 7" and "v < 10 ^ d" and "\<not> isdigit (at_ptr r)"
  shows "cue_digits d v (ds @ r) = Some (foldl (\<lambda>a c. a * 10 + digit_val c) v ds, r)"
  using assms(1-3)
proof (induction ds arbitrary: d v)
  case Nil
  then show ?case using assms(4) by (cases r) (simp_all add: at_ptr_def)
next
  case (Cons c ds)
  have "v < 10 ^ 7" using Cons.prems(2,3) power_increasing[of d 7 "10 :: nat"] by simp
  moreover have "v * 10 + digit_val c < 10 ^ (d + 1)" using Cons.prems(1,3) digit_val_less[of c] by simp
  ultimately show ?case using Cons.IH[of "d + 1" "v * 10 + digit_val c"] Cons.prems by simp
qed

lemma length_dec: "n < 10 ^ k \<Longrightarrow> 0 < k \<Longrightarrow> length (dec n) \<le> k"
proof (induction n arbitrary: k rule: dec.induct)
  case (1 n)
  show ?case
  proof (cases "n < 10")
    case True
    then show ?thesis using 1 by (subst dec.simps) simp
  next
    case False
    then obtain k' where k: "k = Suc k'" "0 < k'" using "1.prems" by (cases k; cases "k - 1") auto
    then have "n div 10 < 10 ^ k'" using "1.prems" by (simp add: less_mult_imp_div_less mult.commute)
    then show ?thesis using "1.IH"[OF False, of k'] k False by (subst dec.simps) simp
  qed
qed

lemma two_digits_digits: "\<forall>c \<in> set (two_digits n). isdigit c"
  using dec_digits[of n] by (auto simp: two_digits_def isdigit_def)

lemma two_digits_val: "dec_val (two_digits n) = n"
proof (cases "n < 10")
  case True
  then show ?thesis by (simp add: two_digits_def dec.simps[of n] dec_val_def) (simp add: digit_val_def)
qed (simp add: two_digits_def)

lemma two_digits_length: "n < 10000000 \<Longrightarrow> length (two_digits n) \<le> 7"
  using length_dec[of n 7] by (auto simp: two_digits_def dec.simps[of n])

lemma two_digits_start: "\<exists>c cs. two_digits n = c # cs \<and> isdigit c"
proof -
  have "two_digits n \<noteq> []" by (simp add: two_digits_def)
  then show ?thesis using two_digits_digits[of n] by (cases "two_digits n") auto
qed

lemma cue_field_two_digits:
  assumes "n < 10000000" and "\<not> isdigit (at_ptr r)"
  shows "cue_field (two_digits n @ r) = Some (n, r)"
proof -
  have "isdigit (at_ptr (two_digits n @ r))" using two_digits_start[of n] by (auto simp: at_ptr_def)
  moreover have "cue_digits 0 0 (two_digits n @ r) = Some (dec_val (two_digits n), r)"
    unfolding dec_val_def using two_digits_digits two_digits_length[OF assms(1)] assms(2) by (intro cue_digits_run) simp_all
  ultimately show ?thesis by (simp add: cue_field_def two_digits_val)
qed

lemma atoi_two_digits:
  assumes "n < 2147483648" and "\<not> isdigit (at_ptr r)"
  shows "atoi (two_digits n @ r) = int n"
proof -
  obtain c cs where c: "two_digits n = c # cs" "isdigit c" using two_digits_start by blast
  have "dropWhile isspace (two_digits n @ r) = two_digits n @ r" "at_ptr (two_digits n @ r) = c"
    using digit_not(1)[OF c(2)] by (simp_all add: c(1) at_ptr_def)
  then show ?thesis
    using digit_not(2,3)[OF c(2)] takeWhile_digits[OF two_digits_digits[of n] assms(2)] assms(1)
    by (simp add: atoi_def Let_def two_digits_val)
qed

lemma parse_time_text:
  assumes "fr div 4500 < 10000000"
  shows "parse_cue_time (time_text fr @ [newline]) = Some (real fr / 75)"
proof -
  have nd: "\<not> isdigit (at_ptr (CHR '':'' # r))" "\<not> isdigit (at_ptr [newline])" for r by (simp_all add: at_ptr_def isdigit_def newline_def)
  have col: "cue_colon (CHR '':'' # r) = Some r" for r by (simp add: cue_colon_def at_ptr_def)
  have b: "fr div 75 mod 60 < 60" "fr mod 75 < 75" by simp_all
  have b': "\<not> 59 < fr div 75 mod 60" "\<not> 74 < fr mod 75" using b by linarith+
  have eq: "fr = fr div 4500 * 4500 + fr div 75 mod 60 * 75 + fr mod 75"
  proof -
    have "fr div 4500 = fr div 75 div 60" by (simp add: div_mult2_eq[symmetric])
    moreover have "fr div 75 div 60 * 60 + fr div 75 mod 60 = fr div 75" "fr div 75 * 75 + fr mod 75 = fr" by (rule div_mult_mod_eq)+
    ultimately show ?thesis by linarith
  qed
  have "parse_cue_time (time_text fr @ [newline]) = Some (real (fr div 4500) * 60 + real (fr div 75 mod 60) + real (fr mod 75) / 75)"
    using assms b by (simp add: parse_cue_time_def time_text_def cue_field_two_digits nd col b')
  also have "real (fr div 4500) * 60 + real (fr div 75 mod 60) + real (fr mod 75) / 75 = real fr / 75"
    using arg_cong[OF eq, of real] by (simp add: field_simps)
  finally show ?thesis .
qed

section \<open>Reading the written lines\<close>

lemma blank_simps [simp]: "\<not> blank quote" "blank (CHR '' '')"
  by code_simp+

lemma quoted_arg:
  assumes "plain s" and "length s < n"
  shows "extract_arg (quote # s @ quote # r) n = s"
proof -
  have "takeWhile (\<lambda>c. c \<noteq> quote) (s @ quote # r) = s" using assms(1) by (simp add: plain_def takeWhile_append takeWhile_eq_all_conv)
  then show ?thesis using assms(2) by (simp add: extract_arg_def at_ptr_def)
qed

lemma kw_file: "match_keyword (''FILE '' @ quote # r) ''FILE'' = Some (quote # r)"
  by (simp add: match_keyword_def same_nocase_def at_ptr_def)

lemma kw_track: "match_keyword (''TRACK '' @ r) ''FILE'' = None" "\<not> blank (at_ptr r) \<Longrightarrow> match_keyword (''TRACK '' @ r) ''TRACK'' = Some r"
  by (cases r; simp add: match_keyword_def same_nocase_def at_ptr_def tolower_def)+

lemma kw_title: "match_keyword (''TITLE '' @ r) ''FILE'' = None" "match_keyword (''TITLE '' @ r) ''TRACK'' = None"
    "match_keyword (''TITLE '' @ quote # r) ''TITLE'' = Some (quote # r)"
  by (simp_all add: match_keyword_def same_nocase_def at_ptr_def tolower_def)

lemma kw_performer: "match_keyword (''PERFORMER '' @ r) ''FILE'' = None" "match_keyword (''PERFORMER '' @ r) ''TRACK'' = None"
    "match_keyword (''PERFORMER '' @ r) ''TITLE'' = None" "match_keyword (''PERFORMER '' @ quote # r) ''PERFORMER'' = Some (quote # r)"
  by (simp_all add: match_keyword_def same_nocase_def at_ptr_def tolower_def)

lemma kw_index: "match_keyword (''INDEX '' @ r) ''FILE'' = None" "match_keyword (''INDEX '' @ r) ''TRACK'' = None"
    "match_keyword (''INDEX '' @ r) ''TITLE'' = None" "match_keyword (''INDEX '' @ r) ''PERFORMER'' = None"
    "match_keyword (''INDEX 01 '' @ r) ''INDEX'' = Some (''01 '' @ r)"
  by (simp_all add: match_keyword_def same_nocase_def at_ptr_def tolower_def blank_def)

lemma two_digits_not_blank: "\<not> blank (at_ptr (two_digits n @ r))"
proof -
  have "isdigit c \<Longrightarrow> \<not> blank c" for c by (auto simp: isdigit_def blank_def)
  then show ?thesis using two_digits_start[of n] by (auto simp: at_ptr_def)
qed

lemma indent: "dropWhile blank (''  TRACK '' @ r) = ''TRACK '' @ r" "dropWhile blank (''    TITLE '' @ r) = ''TITLE '' @ r"
    "dropWhile blank (''    PERFORMER '' @ r) = ''PERFORMER '' @ r" "dropWhile blank (''    INDEX 01 '' @ r) = ''INDEX 01 '' @ r"
    "dropWhile blank (''FILE '' @ r) = ''FILE '' @ r"
  by (simp_all add: blank_def)

lemma second_word_digits:
  assumes "\<forall>c \<in> set ds. isdigit c" and "\<not> blank (at_ptr r)"
  shows "second_word (ds @ '' '' @ r) = r"
proof -
  have "dropWhile (\<lambda>c. \<not> isspace c) (ds @ '' '' @ r) = '' '' @ r"
    using assms(1) digit_not(1) by (subst dropWhile_append2) (auto simp: isspace_def)
  then show ?thesis using assms(2) by (cases r) (simp_all add: second_word_def at_ptr_def)
qed

lemma read_file_line:
  assumes "plain name" and "length name < 512"
  shows "cue_line g (''FILE '' @ [quote] @ name @ [quote] @ r) s =
     Some (True, s\<lparr>file_command_count := file_command_count s + 1, file_name := name\<rparr>)"
  unfolding cue_line_def Let_def indent using kw_file[of "name @ quote # r"] quoted_arg[OF assms] by simp

lemma read_track_line:
  assumes "n < 2147483648" and "\<And>k. g k"
  shows "\<exists>k. cue_line g (''  TRACK '' @ two_digits n @ '' AUDIO'' @ [newline]) s =
     Some (True, s\<lparr>current_track_is_audio := True, track_capacity := k, cue_tracks := cue_tracks s @ [new_track (int n)], have_current_track := True\<rparr>)"
proof -
  let ?a = "two_digits n @ '' AUDIO'' @ [newline]"
  have "\<not> blank (at_ptr ?a)" by (rule two_digits_not_blank)
  moreover have "second_word ?a = ''AUDIO'' @ [newline]"
    using second_word_digits[OF two_digits_digits[of n], of "''AUDIO'' @ [newline]"] by (simp add: at_ptr_def blank_def)
  moreover have "atoi ?a = int n" using assms(1) by (intro atoi_two_digits) (simp_all add: at_ptr_def isdigit_def)
  ultimately show ?thesis
    unfolding cue_line_def Let_def indent
    by (intro exI[of _ "if length (cue_tracks s) = track_capacity s then (if track_capacity s = 0 then 8 else track_capacity s * 2) else track_capacity s"])
      (simp add: kw_track[simplified] cue_track_line_def append_track_def same_nocase_def assms(2) Let_def)
qed

lemma upd_last_snoc: "cue_tracks s = ts @ [t] \<Longrightarrow> upd_last f s = Some (s\<lparr>cue_tracks := ts @ [f t]\<rparr>)"
  by (simp add: upd_last_def aget_def aset_def)

lemma read_title_line:
  assumes "plain x" and "length x < 128" and "have_current_track s" and "current_track_is_audio s" and "cue_tracks s = ts @ [t]"
  shows "cue_line g (''    TITLE '' @ [quote] @ x @ [quote, newline]) s = Some (True, s\<lparr>cue_tracks := ts @ [t\<lparr>title := x\<rparr>]\<rparr>)"
  unfolding cue_line_def Let_def indent
  using kw_title(1,2)[of "quote # x @ [quote, newline]"] kw_title(3)[of "x @ [quote, newline]"] quoted_arg[OF assms(1,2), of "[newline]"] assms(3,4)
  by (simp add: upd_last_snoc[OF assms(5)])

lemma read_performer_line:
  assumes "plain x" and "length x < 128" and "have_current_track s" and "current_track_is_audio s" and "cue_tracks s = ts @ [t]"
  shows "cue_line g (''    PERFORMER '' @ [quote] @ x @ [quote, newline]) s = Some (True, s\<lparr>cue_tracks := ts @ [t\<lparr>performer := x\<rparr>]\<rparr>)"
  unfolding cue_line_def Let_def indent
  using kw_performer(1,2,3)[of "quote # x @ [quote, newline]"] kw_performer(4)[of "x @ [quote, newline]"] quoted_arg[OF assms(1,2), of "[newline]"] assms(3,4)
  by (simp add: upd_last_snoc[OF assms(5)])

lemma read_index_line:
  assumes "fr div 4500 < 10000000" and "have_current_track s" and "current_track_is_audio s" and "cue_tracks s = ts @ [t]"
  shows "cue_line g (''    INDEX 01 '' @ time_text fr @ [newline]) s =
     Some (True, s\<lparr>cue_tracks := ts @ [t\<lparr>start_seconds := real fr / 75, has_index_01 := True\<rparr>]\<rparr>)"
proof -
  let ?r = "time_text fr @ [newline]"
  have "\<not> blank (at_ptr ?r)" unfolding time_text_def append_assoc by (rule two_digits_not_blank)
  then have w: "second_word (''01 '' @ ?r) = ?r" using second_word_digits[of "''01''" ?r] by (simp add: isdigit_def)
  have a: "atoi (''01 '' @ ?r) = 1" by (simp add: atoi_def at_ptr_def isspace_def isdigit_def dec_val_def digit_val_def Let_def)
  show ?thesis
    unfolding cue_line_def Let_def indent
    using kw_index(1-4)[of "''01 '' @ ?r"] kw_index(5)[of ?r] assms(2,3) w a
    by (simp add: cue_index_line_def parse_time_text[OF assms(1)] upd_last_snoc[OF assms(4)])
qed

text \<open>All lines of the writer are lines for \<^verbatim>\<open>fgets\<close>.\<close>

lemma two_digits_plain: "newline \<notin> set (two_digits n)" "NUL \<notin> set (two_digits n)"
  using two_digits_digits[of n] by (auto simp: isdigit_def newline_def NUL_def)

lemma two_digits_short: "n < 10 ^ k \<Longrightarrow> 2 \<le> k \<Longrightarrow> length (two_digits n) \<le> k"
  using length_dec[of n k] by (auto simp: two_digits_def dec.simps[of n])

lemma line_okI: "newline \<notin> set b \<Longrightarrow> NUL \<notin> set b \<Longrightarrow> length b < 1023 \<Longrightarrow> line_ok (b @ [newline])"
  by (auto simp: line_ok_def)

lemma special:
  "newline \<notin> {CHR ''0'', CHR ''1'', CHR '' '', CHR '':''} \<union> set ''TRACKAUDIOTITLEPERFORMERINDEXFILEWAVE''"
  "NUL \<notin> {CHR ''0'', CHR ''1'', CHR '' '', CHR '':''} \<union> set ''TRACKAUDIOTITLEPERFORMERINDEXFILEWAVE''"
  "newline \<noteq> quote" "NUL \<noteq> quote"
  by code_simp+

lemma track_lines_ok:
  assumes "entry_ok e"
  shows "list_all line_ok (track_lines e)"
proof -
  have n: "length (two_digits (e_number e)) \<le> 10" using assms two_digits_short[of "e_number e" 10] by (simp add: entry_ok_def)
  have t: "length (two_digits (e_frames e div 4500)) \<le> 7" "length (two_digits (e_frames e div 75 mod 60)) \<le> 7" "length (two_digits (e_frames e mod 75)) \<le> 7"
    using assms by (auto intro!: two_digits_length simp: entry_ok_def less_trans[OF mod_less_divisor])
  have "line_ok ((''  TRACK '' @ two_digits (e_number e) @ '' AUDIO'') @ [newline])"
    by (rule line_okI) (use n special two_digits_plain in auto)
  moreover have "line_ok ((''    TITLE '' @ [quote] @ e_title e @ [quote]) @ [newline])"
    by (rule line_okI) (use assms special in \<open>auto simp: entry_ok_def plain_def\<close>)
  moreover have "line_ok ((''    PERFORMER '' @ [quote] @ e_performer e @ [quote]) @ [newline])"
    by (rule line_okI) (use assms special in \<open>auto simp: entry_ok_def plain_def\<close>)
  moreover have "line_ok ((''    INDEX 01 '' @ time_text (e_frames e)) @ [newline])"
    by (rule line_okI) (use t special two_digits_plain in \<open>auto simp: time_text_def\<close>)
  ultimately show ?thesis by (simp add: track_lines_def)
qed

lemma file_line_ok: "plain name \<Longrightarrow> length name < 512 \<Longrightarrow> line_ok ((''FILE '' @ [quote] @ name @ [quote] @ '' WAVE'') @ [newline])"
  by (rule line_okI) (use special in \<open>auto simp: plain_def\<close>)

section \<open>The tracks of a written sheet\<close>

lemma cue_loop_line: "line_ok l \<Longrightarrow> cue_line g l s = Some (True, s') \<Longrightarrow> cue_loop g (l # ls) False s = cue_loop g ls False s'"
  by (simp add: c_string_line)

text \<open>The state behind the lines of a track so far.\<close>

definition with_track :: "cue_state \<Rightarrow> nat \<Rightarrow> cue_track_t \<Rightarrow> cue_state" where
  "with_track s k t = s\<lparr>current_track_is_audio := True, track_capacity := k, cue_tracks := cue_tracks s @ [t], have_current_track := True\<rparr>"

lemma with_track_simps [simp]: "have_current_track (with_track s k t)" "current_track_is_audio (with_track s k t)"
    "cue_tracks (with_track s k t) = cue_tracks s @ [t]" "file_name (with_track s k t) = file_name s"
    "file_command_count (with_track s k t) = file_command_count s"
    "(with_track s k t)\<lparr>cue_tracks := cue_tracks s @ [u]\<rparr> = with_track s k u"
  by (cases s; simp add: with_track_def)+

lemma read_entry:
  assumes "entry_ok e" and g: "\<forall>k. g k"
  shows "\<exists>k. cue_loop g (track_lines e @ ls) False s = cue_loop g ls False (with_track s k (entry_track e))"
proof -
  have e: "e_number e < 2147483648" "plain (e_title e)" "length (e_title e) < 128" "plain (e_performer e)" "length (e_performer e) < 128"
      "e_frames e div 4500 < 10000000" using assms(1) by (simp_all add: entry_ok_def)
  let ?n = "new_track (int (e_number e))"
  obtain k where 1: "cue_line g (''  TRACK '' @ two_digits (e_number e) @ '' AUDIO'' @ [newline]) s = Some (True, with_track s k ?n)"
    using read_track_line[OF e(1), of g s] g unfolding with_track_def by blast
  note 2 = read_title_line[OF e(2,3) with_track_simps(1,2,3), unfolded with_track_simps, of g]
  note 3 = read_performer_line[OF e(4,5) with_track_simps(1,2,3), unfolded with_track_simps, of g]
  note 4 = read_index_line[OF e(6) with_track_simps(1,2,3), unfolded with_track_simps, of g]
  obtain l1 l2 l3 l4 where l: "l1 = ''  TRACK '' @ two_digits (e_number e) @ '' AUDIO'' @ [newline]" "l2 = ''    TITLE '' @ [quote] @ e_title e @ [quote, newline]"
    "l3 = ''    PERFORMER '' @ [quote] @ e_performer e @ [quote, newline]" "l4 = ''    INDEX 01 '' @ time_text (e_frames e) @ [newline]" by blast
  have t: "track_lines e = [l1, l2, l3, l4]" unfolding track_lines_def l ..
  then have ok: "line_ok l1" "line_ok l2" "line_ok l3" "line_ok l4" using track_lines_ok[OF assms(1)] by simp_all
  have "cue_loop g (track_lines e @ ls) False s =
      cue_loop g ls False (with_track s k (?n\<lparr>title := e_title e, performer := e_performer e, start_seconds := real (e_frames e) / 75, has_index_01 := True\<rparr>))"
    unfolding t append_Cons append_Nil cue_loop_line[OF ok(1) 1[folded l]] cue_loop_line[OF ok(2) 2[folded l]]
      cue_loop_line[OF ok(3) 3[folded l]] cue_loop_line[OF ok(4) 4[folded l]] ..
  then show ?thesis unfolding entry_track_def new_track_def by (intro exI[of _ k]) simp
qed

lemma read_entries:
  assumes "list_all entry_ok es" and g: "\<forall>k. g k"
  shows "\<exists>s'. cue_loop g (concat (map track_lines es)) False s = Some (True, s') \<and> cue_tracks s' = cue_tracks s @ map entry_track es \<and>
     file_name s' = file_name s \<and> file_command_count s' = file_command_count s"
  using assms(1)
proof (induction es arbitrary: s)
  case (Cons e es)
  have "entry_ok e" and es: "list_all entry_ok es" using Cons.prems by simp_all
  then obtain k where k: "cue_loop g (track_lines e @ concat (map track_lines es)) False s =
      cue_loop g (concat (map track_lines es)) False (with_track s k (entry_track e))"
    using read_entry[OF _ g] by blast
  then show ?case using Cons.IH[OF es, of "with_track s k (entry_track e)"] by simp
qed simp

lemma entries_ascend: "sorted_wrt (<) (map e_frames es) \<Longrightarrow> starts_ascend (map entry_track es)"
  by (simp add: starts_ascend_sorted list_all_iff entry_track_def sorted_wrt_map divide_less_cancel)

section \<open>Properties\<close>

definition fresh_cue :: cue_state where
  "fresh_cue = \<lparr>file_name = [], file_command_count = 0, cue_tracks = [], track_capacity = 0,
     have_current_track = False, current_track_is_audio = False\<rparr>"

text \<open>A sheet with two tracks.\<close>

definition sample_entries :: "cue_entry list" where
  "sample_entries = [\<lparr>e_number = 1, e_title = ''One'', e_performer = ''A'', e_frames = 0\<rparr>,
     \<lparr>e_number = 2, e_title = ''Two'', e_performer = ''B'', e_frames = 14711\<rparr>]"



text \<open>
  C28: a sheet printed by the reference writer is accepted and read back: every track has its
  number, title, performer and start, and the audio file lies beside the sheet.
\<close>

theorem cue_round_trip:
  assumes "\<forall>k. grow_ok k" and "plain name" and "name \<noteq> []" and "length name < 512"
    and "list_all entry_ok es" and "es \<noteq> []" and "sorted_wrt (<) (map e_frames es)"
  shows "cue_parse_file grow_ok path (Some (sheet_text name es)) =
     Some (Some \<lparr>audio_path = resolve_audio path name, tracks = map entry_track es\<rparr>)"
proof -
  obtain l where l: "l = ''FILE '' @ [quote] @ name @ [quote] @ '' WAVE'' @ [newline]" by blast
  have ok: "line_ok l" using file_line_ok[OF assms(2,4)] by (simp add: l)
  have "list_all line_ok (concat (map track_lines es))" using assms(5) track_lines_ok by (auto simp: list_all_iff)
  then have lines: "file_lines (sheet_text name es) = l # concat (map track_lines es)"
    unfolding sheet_text_def sheet_lines_def l[symmetric] using ok by (intro file_lines_concat) simp
  have "hd (take 3 l) = CHR ''F''" by (simp add: l)
  moreover have "hd utf8_bom \<noteq> CHR ''F''" by code_simp
  ultimately have nb: "library_utf8_bom_skip (c_string l) \<noteq> 3" unfolding c_string_line[OF ok] by (auto simp: library_utf8_bom_skip_def simp del: hd_take)
  let ?s = "fresh_cue\<lparr>file_command_count := 1, file_name := name\<rparr>"
  have "cue_line grow_ok l fresh_cue = Some (True, ?s)" unfolding l read_file_line[OF assms(2,4)] by (simp add: fresh_cue_def)
  then have "cue_loop grow_ok (l # concat (map track_lines es)) True fresh_cue = cue_loop grow_ok (concat (map track_lines es)) False ?s"
    using nb by (simp add: c_string_line[OF ok])
  moreover obtain s where "cue_loop grow_ok (concat (map track_lines es)) False ?s = Some (True, s)" "cue_tracks s = map entry_track es"
      "file_name s = name" "file_command_count s = 1"
    using read_entries[OF assms(5,1), of ?s] by (auto simp: fresh_cue_def)
  ultimately show ?thesis
    using entries_ascend[OF assms(7)] assms(3,6) by (simp add: cue_parse_file_def lines fresh_cue_def)
qed

theorem cue_round_trip_witness:
  "cue_parse_file (\<lambda>k. True) ''/sd/a.cue'' (Some (sheet_text ''a.flac'' sample_entries)) =
     Some (Some \<lparr>audio_path = ''/sd/a.flac'', tracks = map entry_track sample_entries\<rparr>)"
proof -
  have p: "plain ''a.flac''" "plain ''One''" "plain ''Two''" "plain ''A''" "plain ''B''" by code_simp+
  moreover have "resolve_audio ''/sd/a.cue'' ''a.flac'' = ''/sd/a.flac''" by (simp add: resolve_audio_def)
  moreover have "list_all entry_ok sample_entries" "sorted_wrt (<) (map e_frames sample_entries)"
    using p by (simp_all add: sample_entries_def entry_ok_def)
  ultimately show ?thesis using cue_round_trip[of "\<lambda>k. True" "''a.flac''" sample_entries "''/sd/a.cue''"] by (simp add: sample_entries_def)
qed

end
