(* ===== verification/Lyrics.thy ===== *)
theory Lyrics
  imports C_Text
begin

text \<open>
  Synchronised lyrics (\<^verbatim>\<open>src/src/library/lyrics.c\<close>).

  A buffer is the list of its bytes, which may contain NUL.  A pointer into it is the rest of the
  list.  \<open>alloc_ok k\<close> says whether the \<open>k\<close>-th allocation of a parse succeeds.  \<open>qs\<close> is \<^verbatim>\<open>qsort\<close> with
  the comparison of two lines by their time.
\<close>

unbundle bit_operations_syntax

definition LYRICS_MAX_FILE_BYTES :: nat where "LYRICS_MAX_FILE_BYTES = 512 * 1024"
definition LYRICS_MAX_LINES :: nat where "LYRICS_MAX_LINES = 4000"
definition LYRICS_MAX_LINE_BYTES :: nat where "LYRICS_MAX_LINE_BYTES = 512"
definition LYRICS_MAX_TIME_MS :: nat where "LYRICS_MAX_TIME_MS = 36 * 3600 * 1000"

definition isalpha :: "char \<Rightarrow> bool" where
  "isalpha c \<longleftrightarrow> (let n = of_char c :: nat in 65 \<le> n \<and> n \<le> 90 \<or> 97 \<le> n \<and> n \<le> 122)"

record lyrics_line_t =
  time_ms :: nat
  line_text :: string

type_synonym lyrics_doc_t = "lyrics_line_t list"

section \<open>Text and numbers\<close>

text \<open>The length of the sequence that a first byte announces.\<close>

definition seq_len :: "char \<Rightarrow> nat option" where
  "seq_len ch = (let c = char_byte ch in
     if c < 0x80 then Some 1
     else if c AND 0xE0 = 0xC0 then Some 2
     else if c AND 0xF0 = 0xE0 then Some 3
     else if c AND 0xF8 = 0xF0 then Some 4
     else None)"

lemma seq_len_pos: "seq_len c = Some n \<Longrightarrow> 0 < n"
  by (auto simp: seq_len_def Let_def split: if_splits)

function utf8_valid_prefix_len :: "string \<Rightarrow> nat" where
  "utf8_valid_prefix_len s =
     (case s of [] \<Rightarrow> 0
      | c # cs \<Rightarrow>
          (case seq_len c of None \<Rightarrow> 0
           | Some n \<Rightarrow>
               if length s < n then 0
               else if \<forall>x \<in> set (take (n - 1) cs). char_byte x AND 0xC0 = 0x80 then n + utf8_valid_prefix_len (drop n s)
               else 0))"
  by pat_completeness auto
termination
  by (relation "measure length") (auto dest: seq_len_pos)

declare utf8_valid_prefix_len.simps [simp del]

definition atoi_n :: "string \<Rightarrow> nat \<Rightarrow> nat" where
  "atoi_n s n = dec_val (take (if 8 < n then 8 else n) s)"

text \<open>The bytes used and the time, capped in 64 bits before it is narrowed.\<close>

definition parse_timestamp_ms :: "string \<Rightarrow> (nat \<times> nat) option" where
  "parse_timestamp_ms s =
     (let ds = takeWhile isdigit s; r = dropWhile isdigit s in
      if ds = [] then None
      else let minutes = atoi_n ds (length ds) in
      if r = [] \<or> hd r \<noteq> CHR '':'' then None
      else let r = tl r; ds = takeWhile isdigit r; r = dropWhile isdigit r in
      if ds = [] then None
      else let seconds = atoi_n ds (length ds) in
      case (if r \<noteq> [] \<and> hd r = CHR ''.''
            then let fs = takeWhile isdigit (tl r); r' = dropWhile isdigit (tl r)
                 in if fs = [] then None else Some (atoi_n (take 3 fs @ drop (length fs) ''000'') 3, r')
            else Some (0, r)) of
        None \<Rightarrow> None
      | Some (frac_ms, r) \<Rightarrow>
          let total_ms = minutes * 60000 + seconds * 1000 + frac_ms
          in Some (length s - length r, if LYRICS_MAX_TIME_MS < total_ms then LYRICS_MAX_TIME_MS else total_ms))"

section \<open>Collecting lines\<close>

record line_builder_t =
  lb_arr :: "lyrics_line_t list"
  lb_cap :: nat
  lb_allocs :: nat

text \<open>\<open>ensure_room\<close> is the growth of the array; the flag is false when the line is dropped.\<close>

definition ensure_room :: "(nat \<Rightarrow> bool) \<Rightarrow> line_builder_t \<Rightarrow> bool \<times> line_builder_t" where
  "ensure_room alloc_ok b =
     (if length (lb_arr b) = lb_cap b
      then let new_cap = (if lb_cap b \<noteq> 0 then lb_cap b * 2 else 64);
               new_cap = (if LYRICS_MAX_LINES < new_cap then LYRICS_MAX_LINES else new_cap);
               ok = alloc_ok (lb_allocs b);
               b = b\<lparr>lb_allocs := lb_allocs b + 1\<rparr>
           in if ok then (True, b\<lparr>lb_cap := new_cap\<rparr>) else (False, b)
      else (True, b))"

definition line_builder_push :: "(nat \<Rightarrow> bool) \<Rightarrow> nat \<Rightarrow> string \<Rightarrow> line_builder_t \<Rightarrow> line_builder_t" where
  "line_builder_push alloc_ok t txt b =
     (if LYRICS_MAX_LINES \<le> length (lb_arr b) then b
      else let (room, b) = ensure_room alloc_ok b in
        if \<not> room then b
        else let clipped = (if LYRICS_MAX_LINE_BYTES < length txt then LYRICS_MAX_LINE_BYTES else length txt);
                 clipped = utf8_valid_prefix_len (take clipped txt);
                 ok = alloc_ok (lb_allocs b);
                 b = b\<lparr>lb_allocs := lb_allocs b + 1\<rparr>
             in if ok then b\<lparr>lb_arr := lb_arr b @ [\<lparr>time_ms = t, line_text = take clipped txt\<rparr>]\<rparr> else b)"

section \<open>One line\<close>

definition timestamp_tag :: "string \<Rightarrow> nat option" where
  "timestamp_tag inner =
     (if inner \<noteq> [] \<and> isdigit (hd inner)
      then (case parse_timestamp_ms inner of None \<Rightarrow> None | Some (consumed, t) \<Rightarrow> if consumed = length inner then Some t else None)
      else None)"

definition offset_tag :: "string \<Rightarrow> int \<Rightarrow> int" where
  "offset_tag inner offset_ms =
     (let r = drop 7 inner;
          sign = (if r \<noteq> [] \<and> hd r = CHR ''-'' then -1 else 1);
          r = (if r \<noteq> [] \<and> (hd r = CHR ''+'' \<or> hd r = CHR ''-'') then tl r else r);
          ds = takeWhile isdigit r
      in if ds \<noteq> [] then sign * int (dec_val (take 8 ds)) else offset_ms)"

definition metadata_tag :: "string \<Rightarrow> bool" where
  "metadata_tag inner \<longleftrightarrow>
     (let p = length (takeWhile isalpha (take 6 inner)) in 0 < p \<and> p < length inner \<and> inner ! p = CHR '':'')"

lemma behind_bracket: "s \<noteq> [] \<Longrightarrow> length (dropWhile P (tl s)) - Suc 0 < length s"
proof -
  assume "s \<noteq> []"
  then have "length (tl s) < length s" by (cases s) auto
  then show ?thesis using length_dropWhile_le[of P "tl s"] by linarith
qed

text \<open>The rest of the line behind the leading tags, the times and the offset.\<close>

function strip_tags :: "string \<Rightarrow> nat list \<Rightarrow> int \<Rightarrow> string \<times> nat list \<times> int" where
  "strip_tags s pending offset_ms =
     (if s = [] \<or> hd s \<noteq> CHR ''['' then (s, pending, offset_ms)
      else let inner = takeWhile (\<lambda>c. c \<noteq> CHR '']'') (tl s); r = dropWhile (\<lambda>c. c \<noteq> CHR '']'') (tl s) in
      if r = [] then (s, pending, offset_ms)
      else case timestamp_tag inner of
          Some t \<Rightarrow> strip_tags (tl r) (if length pending < 8 then pending @ [t] else pending) offset_ms
        | None \<Rightarrow>
            if 7 < length inner \<and> same_nocase 7 inner ''offset:'' then strip_tags (tl r) pending (offset_tag inner offset_ms)
            else if metadata_tag inner then strip_tags (tl r) pending offset_ms
            else (s, pending, offset_ms))"
  by pat_completeness auto
termination
  by (relation "measure (\<lambda>(s, p, off). length s)") (auto simp: behind_bracket)

declare strip_tags.simps [simp del]

definition process_line :: "(nat \<Rightarrow> bool) \<Rightarrow> string \<Rightarrow> line_builder_t \<times> int \<Rightarrow> line_builder_t \<times> int" where
  "process_line alloc_ok line bo =
     (case bo of (b, offset_ms) \<Rightarrow>
        case strip_tags line [] offset_ms of (r, pending, offset_ms) \<Rightarrow>
          (fold (\<lambda>t. line_builder_push alloc_ok t (dropWhile blank r)) pending b, offset_ms))"

section \<open>The whole buffer\<close>

definition lf :: char where "lf = char_of (10 :: nat)"
definition cr :: char where "cr = char_of (13 :: nat)"

definition strip_cr :: "string \<Rightarrow> string" where
  "strip_cr seg = (if seg \<noteq> [] \<and> last seg = cr then butlast seg else seg)"

function parse_lines :: "(nat \<Rightarrow> bool) \<Rightarrow> string \<Rightarrow> line_builder_t \<times> int \<Rightarrow> line_builder_t \<times> int" where
  "parse_lines alloc_ok s bo =
     (if s = [] \<or> LYRICS_MAX_LINES \<le> length (lb_arr (fst bo)) then bo
      else let seg = strip_cr (takeWhile (\<lambda>c. c \<noteq> lf) s); r = drop 1 (dropWhile (\<lambda>c. c \<noteq> lf) s)
           in parse_lines alloc_ok r (if seg = [] then bo else process_line alloc_ok seg bo))"
  by pat_completeness auto
termination
proof (relation "measure (\<lambda>(a, s, bo). length s)")
  show "((a, r, bo'), a, s, bo) \<in> measure (\<lambda>(a, s, bo). length s)"
    if "\<not> (s = [] \<or> LYRICS_MAX_LINES \<le> length (lb_arr (fst bo)))" "r = drop 1 (dropWhile (\<lambda>c. c \<noteq> lf) s)"
    for a :: "nat \<Rightarrow> bool" and s r :: string and bo bo' :: "line_builder_t \<times> int"
  proof -
    have "length (dropWhile (\<lambda>c. c \<noteq> lf) s) \<le> length s" "0 < length s" using that by (auto simp: length_dropWhile_le)
    then have "length (drop 1 (dropWhile (\<lambda>c. c \<noteq> lf) s)) < length s" unfolding length_drop by linarith
    then show ?thesis unfolding that(2) in_measure prod.case .
  qed
qed simp

declare parse_lines.simps [simp del]

definition shift_time :: "int \<Rightarrow> nat \<Rightarrow> nat" where
  "shift_time offset_ms t =
     (let v = int t + offset_ms; v = (if v < 0 then 0 else v)
      in if int LYRICS_MAX_TIME_MS < v then LYRICS_MAX_TIME_MS else nat v)"

definition lyrics_parse_buffer :: "(nat \<Rightarrow> bool) \<Rightarrow> (lyrics_line_t list \<Rightarrow> lyrics_line_t list) \<Rightarrow> string \<Rightarrow> lyrics_doc_t option" where
  "lyrics_parse_buffer alloc_ok qs buf =
     (if buf = [] \<or> LYRICS_MAX_FILE_BYTES < length buf then None
      else let s = (if library_utf8_bom_skip buf = 3 then drop 3 buf else buf);
               (b, offset_ms) = parse_lines alloc_ok s (\<lparr>lb_arr = [], lb_cap = 0, lb_allocs = 0\<rparr>, 0)
           in if lb_arr b = [] then None
              else Some (qs (map (\<lambda>l. l\<lparr>time_ms := shift_time offset_ms (time_ms l)\<rparr>) (lb_arr b))))"

definition lyrics_doc_free :: "lyrics_doc_t \<Rightarrow> lyrics_doc_t" where
  "lyrics_doc_free doc = []"

section \<open>The line at a position\<close>

function lyrics_search :: "lyrics_doc_t \<Rightarrow> nat \<Rightarrow> int \<Rightarrow> int \<Rightarrow> int \<Rightarrow> int option" where
  "lyrics_search doc pos_ms lo hi res =
     (if lo \<le> hi
      then let mid = lo + (hi - lo) div 2
           in (case aget doc mid of None \<Rightarrow> None
               | Some l \<Rightarrow> if time_ms l \<le> pos_ms then lyrics_search doc pos_ms (mid + 1) hi mid
                          else lyrics_search doc pos_ms lo (mid - 1) res)
      else Some res)"
  by pat_completeness auto
termination
  by (relation "measure (\<lambda>(doc, p, lo, hi, res). nat (hi - lo + 1))") auto

declare lyrics_search.simps [simp del]

text \<open>\<open>pos_ms\<close> is the position in milliseconds, \<^verbatim>\<open>(uint32_t) (position_seconds * 1000.0)\<close>.\<close>

definition lyrics_find_line_at :: "lyrics_doc_t \<Rightarrow> nat \<Rightarrow> int option" where
  "lyrics_find_line_at doc pos_ms = (if doc = [] then Some (-1) else lyrics_search doc pos_ms 0 (int (length doc) - 1) (-1))"

section \<open>The sidecar file\<close>

text \<open>The path with its extension replaced, in a buffer of \<^verbatim>\<open>PATH_MAX\<close> bytes.\<close>

definition strip_extension :: "string \<Rightarrow> string" where
  "strip_extension path =
     (let ext = takeWhile (\<lambda>c. c \<noteq> CHR ''.'') (rev path)
      in if CHR ''.'' \<in> set path \<and> CHR ''/'' \<notin> set ext then take (length path - length ext - 1) path else path)"

definition sidecar_path :: "string \<Rightarrow> string option" where
  "sidecar_path track =
     (let path = strip_extension (take 4095 track)
      in if 4096 \<le> length path + 4 then None else Some (path @ ''.lrc''))"

text \<open>\<open>fs\<close> gives the contents of the regular files; \<open>read_ok\<close> says that opening, allocating and reading succeed.\<close>

definition lyrics_load_sidecar ::
    "(string \<Rightarrow> string option) \<Rightarrow> bool \<Rightarrow> (nat \<Rightarrow> bool) \<Rightarrow> (lyrics_line_t list \<Rightarrow> lyrics_line_t list) \<Rightarrow> string \<Rightarrow> lyrics_doc_t option" where
  "lyrics_load_sidecar fs read_ok alloc_ok qs track =
     (case sidecar_path track of None \<Rightarrow> None
      | Some path \<Rightarrow>
          (case fs path of None \<Rightarrow> None
           | Some content \<Rightarrow>
               if content = [] \<or> LYRICS_MAX_FILE_BYTES < length content then None
               else if \<not> read_ok then None
               else lyrics_parse_buffer alloc_ok qs content))"

end
