(* ===== verification/Lyrics_Props.thy ===== *)
theory Lyrics_Props
  imports Lyrics "HOL-Library.Multiset"
begin

text \<open>
  Whatever bytes a lyrics file holds, an accepted document is sorted, within its limits and holds
  whole UTF-8 sequences, and the binary search finds the line that is current at a position.
\<close>

unbundle bit_operations_syntax

section \<open>Truncated text\<close>

definition sequence_at :: "string \<Rightarrow> nat \<Rightarrow> bool" where
  "sequence_at s n \<longleftrightarrow> s \<noteq> [] \<and> seq_len (hd s) = Some n \<and> n \<le> length s \<and> (\<forall>x \<in> set (take (n - 1) (tl s)). char_byte x AND 0xC0 = 0x80)"

lemma valid_prefix_step: "sequence_at s n \<Longrightarrow> utf8_valid_prefix_len s = n + utf8_valid_prefix_len (drop n s)"
  by (subst utf8_valid_prefix_len.simps) (auto simp: sequence_at_def split: list.split)

lemma valid_prefix_stop: "(\<nexists>n. sequence_at s n) \<Longrightarrow> utf8_valid_prefix_len s = 0"
  by (subst utf8_valid_prefix_len.simps) (auto simp: sequence_at_def not_less split: list.split option.split)

lemma sequence_at_pos: "sequence_at s n \<Longrightarrow> 0 < n \<and> length (drop n s) < length s"
  using seq_len_pos by (fastforce simp: sequence_at_def)

lemma valid_prefix_facts: "utf8_valid_prefix_len s \<le> length s \<and> utf8_valid_prefix_len (take (utf8_valid_prefix_len s) s) = utf8_valid_prefix_len s"
proof (induction s rule: measure_induct_rule[of length])
  case (less s)
  show ?case
  proof (cases "\<exists>n. sequence_at s n")
    case True
    then obtain n where n: "sequence_at s n" by blast
    define m where "m = utf8_valid_prefix_len (drop n s)"
    have l: "utf8_valid_prefix_len s = n + m" using valid_prefix_step[OF n] by (simp add: m_def)
    have m: "m \<le> length (drop n s)" "utf8_valid_prefix_len (take m (drop n s)) = m"
      using less[of "drop n s"] sequence_at_pos[OF n] unfolding m_def by blast+
    have "take (n - 1) (take (n + m - 1) (tl s)) = take (n - 1) (tl s)" using sequence_at_pos[OF n] by (simp add: min_def)
    then have "sequence_at (take (n + m) s) n"
      using n sequence_at_pos[OF n] by (cases s) (auto simp: sequence_at_def take_Cons' min_def)
    from valid_prefix_step[OF this] have "utf8_valid_prefix_len (take (n + m) s) = n + m"
      using m(2) by (simp add: drop_take)
    then show ?thesis using l m(1) n by (auto simp: sequence_at_def)
  qed (simp add: valid_prefix_stop sequence_at_def)
qed

section \<open>The builder\<close>

definition shown_line :: "lyrics_line_t \<Rightarrow> bool" where
  "shown_line l \<longleftrightarrow> time_ms l \<le> LYRICS_MAX_TIME_MS \<and> length (line_text l) \<le> LYRICS_MAX_LINE_BYTES \<and>
     utf8_valid_prefix_len (line_text l) = length (line_text l)"

definition builder_ok :: "line_builder_t \<Rightarrow> bool" where
  "builder_ok b \<longleftrightarrow> length (lb_arr b) \<le> LYRICS_MAX_LINES \<and> list_all shown_line (lb_arr b)"

lemma clipped_line:
  assumes "t \<le> LYRICS_MAX_TIME_MS" and "k \<le> LYRICS_MAX_LINE_BYTES"
  shows "shown_line \<lparr>time_ms = t, line_text = take (utf8_valid_prefix_len (take k txt)) txt\<rparr>"
proof -
  define m where "m = utf8_valid_prefix_len (take k txt)"
  have m: "m \<le> length (take k txt)" "utf8_valid_prefix_len (take m (take k txt)) = m"
    using valid_prefix_facts[of "take k txt"] unfolding m_def by blast+
  then have "m \<le> k" "m \<le> length txt" by simp_all
  then have "take m (take k txt) = take m txt" "length (take m txt) = m" by (simp_all add: min_def)
  then show ?thesis using assms m(2) \<open>m \<le> k\<close> unfolding m_def[symmetric] by (simp add: shown_line_def)
qed

lemma ensure_room_arr: "ensure_room a b = (ok, b') \<Longrightarrow> lb_arr b' = lb_arr b"
  by (auto simp: ensure_room_def Let_def split: if_splits)

lemma push_ok: "builder_ok b \<Longrightarrow> t \<le> LYRICS_MAX_TIME_MS \<Longrightarrow> builder_ok (line_builder_push a t txt b)"
  using clipped_line[of t "if LYRICS_MAX_LINE_BYTES < length txt then LYRICS_MAX_LINE_BYTES else length txt" "txt"]
  by (auto simp: line_builder_push_def builder_ok_def Let_def not_le dest!: ensure_room_arr split: prod.splits)

lemma pushes_ok: "builder_ok b \<Longrightarrow> \<forall>t \<in> set ts. t \<le> LYRICS_MAX_TIME_MS \<Longrightarrow> builder_ok (fold (\<lambda>t. line_builder_push a t txt) ts b)"
  by (induction ts arbitrary: b) (simp_all add: push_ok)

lemma timestamp_bound: "timestamp_tag inner = Some t \<Longrightarrow> t \<le> LYRICS_MAX_TIME_MS"
  by (auto simp: timestamp_tag_def parse_timestamp_ms_def Let_def split: option.splits if_splits)

lemma strip_tags_bound:
  "strip_tags s pend off = (r, pend', off') \<Longrightarrow> \<forall>t \<in> set pend. t \<le> LYRICS_MAX_TIME_MS \<Longrightarrow> \<forall>t \<in> set pend'. t \<le> LYRICS_MAX_TIME_MS"
proof (induction s pend off rule: strip_tags.induct)
  case (1 s pend off)
  let ?i = "takeWhile (\<lambda>c. c \<noteq> CHR '']'') (tl s)" and ?r = "dropWhile (\<lambda>c. c \<noteq> CHR '']'') (tl s)"
  consider (stop) "pend' = pend"
    | (time) t where "timestamp_tag ?i = Some t" "strip_tags (tl ?r) (if length pend < 8 then pend @ [t] else pend) off = (r, pend', off')"
      "\<not> (s = [] \<or> hd s \<noteq> CHR ''['')" "?r \<noteq> []"
    | (offset) "timestamp_tag ?i = None" "7 < length ?i \<and> same_nocase 7 ?i ''offset:''" "strip_tags (tl ?r) pend (offset_tag ?i off) = (r, pend', off')"
      "\<not> (s = [] \<or> hd s \<noteq> CHR ''['')" "?r \<noteq> []"
    | (meta) "timestamp_tag ?i = None" "\<not> (7 < length ?i \<and> same_nocase 7 ?i ''offset:'')" "metadata_tag ?i" "strip_tags (tl ?r) pend off = (r, pend', off')"
      "\<not> (s = [] \<or> hd s \<noteq> CHR ''['')" "?r \<noteq> []"
    using "1.prems"(1) by (subst (asm) strip_tags.simps) (auto simp: Let_def split: if_splits option.splits)
  then show ?case
  proof cases
    case stop
    then show ?thesis using "1.prems"(2) by simp
  next
    case time
    have "\<forall>u \<in> set (if length pend < 8 then pend @ [t] else pend). u \<le> LYRICS_MAX_TIME_MS"
      using "1.prems"(2) timestamp_bound[OF time(1)] by simp
    then show ?thesis by (rule "1.IH"(3)[OF time(3) refl refl time(4) time(1) time(2)])
  next
    case offset
    from "1.prems"(2) show ?thesis by (rule "1.IH"(1)[OF offset(4) refl refl offset(5) offset(1) offset(2) offset(3)])
  next
    case meta
    from "1.prems"(2) show ?thesis by (rule "1.IH"(2)[OF meta(5) refl refl meta(6) meta(1) meta(2) meta(3) meta(4)])
  qed
qed

lemma process_line_ok: "builder_ok (fst bo) \<Longrightarrow> builder_ok (fst (process_line a l bo))"
  using strip_tags_bound[of l "[]"] by (auto simp: process_line_def intro!: pushes_ok split: prod.splits)

lemma parse_lines_ok: "builder_ok (fst bo) \<Longrightarrow> builder_ok (fst (parse_lines a s bo))"
proof (induction a s bo rule: parse_lines.induct)
  case (1 a s bo)
  show ?case
  proof (cases "s = [] \<or> LYRICS_MAX_LINES \<le> length (lb_arr (fst bo))")
    case False
    let ?seg = "strip_cr (takeWhile (\<lambda>c. c \<noteq> lf) s)"
    have "builder_ok (fst (if ?seg = [] then bo else process_line a ?seg bo))" using "1.prems" process_line_ok by simp
    from "1.IH"[OF False refl refl this] show ?thesis
      using False unfolding parse_lines.simps[of a s bo] Let_def by (simp only: if_False)
  qed (simp add: parse_lines.simps "1.prems")
qed

section \<open>The search\<close>

definition current_line :: "lyrics_doc_t \<Rightarrow> nat \<Rightarrow> int \<Rightarrow> bool" where
  "current_line doc p r \<longleftrightarrow> -1 \<le> r \<and> r < int (length doc) \<and>
     (\<forall>j < length doc. time_ms (doc ! j) \<le> p \<longleftrightarrow> int j \<le> r)"

lemma lyrics_search_finds:
  assumes "sorted (map time_ms doc)" and "0 \<le> lo" and "hi < int (length doc)" and "lo \<le> hi + 1" and "res = lo - 1"
    and "\<forall>j < length doc. int j < lo \<longrightarrow> time_ms (doc ! j) \<le> p" and "\<forall>j < length doc. hi < int j \<longrightarrow> p < time_ms (doc ! j)"
  shows "\<exists>r. lyrics_search doc p lo hi res = Some r \<and> current_line doc p r"
  using assms(2-)
proof (induction "nat (hi - lo + 1)" arbitrary: lo hi res rule: less_induct)
  case less
  show ?case
  proof (cases "lo \<le> hi")
    case True
    define mid where "mid = lo + (hi - lo) div 2"
    have b: "lo \<le> mid" "mid \<le> hi" using True by (simp_all add: mid_def)
    have get: "aget doc mid = Some (doc ! nat mid)" using b less.prems(1,2) by (simp add: aget_def)
    have mono: "time_ms (doc ! i) \<le> time_ms (doc ! j)" if "i \<le> j" "j < length doc" for i j
      using sorted_nth_mono[OF assms(1) that(1)] that by simp
    have eq: "lyrics_search doc p lo hi res =
        (if time_ms (doc ! nat mid) \<le> p then lyrics_search doc p (mid + 1) hi mid else lyrics_search doc p lo (mid - 1) res)"
      using True get by (subst lyrics_search.simps) (simp add: Let_def mid_def)
    show ?thesis
    proof (cases "time_ms (doc ! nat mid) \<le> p")
      case low: True
      have "\<exists>r. lyrics_search doc p (mid + 1) hi mid = Some r \<and> current_line doc p r"
      proof (rule less.hyps)
        show "\<forall>j < length doc. int j < mid + 1 \<longrightarrow> time_ms (doc ! j) \<le> p"
        proof (intro allI impI)
          fix j assume "int j < mid + 1"
          then have "j \<le> nat mid" by simp
          moreover have "nat mid < length doc" using b less.prems(1,2) by simp
          ultimately show "time_ms (doc ! j) \<le> p" using low mono[of j "nat mid"] by simp
        qed
      qed (use b less.prems in auto)
      then show ?thesis using eq low by simp
    next
      case high: False
      have "\<exists>r. lyrics_search doc p lo (mid - 1) res = Some r \<and> current_line doc p r"
      proof (rule less.hyps)
        show "\<forall>j < length doc. mid - 1 < int j \<longrightarrow> p < time_ms (doc ! j)"
        proof (intro allI impI)
          fix j assume "j < length doc" "mid - 1 < int j"
          then have "nat mid \<le> j" by simp
          with \<open>j < length doc\<close> show "p < time_ms (doc ! j)" using high mono[of "nat mid" j] by simp
        qed
      qed (use b less.prems in auto)
      then show ?thesis using eq high by simp
    qed
  next
    case False
    then have "lyrics_search doc p lo hi res = Some (lo - 1)" "hi = lo - 1" using less.prems(3,4) by (simp_all add: lyrics_search.simps)
    moreover have "time_ms (doc ! j) \<le> p \<longleftrightarrow> int j \<le> lo - 1" if "j < length doc" for j
      using less.prems(5,6) that \<open>hi = lo - 1\<close> by (meson not_le zle_diff1_eq)
    ultimately show ?thesis using less.prems(1,2) by (simp add: current_line_def)
  qed
qed

section \<open>Properties\<close>

text \<open>What the C library says of \<^verbatim>\<open>qsort\<close>: a permutation in ascending order, ties in any order.\<close>

definition sorts :: "(lyrics_line_t list \<Rightarrow> lyrics_line_t list) \<Rightarrow> bool" where
  "sorts qs \<longleftrightarrow> (\<forall>ls. mset (qs ls) = mset ls \<and> sorted (map time_ms (qs ls)))"

lemma shifted_line: "shown_line l \<Longrightarrow> shown_line (l\<lparr>time_ms := shift_time off (time_ms l)\<rparr>)"
  by (auto simp: shown_line_def shift_time_def Let_def)

lemma lyrics_shown_line_parts:
  assumes "sorts qs" and "lyrics_parse_buffer alloc_ok qs buf = Some doc"
  shows "doc \<noteq> [] \<and> length doc \<le> LYRICS_MAX_LINES \<and> sorted (map time_ms doc) \<and> list_all shown_line doc"
    and "\<exists>r. lyrics_find_line_at doc pos_ms = Some r \<and> current_line doc pos_ms r"
proof -
  let ?s = "if library_utf8_bom_skip buf = 3 then drop 3 buf else buf"
  obtain b off where b: "parse_lines alloc_ok ?s (\<lparr>lb_arr = [], lb_cap = 0, lb_allocs = 0\<rparr>, 0) = (b, off)"
    by (cases "parse_lines alloc_ok ?s (\<lparr>lb_arr = [], lb_cap = 0, lb_allocs = 0\<rparr>, 0)")
  have "builder_ok b" using parse_lines_ok[of "(\<lparr>lb_arr = [], lb_cap = 0, lb_allocs = 0\<rparr>, 0)" alloc_ok ?s] b by (simp add: builder_ok_def)
  define ls where "ls = map (\<lambda>l. l\<lparr>time_ms := shift_time off (time_ms l)\<rparr>) (lb_arr b)"
  have ls: "length ls \<le> LYRICS_MAX_LINES" "\<forall>l \<in> set ls. shown_line l"
    using \<open>builder_ok b\<close> shifted_line by (auto simp: ls_def builder_ok_def list_all_iff)
  have doc: "doc = qs ls" "ls \<noteq> []" using assms(2) b by (auto simp: lyrics_parse_buffer_def ls_def Let_def split: if_splits)
  have q: "mset doc = mset ls" "sorted (map time_ms doc)" using assms(1) doc(1) by (simp_all add: sorts_def)
  have "set doc = set ls" "length doc = length ls" using mset_eq_setD[OF q(1)] mset_eq_length[OF q(1)] by simp_all
  then show "doc \<noteq> [] \<and> length doc \<le> LYRICS_MAX_LINES \<and> sorted (map time_ms doc) \<and> list_all shown_line doc"
    using ls doc(2) q(2) by (auto simp: list_all_iff)
  show "\<exists>r. lyrics_find_line_at doc pos_ms = Some r \<and> current_line doc pos_ms r"
  proof (cases "doc = []")
    case False
    then show ?thesis unfolding lyrics_find_line_at_def if_not_P[OF False] by (intro lyrics_search_finds[OF q(2)]) auto
  qed (simp add: lyrics_find_line_at_def current_line_def)
qed


text \<open>Two lines, the later one first.\<close>

definition sample_lyrics :: string where
  "sample_lyrics = ''[00:02.5]b'' @ [lf] @ ''[00:01]a''"

lemma sample_lines: "lf \<notin> set ''[00:02.5]b''" "lf \<notin> set ''[00:01]a''" "cr \<noteq> CHR ''a''" "cr \<noteq> CHR ''b''"
  "take 3 sample_lyrics \<noteq> utf8_bom" "utf8_valid_prefix_len ''a'' = 1" "utf8_valid_prefix_len ''b'' = 1"
  by code_simp+

lemma sample_tags: "strip_tags ''[00:02.5]b'' [] 0 = (''b'', [2500], 0)" "strip_tags ''[00:01]a'' [] 0 = (''a'', [1000], 0)"
  by (simp_all add: strip_tags.simps timestamp_tag_def parse_timestamp_ms_def atoi_n_def dec_val_def digit_val_def isdigit_def LYRICS_MAX_TIME_MS_def)

lemma sample_parse:
  "lyrics_parse_buffer (\<lambda>k. True) (sort_key time_ms) sample_lyrics =
     Some [\<lparr>time_ms = 1000, line_text = ''a''\<rparr>, \<lparr>time_ms = 2500, line_text = ''b''\<rparr>]"
proof -
  have cut: "takeWhile (\<lambda>c. c \<noteq> lf) sample_lyrics = ''[00:02.5]b''" "dropWhile (\<lambda>c. c \<noteq> lf) sample_lyrics = lf # ''[00:01]a''"
      "takeWhile (\<lambda>c. c \<noteq> lf) ''[00:01]a'' = ''[00:01]a''" "dropWhile (\<lambda>c. c \<noteq> lf) ''[00:01]a'' = []"
      "strip_cr ''[00:02.5]b'' = ''[00:02.5]b''" "strip_cr ''[00:01]a'' = ''[00:01]a''" "sample_lyrics \<noteq> []"
    using sample_lines by (auto simp: sample_lyrics_def strip_cr_def)
  have nb: "\<not> blank (CHR ''a'')" "\<not> blank (CHR ''b'')" by code_simp+
  let ?b0 = "\<lparr>lb_arr = [], lb_cap = 0, lb_allocs = 0\<rparr>" and ?b1 = "\<lparr>lb_arr = [\<lparr>time_ms = 2500, line_text = ''b''\<rparr>], lb_cap = 64, lb_allocs = 2\<rparr>"
  let ?b2 = "\<lparr>lb_arr = [\<lparr>time_ms = 2500, line_text = ''b''\<rparr>, \<lparr>time_ms = 1000, line_text = ''a''\<rparr>], lb_cap = 64, lb_allocs = 3\<rparr>"
  have p: "process_line (\<lambda>k. True) ''[00:02.5]b'' (?b0, 0) = (?b1, 0)" "process_line (\<lambda>k. True) ''[00:01]a'' (?b1, 0) = (?b2, 0)"
    by (simp_all add: process_line_def sample_tags nb sample_lines line_builder_push_def ensure_room_def LYRICS_MAX_LINES_def LYRICS_MAX_LINE_BYTES_def)
  have "parse_lines (\<lambda>k. True) [] (?b2, 0) = (?b2, 0)" by (simp add: parse_lines.simps)
  then have "parse_lines (\<lambda>k. True) ''[00:01]a'' (?b1, 0) = (?b2, 0)"
    unfolding parse_lines.simps[of _ "''[00:01]a''"] cut Let_def by (simp add: p LYRICS_MAX_LINES_def)
  then have "parse_lines (\<lambda>k. True) sample_lyrics (?b0, 0) = (?b2, 0)"
    unfolding parse_lines.simps[of _ sample_lyrics] cut Let_def using cut(7) by (simp add: p LYRICS_MAX_LINES_def)
  moreover have "length sample_lyrics = 19" by (simp add: sample_lyrics_def)
  ultimately show ?thesis using cut(7)
    by (simp add: lyrics_parse_buffer_def library_utf8_bom_skip_def sample_lines LYRICS_MAX_FILE_BYTES_def shift_time_def LYRICS_MAX_TIME_MS_def)
qed


end
