(* ===== verification/Mp4_Demux.thy ===== *)
theory Mp4_Demux
  imports Bytes Audio_Helpers
begin

text \<open>
  The MP4 demuxer (\<^verbatim>\<open>src/src/audio/mp4_demux.c\<close>): boxes, the codec configuration, and the tables that say
  where the samples of the audio track lie.

  The file is the list of its bytes.  Every sequence of reads of the program begins with a seek, so
  a read is given its position.  Positions and counts are natural numbers: the sizes of the boxes
  that hold the tables are checked against \<^verbatim>\<open>LONG_MAX\<close> first.  Sizes and offsets of samples are words.
  \<open>grant k\<close> says whether the allocation at site \<open>k\<close> of \<^verbatim>\<open>mp4_demux_open\<close> succeeds: 0 the demuxer,
  1 the configuration region, 2 the configuration, 3 the sizes, 4 the chunk runs, 5 the chunk
  offsets, 6 the sample offsets.
\<close>

unbundle bit_operations_syntax

definition LONG_MAX :: nat where "LONG_MAX = 2147483647"
definition MP4_EXPAND_MAX_SAMPLES :: nat where "MP4_EXPAND_MAX_SAMPLES = 65536"
definition MP4_MAX_STSC_ENTRIES :: nat where "MP4_MAX_STSC_ENTRIES = 4096"
definition MP4_MAX_STSD_ENTRY_BYTES :: nat where "MP4_MAX_STSD_ENTRY_BYTES = 1024 * 1024"

section \<open>Reading\<close>

definition read_at :: "byte list \<Rightarrow> nat \<Rightarrow> nat \<Rightarrow> byte list option" where
  "read_at file pos n = (if pos + n \<le> length file then Some (take n (drop pos file)) else None)"

definition be32 :: "byte list \<Rightarrow> nat \<Rightarrow> u32" where
  "be32 bs off = audio_read_u32be (\<lambda>i. bs ! (off + i))"

definition be64 :: "byte list \<Rightarrow> nat \<Rightarrow> u64" where
  "be64 bs off = audio_read_u64be (\<lambda>i. bs ! (off + i))"

definition fourcc :: "string \<Rightarrow> byte list" where
  "fourcc s = map char_byte s"

section \<open>Boxes\<close>

record box_header_t =
  box_type :: "byte list"
  box_size :: nat
  header_size :: nat
  data_start :: nat

definition read_box_header :: "byte list \<Rightarrow> nat \<Rightarrow> box_header_t option" where
  "read_box_header file start =
     (case read_at file start 8 of None \<Rightarrow> None
      | Some hdr \<Rightarrow>
          let size32 = be32 hdr 0; ty = take 4 (drop 4 hdr) in
          (case (if size32 = 1 then map_option (\<lambda>ext. (unat (be64 ext 0), 16)) (read_at file (start + 8) 8)
                else if size32 = 0 then Some (length file - start, 8)
                else Some (unat size32, 8)) of
            None \<Rightarrow> None
          | Some (sz, hs) \<Rightarrow>
              if sz < hs \<or> LONG_MAX - start < sz then None
              else Some \<lparr>box_type = ty, box_size = sz, header_size = hs, data_start = start + hs\<rparr>))"

definition box_start :: "box_header_t \<Rightarrow> nat" where
  "box_start b = data_start b - header_size b"

definition payload :: "box_header_t \<Rightarrow> nat" where
  "payload b = box_size b - header_size b"

definition box_payload_has :: "box_header_t \<Rightarrow> nat \<Rightarrow> nat \<Rightarrow> bool" where
  "box_payload_has b offset n \<longleftrightarrow> offset \<le> payload b \<and> n \<le> payload b - offset"

lemma read_box_header_facts:
  assumes "read_box_header file start = Some b"
  shows "box_start b = start" "0 < box_size b" "header_size b \<le> box_size b" "data_start b = start + header_size b"
    "start + box_size b \<le> max LONG_MAX start"
  using assms by (auto simp: read_box_header_def box_start_def Let_def split: option.splits prod.splits if_splits)

lemma read_box_header_advance: "read_box_header file pos = Some b \<Longrightarrow> box_start b = pos \<and> pos < box_start b + box_size b"
  using read_box_header_facts(1,2) by fastforce

function find_child_loop :: "byte list \<Rightarrow> nat \<Rightarrow> nat \<Rightarrow> byte list \<Rightarrow> nat \<Rightarrow> box_header_t option" where
  "find_child_loop file container_start stop ty pos =
     (if stop \<le> pos then None
      else case read_box_header file pos of None \<Rightarrow> None
        | Some box \<Rightarrow>
            if box_start box < container_start \<or> stop - box_start box < box_size box then None
            else if box_type box = ty then Some box
            else if box_start box + box_size box \<le> box_start box then None
            else find_child_loop file container_start stop ty (box_start box + box_size box))"
  by pat_completeness auto
termination
  by (relation "measure (\<lambda>(file, cs, stop, ty, pos). stop - pos)") (auto dest!: read_box_header_advance)

declare find_child_loop.simps [simp del]

definition find_child_box :: "byte list \<Rightarrow> nat \<Rightarrow> nat \<Rightarrow> string \<Rightarrow> box_header_t option" where
  "find_child_box file container_start container_size ty =
     (if LONG_MAX - container_start < container_size then None
      else find_child_loop file container_start (container_start + container_size) (fourcc ty) container_start)"

definition find_in :: "byte list \<Rightarrow> box_header_t \<Rightarrow> string \<Rightarrow> box_header_t option" where
  "find_in file b ty = find_child_box file (data_start b) (payload b) ty"

text \<open>The handler of a track: \<^verbatim>\<open>soun\<close> for audio.\<close>

definition is_audio_trak :: "byte list \<Rightarrow> box_header_t \<Rightarrow> bool" where
  "is_audio_trak file trak =
     (case find_in file trak ''mdia'' of None \<Rightarrow> False
      | Some mdia \<Rightarrow> (case find_in file mdia ''hdlr'' of None \<Rightarrow> False
         | Some hdlr \<Rightarrow> (case read_at file (data_start hdlr + 4) 8 of None \<Rightarrow> False
            | Some buf \<Rightarrow> take 4 (drop 4 buf) = fourcc ''soun'')))"

function find_trak_loop :: "byte list \<Rightarrow> nat \<Rightarrow> nat \<Rightarrow> box_header_t option" where
  "find_trak_loop file stop pos =
     (if stop \<le> pos then None
      else case read_box_header file pos of None \<Rightarrow> None
        | Some trak \<Rightarrow>
            if box_type trak = fourcc ''trak'' \<and> is_audio_trak file trak then Some trak
            else find_trak_loop file stop (box_start trak + box_size trak))"
  by pat_completeness auto
termination
  by (relation "measure (\<lambda>(file, stop, pos). stop - pos)") (auto dest!: read_box_header_advance)

declare find_trak_loop.simps [simp del]

definition find_audio_trak :: "byte list \<Rightarrow> box_header_t \<Rightarrow> box_header_t option" where
  "find_audio_trak file moov = find_trak_loop file (data_start moov + box_size moov - header_size moov) (data_start moov)"

section \<open>The demuxer\<close>

record mp4_demux =
  file_size :: nat
  codec_fourcc :: "byte list"
  codec_config :: "byte list"
  sample_count :: nat
  uniform_size :: u32
  stsz_table_offset :: nat
  sample_sizes :: "u32 list option"
  chunk_count :: nat
  stco_is64 :: bool
  stco_table_offset :: nat
  stsc :: "(nat \<times> nat) list"
  sample_offsets :: "u64 list option"
  cursor_index :: nat
  cursor_offset :: u64
  frames_per_sample :: nat
  total_pcm_frames :: u64

section \<open>The codec configuration\<close>

definition region_get :: "byte list \<Rightarrow> u32 \<Rightarrow> nat \<Rightarrow> byte list option" where
  "region_get region p n = read_at region (unat p) n"

definition region_byte :: "byte list \<Rightarrow> u32 \<Rightarrow> byte option" where
  "region_byte region p = map_option hd (region_get region p 1)"

text \<open>The length of a descriptor: at most four bytes of seven bits.\<close>

primrec desc_length :: "byte list \<Rightarrow> nat \<Rightarrow> u32 \<Rightarrow> u32 \<Rightarrow> u32 \<Rightarrow> (u32 \<times> u32) option" where
  "desc_length region 0 limit p len = Some (len, p)"
| "desc_length region (Suc n) limit p len =
     (if \<not> p < limit then Some (len, p)
      else do {
        b \<leftarrow> region_byte region p;
        let len = push_bit 7 len OR (ucast b AND 0x7F);
        if b AND 0x80 = 0 then Some (len, p + 1) else desc_length region n limit (p + 1) len })"

datatype esds_result = Config "byte list" | No_memory | No_config

partial_function (option) esds_tags :: "(nat \<Rightarrow> bool) \<Rightarrow> byte list \<Rightarrow> u32 \<Rightarrow> u32 \<Rightarrow> esds_result option" where
  "esds_tags grant region limit p =
     (if \<not> p + 2 \<le> limit then Some No_config
      else do {
        tag \<leftarrow> region_byte region p;
        (len, p) \<leftarrow> desc_length region 4 limit (p + 1) 0;
        if tag = 0x05 then
          (if of_nat (length region) < p + len then Some No_config
           else if \<not> grant 2 then Some No_memory
           else do { bytes \<leftarrow> region_get region p (unat len); Some (Config bytes) })
        else if tag = 0x03 then esds_tags grant region limit (p + 3)
        else if tag = 0x04 then esds_tags grant region limit (p + 13)
        else esds_tags grant region limit (p + len) })"

text \<open>The loop over the boxes of the region, with 32-bit positions.\<close>

partial_function (option) esds_boxes :: "(nat \<Rightarrow> bool) \<Rightarrow> byte list \<Rightarrow> u32 \<Rightarrow> byte list option option" where
  "esds_boxes grant region pos =
     (if \<not> pos + 8 \<le> of_nat (length region) then Some None
      else do {
        hdr \<leftarrow> region_get region pos 8;
        let sz = be32 hdr 0;
        if sz < 8 \<or> of_nat (length region) < pos + sz then Some None
        else do {
          r \<leftarrow> (if take 4 (drop 4 hdr) = fourcc ''esds'' then esds_tags grant region (pos + sz) (pos + 8 + 4) else Some No_config);
          case r of Config bytes \<Rightarrow> Some (Some bytes)
          | No_memory \<Rightarrow> Some None
          | No_config \<Rightarrow> esds_boxes grant region (pos + sz) } })"

definition parse_stsd :: "(nat \<Rightarrow> bool) \<Rightarrow> byte list \<Rightarrow> mp4_demux \<Rightarrow> box_header_t \<Rightarrow> mp4_demux option option" where
  "parse_stsd grant file d stsd =
     (if \<not> box_payload_has stsd 0 (8 + 36) then Some None
      else case read_at file (data_start stsd + 8) 36 of None \<Rightarrow> Some None
        | Some hdr \<Rightarrow>
            let entry_size = unat (be32 hdr 0); d = d\<lparr>codec_fourcc := take 4 (drop 4 hdr)\<rparr> in
            if entry_size \<le> 36 \<or> MP4_MAX_STSD_ENTRY_BYTES < entry_size \<or> \<not> box_payload_has stsd 8 entry_size then Some None
            else if \<not> grant 1 then Some None
            else case read_at file (data_start stsd + 8 + 36) (entry_size - 36) of None \<Rightarrow> Some None
              | Some region \<Rightarrow>
                  if codec_fourcc d = fourcc ''alac'' then Some (Some (d\<lparr>codec_config := region\<rparr>))
                  else if codec_fourcc d = fourcc ''mp4a''
                  then map_option (map_option (\<lambda>c. d\<lparr>codec_config := c\<rparr>)) (esds_boxes grant region 0)
                  else Some None)"

section \<open>Sizes and offsets of samples\<close>

definition read_u32be_file :: "byte list \<Rightarrow> nat \<Rightarrow> u32 option" where
  "read_u32be_file file pos = map_option (\<lambda>b. be32 b 0) (read_at file pos 4)"

definition sample_size_at :: "byte list \<Rightarrow> mp4_demux \<Rightarrow> nat \<Rightarrow> u32 option" where
  "sample_size_at file d i =
     (if sample_count d \<le> i then None
      else case sample_sizes d of
          Some sizes \<Rightarrow> if i < length sizes then Some (sizes ! i) else None
        | None \<Rightarrow> if uniform_size d \<noteq> 0 then Some (uniform_size d) else read_u32be_file file (stsz_table_offset d + i * 4))"

definition stride :: "bool \<Rightarrow> nat" where
  "stride is64 = (if is64 then 8 else 4)"

definition read_offset :: "byte list \<Rightarrow> bool \<Rightarrow> nat \<Rightarrow> u64 option" where
  "read_offset file is64 pos =
     (if is64 then map_option (\<lambda>b. be64 b 0) (read_at file pos 8) else map_option (\<lambda>b. ucast (be32 b 0)) (read_at file pos 4))"

definition chunk_offset_at :: "byte list \<Rightarrow> mp4_demux \<Rightarrow> nat \<Rightarrow> u64 option" where
  "chunk_offset_at file d c =
     (if chunk_count d \<le> c then None
      else read_offset file (stco_is64 d) (stco_table_offset d + c * stride (stco_is64 d)))"

text \<open>The chunk of a sample (counted from one) and its place there, from the runs of chunks.\<close>

fun locate_sample :: "(nat \<times> nat) list \<Rightarrow> nat \<Rightarrow> nat \<Rightarrow> (nat \<times> nat) option" where
  "locate_sample [] chunks remaining = None"
| "locate_sample ((first, spc) # es) chunks remaining =
     (if spc = 0 then None
      else let next_first = (case es of [] \<Rightarrow> chunks + 1 | (f, _) # _ \<Rightarrow> f) in
        if next_first \<le> first then None
        else let nsamples = (next_first - first) * spc in
          if remaining < nsamples then Some (first + remaining div spc, remaining mod spc)
          else locate_sample es chunks (remaining - nsamples))"

primrec add_sizes :: "byte list \<Rightarrow> mp4_demux \<Rightarrow> nat \<Rightarrow> nat \<Rightarrow> u64 \<Rightarrow> u64 option" where
  "add_sizes file d i 0 off = Some off"
| "add_sizes file d i (Suc n) off = do { sz \<leftarrow> sample_size_at file d i; add_sizes file d (Suc i) n (off + ucast sz) }"

definition sample_offset_at :: "byte list \<Rightarrow> mp4_demux \<Rightarrow> nat \<Rightarrow> (u64 \<times> mp4_demux) option" where
  "sample_offset_at file d i =
     (if sample_count d \<le> i then None
      else case sample_offsets d of
          Some offs \<Rightarrow> if i < length offs then Some (offs ! i, d) else None
        | None \<Rightarrow>
            if i = cursor_index d then Some (cursor_offset d, d)
            else if i = (cursor_index d + 1) mod 2 ^ 32
            then do {
              sz \<leftarrow> sample_size_at file d (cursor_index d);
              let d = d\<lparr>cursor_index := i, cursor_offset := cursor_offset d + ucast sz\<rparr>;
              Some (cursor_offset d, d) }
            else do {
              (chunk, index_in_chunk) \<leftarrow> locate_sample (stsc d) (chunk_count d) i;
              if chunk = 0 then None
              else do {
                off \<leftarrow> chunk_offset_at file d (chunk - 1);
                off \<leftarrow> add_sizes file d (i - index_in_chunk) index_in_chunk off;
                Some (off, d\<lparr>cursor_index := i, cursor_offset := off\<rparr>) } })"

section \<open>The tables\<close>

primrec read_u32s :: "byte list \<Rightarrow> nat \<Rightarrow> nat \<Rightarrow> u32 list option" where
  "read_u32s file pos 0 = Some []"
| "read_u32s file pos (Suc n) = do { x \<leftarrow> read_u32be_file file pos; xs \<leftarrow> read_u32s file (pos + 4) n; Some (x # xs) }"

definition parse_stsz :: "(nat \<Rightarrow> bool) \<Rightarrow> byte list \<Rightarrow> mp4_demux \<Rightarrow> box_header_t \<Rightarrow> mp4_demux option" where
  "parse_stsz grant file d stsz =
     (if \<not> box_payload_has stsz 0 12 then None
      else case read_at file (data_start stsz) 12 of None \<Rightarrow> None
        | Some hdr \<Rightarrow>
            let uniform = be32 hdr 4; cnt = unat (be32 hdr 8) in
            if cnt = 0 then None
            else let d = d\<lparr>uniform_size := uniform, sample_count := cnt, stsz_table_offset := data_start stsz + 12\<rparr> in
            if uniform = 0 \<and> \<not> box_payload_has stsz 12 (cnt * 4) then None
            else if MP4_EXPAND_MAX_SAMPLES < cnt then Some d
            else if \<not> grant 3 then None
            else if uniform \<noteq> 0 then Some (d\<lparr>sample_sizes := Some (replicate cnt uniform)\<rparr>)
            else map_option (\<lambda>xs. d\<lparr>sample_sizes := Some xs\<rparr>) (read_u32s file (data_start stsz + 12) cnt))"

text \<open>The runs of chunks, checked to ascend.\<close>

primrec read_stsc :: "byte list \<Rightarrow> nat \<Rightarrow> nat option \<Rightarrow> nat \<Rightarrow> (nat \<times> nat) list option" where
  "read_stsc file pos before 0 = Some []"
| "read_stsc file pos before (Suc n) = do {
     buf \<leftarrow> read_at file pos 12;
     let first = unat (be32 buf 0);
     let spc = unat (be32 buf 4);
     if first = 0 \<or> spc = 0 then None
     else if (case before of None \<Rightarrow> False | Some f \<Rightarrow> first \<le> f) then None
     else do { es \<leftarrow> read_stsc file (pos + 12) (Some first) n; Some ((first, spc) # es) } }"

primrec read_chunk_offsets :: "byte list \<Rightarrow> bool \<Rightarrow> nat \<Rightarrow> nat \<Rightarrow> nat \<Rightarrow> u64 list option" where
  "read_chunk_offsets file is64 fsize pos 0 = Some []"
| "read_chunk_offsets file is64 fsize pos (Suc n) = do {
     x \<leftarrow> read_offset file is64 pos;
     if fsize \<le> unat x then None
     else do { xs \<leftarrow> read_chunk_offsets file is64 fsize (pos + stride is64) n; Some (x # xs) } }"

text \<open>The samples per chunk of a chunk: its run, the last run when there is none.\<close>

fun spc_of :: "nat \<Rightarrow> (nat \<times> nat) list \<Rightarrow> nat \<Rightarrow> nat" where
  "spc_of def [] chunk = def"
| "spc_of def ((first, spc) # es) chunk =
     (if first \<le> chunk \<and> chunk < (case es of [] \<Rightarrow> 0xFFFFFFFF | (f, _) # _ \<Rightarrow> f) then spc else spc_of def es chunk)"

primrec place_samples :: "byte list \<Rightarrow> mp4_demux \<Rightarrow> nat \<Rightarrow> u64 \<Rightarrow> u64 list \<Rightarrow> u64 list option" where
  "place_samples file d 0 offset acc = Some acc"
| "place_samples file d (Suc n) offset acc =
     (if sample_count d \<le> length acc then Some acc
      else do {
        sz \<leftarrow> sample_size_at file d (length acc);
        if file_size d < unat offset \<or> file_size d - unat offset < unat sz then None
        else place_samples file d n (offset + ucast sz) (acc @ [offset]) })"

primrec place_chunks :: "byte list \<Rightarrow> mp4_demux \<Rightarrow> nat \<Rightarrow> u64 list \<Rightarrow> u64 list \<Rightarrow> u64 list option" where
  "place_chunks file d chunk [] acc = Some acc"
| "place_chunks file d chunk (off # offs) acc =
     (if sample_count d \<le> length acc then Some acc
      else do {
        acc \<leftarrow> place_samples file d (spc_of (snd (last (stsc d))) (stsc d) chunk) off acc;
        place_chunks file d (Suc chunk) offs acc })"

text \<open>The table of chunk offsets, with 32 or with 64 bits.\<close>

definition chunk_table :: "byte list \<Rightarrow> box_header_t \<Rightarrow> (box_header_t \<times> bool) option" where
  "chunk_table file stbl = (case find_in file stbl ''stco'' of Some b \<Rightarrow> Some (b, False)
     | None \<Rightarrow> map_option (\<lambda>b. (b, True)) (find_in file stbl ''co64''))"

definition read_chunk_count :: "byte list \<Rightarrow> mp4_demux \<Rightarrow> box_header_t \<Rightarrow> bool \<Rightarrow> nat option" where
  "read_chunk_count file d stco_box is64 = do {
     hdr \<leftarrow> read_at file (data_start stco_box) 8;
     let chunks = unat (be32 hdr 4);
     if chunks = 0 \<or> sample_count d < chunks \<or> \<not> box_payload_has stco_box 8 (chunks * stride is64) then None else Some chunks }"

definition read_runs :: "(nat \<Rightarrow> bool) \<Rightarrow> byte list \<Rightarrow> box_header_t \<Rightarrow> (nat \<times> nat) list option" where
  "read_runs grant file stsc_box = do {
     hdr \<leftarrow> read_at file (data_start stsc_box) 8;
     let runs = unat (be32 hdr 4);
     if runs = 0 \<or> MP4_MAX_STSC_ENTRIES < runs \<or> \<not> box_payload_has stsc_box 8 (runs * 12) \<or> \<not> grant 4 then None
     else read_stsc file (data_start stsc_box + 8) None runs }"

definition expand_offsets :: "(nat \<Rightarrow> bool) \<Rightarrow> byte list \<Rightarrow> mp4_demux \<Rightarrow> mp4_demux option" where
  "expand_offsets grant file d =
     (if \<not> grant 5 then None
      else do {
        offs \<leftarrow> read_chunk_offsets file (stco_is64 d) (file_size d) (stco_table_offset d) (chunk_count d);
        if \<not> grant 6 then None
        else do {
          acc \<leftarrow> place_chunks file d 1 offs [];
          if length acc = sample_count d then Some (d\<lparr>sample_offsets := Some acc\<rparr>) else None } })"

definition parse_sample_offsets :: "(nat \<Rightarrow> bool) \<Rightarrow> byte list \<Rightarrow> mp4_demux \<Rightarrow> box_header_t \<Rightarrow> mp4_demux option" where
  "parse_sample_offsets grant file d stbl = do {
     (stco_box, is64) \<leftarrow> chunk_table file stbl;
     stsc_box \<leftarrow> find_in file stbl ''stsc'';
     if \<not> box_payload_has stco_box 0 8 \<or> \<not> box_payload_has stsc_box 0 8 then None
     else do {
       chunks \<leftarrow> read_chunk_count file d stco_box is64;
       es \<leftarrow> read_runs grant file stsc_box;
       let d = d\<lparr>stco_is64 := is64, chunk_count := chunks, stco_table_offset := data_start stco_box + 8, stsc := es\<rparr>;
       if MP4_EXPAND_MAX_SAMPLES < sample_count d
       then map_option (\<lambda>off. d\<lparr>cursor_offset := off, cursor_index := 0\<rparr>) (chunk_offset_at file d 0)
       else expand_offsets grant file d } }"

primrec sum_stts :: "byte list \<Rightarrow> nat \<Rightarrow> nat \<Rightarrow> u64 \<Rightarrow> u64 \<Rightarrow> (u64 \<times> u64) option" where
  "sum_stts file pos 0 tot timed = Some (tot, timed)"
| "sum_stts file pos (Suc n) tot timed = do {
     entry \<leftarrow> read_at file pos 8;
     let cnt = be32 entry 0;
     let delta = be32 entry 4;
     if cnt = 0 \<or> delta = 0 \<or> timed + ucast cnt < timed then None
     else sum_stts file (pos + 8) n (tot + ucast cnt * ucast delta) (timed + ucast cnt) }"

definition parse_stts :: "byte list \<Rightarrow> mp4_demux \<Rightarrow> box_header_t \<Rightarrow> mp4_demux option" where
  "parse_stts file d stbl = do {
     stts_box \<leftarrow> find_in file stbl ''stts'';
     if \<not> box_payload_has stts_box 0 8 then None
     else do {
       hdr \<leftarrow> read_at file (data_start stts_box) 8;
       let entries = unat (be32 hdr 4);
       if entries = 0 \<or> \<not> box_payload_has stts_box 8 (entries * 8) then None
       else do {
         (tot, timed) \<leftarrow> sum_stts file (data_start stts_box + 8) entries 0 0;
         first \<leftarrow> read_at file (data_start stts_box + 8) 8;
         let d = d\<lparr>frames_per_sample := unat (be32 first 4), total_pcm_frames := tot\<rparr>;
         if 0 < frames_per_sample d \<and> 0 < tot \<and> unat timed = sample_count d then Some d else None } } }"

section \<open>Opening and reading\<close>

function find_moov :: "byte list \<Rightarrow> nat \<Rightarrow> box_header_t option" where
  "find_moov file pos =
     (if length file \<le> pos then None
      else case read_box_header file pos of None \<Rightarrow> None
        | Some box \<Rightarrow> if box_type box = fourcc ''moov'' then Some box else find_moov file (box_start box + box_size box))"
  by pat_completeness auto
termination
  by (relation "measure (\<lambda>(file, pos). length file - pos)") (auto dest!: read_box_header_advance)

declare find_moov.simps [simp del]

definition new_demux :: "byte list \<Rightarrow> mp4_demux" where
  "new_demux file = \<lparr>file_size = length file, codec_fourcc = [], codec_config = [], sample_count = 0, uniform_size = 0,
     stsz_table_offset = 0, sample_sizes = None, chunk_count = 0, stco_is64 = False, stco_table_offset = 0, stsc = [],
     sample_offsets = None, cursor_index = 0, cursor_offset = 0, frames_per_sample = 0, total_pcm_frames = 0\<rparr>"

text \<open>The boxes of the audio track that the demuxer needs.\<close>

definition find_tables :: "byte list \<Rightarrow> (box_header_t \<times> box_header_t \<times> box_header_t) option" where
  "find_tables file = do {
     moov \<leftarrow> find_moov file 0;
     trak \<leftarrow> find_audio_trak file moov;
     mdia \<leftarrow> find_in file trak ''mdia'';
     minf \<leftarrow> find_in file mdia ''minf'';
     stbl \<leftarrow> find_in file minf ''stbl'';
     stsd \<leftarrow> find_in file stbl ''stsd'';
     stsz \<leftarrow> find_in file stbl ''stsz'';
     Some (stbl, stsd, stsz) }"

definition mp4_demux_open :: "(nat \<Rightarrow> bool) \<Rightarrow> byte list option \<Rightarrow> mp4_demux option option" where
  "mp4_demux_open grant content =
     (case content of None \<Rightarrow> Some None
      | Some file \<Rightarrow>
          (case find_tables file of None \<Rightarrow> Some None
           | Some (stbl, stsd, stsz) \<Rightarrow>
               if \<not> grant 0 then Some None
               else do {
                 parsed \<leftarrow> parse_stsd grant file (new_demux file) stsd;
                 Some (do { d \<leftarrow> parsed; d \<leftarrow> parse_stsz grant file d stsz; d \<leftarrow> parse_sample_offsets grant file d stbl; parse_stts file d stbl }) }))"

definition mp4_demux_read_sample :: "byte list \<Rightarrow> mp4_demux \<Rightarrow> nat \<Rightarrow> nat \<Rightarrow> (byte list \<times> mp4_demux) option" where
  "mp4_demux_read_sample file d i buf_size = do {
     sz \<leftarrow> sample_size_at file d i;
     (offset, d) \<leftarrow> sample_offset_at file d i;
     if buf_size < unat sz \<or> file_size d < unat offset \<or> file_size d - unat offset < unat sz \<or> LONG_MAX < unat offset then None
     else do {
       bytes \<leftarrow> read_at file (unat offset) (unat sz);
       Some (bytes, d\<lparr>cursor_index := i + 1, cursor_offset := offset + ucast sz\<rparr>) } }"

section \<open>Peeking at the codec\<close>

function peek_moov :: "byte list \<Rightarrow> nat \<Rightarrow> box_header_t option" where
  "peek_moov file pos =
     (if length file \<le> pos then None
      else case read_box_header file pos of None \<Rightarrow> None
        | Some box \<Rightarrow>
            if length file - box_start box < box_size box then None
            else if box_type box = fourcc ''moov'' then Some box
            else peek_moov file (box_start box + box_size box))"
  by pat_completeness auto
termination
  by (relation "measure (\<lambda>(file, pos). length file - pos)") (auto dest!: read_box_header_advance)

declare peek_moov.simps [simp del]

definition mp4_demux_peek_codec :: "byte list option \<Rightarrow> byte list option" where
  "mp4_demux_peek_codec content = do {
     file \<leftarrow> content;
     moov \<leftarrow> peek_moov file 0;
     trak \<leftarrow> find_audio_trak file moov;
     mdia \<leftarrow> find_in file trak ''mdia'';
     minf \<leftarrow> find_in file mdia ''minf'';
     stbl \<leftarrow> find_in file minf ''stbl'';
     stsd \<leftarrow> find_in file stbl ''stsd'';
     if \<not> box_payload_has stsd 0 20 then None
     else do {
       entry \<leftarrow> read_at file (data_start stsd + 8) 12;
       if 36 \<le> be32 entry 0 then Some (take 4 (drop 4 entry)) else None } }"

end
