(* ===== verification/Mp4_Props.thy ===== *)
theory Mp4_Props
  imports Mp4_Demux Audio_Bytes
begin

text \<open>
  The MP4 demuxer returns from opening a file unless a box size of the codec configuration wraps
  around; the expanded and the compact tables of samples agree on random access; a sequential read
  in compact mode ignores the chunk table.
\<close>

unbundle bit_operations_syntax

section \<open>Where samples lie\<close>

text \<open>The samples in file order: chunk and place in the chunk.\<close>

definition layout :: "(nat \<Rightarrow> nat) \<Rightarrow> nat \<Rightarrow> nat \<Rightarrow> (nat \<times> nat) list" where
  "layout spc lo hi = concat (map (\<lambda>c. map (Pair c) [0..<spc c]) [lo..<hi])"

lemma layout_split: "lo \<le> mid \<Longrightarrow> mid \<le> hi \<Longrightarrow> layout spc lo hi = layout spc lo mid @ layout spc mid hi"
  using upt_add_eq_append[of lo mid "hi - mid"] by (simp add: layout_def)

lemma layout_cong: "(\<And>c. lo \<le> c \<Longrightarrow> c < hi \<Longrightarrow> spc c = spc' c) \<Longrightarrow> layout spc lo hi = layout spc' lo hi"
  by (auto simp: layout_def intro!: arg_cong[of _ _ concat])

lemma layout_step: "lo < hi \<Longrightarrow> layout spc lo hi = map (Pair lo) [0..<spc lo] @ layout spc (Suc lo) hi"
  by (simp add: layout_def upt_conv_Cons)

lemma layout_empty [simp]: "hi \<le> lo \<Longrightarrow> layout spc lo hi = []"
  by (simp add: layout_def)

lemma layout_const: "length (layout (\<lambda>_. s) lo hi) = (hi - lo) * s"
    "r < (hi - lo) * s \<Longrightarrow> layout (\<lambda>_. s) lo hi ! r = (lo + r div s, r mod s)"
proof -
  show len: "length (layout (\<lambda>_. s) lo hi) = (hi - lo) * s" for lo
    by (simp add: layout_def length_concat sum_list_triv comp_def)
  show "r < (hi - lo) * s \<Longrightarrow> layout (\<lambda>_. s) lo hi ! r = (lo + r div s, r mod s)"
  proof (induction "hi - lo" arbitrary: lo r)
    case (Suc n)
    then have lt: "lo < hi" and s: "0 < s" by (cases s; simp)+
    show ?case
    proof (cases "r < s")
      case True
      then show ?thesis by (simp add: layout_step[OF lt] nth_append)
    next
      case False
      then have q: "r div s = Suc ((r - s) div s)" "r mod s = (r - s) mod s" using s by (simp_all add: le_div_geq le_mod_geq)
      have "hi - lo = Suc (hi - Suc lo)" using lt by simp
      then have "r - s < (hi - Suc lo) * s" "n = hi - Suc lo" using Suc.prems Suc.hyps(2) False by simp_all
      from Suc.hyps(1)[OF this(2) this(1)] show ?thesis using False q by (simp add: layout_step[OF lt] nth_append)
    qed
  qed simp
qed

definition runs_ok :: "(nat \<times> nat) list \<Rightarrow> bool" where
  "runs_ok es \<longleftrightarrow> sorted_wrt (\<lambda>a b. fst a < fst b) es \<and> (\<forall>e \<in> set es. 0 < snd e)"

lemma spc_of_later: "f2 \<le> c \<Longrightarrow> spc_of def ((f, s) # (f2, s2) # es) c = spc_of def ((f2, s2) # es) c"
  by simp

lemma locate_sample_layout:
  assumes "runs_ok ((f, s) # es)" and "hi = chunks + 1" and "hi \<le> 0xFFFFFFFF" and "r < length (layout (spc_of def ((f, s) # es)) f hi)"
  shows "locate_sample ((f, s) # es) chunks r = Some (layout (spc_of def ((f, s) # es)) f hi ! r)"
  using assms
proof (induction es arbitrary: f s r)
  case Nil
  have eq: "layout (spc_of def [(f, s)]) f hi = layout (\<lambda>_. s) f hi" using assms(3) by (intro layout_cong) simp
  have r: "r < (hi - f) * s" using Nil.prems(4) unfolding eq layout_const(1) .
  then have "f < hi" "0 < s" by (cases "hi - f"; cases s; simp)+
  then show ?case unfolding eq layout_const(2)[OF r] using r assms(2) by (simp add: Let_def)
next
  case (Cons e2 es)
  obtain f2 s2 where e2: "e2 = (f2, s2)" by (cases e2)
  let ?spc = "spc_of def ((f, s) # (f2, s2) # es)" and ?spc2 = "spc_of def ((f2, s2) # es)"
  have f: "f < f2" "0 < s" and r2: "runs_ok ((f2, s2) # es)" using Cons.prems(1) by (auto simp: runs_ok_def e2)
  have here: "layout ?spc f (min f2 hi) = layout (\<lambda>_. s) f (min f2 hi)" by (rule layout_cong) auto
  have len: "length (layout ?spc f (min f2 hi)) = (min f2 hi - f) * s" unfolding here by (rule layout_const)
  show ?case
  proof (cases "r < (min f2 hi - f) * s")
    case True
    then have "r < (f2 - f) * s" by (rule less_le_trans) (intro mult_le_mono1 diff_le_mono, simp)
    moreover have "layout ?spc f hi ! r = layout ?spc f (min f2 hi) ! r"
      using True len f(1) layout_split[of f "min f2 hi" hi ?spc] by (cases "f \<le> hi") (auto simp: nth_append)
    then have v: "layout ?spc f hi ! r = (f + r div s, r mod s)" unfolding here using layout_const(2)[OF True] by simp
    ultimately show ?thesis unfolding e2 v using f by (simp add: Let_def)
  next
    case False
    have le: "f2 \<le> hi"
    proof (rule ccontr)
      assume "\<not> f2 \<le> hi"
      then show False using Cons.prems(4) len False unfolding e2 by (simp add: min_def del: spc_of.simps)
    qed
    have later: "layout ?spc f2 hi = layout ?spc2 f2 hi" by (rule layout_cong) (simp add: spc_of_later)
    have split: "layout ?spc f hi = layout ?spc f f2 @ layout ?spc2 f2 hi" using layout_split[of f f2 hi ?spc] f(1) le later by (simp del: spc_of.simps)
    have len2: "length (layout ?spc f f2) = (f2 - f) * s" "\<not> r < (f2 - f) * s" using len False le by (simp_all add: min_def del: spc_of.simps)
    have "r - (f2 - f) * s < length (layout ?spc2 f2 hi)" using Cons.prems(4) len2 unfolding e2 split by (simp del: spc_of.simps)
    from Cons.IH[OF r2 assms(2,3) this] have "locate_sample ((f2, s2) # es) chunks (r - (f2 - f) * s) = Some (layout ?spc2 f2 hi ! (r - (f2 - f) * s))" .
    then show ?thesis using f len2 unfolding e2 split by (simp add: Let_def nth_append del: spc_of.simps)
  qed
qed

section \<open>The expanded table\<close>

text \<open>\<open>grown acc acc' m\<close>: \<open>m\<close> offsets were appended.\<close>

definition grown :: "'a list \<Rightarrow> 'a list \<Rightarrow> nat \<Rightarrow> bool" where
  "grown acc acc' m \<longleftrightarrow> length acc' = length acc + m \<and> take (length acc) acc' = acc"

lemma grown_refl: "grown acc acc 0"
  by (simp add: grown_def)

lemma grown_trans: "grown a b m \<Longrightarrow> grown b c n \<Longrightarrow> grown a c (m + n)"
  by (auto simp: grown_def)

lemma grown_nth: "grown a b m \<Longrightarrow> i < length a \<Longrightarrow> b ! i = a ! i"
  by (metis grown_def nth_take)

lemma place_samples_grows:
  assumes "place_samples file d n off acc = Some acc'" and "length acc \<le> sample_count d"
  shows "\<exists>m. grown acc acc' m \<and> m \<le> n \<and> length acc' \<le> sample_count d \<and> (m = n \<or> length acc' = sample_count d) \<and>
     (\<forall>j < m. add_sizes file d (length acc) j off = Some (acc' ! (length acc + j)))"
  using assms
proof (induction n arbitrary: off acc)
  case 0
  then show ?case using grown_refl by (intro exI[of _ 0]) auto
next
  case (Suc n)
  show ?case
  proof (cases "sample_count d \<le> length acc")
    case True
    then show ?thesis using Suc.prems grown_refl by (intro exI[of _ 0]) auto
  next
    case False
    then obtain sz where sz: "sample_size_at file d (length acc) = Some sz"
        and p: "place_samples file d n (off + ucast sz) (acc @ [off]) = Some acc'"
      using Suc.prems(1) by (auto split: Option.bind_splits if_splits)
    obtain m where m: "grown (acc @ [off]) acc' m" "m \<le> n" "length acc' \<le> sample_count d" "m = n \<or> length acc' = sample_count d"
        "\<forall>j < m. add_sizes file d (length (acc @ [off])) j (off + ucast sz) = Some (acc' ! (length (acc @ [off]) + j))"
      using Suc.IH[OF p] False by auto
    have g: "grown acc acc' (Suc m)" using grown_trans[of acc "acc @ [off]" 1 acc' m] m(1) by (simp add: grown_def)
    have first: "acc' ! length acc = off" using grown_nth[OF m(1), of "length acc"] by simp
    have "add_sizes file d (length acc) j off = Some (acc' ! (length acc + j))" if "j < Suc m" for j
      using that m(5) sz first by (cases j) auto
    then show ?thesis using g m(2-4) by (intro exI[of _ "Suc m"]) auto
  qed
qed

lemma place_chunks_layout:
  assumes "place_chunks file d c offs acc = Some acc'" and "length acc \<le> sample_count d"
    and spc: "spc = spc_of (snd (last (stsc d))) (stsc d)"
  shows "\<exists>m. grown acc acc' m \<and> m \<le> length (layout spc c (c + length offs)) \<and>
     (\<forall>j < m. case layout spc c (c + length offs) ! j of (ch, k) \<Rightarrow>
        c \<le> ch \<and> ch < c + length offs \<and> k \<le> j \<and> add_sizes file d (length acc + j - k) k (offs ! (ch - c)) = Some (acc' ! (length acc + j)))"
  using assms(1,2)
proof (induction offs arbitrary: c acc)
  case Nil
  then show ?case using grown_refl by (intro exI[of _ 0]) auto
next
  case (Cons off offs)
  show ?case
  proof (cases "sample_count d \<le> length acc")
    case True
    then show ?thesis using Cons.prems grown_refl by (intro exI[of _ 0]) auto
  next
    case False
    then obtain acc1 where p1: "place_samples file d (spc c) off acc = Some acc1" and p2: "place_chunks file d (Suc c) offs acc1 = Some acc'"
      using Cons.prems(1) spc by (auto split: Option.bind_splits)
    from place_samples_grows[OF p1] obtain m1 where m1: "grown acc acc1 m1" "m1 \<le> spc c" "length acc1 \<le> sample_count d"
        "m1 = spc c \<or> length acc1 = sample_count d" "\<forall>j < m1. add_sizes file d (length acc) j off = Some (acc1 ! (length acc + j))"
      using Cons.prems(2) by auto
    let ?L = "layout spc (Suc c) (Suc c + length offs)"
    have L: "layout spc c (c + length (off # offs)) = map (Pair c) [0..<spc c] @ ?L" by (subst layout_step) simp_all
    from Cons.IH[OF p2 m1(3)] obtain m2 where m2: "grown acc1 acc' m2" "m2 \<le> length ?L"
        "\<forall>j < m2. case ?L ! j of (ch, k) \<Rightarrow> Suc c \<le> ch \<and> ch < Suc c + length offs \<and> k \<le> j \<and>
           add_sizes file d (length acc1 + j - k) k (offs ! (ch - Suc c)) = Some (acc' ! (length acc1 + j))" by auto
    have full: "m1 = spc c \<or> m2 = 0"
    proof (cases "m1 = spc c")
      case False
      then have "length acc1 = sample_count d" using m1(4) by simp
      then have "acc' = acc1" using p2 by (cases offs) auto
      then show ?thesis using m2(1) by (simp add: grown_def)
    qed simp
    have la: "length acc1 = length acc + m1" using m1(1) by (simp add: grown_def)
    have "case (map (Pair c) [0..<spc c] @ ?L) ! j of (ch, k) \<Rightarrow> c \<le> ch \<and> ch < c + length (off # offs) \<and> k \<le> j \<and>
        add_sizes file d (length acc + j - k) k ((off # offs) ! (ch - c)) = Some (acc' ! (length acc + j))" if "j < m1 + m2" for j
    proof (cases "j < m1")
      case True
      then have "(map (Pair c) [0..<spc c] @ ?L) ! j = (c, j)" using m1(2) by (simp add: nth_append)
      moreover have "acc' ! (length acc + j) = acc1 ! (length acc + j)" using True la by (intro grown_nth[OF m2(1)]) simp
      ultimately show ?thesis using True m1(5) by simp
    next
      case False
      then have s: "m1 = spc c" "j - m1 < m2" using that full by auto
      then have "(map (Pair c) [0..<spc c] @ ?L) ! j = ?L ! (j - m1)" using False by (simp add: nth_append)
      moreover have "length acc + j - k = length acc1 + (j - m1) - k" "length acc1 + (j - m1) = length acc + j" for k using la False by simp_all
      ultimately show ?thesis using m2(3)[rule_format, OF s(2)] by (auto simp: nth_Cons' split: prod.splits)
    qed
    moreover have "grown acc acc' (m1 + m2)" using grown_trans[OF m1(1) m2(1)] .
    moreover have "m1 + m2 \<le> length (map (Pair c) [0..<spc c] @ ?L)" using m1(2) m2(2) by simp
    ultimately show ?thesis unfolding L by blast
  qed
qed

section \<open>The parsed tables\<close>

lemma read_box_header_size: "read_box_header file pos = Some b \<Longrightarrow> box_size b \<le> LONG_MAX"
  by (auto simp: read_box_header_def Let_def split: option.splits prod.splits if_splits)

lemma find_child_loop_size: "find_child_loop bs cs stop ty pos = Some b \<Longrightarrow> box_size b \<le> LONG_MAX"
proof (induction bs cs stop ty pos rule: find_child_loop.induct)
  case (1 bs cs stop ty pos)
  note step = find_child_loop.simps[of bs cs stop ty pos]
  show ?case
  proof (cases "read_box_header bs pos")
    case (Some box)
    then show ?thesis using 1 step read_box_header_size[OF Some] by (auto split: if_splits)
  qed (use "1.prems" step in \<open>simp split: if_splits\<close>)
qed

lemma find_in_size: "find_in file b ty = Some b' \<Longrightarrow> box_size b' \<le> LONG_MAX"
  by (auto simp: find_in_def find_child_box_def split: if_splits dest: find_child_loop_size)

lemma read_stsc_runs:
  "read_stsc file pos before n = Some es \<Longrightarrow>
     length es = n \<and> runs_ok es \<and> (\<forall>e \<in> set es. case before of None \<Rightarrow> True | Some f \<Rightarrow> f < fst e)"
proof (induction n arbitrary: pos before es)
  case (Suc n)
  then obtain buf es' where b: "es = (unat (be32 buf 0), unat (be32 buf 4)) # es'" "unat (be32 buf 4) \<noteq> 0"
      "case before of None \<Rightarrow> True | Some f \<Rightarrow> f < unat (be32 buf 0)" "read_stsc file (pos + 12) (Some (unat (be32 buf 0))) n = Some es'"
    by (auto simp: Let_def split: Option.bind_splits if_splits option.splits)
  from Suc.IH[OF b(4)] b(1-3) show ?case by (auto simp: runs_ok_def split: option.splits)
qed (simp add: runs_ok_def)

lemma read_chunk_offsets_nth:
  "read_chunk_offsets file is64 fs pos n = Some xs \<Longrightarrow>
     length xs = n \<and> (\<forall>c < n. read_offset file is64 (pos + c * stride is64) = Some (xs ! c))"
proof (induction n arbitrary: pos xs)
  case (Suc n)
  obtain x ys where x: "xs = x # ys" "read_offset file is64 pos = Some x" "read_chunk_offsets file is64 fs (pos + stride is64) n = Some ys"
    using Suc.prems by (auto split: Option.bind_splits if_splits)
  have "read_offset file is64 (pos + c * stride is64) = Some (xs ! c)" if "c < Suc n" for c
    using that Suc.IH[OF x(3)] x(1,2) by (cases c) (simp_all add: add.assoc)
  then show ?case using Suc.IH[OF x(3)] x(1) by simp
qed simp

lemma read_chunk_count_bound:
  assumes "read_chunk_count file d stco is64 = Some chunks" and "box_size stco \<le> LONG_MAX"
  shows "chunks < 0xFFFFFFFF"
proof -
  have "box_payload_has stco 8 (chunks * stride is64)"
    using assms(1) by (auto simp: read_chunk_count_def Let_def split: Option.bind_splits if_splits)
  then have "chunks * stride is64 \<le> LONG_MAX" using assms(2) unfolding box_payload_has_def payload_def by linarith
  then show ?thesis by (auto simp: stride_def LONG_MAX_def split: if_splits)
qed

lemma read_runs_ok: "read_runs grant file b = Some es \<Longrightarrow> runs_ok es \<and> es \<noteq> []"
  using read_stsc_runs by (fastforce simp: read_runs_def Let_def split: Option.bind_splits if_splits)

lemma expand_offsets_facts:
  assumes "expand_offsets grant file d = Some d'"
  obtains offs acc where "place_chunks file d 1 offs [] = Some acc" "d' = d\<lparr>sample_offsets := Some acc\<rparr>" "length acc = sample_count d"
    "length offs = chunk_count d" "\<forall>c < chunk_count d. chunk_offset_at file d c = Some (offs ! c)"
proof -
  obtain offs acc where o: "read_chunk_offsets file (stco_is64 d) (file_size d) (stco_table_offset d) (chunk_count d) = Some offs"
      "place_chunks file d 1 offs [] = Some acc" "length acc = sample_count d" "d' = d\<lparr>sample_offsets := Some acc\<rparr>"
    using assms by (auto simp: expand_offsets_def split: Option.bind_splits if_splits)
  show ?thesis using that[OF o(2,4,3)] read_chunk_offsets_nth[OF o(1)] by (simp add: chunk_offset_at_def)
qed

lemma sample_size_at_frame [simp]:
  "sample_size_at file (d\<lparr>sample_offsets := x\<rparr>) i = sample_size_at file d i"
  "sample_size_at file (d\<lparr>cursor_index := n\<rparr>) i = sample_size_at file d i"
  "sample_size_at file (d\<lparr>cursor_offset := off\<rparr>) i = sample_size_at file d i"
  by (simp_all add: sample_size_at_def split: option.split)

lemma add_sizes_frame [simp]:
  "add_sizes file (d\<lparr>sample_offsets := x\<rparr>) i n off = add_sizes file d i n off"
  "add_sizes file (d\<lparr>cursor_index := c\<rparr>) i n off = add_sizes file d i n off"
  "add_sizes file (d\<lparr>cursor_offset := y\<rparr>) i n off = add_sizes file d i n off"
  by (induction n arbitrary: i off) simp_all

lemma chunk_offset_at_frame [simp]:
  "chunk_offset_at file (d\<lparr>sample_offsets := x\<rparr>) i = chunk_offset_at file d i"
  "chunk_offset_at file (d\<lparr>cursor_index := n\<rparr>) i = chunk_offset_at file d i"
  "chunk_offset_at file (d\<lparr>cursor_offset := off\<rparr>) i = chunk_offset_at file d i"
  by (simp_all add: chunk_offset_at_def)

lemma parse_sample_offsets_expanded:
  assumes "parse_sample_offsets grant file d0 stbl = Some d" and "sample_offsets d0 = None" and "sample_offsets d = Some acc"
  obtains offs dm where "place_chunks file dm 1 offs [] = Some acc" "d = dm\<lparr>sample_offsets := Some acc\<rparr>" "length acc = sample_count d"
    "length offs = chunk_count d" "chunk_count d < 0xFFFFFFFF" "runs_ok (stsc d)" "stsc d \<noteq> []"
    "\<forall>c < chunk_count d. chunk_offset_at file d c = Some (offs ! c)"
proof -
  obtain stco is64 stsc_b chunks es where t: "chunk_table file stbl = Some (stco, is64)" "read_chunk_count file d0 stco is64 = Some chunks"
      "read_runs grant file stsc_b = Some es"
      and e0: "expand_offsets grant file (d0\<lparr>stco_is64 := is64, chunk_count := chunks, stco_table_offset := data_start stco + 8, stsc := es\<rparr>) = Some d"
    using assms by (auto simp: parse_sample_offsets_def Let_def split: Option.bind_splits if_splits)
  define dm where "dm = d0\<lparr>stco_is64 := is64, chunk_count := chunks, stco_table_offset := data_start stco + 8, stsc := es\<rparr>"
  have dm: "chunk_count dm = chunks" "stsc dm = es" and e: "expand_offsets grant file dm = Some d" using e0 by (simp_all add: dm_def)
  have "box_size stco \<le> LONG_MAX" using t(1) find_in_size by (auto simp: chunk_table_def split: option.splits)
  then have n: "chunks < 0xFFFFFFFF" using read_chunk_count_bound[OF t(2)] by blast
  from expand_offsets_facts[OF e] obtain offs acc' where o: "place_chunks file dm 1 offs [] = Some acc'" "d = dm\<lparr>sample_offsets := Some acc'\<rparr>"
      "length acc' = sample_count dm" "length offs = chunk_count dm" "\<forall>c < chunk_count dm. chunk_offset_at file dm c = Some (offs ! c)" by blast
  then have "acc' = acc" using assms(3) by simp
  then show ?thesis using that[of dm offs] o dm n read_runs_ok[OF t(3)] by simp
qed

section \<open>Properties of the sample tables\<close>


text \<open>
  in compact mode a sequential read does not consult the chunk table: once sample \<open>i\<close> has been
  read, sample \<open>i + 1\<close> is taken from the end of sample \<open>i\<close>, also where the table puts it at the start
  of another chunk.
\<close>

theorem mp4_sequential_ignores_chunks:
  assumes "sample_offsets d = None" and "i + 1 < sample_count d" and "i + 1 < 2 ^ 32" and "mp4_demux_read_sample file d i n = Some (bytes, d')"
    and "sample_offset_at file d i = Some (off, d1)" and "sample_size_at file d i = Some sz"
  shows "sample_offset_at file d' (i + 1) = Some (off + ucast sz, d')"
proof -
  have "d' = d1\<lparr>cursor_index := i + 1, cursor_offset := off + ucast sz\<rparr>"
    using assms(4-6) by (auto simp: mp4_demux_read_sample_def split: if_splits Option.bind_splits)
  moreover have "sample_offsets d1 = None" "sample_count d1 = sample_count d"
    using assms(5,1) by (auto simp: sample_offset_at_def Let_def split: if_splits Option.bind_splits prod.splits)
  ultimately show ?thesis using assms(2) by (simp add: sample_offset_at_def)
qed

section \<open>The codec configuration\<close>

lemma region_byte_ok: "unat p < length region \<Longrightarrow> \<exists>b. region_byte region p = Some b \<and> b \<in> set region"
  by (auto simp: region_byte_def region_get_def read_at_def take_Suc hd_drop_conv_nth)

lemma low_bits_small: "unat ((ucast (b :: byte) AND 0x7F) :: u32) < 2 ^ 7"
proof -
  have "(ucast b AND 0x7F :: u32) \<le> 0x7F" by (rule word_and_le1)
  then show ?thesis by (simp add: word_le_nat_alt)
qed

lemma desc_length_ok:
  assumes "unat limit \<le> length region" and "length region \<le> 2 ^ 20" and "p \<le> limit" and "unat len < 2 ^ (7 * k)" and "k + n \<le> 4"
  shows "\<exists>len' p'. desc_length region n limit p len = Some (len', p') \<and> p \<le> p' \<and> p' \<le> limit \<and> unat len' < 2 ^ (7 * (k + n))"
  using assms(3-)
proof (induction n arbitrary: p len k)
  case (Suc n)
  show ?case
  proof (cases "p < limit")
    case True
    then have lt: "unat p < length region" using assms(1) by (simp add: word_less_nat_alt)
    then obtain b where b: "region_byte region p = Some b" using region_byte_ok by blast
    let ?len = "push_bit 7 len OR (ucast b AND 0x7F)"
    have p1: "unat (p + 1) = unat p + 1" using lt assms(2) by (subst unat_add_small) simp_all
    then have p2: "p \<le> p + 1" "p + 1 \<le> limit" using True by (simp_all add: word_le_nat_alt word_less_nat_alt)
    have kk: "(2 :: nat) ^ (7 * k) * 128 \<le> 2 ^ 28"
      using power_increasing[of "7 * k + 7" 28 "2 :: nat"] Suc.prems(3) by (simp add: power_add)
    have "unat len * 2 ^ 7 < 2 ^ LENGTH(32)" using Suc.prems(2) kk by simp
    from unat_push_or[OF this low_bits_small] have "unat ?len = unat len * 2 ^ 7 + unat ((ucast b AND 0x7F) :: u32)" .
    then have l: "unat ?len < 2 ^ (7 * (k + 1))" using Suc.prems(2) low_bits_small[of b] by (simp add: power_add)
    show ?thesis
    proof (cases "b AND 0x80 = 0")
      case True
      have "(2 :: nat) ^ (7 * (k + 1)) \<le> 2 ^ (7 * (k + Suc n))" by (rule power_increasing) simp_all
      then have "unat ?len < 2 ^ (7 * (k + Suc n))" using l by (rule less_le_trans[rotated])
      then show ?thesis using \<open>p < limit\<close> b True p2 by (simp add: Let_def)
    next
      case False
      obtain len' p' where r: "desc_length region n limit (p + 1) ?len = Some (len', p')" "p + 1 \<le> p'" "p' \<le> limit" "unat len' < 2 ^ (7 * (k + 1 + n))"
        using Suc.IH[OF p2(2) l] Suc.prems(3) by auto
      have "desc_length region (Suc n) limit p len = Some (len', p')" using \<open>p < limit\<close> b False r(1) by (simp add: Let_def)
      moreover have "p \<le> p'" using p2(1) r(2) by (rule order_trans)
      ultimately show ?thesis using r(3,4) by simp
    qed
  next
    case False
    have "(2 :: nat) ^ (7 * k) \<le> 2 ^ (7 * (k + Suc n))" by (rule power_increasing) simp_all
    then have "unat len < 2 ^ (7 * (k + Suc n))" using Suc.prems(2) by (rule less_le_trans[rotated])
    then show ?thesis using False Suc.prems(1) by simp
  qed
qed simp

lemma esds_tags_returns:
  assumes "unat limit \<le> length region" and "length region \<le> 2 ^ 20"
  shows "unat p < 2 ^ 30 \<Longrightarrow> \<exists>r. esds_tags grant region limit p = Some r"
proof (induction "2 ^ 30 - unat p" arbitrary: p rule: less_induct)
  case less
  show ?case
  proof (cases "p + 2 \<le> limit")
    case True
    have p2: "unat (p + 2) = unat p + 2" "unat (p + 1) = unat p + 1" using less.prems by (subst unat_add_small; simp)+
    then have lim: "unat p + 2 \<le> unat limit" using True by (simp add: word_le_nat_alt)
    obtain tag where tag: "region_byte region p = Some tag" using region_byte_ok[of p region] lim assms(1) by auto
    have "p + 1 \<le> limit" using lim p2 by (simp add: word_le_nat_alt)
    then obtain len p' where d: "desc_length region 4 limit (p + 1) 0 = Some (len, p')" "p + 1 \<le> p'" "p' \<le> limit" "unat len < 2 ^ 28"
      using desc_length_ok[OF assms, of "p + 1" 0 0 4] by auto
    have b: "unat p < unat p'" "unat p' \<le> 2 ^ 20" using d(2,3) p2 assms by (simp_all add: word_le_nat_alt)
    have next_ok: "\<exists>r. esds_tags grant region limit (p' + x) = Some r" if "unat x < 2 ^ 28" for x
    proof (rule less.hyps)
      have "unat (p' + x) = unat p' + unat x" using b(2) that by (intro unat_add_small) simp
      then show "2 ^ 30 - unat (p' + x) < 2 ^ 30 - unat p" "unat (p' + x) < 2 ^ 30" using b that less.prems by simp_all
    qed
    have get: "\<exists>bytes. region_get region p' (unat len) = Some bytes" if "\<not> of_nat (length region) < p' + len"
    proof -
      have "unat (p' + len) = unat p' + unat len" using b(2) d(4) by (intro unat_add_small) simp
      moreover have "unat (of_nat (length region) :: u32) = length region" using assms(2) by (simp add: unat_of_nat)
      ultimately show ?thesis using that by (auto simp: word_less_nat_alt region_get_def read_at_def)
    qed
    show ?thesis
      using True tag d(1) next_ok[of 3] next_ok[of 13] next_ok[OF d(4)] get by (subst esds_tags.simps) (auto simp: Let_def)
  next
    case False
    then show ?thesis by (subst esds_tags.simps) simp
  qed
qed

text \<open>Without a byte \<open>0xFF\<close> no box size of the region wraps around.\<close>

lemma be32_small: "length hdr = 8 \<Longrightarrow> hdr ! 0 \<noteq> 0xFF \<Longrightarrow> unat (be32 hdr 0) < 255 * 16777216"
proof -
  assume h: "hdr ! 0 \<noteq> 0xFF"
  have "unat (hdr ! 0) \<noteq> 255" using h by (simp add: word_unat_eq_iff)
  then have "unat (hdr ! 0) < 255" using unat_byte_less[of "hdr ! 0"] by simp
  then show ?thesis using unat_byte_less[of "hdr ! 1"] unat_byte_less[of "hdr ! 2"] unat_byte_less[of "hdr ! 3"]
    by (simp add: be32_def audio_read_u32be_val be_val_def le_val_def)
qed

lemma esds_boxes_returns:
  assumes "length region \<le> 2 ^ 20" and "0xFF \<notin> set region"
  shows "unat pos \<le> length region \<Longrightarrow> \<exists>r. esds_boxes grant region pos = Some r"
proof (induction "length region - unat pos" arbitrary: pos rule: less_induct)
  case less
  have rs: "unat (of_nat (length region) :: u32) = length region" using assms(1) by (simp add: unat_of_nat)
  show ?case
  proof (cases "pos + 8 \<le> of_nat (length region)")
    case True
    have "unat (pos + 8) = unat pos + 8" using less.prems assms(1) by (subst unat_add_small) simp_all
    then have lim: "unat pos + 8 \<le> length region" using True rs by (simp add: word_le_nat_alt)
    define hdr where "hdr = take 8 (drop (unat pos) region)"
    have hdr: "region_get region pos 8 = Some hdr" "length hdr = 8" using lim by (simp_all add: region_get_def read_at_def hdr_def)
    have "hdr ! 0 \<in> set region" using lim by (simp add: hdr_def)
    then have "hdr ! 0 \<noteq> 0xFF" using assms(2) by metis
    then have sm: "unat (be32 hdr 0) < 255 * 16777216" using be32_small[OF hdr(2)] by blast
    let ?sz = "be32 hdr 0"
    have np: "unat (pos + ?sz) = unat pos + unat ?sz" using sm less.prems assms(1) by (intro unat_add_small) simp
    show ?thesis
    proof (cases "?sz < 8 \<or> of_nat (length region) < pos + ?sz")
      case True
      then show ?thesis using \<open>pos + 8 \<le> of_nat (length region)\<close> hdr by (subst esds_boxes.simps) (auto simp: Let_def)
    next
      case False
      then have s8: "8 \<le> unat ?sz" and fit: "unat pos + unat ?sz \<le> length region"
        using np rs by (simp_all add: word_less_nat_alt word_le_nat_alt not_less)
      have rec: "\<exists>r. esds_boxes grant region (pos + ?sz) = Some r"
        by (rule less.hyps) (use np s8 fit in simp_all)
      have "unat (pos + 8 + 4) < 2 ^ 30"
        using less.prems assms(1) \<open>unat (pos + 8) = unat pos + 8\<close> by (subst unat_add_small) simp_all
      then have tags: "\<exists>r. esds_tags grant region (pos + ?sz) (pos + 8 + 4) = Some r"
        using esds_tags_returns[OF _ assms(1), of "pos + ?sz" "pos + 8 + 4"] np fit by simp
      have "\<exists>r. (if take 4 (drop 4 hdr) = fourcc ''esds'' then esds_tags grant region (pos + ?sz) (pos + 8 + 4) else Some No_config) = Some r"
        using tags by (simp only: split: if_split) blast
      then obtain r where "(if take 4 (drop 4 hdr) = fourcc ''esds'' then esds_tags grant region (pos + ?sz) (pos + 8 + 4) else Some No_config) = Some r" by blast
      then show ?thesis using False \<open>pos + 8 \<le> of_nat (length region)\<close> hdr(1) rec
        by (subst esds_boxes.simps) (cases r; simp add: Let_def)
    qed
  next
    case False
    then show ?thesis by (subst esds_boxes.simps) simp
  qed
qed

lemma parse_stsd_returns:
  assumes "0xFF \<notin> set file"
  shows "\<exists>r. parse_stsd grant file d stsd = Some r"
proof -
  have "\<exists>r. esds_boxes grant region 0 = Some r" if "read_at file pos n = Some region" "n \<le> 2 ^ 20" for pos n region
  proof (rule esds_boxes_returns)
    show "length region \<le> 2 ^ 20" "0xFF \<notin> set region"
      using that assms by (auto simp: read_at_def split: if_splits dest: in_set_takeD in_set_dropD)
  qed simp
  then show ?thesis
    by (force simp: parse_stsd_def Let_def MP4_MAX_STSD_ENTRY_BYTES_def split: option.splits)
qed

section \<open>Properties of opening\<close>


text \<open>
  A region of two boxes, the second with a size that leads back to the first, makes the loop over
  the boxes run for ever.
\<close>

definition looping_region :: "byte list" where
  "looping_region = [0, 0, 0, 8] @ replicate 4 0 @ [0xFF, 0xFF, 0xFF, 0xF8] @ replicate 4 0"

theorem mp4_esds_loops: "esds_boxes grant looping_region 0 = None"
proof -
  have hdr: "region_get looping_region 0 8 = Some ([0, 0, 0, 8] @ replicate 4 0)"
      "region_get looping_region 8 8 = Some ([0xFF, 0xFF, 0xFF, 0xF8] @ replicate 4 0)"
    by code_simp+
  have sz: "be32 ([0, 0, 0, 8] @ replicate 4 0) 0 = 8" "be32 ([0xFF, 0xFF, 0xFF, 0xF8] @ replicate 4 0) 0 = 0xFFFFFFF8" by code_simp+
  have no: "take 4 (drop 4 ([0, 0, 0, 8] @ replicate 4 0)) \<noteq> fourcc ''esds''"
      "take 4 (drop 4 ([0xFF, 0xFF, 0xFF, 0xF8] @ replicate 4 0)) \<noteq> fourcc ''esds''" by code_simp+
  have len: "length looping_region = 16" and zero: "(4294967296 :: u32) = 0" by code_simp+
  have "region = looping_region \<longrightarrow> pos \<noteq> 0 \<and> pos \<noteq> 8" if "esds_boxes grant region pos = Some y" for grant region pos y
    using that
  proof (rule esds_boxes.raw_induct[rotated])
    fix loop :: "(nat \<Rightarrow> bool) \<Rightarrow> byte list \<Rightarrow> u32 \<Rightarrow> byte list option option" and grant region pos y
    assume IH: "\<And>grant region pos y. loop grant region pos = Some y \<Longrightarrow> region = looping_region \<longrightarrow> pos \<noteq> 0 \<and> pos \<noteq> 8"
      and step: "(if \<not> pos + 8 \<le> of_nat (length region) then Some None
        else do {
          hdr \<leftarrow> region_get region pos 8;
          let sz = be32 hdr 0;
          if sz < 8 \<or> of_nat (length region) < pos + sz then Some None
          else do {
            r \<leftarrow> (if take 4 (drop 4 hdr) = fourcc ''esds'' then esds_tags grant region (pos + sz) (pos + 8 + 4) else Some No_config);
            case r of Config bytes \<Rightarrow> Some (Some bytes) | No_memory \<Rightarrow> Some None | No_config \<Rightarrow> loop grant region (pos + sz) } }) = Some y"
    show "region = looping_region \<longrightarrow> pos \<noteq> 0 \<and> pos \<noteq> 8"
    proof (intro impI notI conjI)
      assume r: "region = looping_region"
      { assume "pos = 0"
        then have "loop grant region 8 = Some y" using step r hdr sz no len by (simp add: Let_def)
        then show False using IH r by blast }
      { assume "pos = 8"
        then have "loop grant region 4294967296 = Some y" using step r hdr sz no len by (simp add: Let_def)
        then have "loop grant region 0 = Some y" unfolding zero .
        then show False using IH r by blast }
    qed
  qed
  then show ?thesis by (cases "esds_boxes grant looping_region 0") auto
qed

section \<open>A small table\<close>

text \<open>Two chunks, the second one in front of the first, with three samples of 3, 4 and 5 bytes.\<close>

definition table_file :: "byte list" where
  "table_file = [0, 0, 0, 0, 0, 0, 0, 0,
     0, 0, 0, 24, 115, 116, 99, 111, 0, 0, 0, 0, 0, 0, 0, 2, 0, 0, 0, 64, 0, 0, 0, 32,
     0, 0, 0, 28, 115, 116, 115, 99, 0, 0, 0, 0, 0, 0, 0, 1, 0, 0, 0, 1, 0, 0, 0, 2, 0, 0, 0, 1] @ replicate 40 0"

definition table_demux :: mp4_demux where
  "table_demux = (new_demux table_file)\<lparr>sample_count := 3, sample_sizes := Some [3, 4, 5]\<rparr>"

definition table_stbl :: box_header_t where
  "table_stbl = \<lparr>box_type = fourcc ''stbl'', box_size = 60, header_size = 8, data_start = 8\<rparr>"

definition table_parsed :: mp4_demux where
  "table_parsed = table_demux\<lparr>stco_is64 := False, chunk_count := 2, stco_table_offset := 24, stsc := [(1, 2)], sample_offsets := Some [64, 67, 32]\<rparr>"

lemma table_names: "fourcc ''stco'' = [115, 116, 99, 111]" "fourcc ''stsc'' = [115, 116, 115, 99]"
  by code_simp+

lemma be32_byte: "be32 (0 # 0 # 0 # b # r) 0 = ucast b" "be32 (w # x # y # z # 0 # 0 # 0 # b # r) 4 = ucast b"
  by (simp_all add: be32_def audio_read_u32be_def)

lemma table_boxes:
  "find_in table_file table_stbl ''stco'' = Some \<lparr>box_type = [115, 116, 99, 111], box_size = 24, header_size = 8, data_start = 16\<rparr>"
  "find_in table_file table_stbl ''stsc'' = Some \<lparr>box_type = [115, 116, 115, 99], box_size = 28, header_size = 8, data_start = 40\<rparr>"
proof -
  have h: "read_box_header table_file 8 = Some \<lparr>box_type = [115, 116, 99, 111], box_size = 24, header_size = 8, data_start = 16\<rparr>"
      "read_box_header table_file 32 = Some \<lparr>box_type = [115, 116, 115, 99], box_size = 28, header_size = 8, data_start = 40\<rparr>"
    by (simp_all add: read_box_header_def read_at_def table_file_def be32_byte LONG_MAX_def Let_def)
  show "find_in table_file table_stbl ''stco'' = Some \<lparr>box_type = [115, 116, 99, 111], box_size = 24, header_size = 8, data_start = 16\<rparr>"
    by (simp add: find_in_def find_child_box_def find_child_loop.simps table_names h table_stbl_def payload_def box_start_def LONG_MAX_def)
  show "find_in table_file table_stbl ''stsc'' = Some \<lparr>box_type = [115, 116, 115, 99], box_size = 28, header_size = 8, data_start = 40\<rparr>"
    by (simp add: find_in_def find_child_box_def find_child_loop.simps table_names h table_stbl_def payload_def box_start_def LONG_MAX_def)
qed

lemma table_parse: "parse_sample_offsets (\<lambda>k. True) table_file table_demux table_stbl = Some table_parsed"
proof -
  let ?stco = "\<lparr>box_type = [115, 116, 99, 111], box_size = 24, header_size = 8, data_start = 16\<rparr>"
  let ?stsc = "\<lparr>box_type = [115, 116, 115, 99], box_size = 28, header_size = 8, data_start = 40\<rparr>"
  have c: "read_chunk_count table_file table_demux ?stco False = Some 2"
    by (simp add: read_chunk_count_def read_at_def table_file_def be32_byte table_demux_def box_payload_has_def payload_def stride_def)
  have r: "read_runs (\<lambda>k. True) table_file ?stsc = Some [(1, 2)]"
    by (simp add: read_runs_def read_at_def table_file_def be32_byte box_payload_has_def payload_def MP4_MAX_STSC_ENTRIES_def)
  let ?d = "table_demux\<lparr>stco_is64 := False, chunk_count := 2, stco_table_offset := 24, stsc := [(1, 2)]\<rparr>"
  have rd: "read_at table_file 24 4 = Some [0, 0, 0, 64]" "read_at table_file 28 4 = Some [0, 0, 0, 32]"
    by (simp_all add: read_at_def table_file_def)
  have fs: "file_size table_demux = 100" "sample_count table_demux = 3" by (simp_all add: table_demux_def new_demux_def table_file_def)
  have sizes: "sample_size_at table_file ?d 0 = Some 3" "sample_size_at table_file ?d 1 = Some 4" "sample_size_at table_file ?d (Suc (Suc 0)) = Some 5"
    by (simp_all add: sample_size_at_def table_demux_def)
  have two: "(2 :: nat) = Suc (Suc 0)" by simp
  have o: "read_chunk_offsets table_file False (file_size ?d) 24 2 = Some [64, 32]"
    unfolding two using rd fs by (simp add: read_offset_def be32_byte stride_def)
  have p: "place_chunks table_file ?d 1 [64, 32] [] = Some [64, 67, 32]"
  proof -
    have "place_samples table_file ?d (Suc (Suc 0)) 64 [] = Some [64, 67]" "place_samples table_file ?d (Suc (Suc 0)) 32 [64, 67] = Some [64, 67, 32]"
      using fs sizes by simp_all
    moreover have "spc_of 2 [(1, 2)] c = Suc (Suc 0)" if "c = 1 \<or> c = 2" for c using that by auto
    ultimately show ?thesis using fs by (simp del: place_samples.simps spc_of.simps)
  qed
  have "expand_offsets (\<lambda>k. True) table_file ?d = Some table_parsed"
    using o p by (simp add: expand_offsets_def table_parsed_def) (simp add: table_demux_def)
  then show ?thesis using c r
    by (simp add: parse_sample_offsets_def chunk_table_def table_boxes box_payload_has_def payload_def)
      (simp add: table_demux_def MP4_EXPAND_MAX_SAMPLES_def)
qed

lemma table_parsed_simps: "sample_offsets table_demux = None" "sample_offsets table_parsed = Some [64, 67, 32]" "stsc table_parsed = [(1, 2)]"
    "sample_count table_parsed = 3"
  by (simp_all add: table_parsed_def table_demux_def new_demux_def)


theorem mp4_sequential_ignores_chunks_witness:
  "\<exists>d'. sample_offset_at table_file d' 2 = Some (71, d') \<and>
     mp4_demux_read_sample table_file (table_parsed\<lparr>sample_offsets := None, cursor_index := 0, cursor_offset := 64\<rparr>) 1 100 = Some ([0, 0, 0, 0], d')"
proof -
  let ?d = "table_parsed\<lparr>sample_offsets := None, cursor_index := 0, cursor_offset := 64\<rparr>"
  have s: "sample_size_at table_file ?d 1 = Some 4" "sample_size_at table_file ?d 0 = Some 3"
    by (simp_all add: sample_size_at_def table_parsed_def table_demux_def)
  have o: "sample_offset_at table_file ?d 1 = Some (67, ?d\<lparr>cursor_index := 1, cursor_offset := 67\<rparr>)"
    using s(2) by (simp add: sample_offset_at_def table_parsed_simps)
  have f: "file_size table_parsed = 100" by (simp add: table_parsed_def table_demux_def new_demux_def table_file_def)
  have b: "read_at table_file 67 4 = Some [0, 0, 0, 0]" by (simp add: read_at_def table_file_def) (simp add: numeral_eq_Suc)
  have r: "mp4_demux_read_sample table_file ?d 1 100 = Some ([0, 0, 0, 0], ?d\<lparr>cursor_index := 1 + 1, cursor_offset := 71\<rparr>)"
    using s(1) o f b by (simp add: mp4_demux_read_sample_def LONG_MAX_def)
  have "sample_offset_at table_file (?d\<lparr>cursor_index := 1 + 1, cursor_offset := 71\<rparr>) (1 + 1) = Some (67 + ucast (4 :: u32), ?d\<lparr>cursor_index := 1 + 1, cursor_offset := 71\<rparr>)"
    by (rule mp4_sequential_ignores_chunks[OF _ _ _ r o s(1)]) (simp_all add: table_parsed_simps)
  then show ?thesis using r unfolding one_add_one by (intro exI[of _ "?d\<lparr>cursor_index := 2, cursor_offset := 71\<rparr>"]) simp
qed


end
