(* ===== verification/Tagcache_Sort.thy ===== *)
theory Tagcache_Sort
  imports Prelude
begin

text \<open>
  The external sort of the tag database (\<^verbatim>\<open>src/src/library/tagcache_sort.h\<close>): runs are sorted in
  memory by a stable bottom-up merge sort, then merged in passes of up to sixteen runs with a heap of
  readers, to and fro between the file and a scratch file.

  Every offset and length of the code is a multiple of the record size, so files and buffers are lists of
  records of an arbitrary type; a descriptor names its file, \<open>files fd\<close>.  An access outside of a
  buffer, or to a part of it that nothing was read into, is \<open>None\<close>, as is a loop that does not end.  Where
  the code returns false the result is \<open>Some None\<close>: what the files hold then is not described, because
  the callers discard them.  The outcomes of allocations and transfers are given by the environment.
  Sizes are below the two MiB of the arena and record counts below \<open>2 ^ 63\<close>, far from the limits of their
  types except in \<open>tc_sort_mul_off\<close>, which tests for them.
\<close>

section \<open>Constants and buffers\<close>

definition TC_SORT_BUFFER_BYTES :: nat where "TC_SORT_BUFFER_BYTES = 256 * 1024"
definition TC_SORT_MERGE_BYTES :: nat where "TC_SORT_MERGE_BYTES = 32 * 1024"
definition TC_SORT_OUTPUT_BYTES :: nat where "TC_SORT_OUTPUT_BYTES = 64 * 1024"
definition TC_SORT_LARGE_TOTAL_BYTES :: nat where "TC_SORT_LARGE_TOTAL_BYTES = 2 * 1024 * 1024"
definition TC_SORT_LARGE_MERGE_BYTES :: nat where "TC_SORT_LARGE_MERGE_BYTES = 128 * 1024"
definition TC_SORT_LARGE_OUTPUT_BYTES :: nat where "TC_SORT_LARGE_OUTPUT_BYTES = 256 * 1024"
definition TC_SORT_MAX_FAN_IN :: nat where "TC_SORT_MAX_FAN_IN = 16"
definition INT64_MAX :: int where "INT64_MAX = 9223372036854775807"

definition rec_get :: "'a list \<Rightarrow> nat \<Rightarrow> 'a option" where
  "rec_get xs i = (if i < length xs then Some (xs ! i) else None)"

definition rec_put :: "'a list \<Rightarrow> nat \<Rightarrow> 'a \<Rightarrow> 'a list option" where
  "rec_put xs i v = (if i < length xs then Some (xs[i := v]) else None)"

section \<open>Transfers\<close>

text \<open>One call of \<^verbatim>\<open>pread\<close> or \<^verbatim>\<open>pwrite\<close>: interrupted, failed, or a number of bytes was moved.\<close>

datatype transfer = Interrupted | Failed | Moved nat

partial_function (option) tc_sort_io_read ::
  "(nat \<Rightarrow> transfer) \<Rightarrow> 'b list \<Rightarrow> nat \<Rightarrow> nat \<Rightarrow> nat \<Rightarrow> 'b list \<Rightarrow> 'b list option option" where
  "tc_sort_io_read calls data k len off buf =
     (if len = 0 then Some (Some buf)
      else case calls k of
          Interrupted \<Rightarrow> tc_sort_io_read calls data (k + 1) len off buf
        | Failed \<Rightarrow> Some None
        | Moved m \<Rightarrow>
            (let n = min m (min len (length data - off)) in
             if n = 0 then Some None
             else tc_sort_io_read calls data (k + 1) (len - n) (off + n) (buf @ take n (drop off data))))"

partial_function (option) tc_sort_io_write ::
  "(nat \<Rightarrow> transfer) \<Rightarrow> nat \<Rightarrow> 'b list \<Rightarrow> nat \<Rightarrow> 'b list \<Rightarrow> 'b list option option" where
  "tc_sort_io_write calls k buf off data =
     (if buf = [] then Some (Some data)
      else case calls k of
          Interrupted \<Rightarrow> tc_sort_io_write calls (k + 1) buf off data
        | Failed \<Rightarrow> Some None
        | Moved m \<Rightarrow>
            (let n = min m (length buf) in
             if n = 0 then Some None
             else tc_sort_io_write calls (k + 1) (drop n buf) (off + n)
               (take off data @ take n buf @ drop (off + n) data)))"

text \<open>
  A whole transfer of records; \<open>ok\<close> is the outcome of the computation of its offset and of the calls.
\<close>

definition read_records :: "bool \<Rightarrow> 'a list \<Rightarrow> nat \<Rightarrow> nat \<Rightarrow> 'a list option" where
  "read_records ok data n off = (if ok \<and> off + n \<le> length data then Some (take n (drop off data)) else None)"

definition write_records :: "bool \<Rightarrow> 'a list \<Rightarrow> 'a list \<Rightarrow> nat \<Rightarrow> 'a list option" where
  "write_records ok data buf off =
     (if ok \<and> off \<le> length data then Some (take off data @ buf @ drop (off + length buf) data) else None)"

definition tc_sort_mul_off :: "int \<Rightarrow> int \<Rightarrow> nat \<Rightarrow> int option" where
  "tc_sort_mul_off off_max a b =
     (if a < 0 \<or> b = 0 then None
      else if a = 0 then Some 0
      else if INT64_MAX < int b \<or> INT64_MAX div int b < a then None
      else let n = a * int b in if off_max < n then None else Some n)"

section \<open>Sorting a run in memory\<close>

function merge_heads :: "('a \<Rightarrow> 'a \<Rightarrow> int) \<Rightarrow> 'a list \<Rightarrow> nat \<Rightarrow> nat \<Rightarrow> nat \<Rightarrow> nat \<Rightarrow> nat \<Rightarrow> 'a list \<Rightarrow> (nat \<times> nat \<times> nat \<times> 'a list) option" where
  "merge_heads cmp a i mid j fin k tmp =
     (if i < mid \<and> j < fin then do {
        left \<leftarrow> rec_get a i;
        right \<leftarrow> rec_get a j;
        if cmp left right \<le> 0
        then do { tmp \<leftarrow> rec_put tmp k left; merge_heads cmp a (i + 1) mid j fin (k + 1) tmp }
        else do { tmp \<leftarrow> rec_put tmp k right; merge_heads cmp a i mid (j + 1) fin (k + 1) tmp } }
      else Some (i, j, k, tmp))"
  by pat_completeness auto
termination
  by (relation "measure (\<lambda>(cmp, a, i, mid, j, fin, k, tmp). (mid - i) + (fin - j))") auto

function copy_records :: "'a list \<Rightarrow> nat \<Rightarrow> nat \<Rightarrow> nat \<Rightarrow> 'a list \<Rightarrow> (nat \<times> 'a list) option" where
  "copy_records a i hi k tmp =
     (if i < hi then do { v \<leftarrow> rec_get a i; tmp \<leftarrow> rec_put tmp k v; copy_records a (i + 1) hi (k + 1) tmp }
      else Some (k, tmp))"
  by pat_completeness auto
termination
  by (relation "measure (\<lambda>(a, i, hi, k, tmp). hi - i)") auto

declare merge_heads.simps [simp del] copy_records.simps [simp del]

definition merge_at :: "('a \<Rightarrow> 'a \<Rightarrow> int) \<Rightarrow> 'a list \<Rightarrow> nat \<Rightarrow> nat \<Rightarrow> nat \<Rightarrow> 'a list \<Rightarrow> 'a list option" where
  "merge_at cmp a start mid fin tmp = do {
     (i, j, k, tmp) \<leftarrow> merge_heads cmp a start mid mid fin start tmp;
     (k, tmp) \<leftarrow> copy_records a i mid k tmp;
     (k, tmp) \<leftarrow> copy_records a j fin k tmp;
     Some tmp }"

partial_function (option) merge_width :: "('a \<Rightarrow> 'a \<Rightarrow> int) \<Rightarrow> 'a list \<Rightarrow> nat \<Rightarrow> nat \<Rightarrow> nat \<Rightarrow> 'a list \<Rightarrow> 'a list option" where
  "merge_width cmp a n width start tmp =
     (if start < n then
        let mid = (if start + width < n then start + width else n);
            fin = (if mid + width < n then mid + width else n)
        in do { tmp \<leftarrow> merge_at cmp a start mid fin tmp; merge_width cmp a n width (start + width * 2) tmp }
      else Some tmp)"

partial_function (option) runsort_loop :: "('a \<Rightarrow> 'a \<Rightarrow> int) \<Rightarrow> nat \<Rightarrow> nat \<Rightarrow> 'a list \<Rightarrow> 'a list \<Rightarrow> 'a list option" where
  "runsort_loop cmp n width a tmp =
     (if width < n then do {
        tmp \<leftarrow> merge_width cmp a n width 0 tmp;
        a \<leftarrow> (if n \<le> length tmp \<and> n \<le> length a then Some (take n tmp @ drop n a) else None);
        if n div 2 < width then Some a else runsort_loop cmp n (width * 2) a tmp }
      else Some a)"

definition tc_sort_stable_runsort :: "('a \<Rightarrow> 'a \<Rightarrow> int) \<Rightarrow> nat \<Rightarrow> 'a list \<Rightarrow> 'a list \<Rightarrow> 'a list option" where
  "tc_sort_stable_runsort cmp n a tmp = runsort_loop cmp n 1 a tmp"

section \<open>Readers\<close>

text \<open>\<open>rd_buf\<close> holds the records of the last fill, so \<^verbatim>\<open>have\<close> is its length.\<close>

record 'a tc_sort_reader =
  rd_buf :: "'a list"
  rd_cap :: nat
  rd_pos :: nat
  rd_next :: nat
  rd_end :: nat

definition tc_sort_reader_fill :: "(nat \<Rightarrow> bool) \<Rightarrow> 'a list \<Rightarrow> 'a tc_sort_reader \<Rightarrow> 'a tc_sort_reader option" where
  "tc_sort_reader_fill rd_ok data r =
     (if rd_end r \<le> rd_next r then Some (r\<lparr>rd_pos := 0, rd_buf := []\<rparr>)
      else let want = min (rd_end r - rd_next r) (rd_cap r) in
        case read_records (rd_ok (rd_next r)) data want (rd_next r) of
          None \<Rightarrow> None
        | Some bs \<Rightarrow> Some (r\<lparr>rd_buf := bs, rd_pos := 0, rd_next := rd_next r + want\<rparr>))"

definition tc_sort_reader_record :: "'a tc_sort_reader \<Rightarrow> 'a option" where
  "tc_sort_reader_record r = rec_get (rd_buf r) (rd_pos r)"

definition tc_sort_reader_advance :: "(nat \<Rightarrow> bool) \<Rightarrow> 'a list \<Rightarrow> 'a tc_sort_reader \<Rightarrow> 'a tc_sort_reader option" where
  "tc_sort_reader_advance rd_ok data r =
     (let r = r\<lparr>rd_pos := rd_pos r + 1\<rparr> in
      if rd_pos r = length (rd_buf r) then tc_sort_reader_fill rd_ok data r else Some r)"

section \<open>The heap of readers\<close>

text \<open>The list holds the indices \<^verbatim>\<open>heap[0], ..., heap[heap_count - 1]\<close>.\<close>

definition tc_sort_heap_before ::
  "('a \<Rightarrow> 'a \<Rightarrow> int) \<Rightarrow> 'a tc_sort_reader list \<Rightarrow> nat list \<Rightarrow> nat \<Rightarrow> nat \<Rightarrow> bool option" where
  "tc_sort_heap_before cmp readers heap a b = do {
     ha \<leftarrow> rec_get heap a;
     hb \<leftarrow> rec_get heap b;
     ra \<leftarrow> rec_get readers ha;
     rb \<leftarrow> rec_get readers hb;
     x \<leftarrow> tc_sort_reader_record ra;
     y \<leftarrow> tc_sort_reader_record rb;
     Some (cmp x y < 0 \<or> cmp x y = 0 \<and> ha < hb) }"

definition heap_swap :: "nat list \<Rightarrow> nat \<Rightarrow> nat \<Rightarrow> nat list option" where
  "heap_swap heap a b = do {
     x \<leftarrow> rec_get heap a;
     y \<leftarrow> rec_get heap b;
     heap \<leftarrow> rec_put heap a y;
     rec_put heap b x }"

function tc_sort_heap_sift_up ::
  "('a \<Rightarrow> 'a \<Rightarrow> int) \<Rightarrow> 'a tc_sort_reader list \<Rightarrow> nat list \<Rightarrow> nat \<Rightarrow> nat list option" where
  "tc_sort_heap_sift_up cmp readers heap at =
     (if 0 < at then do {
        b \<leftarrow> tc_sort_heap_before cmp readers heap at ((at - 1) div 2);
        if \<not> b then Some heap
        else do {
          heap \<leftarrow> heap_swap heap at ((at - 1) div 2);
          tc_sort_heap_sift_up cmp readers heap ((at - 1) div 2) } }
      else Some heap)"
  by pat_completeness auto
termination
  by (relation "measure (\<lambda>(cmp, readers, heap, at). at)") auto

definition heap_best ::
  "('a \<Rightarrow> 'a \<Rightarrow> int) \<Rightarrow> 'a tc_sort_reader list \<Rightarrow> nat list \<Rightarrow> nat \<Rightarrow> nat \<Rightarrow> nat option" where
  "heap_best cmp readers heap child best =
     (if child < length heap then do {
        b \<leftarrow> tc_sort_heap_before cmp readers heap child best;
        Some (if b then child else best) }
      else Some best)"

partial_function (option) tc_sort_heap_sift_down ::
  "('a \<Rightarrow> 'a \<Rightarrow> int) \<Rightarrow> 'a tc_sort_reader list \<Rightarrow> nat list \<Rightarrow> nat \<Rightarrow> nat list option" where
  "tc_sort_heap_sift_down cmp readers heap at = do {
     best \<leftarrow> heap_best cmp readers heap (at * 2 + 1) at;
     best \<leftarrow> heap_best cmp readers heap (at * 2 + 2) best;
     if best = at then Some heap
     else do {
       heap \<leftarrow> heap_swap heap at best;
       tc_sort_heap_sift_down cmp readers heap best } }"

declare tc_sort_heap_sift_up.simps [simp del]

section \<open>A merge pass\<close>

text \<open>What a pass keeps: \<^verbatim>\<open>out_used\<close> is the length of the output buffer.\<close>

record 'a merge_state =
  ms_readers :: "'a tc_sort_reader list"
  ms_heap :: "nat list"
  ms_out :: "'a list"
  ms_record :: nat
  ms_data :: "'a list"

function open_readers ::
  "('a \<Rightarrow> 'a \<Rightarrow> int) \<Rightarrow> (nat \<Rightarrow> bool) \<Rightarrow> 'a list \<Rightarrow> nat \<Rightarrow> nat \<Rightarrow> nat \<Rightarrow> nat \<Rightarrow> nat \<Rightarrow> 'a tc_sort_reader list \<Rightarrow> nat list
     \<Rightarrow> (nat \<times> 'a tc_sort_reader list \<times> nat list) option option" where
  "open_readers cmp rd_ok data cnt run_len cap fan_in start readers heap =
     (if length readers < fan_in \<and> start < cnt then
        if TC_SORT_MAX_FAN_IN \<le> length readers then None
        else let n = min (cnt - start) run_len in
          case tc_sort_reader_fill rd_ok data
              \<lparr>rd_buf = [], rd_cap = cap, rd_pos = 0, rd_next = start, rd_end = start + n\<rparr> of
            None \<Rightarrow> Some None
          | Some r \<Rightarrow> do {
              heap \<leftarrow> (if rd_pos r < length (rd_buf r)
                 then tc_sort_heap_sift_up cmp (readers @ [r]) (heap @ [length readers]) (length heap)
                 else Some heap);
              open_readers cmp rd_ok data cnt run_len cap fan_in (start + n) (readers @ [r]) heap }
      else Some (Some (start, readers, heap)))"
  by pat_completeness auto
termination
  by (relation "measure (\<lambda>(cmp, rd_ok, data, cnt, run_len, cap, fan_in, start, readers, heap). fan_in - length readers)") auto

declare open_readers.simps [simp del]

definition flush_out :: "(nat \<Rightarrow> bool) \<Rightarrow> 'a merge_state \<Rightarrow> 'a merge_state option" where
  "flush_out wr_ok s =
     (case write_records (wr_ok (ms_record s)) (ms_data s) (ms_out s) (ms_record s) of
        None \<Rightarrow> None
      | Some data \<Rightarrow> Some (s\<lparr>ms_data := data, ms_record := ms_record s + length (ms_out s), ms_out := []\<rparr>))"

definition drop_exhausted :: "'a tc_sort_reader \<Rightarrow> nat list \<Rightarrow> nat list" where
  "drop_exhausted r heap =
     (if rd_pos r = length (rd_buf r)
      then (case butlast heap of [] \<Rightarrow> [] | _ # hs \<Rightarrow> last heap # hs) else heap)"

definition merge_step ::
  "('a \<Rightarrow> 'a \<Rightarrow> int) \<Rightarrow> (nat \<Rightarrow> bool) \<Rightarrow> (nat \<Rightarrow> bool) \<Rightarrow> 'a list \<Rightarrow> nat \<Rightarrow> 'a merge_state \<Rightarrow> 'a merge_state option option" where
  "merge_step cmp rd_ok wr_ok data out_cap s = do {
     chosen \<leftarrow> rec_get (ms_heap s) 0;
     r \<leftarrow> rec_get (ms_readers s) chosen;
     x \<leftarrow> tc_sort_reader_record r;
     if out_cap \<le> length (ms_out s) then None
     else let s = s\<lparr>ms_out := ms_out s @ [x]\<rparr> in
       case tc_sort_reader_advance rd_ok data r of
         None \<Rightarrow> Some None
       | Some r \<Rightarrow> do {
           let readers = (ms_readers s)[chosen := r];
           let heap = drop_exhausted r (ms_heap s);
           heap \<leftarrow> (if heap \<noteq> [] then tc_sort_heap_sift_down cmp readers heap 0 else Some heap);
           let s = s\<lparr>ms_readers := readers, ms_heap := heap\<rparr>;
           Some (if length (ms_out s) = out_cap then flush_out wr_ok s else Some s) } }"

partial_function (option) merge_group ::
  "('a \<Rightarrow> 'a \<Rightarrow> int) \<Rightarrow> (nat \<Rightarrow> bool) \<Rightarrow> (nat \<Rightarrow> bool) \<Rightarrow> 'a list \<Rightarrow> nat \<Rightarrow> 'a merge_state \<Rightarrow> 'a merge_state option option" where
  "merge_group cmp rd_ok wr_ok data out_cap s =
     (if ms_heap s = [] then Some (Some s)
      else do {
        r \<leftarrow> merge_step cmp rd_ok wr_ok data out_cap s;
        case r of None \<Rightarrow> Some None | Some s \<Rightarrow> merge_group cmp rd_ok wr_ok data out_cap s })"

partial_function (option) merge_groups ::
  "('a \<Rightarrow> 'a \<Rightarrow> int) \<Rightarrow> (nat \<Rightarrow> bool) \<Rightarrow> (nat \<Rightarrow> bool) \<Rightarrow> 'a list \<Rightarrow> nat \<Rightarrow> nat \<Rightarrow> nat \<Rightarrow> nat \<Rightarrow> nat \<Rightarrow> nat
     \<Rightarrow> 'a merge_state \<Rightarrow> 'a merge_state option option" where
  "merge_groups cmp rd_ok wr_ok data cnt run_len cap fan_in out_cap start s =
     (if start < cnt then do {
        r \<leftarrow> open_readers cmp rd_ok data cnt run_len cap fan_in start [] [];
        case r of
          None \<Rightarrow> Some None
        | Some (start, readers, heap) \<Rightarrow> do {
            r \<leftarrow> merge_group cmp rd_ok wr_ok data out_cap (s\<lparr>ms_readers := readers, ms_heap := heap\<rparr>);
            case r of
              None \<Rightarrow> Some None
            | Some s \<Rightarrow> merge_groups cmp rd_ok wr_ok data cnt run_len cap fan_in out_cap start s } }
      else Some (Some s))"

definition tc_sort_merge_pass ::
  "('a \<Rightarrow> 'a \<Rightarrow> int) \<Rightarrow> (nat \<Rightarrow> bool) \<Rightarrow> (nat \<Rightarrow> bool) \<Rightarrow> 'a list \<Rightarrow> 'a list \<Rightarrow> nat \<Rightarrow> nat \<Rightarrow> nat \<Rightarrow> nat \<Rightarrow> nat \<Rightarrow> 'a list option option" where
  "tc_sort_merge_pass cmp rd_ok wr_ok in_data out_data cnt run_len cap fan_in out_cap = do {
     r \<leftarrow> merge_groups cmp rd_ok wr_ok in_data cnt run_len cap fan_in out_cap 0
       \<lparr>ms_readers = [], ms_heap = [], ms_out = [], ms_record = 0, ms_data = out_data\<rparr>;
     case r of
       None \<Rightarrow> Some None
     | Some s \<Rightarrow> Some (if ms_out s \<noteq> [] then map_option ms_data (flush_out wr_ok s) else Some (ms_data s)) }"

section \<open>The sort\<close>

text \<open>
  What the sort meets: the largest file offset, the environment variable that disables large
  buffers, the memory that is free, and the outcomes of allocations, truncations and transfers.
\<close>

record sort_env =
  off_max :: int
  disable_large :: "string option"
  available_bytes :: nat
  malloc_ok :: "nat \<Rightarrow> bool"
  truncate_ok :: "nat \<Rightarrow> bool"
  run_read_ok :: "nat \<Rightarrow> bool"
  run_write_ok :: "nat \<Rightarrow> bool"
  pass_read_ok :: "nat \<Rightarrow> nat \<Rightarrow> bool"
  pass_write_ok :: "nat \<Rightarrow> nat \<Rightarrow> bool"

primrec power_loop :: "nat \<Rightarrow> nat \<Rightarrow> nat \<Rightarrow> nat \<Rightarrow> bool" where
  "power_loop base 0 value target \<longleftrightarrow> target \<le> value"
| "power_loop base (Suc n) value target \<longleftrightarrow> (if target div base < value then True else power_loop base n (value * base) target)"

definition tc_sort_power_reaches :: "nat \<Rightarrow> nat \<Rightarrow> nat \<Rightarrow> bool" where
  "tc_sort_power_reaches base exponent target = power_loop base exponent 1 target"

text \<open>The allocation of the arena: whether it is the large one, or \<open>None\<close> without memory.\<close>

definition sort_large :: "sort_env \<Rightarrow> bool" where
  "sort_large env \<longleftrightarrow>
     (case disable_large env of None \<Rightarrow> True | Some v \<Rightarrow> v = [] \<or> hd v = CHR ''0'') \<and>
     TC_SORT_LARGE_TOTAL_BYTES + 16 * 1024 * 1024 \<le> available_bytes env"

definition sort_arena :: "sort_env \<Rightarrow> bool option" where
  "sort_arena env =
     (if malloc_ok env 0 then Some (sort_large env)
      else if sort_large env \<and> malloc_ok env 1 then Some False
      else None)"

definition arena_bytes :: "bool \<Rightarrow> nat" where
  "arena_bytes large = (if large then TC_SORT_LARGE_TOTAL_BYTES else TC_SORT_BUFFER_BYTES)"

text \<open>The capacities in records: of a run, of the output buffer and of all input buffers.\<close>

definition sort_caps :: "bool \<Rightarrow> nat \<Rightarrow> (nat \<times> nat \<times> nat) option" where
  "sort_caps large record_size =
     (if (if large then TC_SORT_LARGE_MERGE_BYTES else TC_SORT_MERGE_BYTES) div record_size = 0 then None
      else let run_cap = arena_bytes large div 2 div record_size;
             out_cap = (if large then TC_SORT_LARGE_OUTPUT_BYTES else TC_SORT_OUTPUT_BYTES) div record_size
        in if run_cap = 0 \<or> out_cap = 0 then None
           else let input_records = (arena_bytes large - out_cap * record_size) div record_size in
             if input_records < 2 then None else Some (run_cap, out_cap, input_records))"

definition sort_fan_cap :: "nat \<Rightarrow> nat \<Rightarrow> nat \<Rightarrow> nat" where
  "sort_fan_cap record_size input_records run_count =
     (let preferred = 4096 div record_size + (if 4096 mod record_size \<noteq> 0 then 1 else 0);
          preferred = (if preferred < 4 then 4 else preferred);
          fan_cap = input_records div preferred;
          fan_cap = (if fan_cap < 2 then input_records else fan_cap);
          fan_cap = (if TC_SORT_MAX_FAN_IN < fan_cap then TC_SORT_MAX_FAN_IN else fan_cap)
      in if run_count < fan_cap then run_count else fan_cap)"

partial_function (option) count_passes :: "nat \<Rightarrow> nat \<Rightarrow> nat \<Rightarrow> nat option" where
  "count_passes fan_cap run_count passes =
     (if \<not> tc_sort_power_reaches fan_cap passes run_count then count_passes fan_cap run_count (passes + 1)
      else Some passes)"

text \<open>The number of passes, the fan-in and the capacity of an input buffer.\<close>

definition sort_fan :: "nat \<Rightarrow> nat \<Rightarrow> nat \<Rightarrow> (nat \<times> nat \<times> nat) option option" where
  "sort_fan record_size input_records run_count =
     (if run_count \<le> 1 then Some (Some (0, 0, 0))
      else let fan_cap = sort_fan_cap record_size input_records run_count in
        if fan_cap < 2 then Some None
        else do {
          passes \<leftarrow> count_passes fan_cap run_count 0;
          case find (\<lambda>f. tc_sort_power_reaches f passes run_count) [2..<fan_cap + 1] of
            None \<Rightarrow> Some None
          | Some fan_in \<Rightarrow>
              (let input_cap = input_records div fan_in in
               Some (if input_cap = 0 then None else Some (passes, fan_in, input_cap))) })"

text \<open>\<open>junk at\<close> is what the second half of the arena holds before the run at \<open>at\<close> is sorted.\<close>

partial_function (option) form_runs ::
  "sort_env \<Rightarrow> (nat \<Rightarrow> nat \<Rightarrow> 'a) \<Rightarrow> ('a \<Rightarrow> 'a \<Rightarrow> int) \<Rightarrow> int \<Rightarrow> int \<Rightarrow> nat \<Rightarrow> nat \<Rightarrow> nat \<Rightarrow> (int \<Rightarrow> 'a list) \<Rightarrow> (int \<Rightarrow> 'a list) option option" where
  "form_runs env junk cmp fd run_fd cnt run_cap at files =
     (if at < cnt then
        let n = min (cnt - at) run_cap in
        case read_records (run_read_ok env at) (files fd) n at of
          None \<Rightarrow> Some None
        | Some run \<Rightarrow> do {
            run \<leftarrow> tc_sort_stable_runsort cmp n run (map (junk at) [0..<n]);
            case write_records (run_write_ok env at) (files run_fd) run at of
              None \<Rightarrow> Some None
            | Some data \<Rightarrow> form_runs env junk cmp fd run_fd cnt run_cap (at + n) (files(run_fd := data)) }
      else Some (Some files))"

function merge_passes ::
  "sort_env \<Rightarrow> ('a \<Rightarrow> 'a \<Rightarrow> int) \<Rightarrow> nat \<Rightarrow> nat \<Rightarrow> nat \<Rightarrow> nat \<Rightarrow> nat \<Rightarrow> nat \<Rightarrow> int \<Rightarrow> int \<Rightarrow> nat \<Rightarrow> (int \<Rightarrow> 'a list)
     \<Rightarrow> (int \<times> (int \<Rightarrow> 'a list)) option option" where
  "merge_passes env cmp cnt cap fan_in out_cap passes pass in_fd out_fd run_len files =
     (if pass < passes then
        if \<not> truncate_ok env (pass + 1) then Some None
        else do {
          r \<leftarrow> tc_sort_merge_pass cmp (pass_read_ok env pass) (pass_write_ok env pass) (files in_fd) [] cnt run_len cap fan_in out_cap;
          case r of
            None \<Rightarrow> Some None
          | Some data \<Rightarrow> merge_passes env cmp cnt cap fan_in out_cap passes (pass + 1) out_fd in_fd
              (if cnt div fan_in < run_len then cnt else run_len * fan_in) (files(out_fd := data)) }
      else Some (Some (in_fd, files)))"
  by pat_completeness auto
termination
  by (relation "measure (\<lambda>(env, cmp, cnt, cap, fan_in, out_cap, passes, pass, in_fd, out_fd, run_len, files). passes - pass)") auto

declare merge_passes.simps [simp del]

text \<open>Sorting \<open>cnt > 0\<close> records with the capacities of the arena.\<close>

definition sort_records ::
  "sort_env \<Rightarrow> (nat \<Rightarrow> nat \<Rightarrow> 'a) \<Rightarrow> ('a \<Rightarrow> 'a \<Rightarrow> int) \<Rightarrow> int \<Rightarrow> nat \<Rightarrow> nat \<Rightarrow> nat \<Rightarrow> nat \<Rightarrow> nat \<Rightarrow> int \<Rightarrow> (int \<Rightarrow> 'a list) \<Rightarrow> (int \<Rightarrow> 'a list) option option" where
  "sort_records env junk cmp fd record_size cnt run_cap out_cap input_records scratch_fd files = do {
     let run_count = cnt div run_cap + (if cnt mod run_cap \<noteq> 0 then 1 else 0);
     plan \<leftarrow> sort_fan record_size input_records run_count;
     case plan of
       None \<Rightarrow> Some None
     | Some (passes, fan_in, input_cap) \<Rightarrow>
         (let run_fd = (if odd passes then scratch_fd else fd) in
          if run_fd \<noteq> fd \<and> \<not> truncate_ok env 0 then Some None
          else do {
            r \<leftarrow> form_runs env junk cmp fd run_fd cnt run_cap 0 (if run_fd \<noteq> fd then files(run_fd := []) else files);
            case r of
              None \<Rightarrow> Some None
            | Some files \<Rightarrow> do {
                r \<leftarrow> merge_passes env cmp cnt input_cap fan_in out_cap passes 0 run_fd (if run_fd = fd then scratch_fd else fd) run_cap files;
                case r of
                  None \<Rightarrow> Some None
                | Some (in_fd, files) \<Rightarrow>
                    Some (if in_fd \<noteq> fd \<or> \<not> truncate_ok env (passes + 1) then None
                          else Some (files(fd := take cnt (files fd)))) } }) }"

definition tc_sort_fd ::
  "sort_env \<Rightarrow> (nat \<Rightarrow> nat \<Rightarrow> 'a) \<Rightarrow> ('a \<Rightarrow> 'a \<Rightarrow> int) \<Rightarrow> int \<Rightarrow> nat \<Rightarrow> int \<Rightarrow> int \<Rightarrow> (int \<Rightarrow> 'a list) \<Rightarrow> (int \<Rightarrow> 'a list) option option" where
  "tc_sort_fd env junk cmp fd record_size cnt scratch_fd files =
     (if record_size = 0 \<or> cnt < 0 \<or> fd = scratch_fd \<or> tc_sort_mul_off (off_max env) cnt record_size = None then Some None
      else case sort_arena env of
          None \<Rightarrow> Some None
        | Some large \<Rightarrow>
            (case sort_caps large record_size of
               None \<Rightarrow> Some None
             | Some (run_cap, out_cap, input_records) \<Rightarrow>
                 if cnt = 0
                 then Some (if truncate_ok env 0 then Some (files(fd := [])) else None)
                 else sort_records env junk cmp fd record_size (nat cnt) run_cap out_cap input_records scratch_fd files))"

section \<open>A comparison of the code\<close>

text \<open>The tuples of the query index and their order (\<^verbatim>\<open>library/tagcache_query_index.h\<close>).\<close>

record tc_query_tuple =
  tq_category :: u32
  tq_key :: u32
  tq_rank :: u32

definition query_tuple_cmp :: "tc_query_tuple \<Rightarrow> tc_query_tuple \<Rightarrow> int" where
  "query_tuple_cmp x y =
     (if tq_category x \<noteq> tq_category y then (if tq_category x < tq_category y then -1 else 1)
      else if tq_key x \<noteq> tq_key y then (if tq_key x < tq_key y then -1 else 1)
      else of_bool (tq_rank y < tq_rank x) - of_bool (tq_rank x < tq_rank y))"

end
