(* ===== verification/Stable_Sort.thy ===== *)
theory Stable_Sort
  imports Prelude
begin

text \<open>
  The reference the external sort is compared with: stable insertion sort for a three-way comparison,
  the order \<open>record_order\<close> a comparison must describe, and heaps over a strict linear order of indices.
\<close>

section \<open>Stable insertion sort\<close>

primrec ins :: "('a \<Rightarrow> 'a \<Rightarrow> int) \<Rightarrow> 'a \<Rightarrow> 'a list \<Rightarrow> 'a list" where
  "ins cmp x [] = [x]"
| "ins cmp x (y # ys) = (if cmp x y \<le> 0 then x # y # ys else y # ins cmp x ys)"

definition ssort :: "('a \<Rightarrow> 'a \<Rightarrow> int) \<Rightarrow> 'a list \<Rightarrow> 'a list" where
  "ssort cmp xs = foldr (ins cmp) xs []"

definition in_order :: "('a \<Rightarrow> 'a \<Rightarrow> int) \<Rightarrow> 'a list \<Rightarrow> bool" where
  "in_order cmp = sorted_wrt (\<lambda>x y. cmp x y \<le> 0)"

lemma mset_ins [simp]: "mset (ins cmp x ys) = add_mset x (mset ys)"
  by (induction ys) auto

lemma mset_ssort [simp]: "mset (ssort cmp xs) = mset xs"
  by (induction xs) (simp_all add: ssort_def)

lemma length_ssort [simp]: "length (ssort cmp xs) = length xs"
  using mset_eq_length[OF mset_ssort] .

lemma set_ssort [simp]: "set (ssort cmp xs) = set xs"
  using mset_eq_setD[OF mset_ssort] .

lemma ssort_Nil [simp]: "ssort cmp [] = []" "ssort cmp [x] = [x]"
  by (simp_all add: ssort_def)

lemma ssort_append: "ssort cmp (xs @ ys) = foldr (ins cmp) xs (ssort cmp ys)"
  by (simp add: ssort_def)

locale record_order =
  fixes cmp :: "'a \<Rightarrow> 'a \<Rightarrow> int"
  assumes cmp_swap: "cmp x y < 0 \<longleftrightarrow> 0 < cmp y x"
    and cmp_trans: "cmp x y \<le> 0 \<Longrightarrow> cmp y z \<le> 0 \<Longrightarrow> cmp x z \<le> 0"
begin

lemma cmp_refl [simp]: "cmp x x = 0"
  using cmp_swap[of x x] by linarith

lemma cmp_le_total: "\<not> cmp x y \<le> 0 \<Longrightarrow> cmp y x < 0"
  using cmp_swap[of y x] by linarith

lemma cmp_less_trans: "cmp x y < 0 \<Longrightarrow> cmp y z \<le> 0 \<Longrightarrow> cmp x z < 0"
  using cmp_swap[of x z] cmp_swap[of x y] cmp_trans[of y z x] by (fastforce simp: not_less)

lemma cmp_less_trans': "cmp x y \<le> 0 \<Longrightarrow> cmp y z < 0 \<Longrightarrow> cmp x z < 0"
  using cmp_swap[of x z] cmp_swap[of y z] cmp_trans[of z x y] by (fastforce simp: not_less)

lemma in_order_ins: "in_order cmp ys \<Longrightarrow> in_order cmp (ins cmp x ys)"
proof (induction ys)
  case (Cons y ys)
  have "cmp y z \<le> 0" if "z \<in> set (ins cmp x ys)" "\<not> cmp x y \<le> 0" for z
    using that Cons.prems cmp_le_total[OF that(2)] mset_eq_setD[OF mset_ins[of cmp x ys, folded mset.simps(2)]]
    by (auto simp: in_order_def)
  moreover have "cmp x z \<le> 0" if "z \<in> set ys" "cmp x y \<le> 0" for z
    using that Cons.prems cmp_trans by (auto simp: in_order_def)
  ultimately show ?case using Cons by (auto simp: in_order_def)
qed (simp add: in_order_def)

lemma in_order_ssort: "in_order cmp (ssort cmp xs)"
proof (induction xs)
  case (Cons x xs)
  then show ?case using in_order_ins[of "ssort cmp xs" x] by (simp add: ssort_def)
qed (simp add: in_order_def)

text \<open>Equal records keep their order.\<close>

lemma filter_ins: "in_order cmp ys \<Longrightarrow> filter (\<lambda>y. cmp z y = 0) (ins cmp x ys) = filter (\<lambda>y. cmp z y = 0) (x # ys)"
proof (induction ys)
  case (Cons y ys)
  have "\<not> (cmp z x = 0 \<and> cmp z y = 0)" if "\<not> cmp x y \<le> 0"
    using that cmp_swap[of z x] cmp_swap[of x z] cmp_trans[of x z y] by auto
  moreover have "in_order cmp ys" using Cons.prems by (simp add: in_order_def)
  ultimately show ?case using Cons.IH by auto
qed simp

lemma ssort_stable: "filter (\<lambda>y. cmp z y = 0) (ssort cmp xs) = filter (\<lambda>y. cmp z y = 0) xs"
proof (induction xs)
  case (Cons x xs)
  have "filter (\<lambda>y. cmp z y = 0) (ssort cmp (x # xs)) = filter (\<lambda>y. cmp z y = 0) (x # ssort cmp xs)"
    using filter_ins[OF in_order_ssort] by (simp add: ssort_def)
  then show ?case using Cons by simp
qed simp

text \<open>A first minimum comes out first, which is what each step of a merge uses.\<close>

lemma ins_first: "(\<And>v. v \<in> set vs \<Longrightarrow> cmp x v \<le> 0) \<Longrightarrow> ins cmp x vs = x # vs"
  by (cases vs) auto

lemma ssort_first:
  assumes "\<And>u. u \<in> set us \<Longrightarrow> cmp x u < 0" and "\<And>v. v \<in> set vs \<Longrightarrow> cmp x v \<le> 0"
  shows "ssort cmp (us @ x # vs) = x # ssort cmp (us @ vs)"
  using assms(1)
proof (induction us)
  case Nil
  show ?case using assms(2) ins_first[of "ssort cmp vs" x] by (simp add: ssort_def flip: set_ssort[of cmp vs])
next
  case (Cons u us)
  have "0 < cmp u x" using Cons.prems cmp_swap by simp
  then show ?case using Cons by (simp add: ssort_def)
qed

lemma ssort_ordered: "in_order cmp xs \<Longrightarrow> ssort cmp xs = xs"
proof (induction xs)
  case (Cons x xs)
  then show ?case using ssort_first[of "[]" x xs] by (simp add: in_order_def)
qed simp

text \<open>Sorting parts first does not change the result.\<close>

lemma ins_commute: "cmp u x < 0 \<Longrightarrow> in_order cmp zs \<Longrightarrow> ins cmp u (ins cmp x zs) = ins cmp x (ins cmp u zs)"
proof (induction zs)
  case Nil
  then show ?case using cmp_swap[of u x] by simp
next
  case (Cons z zs)
  have x: "\<not> cmp x u \<le> 0" using Cons.prems(1) cmp_swap[of u x] by simp
  have u: "cmp u z \<le> 0" if "cmp x z \<le> 0" using that Cons.prems(1) cmp_trans[of u x z] by simp
  have "in_order cmp zs" using Cons.prems(2) by (simp add: in_order_def)
  then show ?case using Cons.IH Cons.prems(1) x u by auto
qed

lemma foldr_in_order: "in_order cmp zs \<Longrightarrow> in_order cmp (foldr (ins cmp) us zs)"
  by (induction us) (simp_all add: in_order_ins)

lemma foldr_ins: "in_order cmp zs \<Longrightarrow> foldr (ins cmp) (ins cmp x us) zs = ins cmp x (foldr (ins cmp) us zs)"
proof (induction us)
  case (Cons u us)
  have "ins cmp u (ins cmp x (foldr (ins cmp) us zs)) = ins cmp x (ins cmp u (foldr (ins cmp) us zs))" if "\<not> cmp x u \<le> 0"
    by (rule ins_commute[OF cmp_le_total[OF that] foldr_in_order[OF Cons.prems]])
  then show ?case using Cons by simp
qed simp

lemma foldr_ssort: "in_order cmp zs \<Longrightarrow> foldr (ins cmp) (ssort cmp xs) zs = foldr (ins cmp) xs zs"
proof (induction xs)
  case (Cons x xs)
  then show ?case using foldr_ins[OF Cons.prems, of x "ssort cmp xs"] by (simp add: ssort_def)
qed simp

lemma ssort_parts: "ssort cmp (ssort cmp xs @ ys) = ssort cmp (xs @ ys)" "ssort cmp (xs @ ssort cmp ys) = ssort cmp (xs @ ys)"
proof -
  show "ssort cmp (ssort cmp xs @ ys) = ssort cmp (xs @ ys)"
    using foldr_ssort[OF in_order_ssort] by (simp add: ssort_append)
  show "ssort cmp (xs @ ssort cmp ys) = ssort cmp (xs @ ys)"
    using ssort_ordered[OF in_order_ssort] by (simp add: ssort_append)
qed

end

lemma in_concat_nth: "u \<in> set (concat xss) \<Longrightarrow> \<exists>j < length xss. u \<in> set (xss ! j)"
  unfolding set_concat by (metis UN_E in_set_conv_nth)

section \<open>Sorting a list in chunks\<close>

function chunk_sort :: "('a \<Rightarrow> 'a \<Rightarrow> int) \<Rightarrow> nat \<Rightarrow> 'a list \<Rightarrow> 'a list" where
  "chunk_sort cmp m xs = (if m = 0 \<or> xs = [] then xs else ssort cmp (take m xs) @ chunk_sort cmp m (drop m xs))"
  by pat_completeness auto
termination
  by (relation "measure (\<lambda>(cmp, m, xs). length xs)") auto

declare chunk_sort.simps [simp del]

lemma chunk_sort_Nil [simp]: "chunk_sort cmp m [] = []"
  by (simp add: chunk_sort.simps)

lemma chunk_sort_step: "0 < m \<Longrightarrow> xs \<noteq> [] \<Longrightarrow> chunk_sort cmp m xs = ssort cmp (take m xs) @ chunk_sort cmp m (drop m xs)"
  by (simp add: chunk_sort.simps[of cmp m xs])

lemma length_chunk_sort [simp]: "length (chunk_sort cmp m xs) = length xs"
  by (induction cmp m xs rule: chunk_sort.induct) (subst chunk_sort.simps, simp add: min_def)

lemma chunk_sort_all: "length xs \<le> m \<Longrightarrow> chunk_sort cmp m xs = ssort cmp xs"
  by (cases "xs = []") (auto simp: chunk_sort.simps[of cmp m xs])

lemma take_chunk_sort: "0 < m \<Longrightarrow> take (m * k) (chunk_sort cmp m xs) = chunk_sort cmp m (take (m * k) xs)"
proof (induction k arbitrary: xs)
  case (Suc k)
  show ?case
  proof (cases "xs = []")
    case False
    have "take (m * Suc k) (chunk_sort cmp m xs) = ssort cmp (take m xs) @ take (m * k) (chunk_sort cmp m (drop m xs))"
      using Suc.prems False by (cases "length xs \<le> m") (simp_all add: chunk_sort_step min_def)
    moreover have "take m (take (m * Suc k) xs) = take m xs" "drop m (take (m * Suc k) xs) = take (m * k) (drop m xs)"
      by (simp_all add: drop_take min_def)
    moreover have "take (m * Suc k) xs \<noteq> []" using False Suc.prems by simp
    ultimately show ?thesis using Suc False by (simp add: chunk_sort_step)
  qed simp
qed simp

lemma drop_chunk_sort: "0 < m \<Longrightarrow> drop (m * k) (chunk_sort cmp m xs) = chunk_sort cmp m (drop (m * k) xs)"
proof (induction k arbitrary: xs)
  case (Suc k)
  show ?case
  proof (cases "xs = []")
    case False
    have "drop (m * Suc k) (chunk_sort cmp m xs) = drop (m * k) (chunk_sort cmp m (drop m xs))"
      using Suc.prems False by (cases "length xs \<le> m") (simp_all add: chunk_sort_step min_def add.commute)
    then show ?thesis using Suc by (simp add: add.commute)
  qed simp
qed simp

context record_order
begin

lemma ssort_chunk_sort: "ssort cmp (chunk_sort cmp m xs) = ssort cmp xs"
proof (induction "length xs" arbitrary: xs rule: less_induct)
  case less
  show ?case
  proof (cases "m = 0 \<or> xs = []")
    case False
    have "ssort cmp (chunk_sort cmp m xs) = ssort cmp (take m xs @ ssort cmp (chunk_sort cmp m (drop m xs)))"
      using False by (simp add: chunk_sort_step ssort_parts)
    also have "\<dots> = ssort cmp (take m xs @ ssort cmp (drop m xs))" using False by (subst less) simp_all
    finally show ?thesis by (simp add: ssort_parts)
  qed (auto simp: chunk_sort.simps)
qed

text \<open>A pass that merges \<open>f\<close> sorted chunks each time.\<close>

lemma chunk_sort_merge:
  assumes "0 < m" and "0 < f"
  shows "chunk_sort cmp (m * f) (chunk_sort cmp m xs) = chunk_sort cmp (m * f) xs"
proof (induction "length xs" arbitrary: xs rule: less_induct)
  case less
  show ?case
  proof (cases "xs = []")
    case False
    then have ne: "chunk_sort cmp m xs \<noteq> []" using length_chunk_sort[of cmp m xs] by fastforce
    have "ssort cmp (take (m * f) (chunk_sort cmp m xs)) = ssort cmp (take (m * f) xs)"
      using assms by (simp add: take_chunk_sort ssort_chunk_sort)
    moreover have "chunk_sort cmp (m * f) (drop (m * f) (chunk_sort cmp m xs)) = chunk_sort cmp (m * f) (drop (m * f) xs)"
      using less[of "drop (m * f) xs"] False assms by (simp add: drop_chunk_sort)
    ultimately show ?thesis using False ne assms by (simp add: chunk_sort_step)
  qed simp
qed

text \<open>
  One step of merging ordered lists: the list \<open>i\<close> starts with the least record, the first of its kind.
\<close>

lemma kmerge_step:
  assumes ord: "\<forall>xs \<in> set xss. in_order cmp xs" and i: "i < length xss" "xss ! i = x # xs"
    and least: "\<And>j y ys. j < length xss \<Longrightarrow> xss ! j = y # ys \<Longrightarrow> j \<noteq> i \<Longrightarrow> cmp x y < 0 \<or> cmp x y = 0 \<and> i < j"
  shows "ssort cmp (concat xss) = x # ssort cmp (concat (xss[i := xs]))"
proof -
  have split: "xss = take i xss @ (x # xs) # drop (Suc i) xss" using id_take_nth_drop[OF i(1)] i(2) by simp
  have head: "cmp (hd (xss ! j)) z \<le> 0" "xss ! j \<noteq> []" if "j < length xss" "z \<in> set (xss ! j)" for j z
  proof -
    show "xss ! j \<noteq> []" using that by auto
    moreover have "in_order cmp (xss ! j)" using ord that by simp
    ultimately show "cmp (hd (xss ! j)) z \<le> 0" using that(2) by (cases "xss ! j") (auto simp: in_order_def)
  qed
  have other: "cmp x (hd (xss ! j)) < 0 \<or> cmp x (hd (xss ! j)) = 0 \<and> i < j" if "j < length xss" "xss ! j \<noteq> []" "j \<noteq> i" for j
    using least[of j "hd (xss ! j)" "tl (xss ! j)"] that by simp
  have "cmp x u < 0" if u: "u \<in> set (concat (take i xss))" for u
  proof -
    obtain j where j: "j < i" "u \<in> set (xss ! j)" using in_concat_nth[OF u] i(1) by auto
    then show ?thesis using head[of j u] other[of j] cmp_less_trans i(1) by (metis less_asym' less_irrefl_nat order_less_trans)
  qed
  moreover have "cmp x v \<le> 0" if v: "v \<in> set (xs @ concat (drop (Suc i) xss))" for v
  proof (cases "v \<in> set xs")
    case True
    then show ?thesis using head(1)[OF i(1), of v] i(2) by simp
  next
    case False
    then obtain k where "k < length (drop (Suc i) xss)" "v \<in> set (drop (Suc i) xss ! k)"
      using v in_concat_nth[of v "drop (Suc i) xss"] by auto
    then have k: "Suc i + k < length xss" "v \<in> set (xss ! (Suc i + k))" by simp_all
    have "cmp x (hd (xss ! (Suc i + k))) \<le> 0" using other[OF k(1) head(2)[OF k]] by auto
    then show ?thesis using cmp_trans head(1)[OF k] by blast
  qed
  ultimately have "ssort cmp (concat (take i xss) @ x # (xs @ concat (drop (Suc i) xss)))
      = x # ssort cmp (concat (take i xss) @ xs @ concat (drop (Suc i) xss))" by (rule ssort_first)
  moreover have "concat xss = concat (take i xss) @ x # (xs @ concat (drop (Suc i) xss))" by (subst split) simp
  moreover have "concat (xss[i := xs]) = concat (take i xss) @ xs @ concat (drop (Suc i) xss)"
    using i(1) by (simp add: upd_conv_take_nth_drop)
  ultimately show ?thesis by simp
qed

end

section \<open>Heaps\<close>

text \<open>
  A binary heap of indices in a list: \<open>up_ok h at\<close> and \<open>down_ok h at\<close> are heaps with at most one
  misplaced element, which has to move up or down.
\<close>

definition parent :: "nat \<Rightarrow> nat" where
  "parent k = (k - 1) div 2"

definition swap_at :: "'a list \<Rightarrow> nat \<Rightarrow> nat \<Rightarrow> 'a list" where
  "swap_at h a b = h[a := h ! b, b := h ! a]"

lemma parent_less: "0 < k \<Longrightarrow> parent k < k"
  by (simp add: parent_def)

lemma parent_eq: "0 < k \<Longrightarrow> parent k = at \<longleftrightarrow> k = at * 2 + 1 \<or> k = at * 2 + 2"
  unfolding parent_def by presburger

lemma length_swap_at [simp]: "length (swap_at h a b) = length h"
  by (simp add: swap_at_def)

lemma mset_swap_at [simp]: "a < length h \<Longrightarrow> b < length h \<Longrightarrow> mset (swap_at h a b) = mset h"
  unfolding swap_at_def by (rule mset_swap)

lemma nth_swap_at: "a < length h \<Longrightarrow> b < length h \<Longrightarrow> k < length h \<Longrightarrow>
    swap_at h a b ! k = (if k = b then h ! a else if k = a then h ! b else h ! k)"
  by (simp add: swap_at_def nth_list_update)

locale heap_order =
  fixes lt :: "nat \<Rightarrow> nat \<Rightarrow> bool"
  assumes lt_irrefl: "\<not> lt i i"
    and lt_trans: "lt i j \<Longrightarrow> lt j k \<Longrightarrow> lt i k"
    and lt_total: "lt i j \<or> i = j \<or> lt j i"
begin

definition heap_ok :: "nat list \<Rightarrow> bool" where
  "heap_ok h \<longleftrightarrow> (\<forall>k. 0 < k \<longrightarrow> k < length h \<longrightarrow> \<not> lt (h ! k) (h ! parent k))"

definition up_ok :: "nat list \<Rightarrow> nat \<Rightarrow> bool" where
  "up_ok h at \<longleftrightarrow> (\<forall>k. 0 < k \<longrightarrow> k < length h \<longrightarrow> k \<noteq> at \<longrightarrow> \<not> lt (h ! k) (h ! parent k)) \<and>
     (\<forall>k. 0 < k \<longrightarrow> k < length h \<longrightarrow> parent k = at \<longrightarrow> 0 < at \<longrightarrow> \<not> lt (h ! k) (h ! parent at))"

definition down_ok :: "nat list \<Rightarrow> nat \<Rightarrow> bool" where
  "down_ok h at \<longleftrightarrow> (\<forall>k. 0 < k \<longrightarrow> k < length h \<longrightarrow> parent k \<noteq> at \<longrightarrow> \<not> lt (h ! k) (h ! parent k)) \<and>
     (\<forall>k. 0 < k \<longrightarrow> k < length h \<longrightarrow> parent k = at \<longrightarrow> 0 < at \<longrightarrow> \<not> lt (h ! k) (h ! parent at))"

lemma not_lt_trans: "\<not> lt j i \<Longrightarrow> \<not> lt k j \<Longrightarrow> \<not> lt k i"
  using lt_total lt_trans by metis

lemma not_lt_less_trans: "\<not> lt j i \<Longrightarrow> lt j k \<Longrightarrow> \<not> lt k i"
  using not_lt_trans lt_trans lt_irrefl by metis

lemma heap_root: "heap_ok h \<Longrightarrow> k < length h \<Longrightarrow> \<not> lt (h ! k) (h ! 0)"
proof (induction k rule: less_induct)
  case (less k)
  show ?case
  proof (cases "k = 0")
    case False
    then have "parent k < k" by (simp add: parent_less)
    then have "\<not> lt (h ! parent k) (h ! 0)" using less by simp
    moreover have "\<not> lt (h ! k) (h ! parent k)" using less.prems False by (simp add: heap_ok_def)
    ultimately show ?thesis by (rule not_lt_trans)
  qed (simp add: lt_irrefl)
qed

lemma heap_root_least:
  assumes "heap_ok h" and "i \<in> set h" and "i \<noteq> h ! 0"
  shows "lt (h ! 0) i"
proof -
  obtain k where "k < length h" "h ! k = i" using assms(2) by (auto simp: in_set_conv_nth)
  then show ?thesis using heap_root[OF assms(1), of k] lt_total assms(3) by metis
qed

lemma up_start: "heap_ok h \<Longrightarrow> up_ok (h @ [i]) (length h)"
proof -
  assume h: "heap_ok h"
  have "\<not> lt ((h @ [i]) ! k) ((h @ [i]) ! parent k)" if "0 < k" "k < length h" for k
    using h that parent_less[of k] by (simp add: heap_ok_def nth_append)
  moreover have "parent k \<noteq> length h" if "0 < k" "k < length (h @ [i])" for k using parent_less[OF that(1)] that(2) by simp
  ultimately show ?thesis by (auto simp: up_ok_def less_Suc_eq)
qed

lemma up_stop: "up_ok h at \<Longrightarrow> at = 0 \<or> \<not> lt (h ! at) (h ! parent at) \<Longrightarrow> heap_ok h"
  unfolding up_ok_def heap_ok_def by (metis less_irrefl_nat)

lemma up_step:
  assumes ok: "up_ok h at" and at: "0 < at" "at < length h" and lt: "lt (h ! at) (h ! parent at)"
  shows "up_ok (swap_at h at (parent at)) (parent at)"
proof -
  let ?p = "parent at" and ?h = "swap_at h at (parent at)"
  have p: "?p < at" "?p < length h" using at parent_less[of at] by simp_all
  have nth: "?h ! k = (if k = ?p then h ! at else if k = at then h ! ?p else h ! k)" if "k < length h" for k
    using nth_swap_at[OF at(2) p(2) that] .
  have "\<not> lt (?h ! k) (?h ! parent k)" if k: "0 < k" "k < length h" "k \<noteq> ?p" for k
  proof -
    have pk: "parent k < length h" using parent_less[OF k(1)] k(2) by simp
    have own: "\<not> lt (h ! k) (h ! parent k)" if "k \<noteq> at" using ok k that by (simp add: up_ok_def)
    have child: "\<not> lt (h ! k) (h ! ?p)" if "parent k = at" using ok k that at by (simp add: up_ok_def)
    show ?thesis
    proof (cases "k = at")
      case True
      then show ?thesis using p lt lt_trans lt_irrefl nth[OF at(2)] nth[OF p(2)] by auto
    next
      case False
      then have "\<not> lt (h ! k) (h ! at)" if "parent k = ?p" using own that lt lt_trans[of "h ! k" "h ! at" "h ! ?p"] by auto
      then show ?thesis using own[OF False] child False k(3) nth[OF k(2)] nth[OF pk] by simp
    qed
  qed
  moreover have "\<not> lt (?h ! k) (?h ! parent ?p)" if k: "0 < k" "k < length h" "parent k = ?p" "0 < ?p" for k
  proof -
    have pp: "parent ?p < ?p" "parent ?p < length h" using parent_less[OF k(4)] p by simp_all
    have "\<not> lt (h ! ?p) (h ! parent ?p)" using ok k p by (simp add: up_ok_def)
    moreover have "k \<noteq> ?p" using k parent_less[OF k(1)] by simp
    moreover have "\<not> lt (h ! k) (h ! ?p)" if "k \<noteq> at" using ok k that by (metis up_ok_def)
    ultimately show ?thesis using nth[OF k(2)] nth[OF pp(2)] pp p not_lt_trans by (auto split: if_splits)
  qed
  ultimately show ?thesis by (simp add: up_ok_def)
qed

lemma down_stop:
  assumes "down_ok h at" and "\<And>k. 0 < k \<Longrightarrow> k < length h \<Longrightarrow> parent k = at \<Longrightarrow> \<not> lt (h ! k) (h ! at)"
  shows "heap_ok h"
  using assms unfolding down_ok_def heap_ok_def by metis

lemma down_step:
  assumes ok: "down_ok h at" and b: "0 < b" "b < length h" "parent b = at" "lt (h ! b) (h ! at)"
    and least: "\<And>k. 0 < k \<Longrightarrow> k < length h \<Longrightarrow> parent k = at \<Longrightarrow> \<not> lt (h ! k) (h ! b)"
  shows "down_ok (swap_at h at b) b"
proof -
  let ?h = "swap_at h at b"
  have at: "at < b" "at < length h" using parent_less[OF b(1)] b by simp_all
  have nth: "?h ! k = (if k = b then h ! at else if k = at then h ! b else h ! k)" if "k < length h" for k
    using nth_swap_at[OF at(2) b(2) that] .
  have "\<not> lt (?h ! k) (?h ! parent k)" if k: "0 < k" "k < length h" "parent k \<noteq> b" for k
  proof -
    have pk: "parent k < k" "parent k < length h" using parent_less[OF k(1)] k(2) by simp_all
    show ?thesis
    proof (cases "parent k = at")
      case True
      then show ?thesis using nth[OF k(2)] nth[OF at(2)] at b(4) least[OF k(1,2)] pk lt_trans[of "h ! at" "h ! b" "h ! at"] lt_irrefl
        by (cases "k = b") auto
    next
      case False
      have "\<not> lt (h ! k) (h ! parent k)" using ok k False by (simp add: down_ok_def)
      moreover have "\<not> lt (h ! b) (h ! parent at)" if "0 < at" using ok b that by (simp add: down_ok_def)
      moreover have "k \<noteq> b" using False b by auto
      ultimately show ?thesis using nth[OF k(2)] nth[OF pk(2)] k(3) False by auto (use k in blast)
    qed
  qed
  moreover have "\<not> lt (?h ! k) (?h ! parent b)" if k: "0 < k" "k < length h" "parent k = b" for k
  proof -
    have "b < k" using parent_less[OF k(1)] k by simp
    moreover have "\<not> lt (h ! k) (h ! b)" using ok k b at by (metis down_ok_def less_irrefl_nat)
    ultimately show ?thesis using nth[OF k(2)] nth[OF at(2)] at b by simp
  qed
  ultimately show ?thesis by (simp add: down_ok_def)
qed

end

end
