(* ===== verification/Tagcache_Sort_Inv.thy ===== *)
theory Tagcache_Sort_Inv
  imports Tagcache_Sort Stable_Sort
begin

text \<open>
  The parts of the external sort compute the reference sort: transfers deliver what was asked for, the
  sort in memory, the readers, the heap, a merge pass.
\<close>

section \<open>Transfers\<close>

lemma tc_sort_io_read_sound:
  assumes "tc_sort_io_read calls data k len off buf = Some (Some bs)"
  shows "bs = buf @ take len (drop off data) \<and> (len = 0 \<or> off + len \<le> length data)"
proof -
  let ?P = "\<lambda>data len off buf y. \<forall>bs. y = Some bs \<longrightarrow> bs = buf @ take len (drop off data) \<and> (len = 0 \<or> off + len \<le> length data)"
  have "?P data len off buf (Some bs)"
  proof (rule tc_sort_io_read.raw_induct[rotated, OF assms, where P = "\<lambda>calls data k len off buf y. ?P data len off buf y"])
    fix go calls data k len off buf y
    assume hyp: "\<And>calls data k len off buf y. go calls data k len off buf = Some y \<Longrightarrow> ?P data len off buf y"
      and run: "(if len = 0 then Some (Some buf)
          else case calls k of Interrupted \<Rightarrow> go calls data (k + 1) len off buf | Failed \<Rightarrow> Some None
            | Moved m \<Rightarrow> let n = min m (min len (length data - off)) in if n = 0 then Some None
                else go calls data (k + 1) (len - n) (off + n) (buf @ take n (drop off data))) = Some y"
    show "?P data len off buf y"
    proof (cases "len \<noteq> 0 \<and> (\<exists>m. calls k = Moved m \<and> min m (min len (length data - off)) \<noteq> 0)")
      case True
      then obtain m where m: "calls k = Moved m" "len \<noteq> 0" by blast
      define n where "n = min m (min len (length data - off))"
      have n0: "n \<noteq> 0" using True m(1) unfolding n_def by simp
      then have n: "n \<noteq> 0" "go calls data (k + 1) (len - n) (off + n) (buf @ take n (drop off data)) = Some y"
        using run m by (simp_all add: Let_def flip: n_def)
      have le: "n \<le> len" "off + n \<le> length data" using n(1) by (auto simp: n_def)
      have "take len (drop off data) = take n (drop off data) @ take (len - n) (drop (off + n) data)"
        using le take_add[of n "len - n" "drop off data"] by (simp add: add.commute)
      then show ?thesis using hyp[OF n(2)] le by auto
    next
      case False
      then show ?thesis using run hyp[of calls data "k + 1" len off buf y]
        by (cases "calls k") (auto simp: Let_def split: if_splits)
    qed
  qed
  then show ?thesis by blast
qed

lemma tc_sort_io_write_sound:
  assumes "tc_sort_io_write calls k buf off data = Some (Some data')" and "off \<le> length data"
  shows "data' = take off data @ buf @ drop (off + length buf) data"
proof -
  let ?P = "\<lambda>buf off data y. \<forall>data'. y = Some data' \<longrightarrow> off \<le> length data \<longrightarrow> data' = take off data @ buf @ drop (off + length buf) data"
  have "?P buf off data (Some data')"
  proof (rule tc_sort_io_write.raw_induct[rotated, OF assms(1), where P = "\<lambda>calls k buf off data y. ?P buf off data y"])
    fix go calls k buf off data y
    assume hyp: "\<And>calls k buf off data y. go calls k buf off data = Some y \<Longrightarrow> ?P buf off data y"
      and run: "(if buf = [] then Some (Some data)
          else case calls k of Interrupted \<Rightarrow> go calls (k + 1) buf off data | Failed \<Rightarrow> Some None
            | Moved m \<Rightarrow> let n = min m (length buf) in if n = 0 then Some None
                else go calls (k + 1) (drop n buf) (off + n) (take off data @ take n buf @ drop (off + n) data)) = Some y"
    show "?P buf off data y"
    proof (cases "buf \<noteq> [] \<and> (\<exists>m. calls k = Moved m \<and> m \<noteq> 0)")
      case True
      then obtain m where m: "calls k = Moved m" "m \<noteq> 0" "buf \<noteq> []" by blast
      define n where "n = min m (length buf)"
      let ?d = "take off data @ take n buf @ drop (off + n) data"
      have "n \<noteq> 0" using m by (simp add: n_def min_def)
      then have n: "go calls (k + 1) (drop n buf) (off + n) ?d = Some y" using run m by (simp add: Let_def flip: n_def)
      have le: "n \<le> length buf" by (simp add: n_def)
      have d: "off \<le> length data \<Longrightarrow> take (off + n) ?d = take off data @ take n buf"
          "off \<le> length data \<Longrightarrow> drop (off + n + (length buf - n)) ?d = drop (off + length buf) data"
        using le by (simp_all add: add.commute)
      show ?thesis
      proof (intro allI impI)
        fix data' assume y: "y = Some data'" and off: "off \<le> length data"
        have "data' = take (off + n) ?d @ drop n buf @ drop (off + n + (length buf - n)) ?d"
          using hyp[OF n] y off le by simp
        also have "\<dots> = take off data @ buf @ drop (off + length buf) data" unfolding d[OF off] by simp
        finally show "data' = take off data @ buf @ drop (off + length buf) data" .
      qed
    next
      case False
      then show ?thesis using run hyp by (auto simp: Let_def split: transfer.splits if_splits)
    qed
  qed
  then show ?thesis using assms(2) by blast
qed

lemma tc_sort_mul_off_mono:
  assumes "tc_sort_mul_off m a b = Some v" and "0 \<le> a'" and "a' \<le> a"
  shows "tc_sort_mul_off m a' b = Some (a' * int b)"
proof -
  show ?thesis
  proof (cases "a' = 0")
    case False
    then have v: "0 < b" "a * int b \<le> m" "a \<le> INT64_MAX div int b" "int b \<le> INT64_MAX"
      using assms by (auto simp: tc_sort_mul_off_def Let_def split: if_splits)
    have "a' * int b \<le> a * int b" using assms(3) by (intro mult_right_mono) simp_all
    then have "a' * int b \<le> m" using v(2) by (rule order_trans)
    moreover have "a' \<le> INT64_MAX div int b" using assms(3) v(3) by (rule order_trans)
    ultimately show ?thesis using False v(1,4) assms(2) by (simp add: tc_sort_mul_off_def Let_def)
  qed (use assms in \<open>auto simp: tc_sort_mul_off_def split: if_splits\<close>)
qed

section \<open>The sort in memory\<close>

definition slice :: "nat \<Rightarrow> nat \<Rightarrow> 'a list \<Rightarrow> 'a list" where
  "slice lo hi xs = take (hi - lo) (drop lo xs)"

lemma length_slice [simp]: "hi \<le> length xs \<Longrightarrow> length (slice lo hi xs) = hi - lo"
  by (simp add: slice_def)

lemma slice_empty [simp]: "hi \<le> lo \<Longrightarrow> slice lo hi xs = []"
  by (simp add: slice_def)

lemma slice_Cons: "lo < hi \<Longrightarrow> hi \<le> length xs \<Longrightarrow> slice lo hi xs = xs ! lo # slice (Suc lo) hi xs"
  by (simp add: slice_def Cons_nth_drop_Suc[symmetric] take_Cons' Suc_diff_Suc)

lemma slice_append: "lo \<le> mid \<Longrightarrow> mid \<le> hi \<Longrightarrow> slice lo mid xs @ slice mid hi xs = slice lo hi xs"
  using take_add[of "mid - lo" "hi - mid" "drop lo xs"] by (simp add: slice_def)

lemma copy_records_eq:
  "i \<le> hi \<Longrightarrow> hi \<le> length a \<Longrightarrow> k + (hi - i) \<le> length tmp \<Longrightarrow>
     copy_records a i hi k tmp = Some (k + (hi - i), take k tmp @ slice i hi a @ drop (k + (hi - i)) tmp)"
proof (induction a i hi k tmp rule: copy_records.induct)
  case (1 a i hi k tmp)
  show ?case
  proof (cases "i < hi")
    case True
    have e: "rec_get a i = Some (a ! i)" "rec_put tmp k (a ! i) = Some (tmp[k := a ! i])"
      using 1 True by (simp_all add: rec_get_def rec_put_def)
    have "copy_records a i hi k tmp = copy_records a (i + 1) hi (k + 1) (tmp[k := a ! i])"
      using True e by (simp add: copy_records.simps[of a i])
    also have "\<dots> = Some (k + 1 + (hi - (i + 1)), take (k + 1) (tmp[k := a ! i]) @ slice (i + 1) hi a @ drop (k + 1 + (hi - (i + 1))) (tmp[k := a ! i]))"
      using 1 True e by (intro "1.IH") simp_all
    also have "take (k + 1) (tmp[k := a ! i]) = take k tmp @ [a ! i]" using 1 True by (simp add: take_Suc_conv_app_nth)
    finally have "copy_records a i hi k tmp = Some (k + 1 + (hi - (i + 1)), (take k tmp @ [a ! i]) @ slice (i + 1) hi a @ drop (k + 1 + (hi - (i + 1))) tmp)"
      using True by simp
    moreover have "k + 1 + (hi - (i + 1)) = k + (hi - i)" using True by simp
    moreover have "slice i hi a = a ! i # slice (i + 1) hi a" using slice_Cons[OF True "1.prems"(2)] by simp
    ultimately show ?thesis by (simp only: append.assoc append_Cons append_Nil)
  next
    case False
    then show ?thesis using "1.prems" by (subst copy_records.simps) simp
  qed
qed

context record_order
begin

lemma in_order_slice_tl: "in_order cmp (slice i hi a) \<Longrightarrow> in_order cmp (slice (Suc i) hi a)"
  by (cases "i < hi \<and> i < length a")
     (auto simp: slice_def in_order_def Cons_nth_drop_Suc[symmetric] take_Cons' not_less)

lemma merge_two:
  assumes "in_order cmp (x # xs)" and "in_order cmp (y # ys)"
  shows "cmp x y \<le> 0 \<Longrightarrow> ssort cmp ((x # xs) @ y # ys) = x # ssort cmp (xs @ y # ys)"
    and "\<not> cmp x y \<le> 0 \<Longrightarrow> ssort cmp ((x # xs) @ y # ys) = y # ssort cmp ((x # xs) @ ys)"
proof -
  show "ssort cmp ((x # xs) @ y # ys) = x # ssort cmp (xs @ y # ys)" if le: "cmp x y \<le> 0"
  proof -
    have "cmp x v \<le> 0" if "v \<in> set (xs @ y # ys)" for v
      using that assms le cmp_trans[OF le] by (auto simp: in_order_def)
    then show ?thesis using ssort_first[of "[]" x "xs @ y # ys"] by simp
  qed
  show "ssort cmp ((x # xs) @ y # ys) = y # ssort cmp ((x # xs) @ ys)" if "\<not> cmp x y \<le> 0"
  proof (rule ssort_first)
    have lt: "cmp y x < 0" by (rule cmp_le_total[OF that])
    show "cmp y u < 0" if "u \<in> set (x # xs)" for u
      using that assms(1) lt cmp_less_trans[OF lt, of u] by (auto simp: in_order_def)
    show "cmp y v \<le> 0" if "v \<in> set ys" for v using that assms(2) by (simp add: in_order_def)
  qed
qed

lemma merge_heads_correct:
  assumes "mid \<le> j" and "j \<le> fin" and "i \<le> mid" and "fin \<le> length a" and "fin \<le> length tmp" and "k + mid = i + j"
    and "in_order cmp (slice i mid a)" and "in_order cmp (slice j fin a)"
  shows "\<exists>i' j' k' tmp' out. merge_heads cmp a i mid j fin k tmp = Some (i', j', k', tmp') \<and> i' \<le> mid \<and> mid \<le> j' \<and> j' \<le> fin \<and>
     k' + mid = i' + j' \<and> length tmp' = length tmp \<and> take k' tmp' = take k tmp @ out \<and>
     drop fin tmp' = drop fin tmp \<and> ssort cmp (slice i mid a @ slice j fin a) = out @ slice i' mid a @ slice j' fin a"
  using assms
proof (induction "(mid - i) + (fin - j)" arbitrary: i j k tmp rule: less_induct)
  case less
  show ?case
  proof (cases "i < mid \<and> j < fin")
    case True
    have get: "rec_get a i = Some (a ! i)" "rec_get a j = Some (a ! j)" using True less.prems by (simp_all add: rec_get_def)
    have k: "k < fin" "k < length tmp" using True less.prems by simp_all
    have put: "rec_put tmp k v = Some (tmp[k := v])" for v using k by (simp add: rec_put_def)
    have sl: "slice i mid a = a ! i # slice (Suc i) mid a" "slice j fin a = a ! j # slice (Suc j) fin a"
      using slice_Cons[of i mid a] slice_Cons[of j fin a] True less.prems by simp_all
    have tk: "take (Suc k) (tmp[k := v]) = take k tmp @ [v]" "drop fin (tmp[k := v]) = drop fin tmp" for v
      using k by (simp_all add: take_Suc_conv_app_nth)
    note two = merge_two[OF less.prems(7)[unfolded sl(1)] less.prems(8)[unfolded sl(2)]]
    show ?thesis
    proof (cases "cmp (a ! i) (a ! j) \<le> 0")
      case le: True
      have "\<exists>i' j' k' tmp' out. merge_heads cmp a (Suc i) mid j fin (Suc k) (tmp[k := a ! i]) = Some (i', j', k', tmp') \<and> i' \<le> mid \<and> mid \<le> j' \<and> j' \<le> fin \<and>
         k' + mid = i' + j' \<and> length tmp' = length (tmp[k := a ! i]) \<and> take k' tmp' = take (Suc k) (tmp[k := a ! i]) @ out \<and>
         drop fin tmp' = drop fin (tmp[k := a ! i]) \<and> ssort cmp (slice (Suc i) mid a @ slice j fin a) = out @ slice i' mid a @ slice j' fin a"
        using less.prems True in_order_slice_tl by (intro less.hyps) auto
      then show ?thesis using True le get put tk two(1)[OF le] sl by (subst merge_heads.simps) fastforce
    next
      case gt: False
      have "\<exists>i' j' k' tmp' out. merge_heads cmp a i mid (Suc j) fin (Suc k) (tmp[k := a ! j]) = Some (i', j', k', tmp') \<and> i' \<le> mid \<and> mid \<le> j' \<and> j' \<le> fin \<and>
         k' + mid = i' + j' \<and> length tmp' = length (tmp[k := a ! j]) \<and> take k' tmp' = take (Suc k) (tmp[k := a ! j]) @ out \<and>
         drop fin tmp' = drop fin (tmp[k := a ! j]) \<and> ssort cmp (slice i mid a @ slice (Suc j) fin a) = out @ slice i' mid a @ slice j' fin a"
        using less.prems True in_order_slice_tl by (intro less.hyps) auto
      then show ?thesis using True gt get put tk two(2)[OF gt] sl by (subst merge_heads.simps) fastforce
    qed
  next
    case False
    then have "ssort cmp (slice i mid a @ slice j fin a) = slice i mid a @ slice j fin a"
      using less.prems ssort_ordered by (cases "i < mid") simp_all
    moreover have "merge_heads cmp a i mid j fin k tmp = Some (i, j, k, tmp)"
      using False by (subst merge_heads.simps) auto
    ultimately show ?thesis using less.prems by auto
  qed
qed

lemma merge_at_correct:
  assumes "start \<le> mid" and "mid \<le> fin" and "fin \<le> length a" and "fin \<le> length tmp"
    and "in_order cmp (slice start mid a)" and "in_order cmp (slice mid fin a)"
  shows "merge_at cmp a start mid fin tmp = Some (take start tmp @ ssort cmp (slice start fin a) @ drop fin tmp)"
proof -
  obtain i j k tmp1 out where m: "merge_heads cmp a start mid mid fin start tmp = Some (i, j, k, tmp1)" "i \<le> mid" "mid \<le> j" "j \<le> fin"
      "k + mid = i + j" "length tmp1 = length tmp" "take k tmp1 = take start tmp @ out" "drop fin tmp1 = drop fin tmp"
      "ssort cmp (slice start mid a @ slice mid fin a) = out @ slice i mid a @ slice j fin a"
    using merge_heads_correct[of mid mid fin start a tmp start] assms by auto
  define tmp2 where "tmp2 = take k tmp1 @ slice i mid a @ drop (k + (mid - i)) tmp1"
  have c1: "copy_records a i mid k tmp1 = Some (k + (mid - i), tmp2)"
    unfolding tmp2_def using m(2-6) assms by (intro copy_records_eq) simp_all
  have kj: "k + (mid - i) = j" using m by simp
  have t2: "length tmp2 = length tmp" "take j tmp2 = take k tmp1 @ slice i mid a" "drop fin tmp2 = drop fin tmp"
    using m(2-6,8) assms(2-4) kj by (simp_all add: drop_append tmp2_def)
  have "copy_records a j fin j tmp2 = Some (j + (fin - j), take j tmp2 @ slice j fin a @ drop (j + (fin - j)) tmp2)"
    using m(2-6) assms t2(1) by (intro copy_records_eq) simp_all
  then have c2: "copy_records a j fin j tmp2 = Some (fin, (take k tmp1 @ slice i mid a) @ slice j fin a @ drop fin tmp)"
    using m(4) by (simp only: le_add_diff_inverse t2(2,3))
  have "merge_at cmp a start mid fin tmp = Some ((take k tmp1 @ slice i mid a) @ slice j fin a @ drop fin tmp)"
    using m(1) c1[unfolded kj] c2 by (simp add: merge_at_def)
  then show ?thesis using m(7,9) assms slice_append[of start mid fin a] by simp
qed

lemma chunk_ordered:
  assumes "chunk_sort cmp m xs = xs" and "0 < m"
  shows "in_order cmp (slice (m * k) (m * k + m) xs)"
proof (cases "drop (m * k) xs = []")
  case False
  have "drop (m * k) xs = ssort cmp (take m (drop (m * k) xs)) @ chunk_sort cmp m (drop m (drop (m * k) xs))"
    using drop_chunk_sort[OF assms(2), of k cmp xs] assms chunk_sort_step[OF assms(2) False] by simp
  then have "take m (drop (m * k) xs) = take m (ssort cmp (take m (drop (m * k) xs)) @ chunk_sort cmp m (drop m (drop (m * k) xs)))" by simp
  also have "\<dots> = ssort cmp (take m (drop (m * k) xs))"
    by (cases "m \<le> length (drop (m * k) xs)") simp_all
  finally show ?thesis using in_order_ssort[of "take m (drop (m * k) xs)"] by (simp add: slice_def)
qed (simp add: slice_def in_order_def)

lemma slice_beyond: "length xs \<le> hi \<Longrightarrow> slice lo hi xs = slice lo (length xs) xs"
  by (simp add: slice_def)

lemma chunk_ordered':
  assumes "chunk_sort cmp m xs = xs" and "0 < m" and "m dvd lo"
  shows "in_order cmp (slice lo (min (lo + m) (length xs)) xs)"
proof -
  obtain k where k: "lo = m * k" using assms(3) by (elim dvdE)
  have "slice lo (min (lo + m) (length xs)) xs = slice lo (lo + m) xs" using slice_beyond[of xs "lo + m" lo] by (simp add: min_def)
  then show ?thesis using chunk_ordered[OF assms(1,2), of k] k by simp
qed

lemma merge_width_correct:
  assumes "chunk_sort cmp width a = a" and "0 < width" and "width * 2 dvd start" and "length tmp = length a"
  shows "merge_width cmp a (length a) width start tmp = Some (take start tmp @ chunk_sort cmp (width * 2) (drop start a))"
  using assms(3,4)
proof (induction "length a - start" arbitrary: start tmp rule: less_induct)
  case less
  show ?case
  proof (cases "start < length a")
    case True
    define mid where "mid = min (start + width) (length a)"
    define fin where "fin = min (mid + width) (length a)"
    have mf: "start \<le> mid" "mid \<le> fin" "fin \<le> length a" "fin = min (start + width * 2) (length a)"
      using True by (simp_all add: mid_def fin_def)
    have "in_order cmp (slice start mid a)"
      unfolding mid_def using less.prems(1) by (intro chunk_ordered'[OF assms(1,2)]) (rule dvd_mult_left)
    moreover have "in_order cmp (slice mid fin a)"
    proof (cases "start + width < length a")
      case True
      then have "mid = start + width" by (simp add: mid_def)
      then show ?thesis
        unfolding fin_def using less.prems(1) by (intro chunk_ordered'[OF assms(1,2)]) (simp add: dvd_mult_left)
    next
      case False
      then show ?thesis by (simp add: mid_def fin_def in_order_def)
    qed
    ultimately have at: "merge_at cmp a start mid fin tmp = Some (take start tmp @ ssort cmp (slice start fin a) @ drop fin tmp)" (is "_ = Some ?tmp")
      using mf less.prems(2) by (intro merge_at_correct) simp_all
    have len: "length ?tmp = length a" using mf less.prems(2) by simp
    have "merge_width cmp a (length a) width start tmp = merge_width cmp a (length a) width (start + width * 2) ?tmp"
    proof -
      have "(if start + width < length a then start + width else length a) = mid" "(if mid + width < length a then mid + width else length a) = fin"
        by (simp_all add: mid_def fin_def min_def)
      then show ?thesis using True at by (subst merge_width.simps) (simp add: Let_def)
    qed
    also have "\<dots> = Some (take (start + width * 2) ?tmp @ chunk_sort cmp (width * 2) (drop (start + width * 2) a))"
      using less.hyps[of "start + width * 2" ?tmp] True assms(2) less.prems(1) len by simp
    also have "take (start + width * 2) ?tmp = take start tmp @ ssort cmp (slice start fin a)"
      using mf(4) less.prems(2) True mf(3) by (cases "start + width * 2 \<le> length a") simp_all
    also have "slice start fin a = take (width * 2) (drop start a)"
      using mf(4) by (cases "start + width * 2 \<le> length a") (simp_all add: slice_def)
    finally show ?thesis using True assms(2) by (simp add: chunk_sort_step[of "width * 2" "drop start a"] add.commute)
  next
    case False
    then show ?thesis using less.prems by (subst merge_width.simps) simp
  qed
qed

lemma runsort_loop_correct:
  assumes "chunk_sort cmp width a = a" and "0 < width" and "length tmp = length a"
  shows "runsort_loop cmp (length a) width a tmp = Some (ssort cmp a)"
  using assms
proof (induction "length a - width" arbitrary: width a tmp rule: less_induct)
  case less
  show ?case
  proof (cases "width < length a")
    case True
    let ?a = "chunk_sort cmp (width * 2) a"
    have w: "merge_width cmp a (length a) width 0 tmp = Some ?a"
      using merge_width_correct[OF less.prems(1,2), of 0 tmp] less.prems(3) by simp
    have whole: "?a = ssort cmp a" if "length a div 2 < width" using that by (intro chunk_sort_all) simp
    have "runsort_loop cmp (length ?a) (width * 2) ?a ?a = Some (ssort cmp ?a)"
      using less.prems True chunk_sort_merge[of "width * 2" 1 a] by (intro less.hyps) auto
    then have next_width: "runsort_loop cmp (length a) (width * 2) ?a ?a = Some (ssort cmp a)" by (simp add: ssort_chunk_sort)
    show ?thesis using True w whole next_width by (subst runsort_loop.simps) simp
  next
    case False
    then have "chunk_sort cmp width a = ssort cmp a" by (intro chunk_sort_all) simp
    then show ?thesis using False less.prems by (subst runsort_loop.simps) simp
  qed
qed

lemma chunk_sort_1: "chunk_sort cmp 1 xs = xs"
proof (induction xs)
  case (Cons x xs)
  then show ?case by (simp add: chunk_sort_step)
qed simp

lemma runsort_correct: "length tmp = length a \<Longrightarrow> tc_sort_stable_runsort cmp (length a) a tmp = Some (ssort cmp a)"
  unfolding tc_sort_stable_runsort_def by (rule runsort_loop_correct[OF chunk_sort_1]) simp_all

end

end
