(* ===== verification/Tagcache_Merge_Inv.thy ===== *)
theory Tagcache_Merge_Inv
  imports Tagcache_Sort_Inv
begin

text \<open>
  The merge passes of the external sort: readers deliver their runs, the heap has the next record at its
  root, and a pass turns sorted runs into longer sorted runs.
\<close>

section \<open>Readers\<close>

lemma slice_take: "hi \<le> n \<Longrightarrow> slice lo hi (take n xs) = slice lo hi xs"
  by (simp add: slice_def drop_take min_def)

definition rest :: "'a list \<Rightarrow> 'a tc_sort_reader \<Rightarrow> 'a list" where
  "rest data r = drop (rd_pos r) (rd_buf r) @ slice (rd_next r) (rd_end r) data"

definition reader_ok :: "'a list \<Rightarrow> 'a tc_sort_reader \<Rightarrow> bool" where
  "reader_ok data r \<longleftrightarrow> rd_next r \<le> rd_end r \<and> rd_end r \<le> length data \<and> 0 < rd_cap r \<and>
     (rd_pos r < length (rd_buf r) \<or> rd_pos r = 0 \<and> rd_buf r = [] \<and> rd_next r = rd_end r)"

lemma rest_empty_iff: "reader_ok data r \<Longrightarrow> rest data r = [] \<longleftrightarrow> rd_pos r = length (rd_buf r)"
  by (auto simp: reader_ok_def rest_def)

lemma rest_hd: "reader_ok data r \<Longrightarrow> rest data r \<noteq> [] \<Longrightarrow> tc_sort_reader_record r = Some (hd (rest data r))"
  by (auto simp: reader_ok_def rest_def tc_sort_reader_record_def rec_get_def hd_append hd_drop_conv_nth)

lemma reader_fill_ok:
  assumes "rd_next r \<le> rd_end r" and "rd_end r \<le> length data" and "0 < rd_cap r"
  shows "case tc_sort_reader_fill rd_ok data r of
      None \<Rightarrow> \<not> rd_ok (rd_next r)
    | Some r' \<Rightarrow> reader_ok data r' \<and> rest data r' = slice (rd_next r) (rd_end r) data"
proof (cases "rd_next r < rd_end r")
  case True
  define want where "want = min (rd_end r - rd_next r) (rd_cap r)"
  have w: "0 < want" "rd_next r + want \<le> rd_end r" using True assms by (simp_all add: want_def)
  have "slice (rd_next r) (rd_next r + want) data @ slice (rd_next r + want) (rd_end r) data = slice (rd_next r) (rd_end r) data"
    using w by (intro slice_append) simp_all
  then show ?thesis
    using True assms w by (auto simp: tc_sort_reader_fill_def read_records_def reader_ok_def rest_def slice_def simp flip: want_def)
qed (use assms in \<open>auto simp: tc_sort_reader_fill_def reader_ok_def rest_def\<close>)

lemma reader_advance_ok:
  assumes ok: "reader_ok data r" and live: "rest data r \<noteq> []"
  shows "case tc_sort_reader_advance rd_ok data r of
      None \<Rightarrow> \<not> rd_ok (rd_next r)
    | Some r' \<Rightarrow> reader_ok data r' \<and> rest data r' = tl (rest data r)"
proof -
  have pos: "rd_pos r < length (rd_buf r)" using ok live by (auto simp: reader_ok_def rest_def)
  show ?thesis
  proof (cases "rd_pos r + 1 = length (rd_buf r)")
    case True
    then have "tl (rest data r) = slice (rd_next r) (rd_end r) data"
      by (simp add: rest_def Cons_nth_drop_Suc[symmetric, OF pos])
    then show ?thesis
      using True ok reader_fill_ok[of "r\<lparr>rd_pos := rd_pos r + 1\<rparr>" data rd_ok]
      by (auto simp: tc_sort_reader_advance_def Let_def reader_ok_def split: option.splits)
  next
    case False
    then show ?thesis using ok pos
      by (auto simp: tc_sort_reader_advance_def Let_def reader_ok_def rest_def tl_drop drop_Suc tl_append2)
  qed
qed

section \<open>The heap\<close>

definition current :: "'a tc_sort_reader list \<Rightarrow> nat \<Rightarrow> 'a" where
  "current readers i = rd_buf (readers ! i) ! rd_pos (readers ! i)"

definition index_before :: "('a \<Rightarrow> 'a \<Rightarrow> int) \<Rightarrow> 'a tc_sort_reader list \<Rightarrow> nat \<Rightarrow> nat \<Rightarrow> bool" where
  "index_before cmp readers i j \<longleftrightarrow> cmp (current readers i) (current readers j) < 0 \<or>
     cmp (current readers i) (current readers j) = 0 \<and> i < j"

definition live :: "'a tc_sort_reader list \<Rightarrow> nat list \<Rightarrow> bool" where
  "live readers heap \<longleftrightarrow> (\<forall>i \<in> set heap. i < length readers \<and> rd_pos (readers ! i) < length (rd_buf (readers ! i)))"

lemma live_mset: "live readers h \<Longrightarrow> mset h' = mset h \<Longrightarrow> live readers h'"
  using mset_eq_setD[of h' h] by (simp add: live_def)

lemma heap_before_eq:
  "live readers heap \<Longrightarrow> a < length heap \<Longrightarrow> b < length heap \<Longrightarrow>
     tc_sort_heap_before cmp readers heap a b = Some (index_before cmp readers (heap ! a) (heap ! b))"
  by (simp add: tc_sort_heap_before_def rec_get_def live_def tc_sort_reader_record_def index_before_def current_def)

lemma heap_swap_eq: "a < length heap \<Longrightarrow> b < length heap \<Longrightarrow> heap_swap heap a b = Some (swap_at heap a b)"
  by (simp add: heap_swap_def rec_get_def rec_put_def swap_at_def)

sublocale record_order \<subseteq> hp: heap_order "index_before cmp readers" for readers :: "'a tc_sort_reader list"
proof
  fix i j k
  show "\<not> index_before cmp readers i i" by (simp add: index_before_def)
  show "index_before cmp readers i j \<or> i = j \<or> index_before cmp readers j i"
    using cmp_swap[of "current readers i" "current readers j"] cmp_swap[of "current readers j" "current readers i"]
    by (auto simp: index_before_def)
  let ?x = "current readers i" and ?y = "current readers j" and ?z = "current readers k"
  assume ij: "index_before cmp readers i j" and jk: "index_before cmp readers j k"
  show "index_before cmp readers i k"
  proof (cases "cmp ?x ?y = 0 \<and> cmp ?y ?z = 0")
    case True
    then have "cmp ?x ?z \<le> 0" using cmp_trans[of ?x ?y ?z] by simp
    then show ?thesis using True ij jk by (auto simp: index_before_def)
  next
    case False
    then show ?thesis using ij jk cmp_less_trans[of ?x ?y ?z] cmp_less_trans'[of ?x ?y ?z] by (auto simp: index_before_def)
  qed
qed

context record_order
begin

lemma sift_up_correct:
  assumes "live readers heap" and "at < length heap" and "hp.up_ok readers heap at"
  shows "\<exists>heap'. tc_sort_heap_sift_up cmp readers heap at = Some heap' \<and> mset heap' = mset heap \<and> hp.heap_ok readers heap'"
  using assms
proof (induction at arbitrary: heap rule: less_induct)
  case (less at)
  show ?case
  proof (cases "0 < at \<and> index_before cmp readers (heap ! at) (heap ! parent at)")
    case True
    have p: "parent at < at" using True by (simp add: parent_less)
    let ?h = "swap_at heap at (parent at)"
    have h: "mset ?h = mset heap" "length ?h = length heap" using p less.prems(2) by simp_all
    have "\<exists>heap'. tc_sort_heap_sift_up cmp readers ?h (parent at) = Some heap' \<and> mset heap' = mset ?h \<and> hp.heap_ok readers heap'"
      using p less.prems True hp.up_step live_mset[OF less.prems(1) h(1)] by (intro less.IH) simp_all
    then show ?thesis
      using True p less.prems(1,2) heap_before_eq[of readers heap at "parent at" cmp] heap_swap_eq[of at heap "parent at"] h
      by (subst tc_sort_heap_sift_up.simps) (simp add: parent_def)
  next
    case False
    have "hp.heap_ok readers heap" using hp.up_stop[OF less.prems(3)] False by auto
    moreover have "tc_sort_heap_sift_up cmp readers heap at = Some heap"
    proof (cases "0 < at")
      case True
      then have "parent at < length heap" using less.prems(2) parent_less[of at] by simp
      then show ?thesis using False True less.prems(1,2) heap_before_eq[of readers heap at "parent at" cmp]
        by (subst tc_sort_heap_sift_up.simps) (simp add: parent_def)
    qed (subst tc_sort_heap_sift_up.simps, simp)
    ultimately show ?thesis by simp
  qed
qed

lemma heap_best_eq:
  assumes "live readers heap" and "best < length heap"
  shows "heap_best cmp readers heap child best =
     Some (if child < length heap \<and> index_before cmp readers (heap ! child) (heap ! best) then child else best)"
  using assms heap_before_eq[of readers heap child best cmp] by (simp add: heap_best_def)

lemma sift_down_correct:
  assumes "live readers heap" and "at < length heap" and "hp.down_ok readers heap at"
  shows "\<exists>heap'. tc_sort_heap_sift_down cmp readers heap at = Some heap' \<and> mset heap' = mset heap \<and> hp.heap_ok readers heap'"
  using assms
proof (induction "length heap - at" arbitrary: heap at rule: less_induct)
  case less
  let ?lt = "index_before cmp readers"
  define l where "l = (if at * 2 + 1 < length heap \<and> ?lt (heap ! (at * 2 + 1)) (heap ! at) then at * 2 + 1 else at)"
  define b where "b = (if at * 2 + 2 < length heap \<and> ?lt (heap ! (at * 2 + 2)) (heap ! l) then at * 2 + 2 else l)"
  have len: "l < length heap" "b < length heap" using less.prems(2) by (auto simp: l_def b_def)
  have l: "heap_best cmp readers heap (at * 2 + 1) at = Some l" "heap_best cmp readers heap (at * 2 + 2) l = Some b"
    unfolding l_def b_def using less.prems len(1) by (simp_all add: heap_best_eq l_def)
  have asym: "\<not> ?lt y x" if "?lt x y" for x y using that hp.lt_trans hp.lt_irrefl by blast
  have lb: "\<not> ?lt (heap ! l) (heap ! b)" "?lt (heap ! b) (heap ! l) \<or> b = l"
    using asym hp.lt_irrefl by (auto simp: b_def)
  have la: "?lt (heap ! l) (heap ! at) \<or> l = at" by (simp add: l_def)
  have left: "\<not> ?lt (heap ! (at * 2 + 1)) (heap ! l)" if "at * 2 + 1 < length heap"
    using that hp.lt_irrefl by (auto simp: l_def)
  have right: "\<not> ?lt (heap ! (at * 2 + 2)) (heap ! b)" if "at * 2 + 2 < length heap"
    using that hp.lt_irrefl by (auto simp: b_def)
  have least: "\<not> ?lt (heap ! k) (heap ! b)" if "0 < k" "k < length heap" "parent k = at" for k
    using that parent_eq[OF that(1), of at] right hp.not_lt_trans[OF lb(1) left] by auto
  show ?case
  proof (cases "b = at")
    case True
    have "hp.heap_ok readers heap" using hp.down_stop[OF less.prems(3)] least True by blast
    then show ?thesis using l True by (subst tc_sort_heap_sift_down.simps) simp
  next
    case False
    then have b: "0 < b" "parent b = at" "at < b" by (auto simp: b_def l_def parent_def split: if_splits)
    have lt: "?lt (heap ! b) (heap ! at)" using False lb(2) la hp.lt_trans by metis
    let ?h = "swap_at heap at b"
    have h: "mset ?h = mset heap" "length ?h = length heap" using len(2) less.prems(2) by simp_all
    have "\<exists>heap'. tc_sort_heap_sift_down cmp readers ?h b = Some heap' \<and> mset heap' = mset ?h \<and> hp.heap_ok readers heap'"
    proof (rule less.hyps)
      show "length ?h - b < length heap - at" using b(3) len(2) by simp
      show "live readers ?h" by (rule live_mset[OF less.prems(1) h(1)])
      show "b < length ?h" using len(2) by simp
      show "hp.down_ok readers ?h b" by (rule hp.down_step[OF less.prems(3) b(1) len(2) b(2) lt least])
    qed
    then show ?thesis using l False h heap_swap_eq[OF less.prems(2) len(2)] by (subst tc_sort_heap_sift_down.simps) simp
  qed
qed

end

section \<open>Merging a group of runs\<close>

lemma mset_drop_root: "h \<noteq> [] \<Longrightarrow> mset (case butlast h of [] \<Rightarrow> [] | _ # hs \<Rightarrow> last h # hs) = mset (tl h)"
proof -
  assume h: "h \<noteq> []"
  then obtain x xs where x: "h = x # xs" by (cases h) auto
  show ?thesis
  proof (cases "xs = []")
    case False
    have "add_mset (last xs) (mset (butlast xs)) = mset xs"
      using arg_cong[OF append_butlast_last_id[OF False], of mset] by (simp del: append_butlast_last_id)
    then show ?thesis using x False by simp
  qed (simp add: x)
qed

lemma nth_drop_root:
  assumes "0 < k" and "k < length (case butlast h of [] \<Rightarrow> [] | _ # hs \<Rightarrow> last h # hs)"
  shows "(case butlast h of [] \<Rightarrow> [] | _ # hs \<Rightarrow> last h # hs) ! k = h ! k"
proof (cases "butlast h")
  case (Cons b hs)
  then have "(last h # hs) ! k = butlast h ! k" "k < length (butlast h)" using assms by (cases k; simp)+
  then show ?thesis using nth_butlast[of k h] by (simp only: Cons list.case)
qed (use assms in simp)

lemma current_hd: "reader_ok data (readers ! i) \<Longrightarrow> rest data (readers ! i) \<noteq> [] \<Longrightarrow> current readers i = hd (rest data (readers ! i))"
  using rest_hd[of data "readers ! i"] by (auto simp: tc_sort_reader_record_def rec_get_def current_def split: if_splits)

definition pending :: "'a list \<Rightarrow> 'a merge_state \<Rightarrow> 'a list" where
  "pending data s = concat (map (rest data) (ms_readers s))"

definition written :: "'a merge_state \<Rightarrow> 'a list" where
  "written s = ms_data s @ ms_out s"

definition out_ok :: "nat \<Rightarrow> 'a merge_state \<Rightarrow> bool" where
  "out_ok out_cap s \<longleftrightarrow> ms_record s = length (ms_data s) \<and> length (ms_out s) < out_cap"

lemma flush_out_ok:
  assumes "ms_record s = length (ms_data s)" and "0 < out_cap"
  shows "case flush_out wr_ok s of
      None \<Rightarrow> \<not> wr_ok (ms_record s)
    | Some s' \<Rightarrow> out_ok out_cap s' \<and> written s' = written s \<and> ms_data s' = written s \<and> ms_readers s' = ms_readers s \<and> ms_heap s' = ms_heap s"
  using assms by (simp add: flush_out_def write_records_def out_ok_def written_def)

context record_order
begin

definition readers_ok :: "'a list \<Rightarrow> 'a tc_sort_reader list \<Rightarrow> nat list \<Rightarrow> bool" where
  "readers_ok data readers heap \<longleftrightarrow> (\<forall>r \<in> set readers. reader_ok data r \<and> in_order cmp (rest data r)) \<and>
     hp.heap_ok readers heap \<and> distinct heap \<and> set heap = {i. i < length readers \<and> rest data (readers ! i) \<noteq> []}"

lemma live_set:
  assumes "\<forall>r \<in> set readers. reader_ok data r" and "set heap \<subseteq> {i. i < length readers \<and> rest data (readers ! i) \<noteq> []}"
  shows "live readers heap"
proof -
  have "rd_pos (readers ! i) < length (rd_buf (readers ! i))" if "i < length readers" "rest data (readers ! i) \<noteq> []" for i
    using assms(1) that rest_empty_iff[of data "readers ! i"] by (auto simp: reader_ok_def)
  then show ?thesis using assms(2) by (auto simp: live_def)
qed

lemma down_root:
  assumes "hp.heap_ok readers heap" and "length h \<le> length heap"
    and "\<And>k. 0 < k \<Longrightarrow> k < length h \<Longrightarrow> h ! k = heap ! k \<and> current readers' (heap ! k) = current readers (heap ! k)"
  shows "hp.down_ok readers' h 0"
proof -
  have "\<not> index_before cmp readers' (h ! k) (h ! parent k)" if "0 < k" "k < length h" "parent k \<noteq> 0" for k
  proof -
    have p: "0 < parent k" "parent k < length h" using that parent_less[of k] by simp_all
    have "\<not> index_before cmp readers (heap ! k) (heap ! parent k)" using assms(1,2) that by (simp add: hp.heap_ok_def)
    then show ?thesis using assms(3)[OF that(1,2)] assms(3)[OF p] by (simp add: index_before_def)
  qed
  then show ?thesis by (simp add: hp.down_ok_def)
qed

text \<open>The root of the heap is the reader whose record comes next.\<close>

lemma readers_root:
  assumes ok: "readers_ok data readers heap" and ne: "heap \<noteq> []"
  defines "c \<equiv> heap ! 0"
  shows "c < length readers" and "reader_ok data (readers ! c)" and "rest data (readers ! c) \<noteq> []"
    and "ssort cmp (concat (map (rest data) readers)) =
      hd (rest data (readers ! c)) # ssort cmp (concat ((map (rest data) readers)[c := tl (rest data (readers ! c))]))"
proof -
  have "c \<in> set heap" using ne by (simp add: c_def)
  then have c: "c < length readers" "rest data (readers ! c) \<noteq> []" using ok by (auto simp: readers_ok_def)
  then show "c < length readers" "reader_ok data (readers ! c)" "rest data (readers ! c) \<noteq> []"
    using ok by (auto simp: readers_ok_def)
  let ?xss = "map (rest data) readers"
  show "ssort cmp (concat ?xss) = hd (rest data (readers ! c)) # ssort cmp (concat (?xss[c := tl (rest data (readers ! c))]))"
  proof (rule kmerge_step)
    show "\<forall>xs \<in> set ?xss. in_order cmp xs" using ok by (auto simp: readers_ok_def)
    show "c < length ?xss" "?xss ! c = hd (rest data (readers ! c)) # tl (rest data (readers ! c))" using c by simp_all
    fix j y ys assume j: "j < length ?xss" "?xss ! j = y # ys" "j \<noteq> c"
    then have "j \<in> set heap" using ok by (simp add: readers_ok_def)
    then have "index_before cmp readers c j" using hp.heap_root_least[of readers heap j] ok j(3) by (simp add: readers_ok_def c_def)
    moreover have "current readers c = hd (rest data (readers ! c))" "current readers j = y"
      using ok c j current_hd[of data readers] by (auto simp: readers_ok_def)
    ultimately show "cmp (hd (rest data (readers ! c))) y < 0 \<or> cmp (hd (rest data (readers ! c))) y = 0 \<and> c < j"
      by (simp add: index_before_def)
  qed
qed

lemma advance_heap:
  assumes ok: "readers_ok data readers heap" and ne: "heap \<noteq> []"
  defines "c \<equiv> heap ! 0"
  assumes r: "reader_ok data r" "rest data r = tl (rest data (readers ! c))"
  defines "h \<equiv> drop_exhausted r heap"
  shows "\<exists>h'. (if h \<noteq> [] then tc_sort_heap_sift_down cmp (readers[c := r]) h 0 else Some h) = Some h' \<and> readers_ok data (readers[c := r]) h'"
proof -
  let ?R = "readers[c := r]"
  have c: "c < length readers" "rest data (readers ! c) \<noteq> []" using readers_root[OF ok ne] by (simp_all add: c_def)
  have ord: "in_order cmp (rest data (readers ! c))" using ok c(1) by (simp add: readers_ok_def)
  have all: "\<forall>r \<in> set ?R. reader_ok data r \<and> in_order cmp (rest data r)"
  proof
    fix q assume "q \<in> set ?R"
    moreover have "in_order cmp (tl (rest data (readers ! c)))" using ord by (cases "rest data (readers ! c)") (auto simp: in_order_def)
    ultimately show "reader_ok data q \<and> in_order cmp (rest data q)"
      using ok r set_update_subset_insert[of readers c r] by (auto simp: readers_ok_def)
  qed
  have ex: "rest data r = [] \<longleftrightarrow> rd_pos r = length (rd_buf r)" by (rule rest_empty_iff[OF r(1)])
  have mset_h: "mset h = (if rest data r = [] then mset (tl heap) else mset heap)"
    using mset_drop_root[OF ne] by (simp add: h_def drop_exhausted_def ex)
  have heap: "heap = c # tl heap" using ne by (cases heap) (simp_all add: c_def)
  have dist: "distinct heap" "set heap = {i. i < length readers \<and> rest data (readers ! i) \<noteq> []}" using ok by (simp_all add: readers_ok_def)
  have set_tl: "set (tl heap) = set heap - {c}"
  proof -
    have "c \<notin> set (tl heap)" using dist(1) heap by (metis distinct.simps(2))
    moreover have "set heap = insert c (set (tl heap))" using heap by (metis list.simps(15))
    ultimately show ?thesis by blast
  qed
  have set_h: "set h = {i. i < length ?R \<and> rest data (?R ! i) \<noteq> []}"
    using mset_eq_setD[of h "if rest data r = [] then tl heap else heap"] mset_h dist(2) set_tl c
    by (auto simp: nth_list_update split: if_splits)
  have dist_h: "distinct h"
    using mset_h dist(1) distinct_tl[OF dist(1)] mset_eq_imp_distinct_iff[of h "if rest data r = [] then tl heap else heap"] by (auto split: if_splits)
  have lv: "live ?R h" using live_set[of ?R data h] all set_h by blast
  have down: "hp.down_ok ?R h 0"
  proof (rule down_root)
    show "hp.heap_ok readers heap" using ok by (simp add: readers_ok_def)
    show "length h \<le> length heap" using mset_h size_mset[of h] size_mset[of heap] size_mset[of "tl heap"] by (auto split: if_splits)
    fix k assume k: "0 < k" "k < length h"
    then have "h ! k = heap ! k" using nth_drop_root[of k heap] by (auto simp: h_def drop_exhausted_def split: if_splits)
    moreover have "heap ! k \<noteq> c" using dist(1) k \<open>length h \<le> length heap\<close> ne
      by (simp add: c_def nth_eq_iff_index_eq)
    ultimately show "h ! k = heap ! k \<and> current ?R (heap ! k) = current readers (heap ! k)"
      by (simp add: current_def)
  qed
  show ?thesis
  proof (cases "h = []")
    case True
    then show ?thesis using all set_h by (simp add: readers_ok_def hp.heap_ok_def)
  next
    case False
    then obtain h' where h': "tc_sort_heap_sift_down cmp ?R h 0 = Some h'" "mset h' = mset h" "hp.heap_ok ?R h'"
      using sift_down_correct[OF lv _ down] by auto
    then show ?thesis using False all set_h dist_h mset_eq_setD[OF h'(2)] mset_eq_imp_distinct_iff[OF h'(2)] by (simp add: readers_ok_def)
  qed
qed

end

context record_order
begin

definition step_ok :: "'a list \<Rightarrow> nat \<Rightarrow> 'a merge_state \<Rightarrow> 'a merge_state \<Rightarrow> bool" where
  "step_ok data out_cap s s' \<longleftrightarrow> readers_ok data (ms_readers s') (ms_heap s') \<and> out_ok out_cap s' \<and>
     written s' @ ssort cmp (pending data s') = written s @ ssort cmp (pending data s)"

lemma merge_step_ok:
  assumes ok: "readers_ok data (ms_readers s) (ms_heap s)" and ne: "ms_heap s \<noteq> []" and out: "out_ok out_cap s"
  shows "\<exists>res. merge_step cmp rd_ok wr_ok data out_cap s = Some res \<and>
     (case res of None \<Rightarrow> \<exists>k. \<not> rd_ok k \<or> \<not> wr_ok k
      | Some s' \<Rightarrow> step_ok data out_cap s s' \<and> length (pending data s') < length (pending data s))"
proof -
  define c where "c = ms_heap s ! 0"
  note root = readers_root[OF ok ne, folded c_def]
  let ?r = "ms_readers s ! c" and ?x = "hd (rest data (ms_readers s ! c))"
  have get: "rec_get (ms_heap s) 0 = Some c" "rec_get (ms_readers s) c = Some ?r" "tc_sort_reader_record ?r = Some ?x"
    using ne root rest_hd by (simp_all add: rec_get_def c_def)
  have room: "\<not> out_cap \<le> length (ms_out s)" using out by (simp add: out_ok_def)
  note adv = reader_advance_ok[OF root(2,3), of rd_ok]
  show ?thesis
  proof (cases "tc_sort_reader_advance rd_ok data ?r")
    case None
    then show ?thesis using adv get room by (auto simp: merge_step_def Let_def)
  next
    case (Some r)
    then have r: "reader_ok data r" "rest data r = tl (rest data ?r)" using adv by simp_all
    obtain h' where h': "(if drop_exhausted r (ms_heap s) \<noteq> [] then tc_sort_heap_sift_down cmp ((ms_readers s)[c := r]) (drop_exhausted r (ms_heap s)) 0
          else Some (drop_exhausted r (ms_heap s))) = Some h'" "readers_ok data ((ms_readers s)[c := r]) h'"
      using advance_heap[OF ok ne, folded c_def, OF r] by blast
    define s1 where "s1 = s\<lparr>ms_out := ms_out s @ [?x], ms_readers := (ms_readers s)[c := r], ms_heap := h'\<rparr>"
    have step: "merge_step cmp rd_ok wr_ok data out_cap s = Some (if length (ms_out s1) = out_cap then flush_out wr_ok s1 else Some s1)"
      using get room Some h'(1) by (simp add: merge_step_def Let_def s1_def)
    have "pending data s1 = concat ((map (rest data) (ms_readers s))[c := tl (rest data ?r)])"
      by (simp add: pending_def s1_def map_update r(2))
    then have sorted: "ssort cmp (pending data s) = ?x # ssort cmp (pending data s1)" using root(4) by (simp add: pending_def)
    have "length (pending data s) = length (ssort cmp (pending data s))" by simp
    then have less: "length (pending data s1) < length (pending data s)" unfolding sorted by simp
    have w: "written s1 @ ssort cmp (pending data s1) = written s @ ssort cmp (pending data s)"
      using sorted by (simp add: written_def s1_def)
    have s1: "readers_ok data (ms_readers s1) (ms_heap s1)" "ms_record s1 = length (ms_data s1)" "length (ms_out s1) \<le> out_cap" "0 < out_cap"
      using h'(2) out by (simp_all add: s1_def out_ok_def)
    show ?thesis
    proof (cases "length (ms_out s1) = out_cap")
      case True
      note fl = flush_out_ok[OF s1(2,4), of wr_ok]
      show ?thesis
      proof (cases "flush_out wr_ok s1")
        case None
        then show ?thesis using step True fl by auto
      next
        case (Some s2)
        then have s2: "out_ok out_cap s2" "written s2 = written s1" "ms_readers s2 = ms_readers s1" "ms_heap s2 = ms_heap s1" using fl by simp_all
        then have "pending data s2 = pending data s1" by (simp add: pending_def)
        then show ?thesis using step True Some s2 s1(1) w less by (simp add: step_ok_def)
      qed
    next
      case False
      then show ?thesis using step s1 w less by (simp add: step_ok_def out_ok_def)
    qed
  qed
qed

lemma pending_empty: "readers_ok data (ms_readers s) [] \<Longrightarrow> pending data s = []"
  by (auto simp: readers_ok_def pending_def in_set_conv_nth)

lemma merge_group_ok:
  assumes "readers_ok data (ms_readers s) (ms_heap s)" and "out_ok out_cap s"
  shows "\<exists>res. merge_group cmp rd_ok wr_ok data out_cap s = Some res \<and>
     (case res of None \<Rightarrow> \<exists>k. \<not> rd_ok k \<or> \<not> wr_ok k
      | Some s' \<Rightarrow> out_ok out_cap s' \<and> written s' = written s @ ssort cmp (pending data s))"
  using assms
proof (induction "length (pending data s)" arbitrary: s rule: less_induct)
  case less
  show ?case
  proof (cases "ms_heap s = []")
    case True
    then have "pending data s = []" using less.prems(1) pending_empty by simp
    then show ?thesis using True less.prems by (subst merge_group.simps) simp
  next
    case False
    obtain res where res: "merge_step cmp rd_ok wr_ok data out_cap s = Some res"
        "case res of None \<Rightarrow> \<exists>k. \<not> rd_ok k \<or> \<not> wr_ok k
         | Some s' \<Rightarrow> step_ok data out_cap s s' \<and> length (pending data s') < length (pending data s)"
      using merge_step_ok[OF less.prems(1) False less.prems(2)] by blast
    show ?thesis
    proof (cases res)
      case None
      then show ?thesis using res False by (subst merge_group.simps) simp
    next
      case (Some s1)
      then have s1: "step_ok data out_cap s s1" "length (pending data s1) < length (pending data s)" using res(2) by simp_all
      have "merge_group cmp rd_ok wr_ok data out_cap s = merge_group cmp rd_ok wr_ok data out_cap s1"
        using res(1) Some False by (subst merge_group.simps) simp
      moreover have eq: "written s @ ssort cmp (pending data s) = written s1 @ ssort cmp (pending data s1)"
        and ok1: "readers_ok data (ms_readers s1) (ms_heap s1)" "out_ok out_cap s1"
        using s1(1) by (simp_all add: step_ok_def)
      ultimately show ?thesis using less.hyps[OF s1(2) ok1] unfolding eq by simp
    qed
  qed
qed

section \<open>Opening the readers of a group\<close>

lemma readers_ok_snoc:
  assumes ok: "readers_ok data readers heap" and r: "reader_ok data r" "in_order cmp (rest data r)"
  shows "\<exists>h'. (if rd_pos r < length (rd_buf r)
        then tc_sort_heap_sift_up cmp (readers @ [r]) (heap @ [length readers]) (length heap) else Some heap) = Some h' \<and>
      readers_ok data (readers @ [r]) h'"
proof -
  let ?R = "readers @ [r]" and ?h = "heap @ [length readers]"
  have heap: "set heap = {i. i < length readers \<and> rest data (readers ! i) \<noteq> []}" "distinct heap" using ok by (simp_all add: readers_ok_def)
  have all: "\<forall>q \<in> set ?R. reader_ok data q \<and> in_order cmp (rest data q)" using ok r by (auto simp: readers_ok_def)
  have agree: "current ?R i = current readers i" if "i < length readers" for i using that by (simp add: current_def nth_append)
  have hok: "hp.heap_ok ?R heap"
  proof -
    have cur: "current ?R (heap ! k) = current readers (heap ! k)" if "k < length heap" for k
      using heap(1) nth_mem[OF that] by (intro agree) blast
    have "\<not> index_before cmp ?R (heap ! k) (heap ! parent k)" if "0 < k" "k < length heap" for k
    proof -
      have "parent k < length heap" using parent_less[OF that(1)] that(2) by simp
      moreover have "\<not> index_before cmp readers (heap ! k) (heap ! parent k)" using ok that by (simp add: readers_ok_def hp.heap_ok_def)
      ultimately show ?thesis using cur that(2) by (simp add: index_before_def)
    qed
    then show ?thesis by (simp add: hp.heap_ok_def)
  qed
  have live_r: "rd_pos r < length (rd_buf r) \<longleftrightarrow> rest data r \<noteq> []"
    using rest_empty_iff[OF r(1)] r(1) by (auto simp: reader_ok_def)
  have set_R: "{i. i < length ?R \<and> rest data (?R ! i) \<noteq> []} = set heap \<union> (if rest data r = [] then {} else {length readers})"
    unfolding heap(1) by (auto simp: nth_append less_Suc_eq split: if_splits)
  show ?thesis
  proof (cases "rest data r = []")
    case True
    then have "{i. i < length ?R \<and> rest data (?R ! i) \<noteq> []} = set heap" using set_R by simp
    then show ?thesis using True live_r all hok heap(2) by (simp add: readers_ok_def)
  next
    case False
    then have set_h: "set ?h = {i. i < length ?R \<and> rest data (?R ! i) \<noteq> []}" using set_R by simp
    have "live ?R ?h"
    proof (rule live_set)
      show "\<forall>q \<in> set ?R. reader_ok data q" using all by blast
      show "set ?h \<subseteq> {i. i < length ?R \<and> rest data (?R ! i) \<noteq> []}" unfolding set_h by (rule subset_refl)
    qed
    then obtain h' where h': "tc_sort_heap_sift_up cmp ?R ?h (length heap) = Some h'" "mset h' = mset ?h" "hp.heap_ok ?R h'"
      using sift_up_correct[of ?R ?h "length heap"] hp.up_start[OF hok] by auto
    have "length readers \<notin> set heap" unfolding heap(1) by simp
    then have "distinct ?h" using heap(2) by simp
    then have "distinct h'" "set h' = set ?h" using mset_eq_imp_distinct_iff[OF h'(2)] mset_eq_setD[OF h'(2)] by simp_all
    then show ?thesis using False live_r h' all set_h by (simp add: readers_ok_def)
  qed
qed

lemma open_readers_ok:
  assumes run: "0 < run_len" "chunk_sort cmp run_len (take cnt data) = take cnt data" and cap: "0 < cap"
    and cnt: "cnt \<le> length data" and fan: "fan_in \<le> TC_SORT_MAX_FAN_IN"
    and "readers_ok data readers heap" and "start \<le> cnt" and "run_len dvd start \<or> start = cnt"
  shows "\<exists>res. open_readers cmp rd_ok data cnt run_len cap fan_in start readers heap = Some res \<and>
     (case res of None \<Rightarrow> \<exists>k. \<not> rd_ok k
      | Some (start', readers', heap') \<Rightarrow> start' = min cnt (start + run_len * (fan_in - length readers)) \<and>
          readers_ok data readers' heap' \<and>
          concat (map (rest data) readers') = concat (map (rest data) readers) @ slice start start' data)"
  using assms(6-8)
proof (induction "fan_in - length readers" arbitrary: start readers heap)
  case 0
  then show ?case by (subst open_readers.simps) simp
next
  case (Suc f)
  show ?case
  proof (cases "start < cnt")
    case True
    define n where "n = min (cnt - start) run_len"
    define r0 where "r0 = (\<lparr>rd_buf = [], rd_cap = cap, rd_pos = 0, rd_next = start, rd_end = start + n\<rparr> :: 'a tc_sort_reader)"
    have n: "0 < n" "start + n \<le> cnt" "start + n = min (start + run_len) cnt" using True run(1) by (simp_all add: n_def)
    have fill: "case tc_sort_reader_fill rd_ok data r0 of None \<Rightarrow> \<not> rd_ok start
        | Some r \<Rightarrow> reader_ok data r \<and> rest data r = slice start (start + n) data"
    proof -
      have "rd_next r0 = start" "rd_end r0 = start + n" "0 < rd_cap r0" using cap by (simp_all add: r0_def)
      then show ?thesis using reader_fill_ok[of r0 data rd_ok] n(2) cnt by (simp split: option.splits)
    qed
    have guard: "length readers < fan_in" "\<not> TC_SORT_MAX_FAN_IN \<le> length readers" using Suc.hyps(2) fan by simp_all
    have e: "open_readers cmp rd_ok data cnt run_len cap fan_in start readers heap =
      (case tc_sort_reader_fill rd_ok data r0 of None \<Rightarrow> Some None
       | Some r \<Rightarrow> do {
           heap \<leftarrow> (if rd_pos r < length (rd_buf r)
              then tc_sort_heap_sift_up cmp (readers @ [r]) (heap @ [length readers]) (length heap) else Some heap);
           open_readers cmp rd_ok data cnt run_len cap fan_in (start + n) (readers @ [r]) heap })"
      using guard True by (subst open_readers.simps) (simp add: Let_def r0_def flip: n_def)
    show ?thesis
    proof (cases "tc_sort_reader_fill rd_ok data r0")
      case None
      then show ?thesis using e fill by auto
    next
      case (Some r)
      then have r: "reader_ok data r" "rest data r = slice start (start + n) data" using fill by simp_all
      have "slice start (start + n) data = slice start (min (start + run_len) (length (take cnt data))) (take cnt data)"
        using n(2,3) cnt slice_take[of "start + n" cnt start data] by (simp add: min.absorb2)
      then have ord: "in_order cmp (rest data r)"
        using chunk_ordered'[OF run(2,1), of start] Suc.prems(3) True r(2) by simp
      obtain h' where h': "(if rd_pos r < length (rd_buf r)
            then tc_sort_heap_sift_up cmp (readers @ [r]) (heap @ [length readers]) (length heap) else Some heap) = Some h'"
          "readers_ok data (readers @ [r]) h'"
        using readers_ok_snoc[OF Suc.prems(1) r(1) ord] by blast
      have f: "f = fan_in - length (readers @ [r])" using Suc.hyps(2) by simp
      have dvd: "run_len dvd start + n \<or> start + n = cnt" using Suc.prems(3) True n(3) by (auto simp: min_def)
      obtain res where res: "open_readers cmp rd_ok data cnt run_len cap fan_in (start + n) (readers @ [r]) h' = Some res"
         "case res of None \<Rightarrow> \<exists>k. \<not> rd_ok k
          | Some (start', readers', heap') \<Rightarrow> start' = min cnt (start + n + run_len * (fan_in - length (readers @ [r]))) \<and>
              readers_ok data readers' heap' \<and>
              concat (map (rest data) readers') = concat (map (rest data) (readers @ [r])) @ slice (start + n) start' data"
        using Suc.hyps(1)[OF f h'(2) n(2) dvd] by blast
      have m: "min cnt (start + n + run_len * (fan_in - length (readers @ [r]))) = min cnt (start + run_len * (fan_in - length readers))"
      proof -
        have "fan_in - length readers = Suc (fan_in - length (readers @ [r]))" using Suc.hyps(2) f by simp
        then have "run_len * (fan_in - length readers) = run_len + run_len * (fan_in - length (readers @ [r]))" by simp
        then show ?thesis using n(3) by (simp add: min_def)
      qed
      have sl: "slice start (start + n) data @ slice (start + n) start' data = slice start start' data" if "start + n \<le> start'" for start'
        using that by (intro slice_append) simp_all
      show ?thesis using e Some h' res m sl r(2) n(2) by (auto split: option.splits prod.splits)
    qed
  next
    case False
    then have "start = cnt" using Suc.prems(2) by simp
    then show ?thesis using Suc.prems(1) by (subst open_readers.simps) simp
  qed
qed

end

section \<open>A pass\<close>

context record_order
begin

lemma chunk_sort_slices:
  assumes "0 < m" and "start < cnt" and "cnt \<le> length data"
  shows "chunk_sort cmp m (slice start cnt data) =
     ssort cmp (slice start (min cnt (start + m)) data) @ chunk_sort cmp m (slice (min cnt (start + m)) cnt data)"
proof -
  have "min cnt (start + m) - start = min m (cnt - start)" using assms(2) by linarith
  then have "take m (slice start cnt data) = slice start (min cnt (start + m)) data"
    by (simp add: slice_def)
  moreover have "drop m (slice start cnt data) = slice (min cnt (start + m)) cnt data"
    using assms by (simp add: slice_def drop_take min_def add.commute)
  moreover have "slice start cnt data \<noteq> []" using assms by (simp add: slice_def)
  ultimately show ?thesis using assms(1) by (simp add: chunk_sort_step)
qed

lemma merge_groups_ok:
  assumes run: "0 < run_len" "chunk_sort cmp run_len (take cnt data) = take cnt data" and cap: "0 < cap"
    and cnt: "cnt \<le> length data" and fan: "0 < fan_in" "fan_in \<le> TC_SORT_MAX_FAN_IN"
    and "out_ok out_cap s" and "start \<le> cnt" and "run_len * fan_in dvd start \<or> start = cnt"
  shows "\<exists>res. merge_groups cmp rd_ok wr_ok data cnt run_len cap fan_in out_cap start s = Some res \<and>
     (case res of None \<Rightarrow> \<exists>k. \<not> rd_ok k \<or> \<not> wr_ok k
      | Some s' \<Rightarrow> out_ok out_cap s' \<and> written s' = written s @ chunk_sort cmp (run_len * fan_in) (slice start cnt data))"
  using assms(7-9)
proof (induction "cnt - start" arbitrary: start s rule: less_induct)
  case less
  show ?case
  proof (cases "start < cnt")
    case True
    define next_start where "next_start = min cnt (start + run_len * fan_in)"
    have nx: "start < next_start" "next_start \<le> cnt" using True run(1) fan(1) by (simp_all add: next_start_def)
    have ok0: "readers_ok data [] []" by (simp add: readers_ok_def hp.heap_ok_def)
    have dvd: "run_len dvd start \<or> start = cnt" using less.prems(3) by (meson dvd_mult_left)
    obtain res where res: "open_readers cmp rd_ok data cnt run_len cap fan_in start [] [] = Some res"
        "case res of None \<Rightarrow> \<exists>k. \<not> rd_ok k
         | Some (start', readers', heap') \<Rightarrow> start' = next_start \<and> readers_ok data readers' heap' \<and>
             concat (map (rest data) readers') = slice start start' data"
      using open_readers_ok[OF run cap cnt fan(2) ok0 less.prems(2) dvd, of rd_ok,
          unfolded list.size diff_zero list.map concat.simps append_Nil, folded next_start_def] by blast
    show ?thesis
    proof (cases res)
      case None
      then show ?thesis using res True by (subst merge_groups.simps) auto
    next
      case (Some q)
      obtain readers heap where q: "q = (next_start, readers, heap)" "readers_ok data readers heap"
          "concat (map (rest data) readers) = slice start next_start data"
        using res(2) Some by (cases q) auto
      define s1 where "s1 = s\<lparr>ms_readers := readers, ms_heap := heap\<rparr>"
      have s1: "readers_ok data (ms_readers s1) (ms_heap s1)" "out_ok out_cap s1" "written s1 = written s" "pending data s1 = slice start next_start data"
        using q less.prems(1) by (simp_all add: s1_def out_ok_def written_def pending_def)
      obtain res2 where res2: "merge_group cmp rd_ok wr_ok data out_cap s1 = Some res2"
          "case res2 of None \<Rightarrow> \<exists>k. \<not> rd_ok k \<or> \<not> wr_ok k
           | Some s' \<Rightarrow> out_ok out_cap s' \<and> written s' = written s1 @ ssort cmp (pending data s1)"
        using merge_group_ok[OF s1(1,2)] by blast
      have e: "merge_groups cmp rd_ok wr_ok data cnt run_len cap fan_in out_cap start s =
          (case res2 of None \<Rightarrow> Some None
           | Some s \<Rightarrow> merge_groups cmp rd_ok wr_ok data cnt run_len cap fan_in out_cap next_start s)"
        using True res(1) Some q(1) res2(1) by (subst merge_groups.simps) (simp add: s1_def)
      show ?thesis
      proof (cases res2)
        case None
        then show ?thesis using e res2(2) by simp
      next
        case (Some s2)
        then have s2: "out_ok out_cap s2" "written s2 = written s @ ssort cmp (slice start next_start data)" using res2(2) s1 by simp_all
        have "run_len * fan_in dvd next_start \<or> next_start = cnt"
          using less.prems(3) True by (auto simp: next_start_def min_def)
        then have "\<exists>res. merge_groups cmp rd_ok wr_ok data cnt run_len cap fan_in out_cap next_start s2 = Some res \<and>
           (case res of None \<Rightarrow> \<exists>k. \<not> rd_ok k \<or> \<not> wr_ok k
            | Some s' \<Rightarrow> out_ok out_cap s' \<and> written s' = written s2 @ chunk_sort cmp (run_len * fan_in) (slice next_start cnt data))"
          using nx s2(1) True by (intro less.hyps) simp_all
        moreover have w: "written s2 @ chunk_sort cmp (run_len * fan_in) (slice next_start cnt data) =
            written s @ chunk_sort cmp (run_len * fan_in) (slice start cnt data)"
          using chunk_sort_slices[OF _ True cnt, of "run_len * fan_in"] run(1) fan(1) s2(2) by (simp add: next_start_def)
        ultimately show ?thesis using e Some unfolding w by simp
      qed
    qed
  next
    case False
    then show ?thesis using less.prems by (subst merge_groups.simps) simp
  qed
qed

lemma merge_pass_ok:
  assumes "0 < run_len" and "chunk_sort cmp run_len (take cnt data) = take cnt data" and "0 < cap"
    and "cnt \<le> length data" and "0 < fan_in" and "fan_in \<le> TC_SORT_MAX_FAN_IN" and "0 < out_cap"
  shows "\<exists>res. tc_sort_merge_pass cmp rd_ok wr_ok data [] cnt run_len cap fan_in out_cap = Some res \<and>
     (case res of None \<Rightarrow> \<exists>k. \<not> rd_ok k \<or> \<not> wr_ok k
      | Some out \<Rightarrow> out = chunk_sort cmp (run_len * fan_in) (take cnt data))"
proof -
  let ?s = "\<lparr>ms_readers = [], ms_heap = [], ms_out = [], ms_record = 0, ms_data = []\<rparr> :: 'a merge_state"
  have w0: "written ?s @ xs = xs" "take (cnt - 0) (drop 0 data) = take cnt data" for xs by (simp_all add: written_def)
  have "out_ok out_cap ?s" using assms(7) by (simp add: out_ok_def)
  then obtain res where res: "merge_groups cmp rd_ok wr_ok data cnt run_len cap fan_in out_cap 0 ?s = Some res"
      "case res of None \<Rightarrow> \<exists>k. \<not> rd_ok k \<or> \<not> wr_ok k
       | Some s' \<Rightarrow> out_ok out_cap s' \<and> written s' = chunk_sort cmp (run_len * fan_in) (take cnt data)"
    using merge_groups_ok[OF assms(1-6), of out_cap ?s 0 rd_ok wr_ok] w0 unfolding w0 slice_def by auto
  show ?thesis
  proof (cases res)
    case None
    then show ?thesis using res by (simp add: tc_sort_merge_pass_def)
  next
    case (Some s)
    then have s: "ms_record s = length (ms_data s)" "written s = chunk_sort cmp (run_len * fan_in) (take cnt data)"
      using res(2) by (simp_all add: out_ok_def)
    show ?thesis
    proof (cases "ms_out s = []")
      case True
      then show ?thesis using res(1) Some s by (simp add: tc_sort_merge_pass_def written_def)
    next
      case False
      then show ?thesis using res(1) Some s(2) flush_out_ok[OF s(1) assms(7), of wr_ok]
        by (cases "flush_out wr_ok s") (auto simp: tc_sort_merge_pass_def)
    qed
  qed
qed

end

end
