(* ===== verification/Tagcache_Props.thy ===== *)
theory Tagcache_Props
  imports Tagcache_Merge_Inv
begin

text \<open>
  The external sort as a whole: its plan of passes, the layout of its arena, and that a successful sort
  is the stable sort of the records.
\<close>

section \<open>The plan\<close>

lemma power_loop_eq: "0 < base \<Longrightarrow> 0 < v \<Longrightarrow> power_loop base n v target \<longleftrightarrow> target \<le> v * base ^ n"
proof (induction n arbitrary: v)
  case (Suc n)
  have "target \<le> v * base ^ Suc n" if "target div base < v"
  proof -
    have "target < v * base" using that Suc.prems(1) by (simp add: div_less_iff_less_mult)
    also have "v * base * 1 \<le> v * base * base ^ n" using Suc.prems(1) by (intro mult_le_mono2) simp
    finally show ?thesis by simp
  qed
  then show ?case using Suc by (simp add: mult.assoc)
qed simp

lemma tc_sort_power_reaches_eq: "0 < base \<Longrightarrow> tc_sort_power_reaches base n target \<longleftrightarrow> target \<le> base ^ n"
  by (simp add: tc_sort_power_reaches_def power_loop_eq)

lemma count_passes_reaches:
  assumes "2 \<le> fan_cap"
  shows "\<exists>passes. count_passes fan_cap run_count p = Some passes \<and> run_count \<le> fan_cap ^ passes"
proof (induction "run_count - p" arbitrary: p rule: less_induct)
  case less
  show ?case
  proof (cases "run_count \<le> fan_cap ^ p")
    case True
    then show ?thesis using assms by (subst count_passes.simps) (simp add: tc_sort_power_reaches_eq)
  next
    case False
    have "p < fan_cap ^ p" using assms by (intro power_gt_expt) simp
    then have "p < run_count" using False by simp
    then have "\<exists>passes. count_passes fan_cap run_count (p + 1) = Some passes \<and> run_count \<le> fan_cap ^ passes"
      by (intro less) simp
    then show ?thesis using False assms by (subst count_passes.simps) (simp add: tc_sort_power_reaches_eq)
  qed
qed

lemma sort_fan_cap_bounds:
  "sort_fan_cap rs ir run_count \<le> TC_SORT_MAX_FAN_IN" "sort_fan_cap rs ir run_count \<le> ir"
proof -
  define p where "p = (let q = 4096 div rs + (if 4096 mod rs \<noteq> 0 then 1 else 0) in if q < 4 then 4 else q)"
  define fc where "fc = (if ir div p < 2 then ir else ir div p)"
  have "fc \<le> ir" by (simp add: fc_def)
  moreover have "sort_fan_cap rs ir run_count = (let f = (if TC_SORT_MAX_FAN_IN < fc then TC_SORT_MAX_FAN_IN else fc) in if run_count < f then run_count else f)"
    unfolding sort_fan_cap_def Let_def fc_def p_def by (rule refl)
  ultimately show "sort_fan_cap rs ir run_count \<le> TC_SORT_MAX_FAN_IN" "sort_fan_cap rs ir run_count \<le> ir" by (simp_all add: Let_def)
qed

lemma sort_fan_cap_two: "2 \<le> ir \<Longrightarrow> 2 \<le> run_count \<Longrightarrow> 2 \<le> sort_fan_cap rs ir run_count"
  by (simp add: sort_fan_cap_def Let_def TC_SORT_MAX_FAN_IN_def)

lemma sort_fan_ok:
  assumes "2 \<le> ir"
  shows "\<exists>passes fan_in cap. sort_fan rs ir run_count = Some (Some (passes, fan_in, cap)) \<and>
     (run_count \<le> 1 \<and> passes = 0 \<or>
      0 < fan_in \<and> fan_in \<le> TC_SORT_MAX_FAN_IN \<and> 0 < cap \<and> fan_in * cap \<le> ir \<and> run_count \<le> fan_in ^ passes)"
proof (cases "run_count \<le> 1")
  case False
  define fc where "fc = sort_fan_cap rs ir run_count"
  have fc: "2 \<le> fc" "fc \<le> TC_SORT_MAX_FAN_IN" "fc \<le> ir"
    using sort_fan_cap_two[OF assms, of run_count rs] sort_fan_cap_bounds False by (simp_all add: fc_def)
  obtain passes where p: "count_passes fc run_count 0 = Some passes" "run_count \<le> fc ^ passes"
    using count_passes_reaches[OF fc(1)] by blast
  let ?Q = "\<lambda>f. tc_sort_power_reaches f passes run_count"
  have "?Q fc" using p(2) fc(1) by (simp add: tc_sort_power_reaches_eq)
  then have "find ?Q [2..<fc + 1] \<noteq> None" using fc(1) by (auto simp: find_None_iff)
  then obtain f where f: "find ?Q [2..<fc + 1] = Some f" by blast
  then have fp: "?Q f" "2 \<le> f" "f \<le> fc" by (auto simp: find_Some_iff nth_append simp del: upt_Suc)
  have cap: "0 < ir div f" "f * (ir div f) \<le> ir" using fp fc by (auto simp: div_greater_zero_iff)
  have "sort_fan rs ir run_count = Some (Some (passes, f, ir div f))"
    using False fc p(1) f cap unfolding sort_fan_def fc_def[symmetric] Let_def by simp
  then show ?thesis using fp fc cap by (auto simp: tc_sort_power_reaches_eq)
qed (simp add: sort_fan_def)

lemma sort_caps_Some:
  assumes "sort_caps large rs = Some (run_cap, out_cap, ir)"
  shows "0 < run_cap" "0 < out_cap" "2 \<le> ir" "run_cap * rs + run_cap * rs \<le> arena_bytes large" "out_cap * rs + ir * rs \<le> arena_bytes large"
proof -
  have d: "run_cap = arena_bytes large div 2 div rs" "out_cap = (if large then TC_SORT_LARGE_OUTPUT_BYTES else TC_SORT_OUTPUT_BYTES) div rs"
      "ir = (arena_bytes large - out_cap * rs) div rs" and pos: "0 < run_cap" "0 < out_cap" "2 \<le> ir"
    using assms by (auto simp: sort_caps_def Let_def split: if_splits)
  show "0 < run_cap" "0 < out_cap" "2 \<le> ir" by (rule pos)+
  have "run_cap * rs \<le> arena_bytes large div 2" unfolding d(1) by simp
  then show "run_cap * rs + run_cap * rs \<le> arena_bytes large" by simp
  have "out_cap * rs \<le> (if large then TC_SORT_LARGE_OUTPUT_BYTES else TC_SORT_OUTPUT_BYTES)" unfolding d(2) by simp
  then have "out_cap * rs \<le> arena_bytes large"
    by (cases large) (simp_all add: arena_bytes_def TC_SORT_LARGE_OUTPUT_BYTES_def TC_SORT_OUTPUT_BYTES_def TC_SORT_LARGE_TOTAL_BYTES_def TC_SORT_BUFFER_BYTES_def)
  moreover have "ir * rs \<le> arena_bytes large - out_cap * rs" unfolding d(3) by simp
  ultimately show "out_cap * rs + ir * rs \<le> arena_bytes large" by simp
qed

lemma sort_caps_exist:
  assumes "0 < rs" and "rs \<le> 32768"
  shows "\<exists>run_cap out_cap ir. sort_caps large rs = Some (run_cap, out_cap, ir)"
proof -
  let ?a = "arena_bytes large" and ?o = "if large then TC_SORT_LARGE_OUTPUT_BYTES else TC_SORT_OUTPUT_BYTES"
  note defs = arena_bytes_def TC_SORT_LARGE_OUTPUT_BYTES_def TC_SORT_OUTPUT_BYTES_def TC_SORT_LARGE_TOTAL_BYTES_def
    TC_SORT_BUFFER_BYTES_def TC_SORT_LARGE_MERGE_BYTES_def TC_SORT_MERGE_BYTES_def
  have "rs \<le> (if large then TC_SORT_LARGE_MERGE_BYTES else TC_SORT_MERGE_BYTES)" "rs \<le> ?a div 2" "rs \<le> ?o" "2 * rs + ?o \<le> ?a"
    using assms(2) by (simp_all add: defs)
  moreover have "?o div rs * rs \<le> ?o" by simp
  ultimately have "2 * rs \<le> ?a - ?o div rs * rs" by linarith
  then have "2 \<le> (?a - ?o div rs * rs) div rs" using assms(1) by (simp add: less_eq_div_iff_mult_less_eq)
  then show ?thesis
    using assms(1) \<open>rs \<le> (if large then TC_SORT_LARGE_MERGE_BYTES else TC_SORT_MERGE_BYTES)\<close> \<open>rs \<le> ?a div 2\<close> \<open>rs \<le> ?o\<close>
    by (simp add: sort_caps_def Let_def div_eq_0_iff not_less)
qed

section \<open>Forming runs and merging them\<close>

context record_order
begin

lemma chunk_sort_snoc:
  assumes "0 < m" and "m dvd length us" and "length vs \<le> m"
  shows "chunk_sort cmp m (us @ vs) = chunk_sort cmp m us @ ssort cmp vs"
  using assms(2)
proof (induction "length us" arbitrary: us rule: less_induct)
  case less
  show ?case
  proof (cases "us = []")
    case True
    then show ?thesis using assms(3) chunk_sort_all by simp
  next
    case False
    then have le: "m \<le> length us" using less.prems by (simp add: dvd_imp_le)
    then have "m dvd length (drop m us)" using less.prems by (simp add: dvd_diff_nat)
    then have "chunk_sort cmp m (drop m us @ vs) = chunk_sort cmp m (drop m us) @ ssort cmp vs"
      using assms(1) False by (intro less.hyps) simp_all
    then show ?thesis using False assms(1) le by (simp add: chunk_sort_step)
  qed
qed

lemma form_runs_ok:
  assumes cap: "0 < run_cap" and cnt: "cnt \<le> length xs" and "at \<le> cnt"
    and "drop at (files fd) = drop at xs" and "take at (files run_fd) = chunk_sort cmp run_cap (take at xs)"
    and "files run_fd = take at (files run_fd) @ (if run_fd = fd then drop at xs else [])"
    and "run_cap dvd at \<or> at = cnt"
  shows "\<exists>res. form_runs env junk cmp fd run_fd cnt run_cap at files = Some res \<and>
     (case res of None \<Rightarrow> \<exists>k. \<not> run_read_ok env k \<or> \<not> run_write_ok env k
      | Some files' \<Rightarrow> files' run_fd = chunk_sort cmp run_cap (take cnt xs) @ (if run_fd = fd then drop cnt xs else []))"
  using assms(3-7)
proof (induction "cnt - at" arbitrary: at files rule: less_induct)
  case less
  show ?case
  proof (cases "at < cnt")
    case True
    define n where "n = min (cnt - at) run_cap"
    define run where "run = take n (drop at xs)"
    have n: "0 < n" "at + n \<le> cnt" "n \<le> run_cap" using True cap by (simp_all add: n_def)
    have len: "length run = n" using n cnt by (simp add: run_def)
    have fl: "at + n \<le> length (files fd)" "at \<le> length (files run_fd)"
      using arg_cong[OF less.prems(2), of length] arg_cong[OF less.prems(3), of length] True n cnt by simp_all
    define data where "data = take at (files run_fd) @ ssort cmp run @ drop (at + n) (files run_fd)"
    have sort: "tc_sort_stable_runsort cmp n run (map (junk at) [0..<n]) = Some (ssort cmp run)"
      using runsort_correct[of "map (junk at) [0..<n]" run] len by simp
    have e: "form_runs env junk cmp fd run_fd cnt run_cap at files =
        (if run_read_ok env at \<and> run_write_ok env at then form_runs env junk cmp fd run_fd cnt run_cap (at + n) (files(run_fd := data)) else Some None)"
      using True fl len sort less.prems(2)
      by (subst form_runs.simps) (simp add: read_records_def write_records_def data_def run_def flip: n_def)
    have chunk: "chunk_sort cmp run_cap (take at xs) @ ssort cmp run = chunk_sort cmp run_cap (take (at + n) xs)"
      using chunk_sort_snoc[OF cap, of "take at xs" run] less.prems(5) True cnt len n(3) by (simp add: run_def take_add)
    have data: "data = chunk_sort cmp run_cap (take (at + n) xs) @ (if run_fd = fd then drop (at + n) xs else [])"
    proof -
      have "drop (at + n) (files run_fd) = (if run_fd = fd then drop (at + n) xs else [])"
      proof (cases "run_fd = fd")
        case True
        then show ?thesis using arg_cong[OF less.prems(2), of "drop n"] by (simp add: add.commute)
      next
        case False
        then have "files run_fd = take at (files run_fd)" using less.prems(4) by simp
        then have "length (files run_fd) \<le> at" by (metis length_take min.bounded_iff order_refl)
        then show ?thesis using False by simp
      qed
      then show ?thesis using chunk less.prems(3) by (simp add: data_def flip: append_assoc)
    qed
    have tk: "take (at + n) data = chunk_sort cmp run_cap (take (at + n) xs)" using n cnt by (simp add: data)
    have "\<exists>res. form_runs env junk cmp fd run_fd cnt run_cap (at + n) (files(run_fd := data)) = Some res \<and>
       (case res of None \<Rightarrow> \<exists>k. \<not> run_read_ok env k \<or> \<not> run_write_ok env k
        | Some files' \<Rightarrow> files' run_fd = chunk_sort cmp run_cap (take cnt xs) @ (if run_fd = fd then drop cnt xs else []))"
    proof (rule less.hyps)
      show "cnt - (at + n) < cnt - at" using True n(1) by simp
      show "at + n \<le> cnt" by (rule n(2))
      show "drop (at + n) ((files(run_fd := data)) fd) = drop (at + n) xs"
        using arg_cong[OF less.prems(2), of "drop n"] n cnt by (simp add: data add.commute)
      show "take (at + n) ((files(run_fd := data)) run_fd) = chunk_sort cmp run_cap (take (at + n) xs)" using tk by simp
      show "(files(run_fd := data)) run_fd = take (at + n) ((files(run_fd := data)) run_fd) @ (if run_fd = fd then drop (at + n) xs else [])"
        using tk data by simp
      show "run_cap dvd at + n \<or> at + n = cnt" using less.prems(5) True by (auto simp: n_def min_def)
    qed
    then show ?thesis using e by (cases "run_read_ok env at \<and> run_write_ok env at") auto
  next
    case False
    then have "at = cnt" using less.prems(1) by simp
    then show ?thesis using less.prems(3,4) by (subst form_runs.simps) simp
  qed
qed

lemma merge_passes_ok:
  assumes fan: "0 < fan_in" "fan_in \<le> TC_SORT_MAX_FAN_IN" and cap: "0 < cap" "0 < out_cap" and fds: "in_fd \<noteq> out_fd" and cnt: "0 < cnt"
    and "0 < run_len" and "take cnt (files in_fd) = chunk_sort cmp run_len xs" and "length xs = cnt" and "pass \<le> passes"
    and "cnt \<le> run_len * fan_in ^ (passes - pass)"
  shows "\<exists>res. merge_passes env cmp cnt cap fan_in out_cap passes pass in_fd out_fd run_len files = Some res \<and>
     (case res of None \<Rightarrow> \<exists>p k. \<not> truncate_ok env p \<or> \<not> pass_read_ok env p k \<or> \<not> pass_write_ok env p k
      | Some (fd, files') \<Rightarrow> fd = (if even (passes - pass) then in_fd else out_fd) \<and> take cnt (files' fd) = ssort cmp xs)"
  using assms(5,7-)
proof (induction "passes - pass" arbitrary: pass in_fd out_fd run_len files)
  case 0
  then have "chunk_sort cmp run_len xs = ssort cmp xs" by (intro chunk_sort_all) simp
  then show ?case using 0 by (subst merge_passes.simps) simp
next
  case (Suc k)
  have inb: "cnt \<le> length (files in_fd)" using arg_cong[OF Suc.prems(3), of length] Suc.prems(4) by simp
  have idem: "chunk_sort cmp run_len (take cnt (files in_fd)) = take cnt (files in_fd)"
    using Suc.prems(2,3) chunk_sort_merge[of run_len 1 xs] by simp
  obtain res where res: "tc_sort_merge_pass cmp (pass_read_ok env pass) (pass_write_ok env pass) (files in_fd) [] cnt run_len cap fan_in out_cap = Some res"
      "case res of None \<Rightarrow> \<exists>k. \<not> pass_read_ok env pass k \<or> \<not> pass_write_ok env pass k
       | Some out \<Rightarrow> out = chunk_sort cmp (run_len * fan_in) (take cnt (files in_fd))"
    using merge_pass_ok[OF Suc.prems(2) idem cap(1) inb fan cap(2)] by blast
  define next_len where "next_len = (if cnt div fan_in < run_len then cnt else run_len * fan_in)"
  have e: "merge_passes env cmp cnt cap fan_in out_cap passes pass in_fd out_fd run_len files =
      (if truncate_ok env (pass + 1) then case res of None \<Rightarrow> Some None
         | Some data \<Rightarrow> merge_passes env cmp cnt cap fan_in out_cap passes (pass + 1) out_fd in_fd next_len (files(out_fd := data))
       else Some None)"
  proof -
    have "pass < passes" using Suc.hyps(2) by simp
    then show ?thesis using res(1) by (subst merge_passes.simps) (cases res; simp flip: next_len_def)
  qed
  show ?case
  proof (cases "truncate_ok env (pass + 1) \<and> res \<noteq> None")
    case False
    then show ?thesis using e res(2) by (auto split: if_splits option.splits)
  next
    case True
    then obtain data where data: "res = Some data" "data = chunk_sort cmp (run_len * fan_in) xs"
      using res(2) Suc.prems(2,3) chunk_sort_merge[OF Suc.prems(2) fan(1), of xs] by auto
    have whole: "chunk_sort cmp m xs = ssort cmp xs" if "cnt \<le> m" for m using that Suc.prems(4) by (intro chunk_sort_all) simp
    have long: "cnt \<le> run_len * fan_in" if "cnt div fan_in < run_len"
      using that fan(1) by (simp add: div_less_iff_less_mult less_imp_le)
    have data': "data = chunk_sort cmp next_len xs" unfolding data(2) next_len_def using whole long by auto
    have "\<exists>res. merge_passes env cmp cnt cap fan_in out_cap passes (pass + 1) out_fd in_fd next_len (files(out_fd := data)) = Some res \<and>
       (case res of None \<Rightarrow> \<exists>p k. \<not> truncate_ok env p \<or> \<not> pass_read_ok env p k \<or> \<not> pass_write_ok env p k
        | Some (fd, files') \<Rightarrow> fd = (if even (passes - (pass + 1)) then out_fd else in_fd) \<and> take cnt (files' fd) = ssort cmp xs)"
    proof (rule Suc.hyps(1))
      show "k = passes - (pass + 1)" "pass + 1 \<le> passes" using Suc.hyps(2) by simp_all
      show "out_fd \<noteq> in_fd" using Suc.prems(1) by simp
      show "0 < next_len" using cnt Suc.prems(2) fan(1) by (simp add: next_len_def)
      show "take cnt ((files(out_fd := data)) out_fd) = chunk_sort cmp next_len xs" using data' Suc.prems(4) by simp
      show "length xs = cnt" by (rule Suc.prems(4))
      have "fan_in ^ (passes - pass) = fan_in * fan_in ^ (passes - (pass + 1))" using Suc.hyps(2) by (metis Suc_diff_Suc Suc_eq_plus1 diff_is_0_eq' nat.distinct(1) not_le power_Suc)
      then show "cnt \<le> next_len * fan_in ^ (passes - (pass + 1))" using Suc.prems(6) fan(1) by (auto simp: next_len_def mult.assoc)
    qed
    moreover have ev: "(if even (passes - (pass + 1)) then out_fd else in_fd) = (if even (passes - pass) then in_fd else out_fd)"
      using Suc.hyps(2) by (simp flip: Suc.hyps(2) add: diff_Suc split: nat.splits)
    ultimately show ?thesis using e True data(1) unfolding ev by simp
  qed
qed

end

section \<open>The sort\<close>

context record_order
begin

lemma form_runs_short:
  assumes cap: "0 < run_cap" and "length (files fd) < cnt" and "at \<le> length (files fd)"
  shows "form_runs env junk cmp fd run_fd cnt run_cap at files = Some None"
  using assms(2,3)
proof (induction "cnt - at" arbitrary: at files rule: less_induct)
  case less
  show ?case
  proof (cases "at < cnt")
    case True
    define n where "n = min (cnt - at) run_cap"
    have n: "0 < n" using True cap by (simp add: n_def)
    show ?thesis
    proof (cases "run_read_ok env at \<and> at + n \<le> length (files fd)")
      case rd: True
      define run where "run = take n (drop at (files fd))"
      have len: "length run = n" using rd by (auto simp: run_def min_def)
      have sort: "tc_sort_stable_runsort cmp n run (map (junk at) [0..<n]) = Some (ssort cmp run)"
        using runsort_correct[of "map (junk at) [0..<n]" run] len by simp
      have e: "form_runs env junk cmp fd run_fd cnt run_cap at files =
          (case write_records (run_write_ok env at) (files run_fd) (ssort cmp run) at of None \<Rightarrow> Some None
           | Some data \<Rightarrow> form_runs env junk cmp fd run_fd cnt run_cap (at + n) (files(run_fd := data)))"
        using True rd sort by (subst form_runs.simps) (simp add: read_records_def run_def flip: n_def)
      have "length ((files(run_fd := data)) fd) = length (files fd)" if "write_records (run_write_ok env at) (files run_fd) (ssort cmp run) at = Some data" for data
        using that rd len by (auto simp: write_records_def split: if_splits)
      then show ?thesis using e less.hyps[of "at + n"] less.prems True n rd by (auto split: option.splits)
    next
      case False
      then show ?thesis using True by (subst form_runs.simps) (auto simp: read_records_def simp flip: n_def)
    qed
  qed (use less.prems in simp)
qed

lemma sort_records_ok:
  assumes cnt: "0 < cnt" and caps: "0 < run_cap" "0 < out_cap" "2 \<le> ir" and fds: "fd \<noteq> scratch_fd"
  shows "\<exists>res. sort_records env junk cmp fd rs cnt run_cap out_cap ir scratch_fd files = Some res \<and>
     (case res of None \<Rightarrow> length (files fd) < cnt \<or>
          (\<exists>p k. \<not> truncate_ok env p \<or> \<not> run_read_ok env k \<or> \<not> run_write_ok env k \<or> \<not> pass_read_ok env p k \<or> \<not> pass_write_ok env p k)
      | Some files' \<Rightarrow> cnt \<le> length (files fd) \<and> files' fd = ssort cmp (take cnt (files fd)))"
proof -
  define run_count where "run_count = cnt div run_cap + (if cnt mod run_cap \<noteq> 0 then 1 else 0)"
  have rc: "cnt \<le> run_cap * run_count"
  proof -
    have "cnt = run_cap * (cnt div run_cap) + cnt mod run_cap" by simp
    moreover have "cnt mod run_cap \<le> run_cap * (if cnt mod run_cap \<noteq> 0 then 1 else 0)" using caps(1) by (simp add: less_imp_le)
    ultimately show ?thesis unfolding run_count_def by (metis add_left_mono distrib_left)
  qed
  obtain passes fan_in cap where plan: "sort_fan rs ir run_count = Some (Some (passes, fan_in, cap))"
      "run_count \<le> 1 \<and> passes = 0 \<or> 0 < fan_in \<and> fan_in \<le> TC_SORT_MAX_FAN_IN \<and> 0 < cap \<and> fan_in * cap \<le> ir \<and> run_count \<le> fan_in ^ passes"
    using sort_fan_ok[OF caps(3)] by blast
  define run_fd where "run_fd = (if odd passes then scratch_fd else fd)"
  define other where "other = (if run_fd = fd then scratch_fd else fd)"
  define files0 where "files0 = (if run_fd \<noteq> fd then files(run_fd := []) else files)"
  define run_res where "run_res = form_runs env junk cmp fd run_fd cnt run_cap 0 files0"
  have f0: "files0 fd = files fd" using fds by (simp add: files0_def run_fd_def)
  have e: "sort_records env junk cmp fd rs cnt run_cap out_cap ir scratch_fd files =
      (if run_fd \<noteq> fd \<and> \<not> truncate_ok env 0 then Some None
       else do { r \<leftarrow> run_res;
         case r of None \<Rightarrow> Some None
         | Some files \<Rightarrow> do {
             r \<leftarrow> merge_passes env cmp cnt cap fan_in out_cap passes 0 run_fd other run_cap files;
             case r of None \<Rightarrow> Some None
             | Some (in_fd, files) \<Rightarrow> Some (if in_fd \<noteq> fd \<or> \<not> truncate_ok env (passes + 1) then None else Some (files(fd := take cnt (files fd)))) } })"
    unfolding sort_records_def run_count_def[symmetric] Let_def by (simp add: plan(1) run_fd_def other_def files0_def run_res_def)
  show ?thesis
  proof (cases "length (files fd) < cnt")
    case True
    then have "run_res = Some None" unfolding run_res_def using f0 caps(1) by (intro form_runs_short) simp_all
    then show ?thesis using e True by simp
  next
    case False
    let ?xs = "files fd"
    obtain rr where rr: "run_res = Some rr"
        "case rr of None \<Rightarrow> \<exists>k. \<not> run_read_ok env k \<or> \<not> run_write_ok env k
         | Some files' \<Rightarrow> files' run_fd = chunk_sort cmp run_cap (take cnt ?xs) @ (if run_fd = fd then drop cnt ?xs else [])"
    proof -
      have p: "cnt \<le> length ?xs" "0 \<le> cnt" "drop 0 (files0 fd) = drop 0 ?xs" "take 0 (files0 run_fd) = chunk_sort cmp run_cap (take 0 ?xs)"
          "files0 run_fd = take 0 (files0 run_fd) @ (if run_fd = fd then drop 0 ?xs else [])" "run_cap dvd 0 \<or> 0 = cnt"
        using False f0 by (simp_all add: files0_def)
      show ?thesis using that form_runs_ok[OF caps(1) p, of env junk] unfolding run_res_def by blast
    qed
    show ?thesis
    proof (cases "rr = None \<or> run_fd \<noteq> fd \<and> \<not> truncate_ok env 0")
      case True
      then show ?thesis using e rr by auto
    next
      case ok: False
      then obtain files1 where files1: "rr = Some files1"
          "files1 run_fd = chunk_sort cmp run_cap (take cnt ?xs) @ (if run_fd = fd then drop cnt ?xs else [])" using rr(2) by auto
      have len: "length (take cnt ?xs) = cnt" using False by simp
      have tk: "take cnt (files1 run_fd) = chunk_sort cmp run_cap (take cnt ?xs)" using files1(2) len by simp
      have run: "run_fd \<noteq> other" using fds by (simp add: run_fd_def other_def)
      have "\<exists>res. merge_passes env cmp cnt cap fan_in out_cap passes 0 run_fd other run_cap files1 = Some res \<and>
         (case res of None \<Rightarrow> \<exists>p k. \<not> truncate_ok env p \<or> \<not> pass_read_ok env p k \<or> \<not> pass_write_ok env p k
          | Some (in_fd, files') \<Rightarrow> in_fd = (if even (passes - 0) then run_fd else other) \<and> take cnt (files' in_fd) = ssort cmp (take cnt ?xs))"
      proof (cases "run_count \<le> 1 \<and> passes = 0")
        case True
        have "run_cap * run_count \<le> run_cap * 1" using True by (intro mult_le_mono2) simp
        then have "cnt \<le> run_cap" using rc by linarith
        then have "chunk_sort cmp run_cap (take cnt ?xs) = ssort cmp (take cnt ?xs)" using len by (intro chunk_sort_all) simp
        then show ?thesis using True tk by (subst merge_passes.simps) simp
      next
        case False
        then have p: "0 < fan_in" "fan_in \<le> TC_SORT_MAX_FAN_IN" "0 < cap" "run_count \<le> fan_in ^ passes" using plan(2) by auto
        have "cnt \<le> run_cap * fan_in ^ (passes - 0)" using order_trans[OF rc mult_le_mono2[OF p(4), of run_cap]] by (simp only: diff_zero)
        then show ?thesis using merge_passes_ok[OF p(1-3) caps(2) run cnt caps(1), of files1 "take cnt ?xs" 0 passes] tk len by blast
      qed
      moreover have fin: "(if even (passes - 0) then run_fd else other) = fd" by (simp add: run_fd_def other_def fds[symmetric])
      ultimately obtain res where res: "merge_passes env cmp cnt cap fan_in out_cap passes 0 run_fd other run_cap files1 = Some res"
          "case res of None \<Rightarrow> \<exists>p k. \<not> truncate_ok env p \<or> \<not> pass_read_ok env p k \<or> \<not> pass_write_ok env p k
           | Some (in_fd, files') \<Rightarrow> in_fd = fd \<and> take cnt (files' in_fd) = ssort cmp (take cnt ?xs)" unfolding fin by blast
      show ?thesis
      proof (cases res)
        case None
        then show ?thesis using e ok rr(1) files1(1) res by auto
      next
        case (Some q)
        then obtain files2 where "q = (fd, files2)" "take cnt (files2 fd) = ssort cmp (take cnt ?xs)" using res(2) by (cases q) auto
        then show ?thesis using e ok rr(1) files1(1) res(1) Some False by auto
      qed
    qed
  qed
qed

lemma tc_sort_fd_ok:
  "\<exists>res. tc_sort_fd env junk cmp fd rs cnt scratch_fd files = Some res \<and>
     (\<forall>files'. res = Some files' \<longrightarrow> 0 \<le> cnt \<and> cnt \<le> int (length (files fd)) \<and> files' fd = ssort cmp (take (nat cnt) (files fd)))"
proof (cases "tc_sort_fd env junk cmp fd rs cnt scratch_fd files = Some None")
  case False
  then obtain large run_cap out_cap ir where p: "0 \<le> cnt" "fd \<noteq> scratch_fd" "sort_caps large rs = Some (run_cap, out_cap, ir)"
      "tc_sort_fd env junk cmp fd rs cnt scratch_fd files =
        (if cnt = 0 then Some (if truncate_ok env 0 then Some (files(fd := [])) else None)
         else sort_records env junk cmp fd rs (nat cnt) run_cap out_cap ir scratch_fd files)"
    by (auto simp: tc_sort_fd_def split: if_splits option.splits prod.splits)
  show ?thesis
  proof (cases "cnt = 0")
    case True
    then show ?thesis using p(4) by simp
  next
    case nz: False
    then have "0 < nat cnt" using p(1) by simp
    from sort_records_ok[OF this sort_caps_Some(1-3)[OF p(3)] p(2), of env junk rs files] show ?thesis
      using p(1,4) nz by (auto simp: nat_le_iff split: option.splits)
  qed
qed simp

end

section \<open>Properties\<close>

interpretation tuples: record_order query_tuple_cmp
  by unfold_locales (auto simp: query_tuple_cmp_def of_bool_def split: if_splits)

text \<open>
  C32: the external sort always returns, without an access outside of its buffers, whatever fails and
  however long the file is; and when it reports success, the file holds its first \<open>cnt\<close> records and nothing
  else, in ascending order, with equal records in the order they had.
\<close>

theorem tc_sort_fd_sorts:
  assumes "record_order cmp"
  shows "\<exists>res. tc_sort_fd env junk cmp fd record_size cnt scratch_fd files = Some res \<and>
     (\<forall>files'. res = Some files' \<longrightarrow>
        mset (files' fd) = mset (take (nat cnt) (files fd)) \<and> int (length (files' fd)) = cnt \<and>
        sorted_wrt (\<lambda>x y. cmp x y \<le> 0) (files' fd) \<and>
        (\<forall>z. filter (\<lambda>y. cmp z y = 0) (files' fd) = filter (\<lambda>y. cmp z y = 0) (take (nat cnt) (files fd))))"
proof -
  obtain res where res: "tc_sort_fd env junk cmp fd record_size cnt scratch_fd files = Some res"
      "\<forall>files'. res = Some files' \<longrightarrow> 0 \<le> cnt \<and> cnt \<le> int (length (files fd)) \<and> files' fd = ssort cmp (take (nat cnt) (files fd))"
    using record_order.tc_sort_fd_ok[OF assms] by blast
  then show ?thesis
    using record_order.in_order_ssort[OF assms] record_order.ssort_stable[OF assms] by (auto simp: in_order_def)
qed

text \<open>
  C33: the sort succeeds when nothing fails: memory for the arena, every transfer, every truncation, records of
  at most 32 KiB, a total size that a file offset can hold and a file that is long enough.
\<close>

theorem tc_sort_fd_succeeds:
  assumes "record_order cmp" and "0 < record_size" and "record_size \<le> 32768" and "fd \<noteq> scratch_fd"
    and "0 \<le> cnt" and "cnt \<le> int (length (files fd))" and "cnt * int record_size \<le> off_max env" and "off_max env \<le> INT64_MAX"
    and "malloc_ok env 0" and "\<forall>p. truncate_ok env p" and "\<forall>k. run_read_ok env k \<and> run_write_ok env k"
    and "\<forall>p k. pass_read_ok env p k \<and> pass_write_ok env p k"
  shows "\<exists>files'. tc_sort_fd env junk cmp fd record_size cnt scratch_fd files = Some (Some files')"
proof -
  have mul: "tc_sort_mul_off (off_max env) cnt record_size \<noteq> None"
  proof -
    have "cnt \<le> INT64_MAX div int record_size"
      using zdiv_mono1[of "cnt * int record_size" INT64_MAX "int record_size"] assms(2,7,8) by simp
    moreover have "int record_size \<le> INT64_MAX" using assms(3) by (simp add: INT64_MAX_def)
    ultimately show ?thesis using assms(2,5,7) by (simp add: tc_sort_mul_off_def Let_def)
  qed
  obtain run_cap out_cap ir where caps: "sort_caps (sort_large env) record_size = Some (run_cap, out_cap, ir)"
    using sort_caps_exist[OF assms(2,3)] by blast
  have e: "tc_sort_fd env junk cmp fd record_size cnt scratch_fd files =
      (if cnt = 0 then Some (Some (files(fd := []))) else sort_records env junk cmp fd record_size (nat cnt) run_cap out_cap ir scratch_fd files)"
    using mul caps assms by (auto simp: tc_sort_fd_def sort_arena_def)
  show ?thesis
  proof (cases "cnt = 0")
    case False
    then have "0 < nat cnt" using assms(5) by simp
    from record_order.sort_records_ok[OF assms(1) this sort_caps_Some(1-3)[OF caps] assms(4), of env junk record_size files]
    show ?thesis using e False assms(6,10-12) by (auto split: option.splits)
  qed (use e in auto)
qed

text \<open>
  C34: the arena holds what the code puts into it: two runs of full length while runs are sorted, the output
  buffer and the buffers of all readers while they are merged; there are never more readers than entries
  of the arrays of readers and of the heap, and the planned passes are enough to merge all runs.
\<close>

theorem sort_buffers_fit:
  assumes "sort_caps large record_size = Some (run_cap, out_cap, input_records)"
    and "sort_fan record_size input_records run_count = Some (Some (passes, fan_in, input_cap))" and "1 < run_count"
  shows "run_cap * record_size + run_cap * record_size \<le> arena_bytes large \<and>
     out_cap * record_size + fan_in * input_cap * record_size \<le> arena_bytes large \<and>
     fan_in \<le> TC_SORT_MAX_FAN_IN \<and> run_count \<le> fan_in ^ passes"
proof -
  have "fan_in * input_cap \<le> input_records" "fan_in \<le> TC_SORT_MAX_FAN_IN" "run_count \<le> fan_in ^ passes"
    using sort_fan_ok[OF sort_caps_Some(3)[OF assms(1)], of record_size run_count] assms(2,3) by auto
  moreover from this(1) have "out_cap * record_size + fan_in * input_cap * record_size \<le> out_cap * record_size + input_records * record_size"
    by (intro add_left_mono mult_le_mono1)
  ultimately show ?thesis using sort_caps_Some(4,5)[OF assms(1)] order_trans by blast
qed

section \<open>Witnesses\<close>

definition sample_env :: sort_env where
  "sample_env = \<lparr>off_max = 2147483647, disable_large = None, available_bytes = 0, malloc_ok = \<lambda>_. True, truncate_ok = \<lambda>_. True,
     run_read_ok = \<lambda>_. True, run_write_ok = \<lambda>_. True, pass_read_ok = \<lambda>_ _. True, pass_write_ok = \<lambda>_ _. True\<rparr>"

definition sample_tuple :: "u32 \<Rightarrow> tc_query_tuple" where
  "sample_tuple r = \<lparr>tq_category = 1, tq_key = 7, tq_rank = r\<rparr>"

definition sample_files :: "int \<Rightarrow> tc_query_tuple list" where
  "sample_files fd = (if fd = 3 then map sample_tuple [5, 2, 9] else [])"

theorem tc_sort_fd_sorts_witness:
  "\<exists>res. tc_sort_fd sample_env (\<lambda>_ _. sample_tuple 0) query_tuple_cmp 3 12 3 4 sample_files = Some res \<and>
     (\<forall>files'. res = Some files' \<longrightarrow> int (length (files' 3)) = 3 \<and> sorted_wrt (\<lambda>x y. query_tuple_cmp x y \<le> 0) (files' 3))"
  using tc_sort_fd_sorts[OF tuples.record_order_axioms, of sample_env "\<lambda>_ _. sample_tuple 0" 3 12 3 4 sample_files] by blast

theorem tc_sort_fd_succeeds_witness:
  "\<exists>files'. tc_sort_fd sample_env (\<lambda>_ _. sample_tuple 0) query_tuple_cmp 3 12 3 4 sample_files = Some (Some files')"
  by (rule tc_sort_fd_succeeds[OF tuples.record_order_axioms]) (simp_all add: sample_env_def sample_files_def INT64_MAX_def)

theorem sort_buffers_fit_witness:
  "sort_fan 12 16384 3 = Some (Some (1, 3, 5461)) \<and> 10922 * 12 + 10922 * 12 \<le> arena_bytes False \<and>
   5461 * 12 + 3 * 5461 * 12 \<le> arena_bytes False"
proof -
  have caps: "sort_caps False 12 = Some (10922, 5461, 16384)"
    by (simp add: sort_caps_def arena_bytes_def TC_SORT_OUTPUT_BYTES_def TC_SORT_BUFFER_BYTES_def TC_SORT_MERGE_BYTES_def Let_def)
  have cap: "sort_fan_cap 12 16384 3 = 3" by (simp add: sort_fan_cap_def TC_SORT_MAX_FAN_IN_def Let_def)
  have "count_passes 3 3 0 = Some 1"
    by (subst count_passes.simps, subst count_passes.simps) (simp add: tc_sort_power_reaches_eq)
  moreover have "[2..<4] = [2, 3 :: nat]" by (simp add: upt_rec)
  ultimately have fan: "sort_fan 12 16384 3 = Some (Some (1, 3, 5461))"
    by (simp add: sort_fan_def cap tc_sort_power_reaches_eq Let_def)
  show ?thesis using sort_buffers_fit[OF caps fan] fan by simp
qed

end
