(* ===== verification/Playlist_Files.thy ===== *)
theory Playlist_Files
  imports C_Text
begin

text \<open>
  Playlist files (\<^verbatim>\<open>src/src/library/playlist_files.c\<close>): the arithmetic of relative paths, reading, and the
  operations that append to, edit, create, rename and delete a playlist.

  A file system maps the path of a file to its contents, the string of its bytes.  \<^verbatim>\<open>snprintf\<close> into a
  buffer of \<open>n\<close> bytes keeps the first \<open>n - 1\<close>.  What may fail is given by \<open>pl_io\<close>: the steps of a
  write, and after how many bytes the card is full.  The operations hold the mutex of the module, so they do
  not interleave.  Finding playlists is modelled in \<open>Playlist_Scan\<close>.
\<close>

definition PATH_SIZE :: nat where "PATH_SIZE = 4096"
definition NAME_SIZE :: nat where "NAME_SIZE = 255"
definition NORMALIZE_MAX_COMPONENTS :: nat where "NORMALIZE_MAX_COMPONENTS = 64"
definition MAKE_RELATIVE_MAX_COMPONENTS :: nat where "MAKE_RELATIVE_MAX_COMPONENTS = 64"

section \<open>Paths\<close>

definition snprintf_s :: "nat \<Rightarrow> string \<Rightarrow> string" where
  "snprintf_s n s = take (n - 1) s"

definition dir_of :: "string \<Rightarrow> nat \<Rightarrow> string" where
  "dir_of path out_size =
     take (out_size - 1) (if CHR ''/'' \<in> set path then rev (tl (dropWhile (\<lambda>c. c \<noteq> CHR ''/'') (rev path))) else [])"

text \<open>The tokens that \<^verbatim>\<open>strtok_r\<close> finds between slashes.\<close>

function path_tokens :: "string \<Rightarrow> string list" where
  "path_tokens s =
     (let s = dropWhile (\<lambda>c. c = CHR ''/'') s
      in if s = [] then [] else takeWhile (\<lambda>c. c \<noteq> CHR ''/'') s # path_tokens (dropWhile (\<lambda>c. c \<noteq> CHR ''/'') s))"
  by pat_completeness auto
termination
proof (relation "measure length")
  fix s x :: string
  assume x: "x = dropWhile (\<lambda>c. c = CHR ''/'') s" "x \<noteq> []"
  then have "hd x \<noteq> CHR ''/''" using hd_dropWhile[of "\<lambda>c. c = CHR ''/''" s] by simp
  then have "length (dropWhile (\<lambda>c. c \<noteq> CHR ''/'') x) < length x" using x(2) by (cases x) (simp_all add: length_dropWhile_le le_imp_less_Suc)
  also have "\<dots> \<le> length s" unfolding x(1) by (rule length_dropWhile_le)
  finally show "(dropWhile (\<lambda>c. c \<noteq> CHR ''/'') x, s) \<in> measure length" by simp
qed simp

declare path_tokens.simps [simp del]

definition normalize_step :: "string list \<Rightarrow> string \<Rightarrow> string list" where
  "normalize_step parts tok =
     (if tok = ''..'' \<and> parts \<noteq> [] \<and> last parts \<noteq> ''..'' \<and> last parts \<noteq> ''.'' then butlast parts
      else if length parts < NORMALIZE_MAX_COMPONENTS then parts @ [tok] else parts)"

text \<open>A part followed by a slash unless it is the last one; an overlong part is cut and ends the output.\<close>

definition part_text :: "string \<Rightarrow> string list \<Rightarrow> string" where
  "part_text p ps = p @ (if ps \<noteq> [] then ''/'' else '''')"

primrec emit_parts :: "nat \<Rightarrow> string \<Rightarrow> string list \<Rightarrow> string" where
  "emit_parts n out [] = out"
| "emit_parts n out (p # ps) =
     (let piece = part_text p ps; room = n - length out in
      if room \<le> length piece then out @ take (room - 1) piece else emit_parts n (out @ piece) ps)"

definition normalize_path :: "string \<Rightarrow> nat \<Rightarrow> string" where
  "normalize_path path path_size =
     (let copy = snprintf_s PATH_SIZE path;
          parts = foldl normalize_step [] (path_tokens copy)
      in emit_parts path_size (if at_ptr copy = CHR ''/'' then ''/'' else '''') parts)"

fun common_parts :: "string list \<Rightarrow> string list \<Rightarrow> nat" where
  "common_parts (b # bs) (t # ts) = (if b = t then Suc (common_parts bs ts) else 0)"
| "common_parts _ _ = 0"

primrec emit_all :: "nat \<Rightarrow> string \<Rightarrow> string list \<Rightarrow> string option" where
  "emit_all n out [] = Some out"
| "emit_all n out (p # ps) = (if n - length out \<le> length p then None else emit_all n (out @ p) ps)"

primrec part_texts :: "string list \<Rightarrow> string list" where
  "part_texts [] = []"
| "part_texts (p # ps) = part_text p ps # part_texts ps"

definition make_relative_path :: "string \<Rightarrow> string \<Rightarrow> nat \<Rightarrow> string option" where
  "make_relative_path base_dir target out_size =
     (let base_parts = take MAKE_RELATIVE_MAX_COMPONENTS (path_tokens (snprintf_s PATH_SIZE base_dir));
          target_parts = take MAKE_RELATIVE_MAX_COMPONENTS (path_tokens (snprintf_s PATH_SIZE target));
          common = common_parts base_parts target_parts
      in if common = 0 then None
         else emit_all out_size '''' (replicate (length base_parts - common) ''../'' @ part_texts (drop common target_parts)))"

definition playlist_files_resolve_path :: "string \<Rightarrow> string \<Rightarrow> nat \<Rightarrow> string" where
  "playlist_files_resolve_path m3u_path line out_size =
     (if at_ptr line = CHR ''/'' then normalize_path (snprintf_s out_size line) out_size
      else normalize_path (snprintf_s out_size (dir_of m3u_path PATH_SIZE @ ''/'' @ line)) out_size)"

text \<open>What is written for a song: its path relative to the folder of the playlist, if there is one.\<close>

definition entry_line :: "string \<Rightarrow> string \<Rightarrow> string" where
  "entry_line dir song = (case make_relative_path dir song PATH_SIZE of Some rel \<Rightarrow> rel | None \<Rightarrow> song)"

section \<open>Reading\<close>

text \<open>The lines that \<^verbatim>\<open>getline\<close> delivers, each with its newline.\<close>

fun getlines :: "string \<Rightarrow> string list" where
  "getlines [] = []"
| "getlines (c # s) =
     (if c = newline then [c] # getlines s
      else case getlines s of [] \<Rightarrow> [[c]] | l # ls \<Rightarrow> (c # l) # ls)"

definition library_trim_eol :: "string \<Rightarrow> string" where
  "library_trim_eol line = rev (dropWhile (\<lambda>c. c = newline \<or> c = carriage_return) (rev line))"

definition skip_bom :: "string \<Rightarrow> string" where
  "skip_bom s = (if library_utf8_bom_skip s = 3 then drop 3 s else s)"

datatype playlist_read_status_t = PLAYLIST_READ_OK | PLAYLIST_READ_EMPTY | PLAYLIST_READ_IO_ERROR | PLAYLIST_READ_INVALID | PLAYLIST_READ_NO_MEMORY

text \<open>\<open>alloc k\<close> says whether memory for the \<open>k\<close>-th path can be had (the array and the copy).\<close>

primrec read_lines :: "(nat \<Rightarrow> bool) \<Rightarrow> string \<Rightarrow> bool \<Rightarrow> string list \<Rightarrow> string list \<Rightarrow> playlist_read_status_t + string list" where
  "read_lines alloc path first [] paths = Inr paths"
| "read_lines alloc path first (l # ls) paths =
     (if NUL \<in> set l then Inl PLAYLIST_READ_INVALID
      else let entry = library_trim_eol (if first then skip_bom l else l) in
        if entry = [] \<or> hd entry = CHR ''#'' then read_lines alloc path False ls paths
        else if PATH_SIZE \<le> length entry + (if hd entry = CHR ''/'' then 0 else length (dir_of path PATH_SIZE) + 1)
        then Inl PLAYLIST_READ_INVALID
        else if \<not> alloc (length paths) then Inl PLAYLIST_READ_NO_MEMORY
        else read_lines alloc path False ls (paths @ [playlist_files_resolve_path path entry PATH_SIZE]))"

definition playlist_files_read_ex :: "(nat \<Rightarrow> bool) \<Rightarrow> bool \<Rightarrow> string \<Rightarrow> string option \<Rightarrow> playlist_read_status_t \<times> string list" where
  "playlist_files_read_ex alloc io_error path file =
     (case file of
        None \<Rightarrow> (PLAYLIST_READ_IO_ERROR, [])
      | Some s \<Rightarrow>
          (case read_lines alloc path True (getlines s) [] of
             Inl status \<Rightarrow> (if io_error then PLAYLIST_READ_IO_ERROR else status, [])
           | Inr paths \<Rightarrow> if io_error then (PLAYLIST_READ_IO_ERROR, [])
               else (if paths \<noteq> [] then PLAYLIST_READ_OK else PLAYLIST_READ_EMPTY, paths)))"

definition playlist_files_read :: "(nat \<Rightarrow> bool) \<Rightarrow> bool \<Rightarrow> string \<Rightarrow> string option \<Rightarrow> bool \<times> string list" where
  "playlist_files_read alloc io_error path file =
     (let (status, paths) = playlist_files_read_ex alloc io_error path file
      in (status = PLAYLIST_READ_OK \<or> status = PLAYLIST_READ_EMPTY, paths))"

text \<open>The loops over \<^verbatim>\<open>fgets\<close>, which see at most 4095 bytes of a line at a time.\<close>

function fgets_lines :: "string \<Rightarrow> string list" where
  "fgets_lines s = (if s = [] then [] else let (l, r) = fgets (PATH_SIZE - 1) s in library_trim_eol (c_string l) # fgets_lines r)"
  by pat_completeness auto
termination
proof (relation "measure length")
  show "(r, s) \<in> measure length" if "s \<noteq> []" "x = fgets (PATH_SIZE - 1) s" "(l, r) = x" for s x l r
    using that fgets_progress[of 4094 "hd s" "tl s" l r] by (cases s) (auto simp: numeral_eq_Suc PATH_SIZE_def)
qed simp

declare fgets_lines.simps [simp del]

definition playlist_files_contains :: "string \<Rightarrow> string option \<Rightarrow> string \<Rightarrow> bool" where
  "playlist_files_contains m3u_path file song_path =
     (case file of None \<Rightarrow> False
      | Some s \<Rightarrow> \<exists>l \<in> set (fgets_lines s). l \<noteq> [] \<and> playlist_files_resolve_path m3u_path l PATH_SIZE = song_path)"

section \<open>Writing\<close>

type_synonym file_system = "string \<Rightarrow> string option"

record pl_io =
  pl_alloc_ok :: bool
  pl_open_ok :: bool
  pl_read_ok :: bool
  pl_temp :: string
  pl_mkstemp_ok :: bool
  pl_fdopen_ok :: bool
  pl_space :: nat
  pl_flush_ok :: bool
  pl_close_ok :: bool
  pl_rename_ok :: bool
  pl_unlink_ok :: bool

definition unlink_file :: "pl_io \<Rightarrow> string \<Rightarrow> file_system \<Rightarrow> file_system" where
  "unlink_file io name fs = (if pl_unlink_ok io then fs(name := None) else fs)"

text \<open>
  The common end of the writers: the text goes to the temporary file \<open>temp\<close>, which is flushed, synced,
  closed and renamed; otherwise it is removed.  \<open>ok\<close> is false when the writer has given up.
\<close>

definition publish :: "pl_io \<Rightarrow> bool \<Rightarrow> string \<Rightarrow> string \<Rightarrow> string \<Rightarrow> file_system \<Rightarrow> bool \<times> file_system" where
  "publish io ok temp path new fs =
     (let ok = (ok \<and> length new \<le> pl_space io \<and> pl_flush_ok io \<and> pl_close_ok io);
          fs = fs(temp \<mapsto> take (pl_space io) new)
      in if ok \<and> pl_rename_ok io then (True, fs(path \<mapsto> new, temp := None))
         else (False, unlink_file io temp fs))"

definition temp_template :: "string \<Rightarrow> string" where
  "temp_template dir = dir @ ''/.playlist-XXXXXX''"

text \<open>\<^verbatim>\<open>mkstemp\<close> and \<^verbatim>\<open>fdopen\<close>, then the writer \<open>publish\<close>.\<close>

definition write_temp :: "pl_io \<Rightarrow> bool \<Rightarrow> string \<Rightarrow> string \<Rightarrow> string \<Rightarrow> file_system \<Rightarrow> bool \<times> file_system" where
  "write_temp io ok dir path new fs =
     (if PATH_SIZE \<le> length (temp_template dir) \<or> \<not> pl_mkstemp_ok io then (False, fs)
      else if \<not> pl_fdopen_ok io then (False, unlink_file io (pl_temp io) (fs(pl_temp io \<mapsto> [])))
      else publish io ok (pl_temp io) path new fs)"

definition ends_line :: "string \<Rightarrow> string" where
  "ends_line s = (if s \<noteq> [] \<and> last s \<noteq> newline then [newline] else [])"

definition append_text :: "string \<Rightarrow> string \<Rightarrow> string" where
  "append_text s line = s @ ends_line s @ line @ [newline]"

definition playlist_files_append :: "pl_io \<Rightarrow> string \<Rightarrow> string \<Rightarrow> file_system \<Rightarrow> bool \<times> file_system" where
  "playlist_files_append io path song_path fs =
     (if song_path = [] \<or> newline \<in> set song_path \<or> carriage_return \<in> set song_path then (False, fs)
      else if \<not> pl_open_ok io then (False, fs)
      else let dir = dir_of path PATH_SIZE; old = (case fs path of None \<Rightarrow> [] | Some s \<Rightarrow> s)
        in write_temp io (pl_read_ok io) dir path (append_text old (entry_line dir song_path)) fs)"

definition remove_text :: "string \<Rightarrow> string \<Rightarrow> string \<Rightarrow> string" where
  "remove_text m3u_path song_path s =
     concat (map (\<lambda>l. l @ [newline])
       (filter (\<lambda>l. l \<noteq> [] \<and> playlist_files_resolve_path m3u_path l PATH_SIZE \<noteq> song_path) (fgets_lines s)))"

definition playlist_files_remove :: "pl_io \<Rightarrow> string \<Rightarrow> string \<Rightarrow> file_system \<Rightarrow> bool \<times> file_system" where
  "playlist_files_remove io m3u_path song_path fs =
     (case fs m3u_path of
        None \<Rightarrow> (False, fs)
      | Some s \<Rightarrow>
          if \<not> pl_open_ok io \<or> \<not> pl_fdopen_ok io then (False, fs)
          else publish io (pl_read_ok io) (m3u_path @ ''.tmp'') m3u_path (remove_text m3u_path song_path s) fs)"

definition file_ext :: "string \<Rightarrow> string option" where
  "file_ext name = (if CHR ''.'' \<in> set name then Some (CHR ''.'' # rev (takeWhile (\<lambda>c. c \<noteq> CHR ''.'') (rev name))) else None)"

definition library_is_m3u_file :: "string \<Rightarrow> bool" where
  "library_is_m3u_file name =
     (case file_ext name of None \<Rightarrow> False
      | Some ext \<Rightarrow> map tolower ext = ''.m3u'' \<or> map tolower ext = ''.m3u8'')"

definition valid_playlist_name :: "string \<Rightarrow> bool" where
  "valid_playlist_name name \<longleftrightarrow> name \<noteq> [] \<and> hd name \<noteq> CHR ''.'' \<and> length name \<le> 200 \<and>
     (\<forall>c \<in> set name. \<not> (of_char c :: nat) < 32 \<and> c \<notin> set (''/'' @ [char_of (92 :: nat)] @ '':*?'' @ [char_of (34 :: nat)] @ ''<>|'')) \<and>
     last name \<noteq> CHR '' '' \<and> last name \<noteq> CHR ''.''"

text \<open>The lines of a new playlist; \<open>None\<close> when a path is missing or has a line break.\<close>

primrec song_lines :: "(string \<Rightarrow> string) \<Rightarrow> string option list \<Rightarrow> string option" where
  "song_lines f [] = Some []"
| "song_lines f (p # ps) =
     (case p of
        None \<Rightarrow> None
      | Some song \<Rightarrow>
          if newline \<in> set song \<or> carriage_return \<in> set song then None
          else map_option (\<lambda>rest. f song @ newline # rest) (song_lines f ps))"

definition extm3u :: string where
  "extm3u = ''#EXTM3U'' @ [newline]"

definition new_path :: "string \<Rightarrow> string \<Rightarrow> string" where
  "new_path dir name = dir @ ''/'' @ name @ (if library_is_m3u_file name then '''' else ''.m3u'')"

text \<open>
  \<open>fs\<close> after the name has been reserved by \<^verbatim>\<open>O_EXCL\<close>; a failure removes the temporary file and the
  reservation.
\<close>

definition playlist_files_write_new_stream ::
  "pl_io \<Rightarrow> string \<Rightarrow> string \<Rightarrow> string option list \<Rightarrow> nat \<Rightarrow> file_system \<Rightarrow> bool \<times> file_system" where
  "playlist_files_write_new_stream io dir name songs out_size fs =
     (let path = new_path dir name in
      if \<not> valid_playlist_name name \<or> PATH_SIZE \<le> length path \<or> out_size \<le> length path \<or> PATH_SIZE \<le> length (temp_template dir)
      then (False, fs)
      else if fs path \<noteq> None \<or> \<not> pl_open_ok io then (False, fs)
      else let lines = song_lines (entry_line dir) songs;
               (ok, fs') = write_temp io (lines \<noteq> None) dir path (extm3u @ (case lines of None \<Rightarrow> [] | Some t \<Rightarrow> t)) (fs(path \<mapsto> []))
        in (ok, if ok then fs' else unlink_file io path fs'))"

text \<open>
  The same into an open directory, with the paths as they are and a rename that does not replace a file; whether
  one of the hundred temporary names is free is \<open>pl_mkstemp_ok\<close>.
\<close>

definition playlist_files_write_new_stream_at ::
  "pl_io \<Rightarrow> string \<Rightarrow> string option list \<Rightarrow> nat \<Rightarrow> file_system \<Rightarrow> bool \<times> file_system" where
  "playlist_files_write_new_stream_at io name songs out_size fs =
     (let leaf = name @ (if library_is_m3u_file name then '''' else ''.m3u'') in
      if \<not> valid_playlist_name name \<or> CHR ''/'' \<in> set name \<or> NAME_SIZE \<le> length leaf \<or> out_size \<le> length leaf then (False, fs)
      else if \<not> pl_mkstemp_ok io then (False, fs)
      else if \<not> pl_fdopen_ok io then (False, unlink_file io (pl_temp io) (fs(pl_temp io \<mapsto> [])))
      else let lines = song_lines (\<lambda>song. song) songs;
               new = extm3u @ (case lines of None \<Rightarrow> [] | Some t \<Rightarrow> t);
               ok = (lines \<noteq> None \<and> length new \<le> pl_space io \<and> pl_flush_ok io \<and> pl_close_ok io);
               fs' = fs(pl_temp io \<mapsto> take (pl_space io) new)
        in if ok \<and> pl_rename_ok io \<and> fs leaf = None then (True, fs'(leaf \<mapsto> new, pl_temp io := None))
           else (False, unlink_file io (pl_temp io) fs'))"

definition playlist_files_create :: "pl_io \<Rightarrow> string \<Rightarrow> string \<Rightarrow> string option \<Rightarrow> nat \<Rightarrow> file_system \<Rightarrow> bool \<times> file_system" where
  "playlist_files_create io dir name song_path out_size fs =
     playlist_files_write_new_stream io dir name
       (case song_path of None \<Rightarrow> [] | Some s \<Rightarrow> if s = [] then [] else [song_path]) out_size fs"

definition playlist_files_rename :: "pl_io \<Rightarrow> string \<Rightarrow> string \<Rightarrow> nat \<Rightarrow> file_system \<Rightarrow> bool \<times> file_system" where
  "playlist_files_rename io path name out_size fs =
     (let dest = dir_of path PATH_SIZE @ ''/'' @ name @
            (if library_is_m3u_file name then '''' else case file_ext path of Some ext \<Rightarrow> ext | None \<Rightarrow> ''.m3u'')
      in if \<not> valid_playlist_name name \<or> PATH_SIZE \<le> length dest \<or> out_size \<le> length dest then (False, fs)
         else if path = dest then (True, fs)
         else if fs dest \<noteq> None \<or> \<not> pl_open_ok io then (False, fs)
         else case fs path of
             Some s \<Rightarrow> if pl_rename_ok io then (True, fs(dest \<mapsto> s, path := None)) else (False, unlink_file io dest (fs(dest \<mapsto> [])))
           | None \<Rightarrow> (False, unlink_file io dest (fs(dest \<mapsto> []))))"

definition playlist_files_delete :: "pl_io \<Rightarrow> string \<Rightarrow> file_system \<Rightarrow> bool \<times> file_system" where
  "playlist_files_delete io m3u_path fs =
     (if fs m3u_path \<noteq> None \<and> pl_unlink_ok io then (True, fs(m3u_path := None)) else (False, fs))"

section \<open>Moving and deleting entries\<close>

text \<open>
  An entry is kept with the comments in front of it: \<open>edit_scan\<close> collects the blocks, the comments
  behind the last entry, and whether the file starts with a byte order mark.
\<close>

primrec edit_scan :: "string list \<Rightarrow> bool \<Rightarrow> string list \<Rightarrow> string \<Rightarrow> bool \<times> string list \<times> string" where
  "edit_scan [] bom blocks pending = (bom, blocks, pending)"
| "edit_scan (l # ls) bom blocks pending =
     (let strip = (blocks = [] \<and> pending = [] \<and> library_utf8_bom_skip (c_string l) = 3);
          s = (if strip then drop 3 (c_string l) else c_string l);
          bom = (bom \<or> strip)
      in if take 7 s = ''#EXTM3U'' then edit_scan ls bom blocks pending
         else if s = [] \<or> hd s = CHR ''#'' \<or> hd s = carriage_return \<or> hd s = newline then edit_scan ls bom blocks (pending @ s)
         else edit_scan ls bom (blocks @ [pending @ s]) [])"

definition edit_blocks :: "'b list \<Rightarrow> int \<Rightarrow> int \<Rightarrow> 'b list option" where
  "edit_blocks blocks from to = do {
     let cnt = int (length blocks);
     entry \<leftarrow> aget blocks from;
     blocks \<leftarrow> memmove blocks from (from + 1) (cnt - from - 1);
     if to < 0 then Some (take (nat (cnt - 1)) blocks)
     else do {
       blocks \<leftarrow> memmove blocks (to + 1) to (cnt - to - 1);
       aset blocks to entry } }"

definition edit_text :: "bool \<Rightarrow> string list \<Rightarrow> string \<Rightarrow> string" where
  "edit_text bom blocks pending =
     (if bom then utf8_bom else []) @ extm3u @ concat (map (\<lambda>b. b @ ends_line b) blocks) @ pending"

definition playlist_files_edit_entry :: "pl_io \<Rightarrow> string \<Rightarrow> int \<Rightarrow> int \<Rightarrow> file_system \<Rightarrow> (bool \<times> file_system) option" where
  "playlist_files_edit_entry io path from to fs =
     (if from < 0 then Some (False, fs)
      else case fs path of
          None \<Rightarrow> Some (False, fs)
        | Some s \<Rightarrow>
            let (bom, blocks, pending) = edit_scan (getlines s) False [] [] in
            if \<not> pl_open_ok io \<or> \<not> pl_alloc_ok io \<or> \<not> pl_read_ok io \<or> int (length blocks) \<le> from \<or> int (length blocks) \<le> to
            then Some (False, fs)
            else do {
              blocks \<leftarrow> edit_blocks blocks from to;
              Some (write_temp io True (dir_of path PATH_SIZE) path (edit_text bom blocks pending) fs) })"

section \<open>Migration to relative paths\<close>

definition migrate_text :: "string \<Rightarrow> string \<Rightarrow> string" where
  "migrate_text m3u_path s =
     concat (map (\<lambda>l. entry_line (dir_of m3u_path PATH_SIZE) (playlist_files_resolve_path m3u_path l PATH_SIZE) @ [newline])
       (filter (\<lambda>l. l \<noteq> [] \<and> hd l \<noteq> CHR ''#'') (fgets_lines s)))"

text \<open>The results of writing, flushing, closing and renaming are not looked at.\<close>

definition migrate_one_file :: "pl_io \<Rightarrow> string \<Rightarrow> file_system \<Rightarrow> bool \<times> file_system" where
  "migrate_one_file io m3u_path fs =
     (case fs m3u_path of
        None \<Rightarrow> (False, fs)
      | Some s \<Rightarrow>
          if \<not> pl_open_ok io \<or> \<not> pl_fdopen_ok io then (False, fs)
          else let tmp = m3u_path @ ''.tmp''; written = take (pl_space io) (migrate_text m3u_path s) in
            if \<not> pl_read_ok io then (False, unlink_file io tmp (fs(tmp \<mapsto> written)))
            else (True, if pl_rename_ok io then fs(m3u_path \<mapsto> written, tmp := None) else fs(tmp \<mapsto> written)))"

end
