(* ===== verification/Playlist_Props.thy ===== *)
theory Playlist_Props
  imports Playlist_Files
begin

text \<open>
  What the playlist files promise: the line written for a song leads back to it, appended and new entries
  are read back, moving and deleting entries does so for what is read, and a failed operation leaves the
  playlist as it was.
\<close>

section \<open>Paths\<close>

definition clean :: "string \<Rightarrow> bool" where
  "clean p \<longleftrightarrow> p \<noteq> [] \<and> CHR ''/'' \<notin> set p"

definition normal :: "string list \<Rightarrow> bool" where
  "normal ps \<longleftrightarrow> (\<forall>p \<in> set ps. clean p \<and> p \<noteq> ''.'' \<and> p \<noteq> ''..'') \<and> length ps \<le> 64"

definition full_path :: "string list \<Rightarrow> string" where
  "full_path ps = concat (map (\<lambda>p. CHR ''/'' # p) ps)"

lemma path_tokens_Nil [simp]: "path_tokens [] = []"
  by (simp add: path_tokens.simps)

lemma path_tokens_slash [simp]: "path_tokens (CHR ''/'' # s) = path_tokens s"
  by (subst path_tokens.simps, subst (2) path_tokens.simps) simp

lemma span_slash: "CHR ''/'' \<notin> set p \<Longrightarrow> takeWhile (\<lambda>c. c \<noteq> CHR ''/'') (p @ CHR ''/'' # s) = p"
    "CHR ''/'' \<notin> set p \<Longrightarrow> dropWhile (\<lambda>c. c \<noteq> CHR ''/'') (p @ CHR ''/'' # s) = CHR ''/'' # s"
  by (induction p) auto

lemma NUL_not_slash: "NUL \<noteq> CHR ''/''"
  by (simp add: NUL_def char_of_def)

lemma path_tokens_clean: "clean p \<Longrightarrow> path_tokens (p @ CHR ''/'' # s) = p # path_tokens s" "clean p \<Longrightarrow> path_tokens p = [p]"
proof -
  assume p: "clean p"
  then obtain c q where c: "p = c # q" "c \<noteq> CHR ''/''" by (cases p) (auto simp: clean_def)
  have tw: "takeWhile (\<lambda>c. c \<noteq> CHR ''/'') (p @ CHR ''/'' # s) = p" "dropWhile (\<lambda>c. c \<noteq> CHR ''/'') (p @ CHR ''/'' # s) = CHR ''/'' # s"
    "takeWhile (\<lambda>c. c \<noteq> CHR ''/'') p = p" "dropWhile (\<lambda>c. c \<noteq> CHR ''/'') p = []"
    using p span_slash by (auto simp: clean_def takeWhile_eq_all_conv)
  have dw: "dropWhile (\<lambda>c. c = CHR ''/'') (p @ t) = p @ t" for t using c by simp
  show "path_tokens (p @ CHR ''/'' # s) = p # path_tokens s"
    by (subst path_tokens.simps) (use dw[of "CHR ''/'' # s"] tw c in \<open>simp add: Let_def\<close>)
  have "path_tokens p = takeWhile (\<lambda>c. c \<noteq> CHR ''/'') p # path_tokens (dropWhile (\<lambda>c. c \<noteq> CHR ''/'') p)"
    by (subst path_tokens.simps) (use dw[of "[]"] c in \<open>simp add: Let_def\<close>)
  then show "path_tokens p = [p]" unfolding tw(3,4) by simp
qed

lemma tokens_full: "\<forall>p \<in> set ps. clean p \<Longrightarrow> path_tokens (full_path ps @ CHR ''/'' # s) = ps @ path_tokens s"
proof (induction ps)
  case (Cons p ps)
  have "path_tokens (p @ CHR ''/'' # t) = p # path_tokens t" for t using Cons.prems by (intro path_tokens_clean) simp
  moreover have "full_path ps @ CHR ''/'' # s = CHR ''/'' # tl (full_path ps @ CHR ''/'' # s)" by (cases ps) (simp_all add: full_path_def)
  ultimately have "path_tokens (p @ full_path ps @ CHR ''/'' # s) = p # path_tokens (full_path ps @ CHR ''/'' # s)"
    by (metis path_tokens_slash)
  then show ?case using Cons by (simp add: full_path_def)
qed (simp add: full_path_def)

lemma tokens_full': "\<forall>p \<in> set ps. clean p \<Longrightarrow> path_tokens (full_path ps) = ps"
proof (induction ps)
  case (Cons p ps)
  show ?case
  proof (cases ps)
    case Nil
    then show ?thesis using Cons.prems path_tokens_clean(2)[of p] by (simp add: full_path_def)
  next
    case q: (Cons q qs)
    have "path_tokens (p @ full_path ps) = p # path_tokens (full_path ps)"
      using path_tokens_clean(1)[of p "q @ full_path qs"] Cons.prems q by (simp add: full_path_def)
    then show ?thesis using Cons by (simp add: full_path_def)
  qed
qed (simp add: full_path_def)

lemma part_texts_full: "ps \<noteq> [] \<Longrightarrow> CHR ''/'' # concat (part_texts ps) = full_path ps"
proof (induction ps)
  case (Cons p ps)
  then show ?case by (cases "ps = []") (simp_all add: part_text_def full_path_def)
qed simp

lemma tokens_texts: "\<forall>p \<in> set ps. clean p \<Longrightarrow> path_tokens (concat (part_texts ps)) = ps"
proof (cases "ps = []")
  case False
  assume "\<forall>p \<in> set ps. clean p"
  then have "path_tokens (CHR ''/'' # concat (part_texts ps)) = ps" using part_texts_full[OF False] tokens_full' by simp
  then show ?thesis by simp
qed simp

lemma tokens_up: "path_tokens (concat (replicate k ''../'') @ s) = replicate k ''..'' @ path_tokens s"
proof (induction k)
  case (Suc k)
  have "clean ''..''" by (simp add: clean_def)
  then show ?case using Suc path_tokens_clean(1)[of "''..''" "concat (replicate k ''../'') @ s"] by simp
qed simp

lemma foldl_normal: "(\<forall>p \<in> set ps. p \<noteq> ''..'') \<Longrightarrow> length acc + length ps \<le> 64 \<Longrightarrow> foldl normalize_step acc ps = acc @ ps"
  by (induction ps arbitrary: acc) (simp_all add: normalize_step_def NORMALIZE_MAX_COMPONENTS_def)

lemma foldl_up:
  assumes "\<forall>p \<in> set bs. p \<noteq> ''.'' \<and> p \<noteq> ''..''" and "k \<le> length bs"
  shows "foldl normalize_step bs (replicate k ''..'') = take (length bs - k) bs"
  using assms
proof (induction k arbitrary: bs)
  case (Suc k)
  then have ne: "bs \<noteq> []" by auto
  then have "last bs \<noteq> ''.'' \<and> last bs \<noteq> ''..''" using Suc.prems(1) by simp
  then have "normalize_step bs ''..'' = butlast bs" using ne by (simp add: normalize_step_def)
  moreover have "foldl normalize_step (butlast bs) (replicate k ''..'') = take (length (butlast bs) - k) (butlast bs)"
    using Suc.prems by (intro Suc.IH) (auto dest: in_set_butlastD)
  ultimately show ?case using ne by (simp add: take_butlast)
qed simp

lemma emit_parts_fits: "length out + length (concat (part_texts ps)) < n \<Longrightarrow> emit_parts n out ps = out @ concat (part_texts ps)"
proof (induction ps arbitrary: out)
  case (Cons p ps)
  have "\<not> n - length out \<le> length (part_text p ps)" using Cons.prems by simp
  then show ?case using Cons by (simp add: Let_def)
qed simp

lemma emit_all_Some: "emit_all n out ps = Some s \<Longrightarrow> s = out @ concat ps"
  by (induction ps arbitrary: out) (fastforce split: if_splits)+

lemma common_parts_take: "take (common_parts bs ts) bs = take (common_parts bs ts) ts" "common_parts bs ts \<le> length bs" "common_parts bs ts \<le> length ts"
  by (induction bs ts rule: common_parts.induct) simp_all

text \<open>Normalising a joined path.\<close>

lemma normalize_tokens:
  assumes "at_ptr s = CHR ''/''" and "length s < 4096" and "foldl normalize_step [] (path_tokens s) = ts" and "ts \<noteq> []" and "length (full_path ts) < 4096"
  shows "normalize_path s PATH_SIZE = full_path ts"
proof -
  have "snprintf_s PATH_SIZE s = s" using assms(2) by (simp add: snprintf_s_def PATH_SIZE_def)
  moreover have "emit_parts PATH_SIZE ''/'' ts = full_path ts"
  proof -
    have "length ''/'' + length (concat (part_texts ts)) < PATH_SIZE"
      using assms(5) unfolding part_texts_full[OF assms(4), symmetric] by (simp add: PATH_SIZE_def)
    from emit_parts_fits[OF this] show ?thesis using part_texts_full[OF assms(4)] by simp
  qed
  ultimately show ?thesis using assms(1,3) by (simp add: normalize_path_def Let_def)
qed

lemma dir_of_full: "CHR ''/'' \<notin> set name \<Longrightarrow> length d < 4096 \<Longrightarrow> dir_of (d @ CHR ''/'' # name) PATH_SIZE = d"
proof -
  assume name: "CHR ''/'' \<notin> set name" and d: "length d < 4096"
  have "dropWhile (\<lambda>c. c \<noteq> CHR ''/'') (rev (d @ CHR ''/'' # name)) = CHR ''/'' # rev d"
    using name span_slash(2)[of "rev name" "rev d"] by simp
  then show ?thesis using d by (simp add: dir_of_def PATH_SIZE_def)
qed

lemma at_ptr_full: "ps \<noteq> [] \<Longrightarrow> at_ptr (full_path ps @ s) = CHR ''/''"
  by (cases ps) (simp_all add: full_path_def at_ptr_def)

lemma make_relative_line:
  assumes bs: "normal bs" "length (full_path bs) < 4096" and ts: "normal ts" "length (full_path ts) < 4096"
    and rel: "make_relative_path (full_path bs) (full_path ts) n = Some rel"
  defines "c \<equiv> common_parts bs ts"
  shows "0 < c" and "path_tokens rel = replicate (length bs - c) ''..'' @ drop c ts" and "at_ptr rel \<noteq> CHR ''/''"
proof -
  have tok: "path_tokens (full_path bs) = bs" "path_tokens (full_path ts) = ts"
    using bs(1) ts(1) tokens_full' by (auto simp: normal_def)
  have "snprintf_s PATH_SIZE (full_path bs) = full_path bs" "snprintf_s PATH_SIZE (full_path ts) = full_path ts"
    using bs(2) ts(2) by (simp_all add: snprintf_s_def PATH_SIZE_def)
  moreover have "take MAKE_RELATIVE_MAX_COMPONENTS bs = bs" "take MAKE_RELATIVE_MAX_COMPONENTS ts = ts"
    using bs(1) ts(1) by (simp_all add: normal_def MAKE_RELATIVE_MAX_COMPONENTS_def)
  ultimately have e: "0 < c" "emit_all n '''' (replicate (length bs - c) ''../'' @ part_texts (drop c ts)) = Some rel"
    using rel tok by (auto simp: make_relative_path_def Let_def c_def split: if_splits)
  then show "0 < c" by simp
  have r: "rel = concat (replicate (length bs - c) ''../'') @ concat (part_texts (drop c ts))"
    using emit_all_Some[OF e(2)] by simp
  have cl: "\<forall>p \<in> set (drop c ts). clean p" using ts(1) by (auto simp: normal_def dest: in_set_dropD)
  then show "path_tokens rel = replicate (length bs - c) ''..'' @ drop c ts" unfolding r tokens_up by (simp add: tokens_texts)
  show "at_ptr rel \<noteq> CHR ''/''"
  proof (cases "length bs - c")
    case 0
    then show ?thesis using r cl by (cases "drop c ts") (auto simp: at_ptr_def NUL_not_slash part_text_def clean_def split: list.splits)
  qed (simp add: r at_ptr_def)
qed

text \<open>The line written for a song leads back to the song.\<close>

lemma entry_resolves:
  assumes bs: "normal bs" "length (full_path bs) < 4096" and ts: "normal ts" "ts \<noteq> []" "length (full_path ts) < 4096"
    and name: "CHR ''/'' \<notin> set name" and len: "length (full_path bs) + 1 + length (entry_line (full_path bs) (full_path ts)) < 4096"
  shows "playlist_files_resolve_path (full_path bs @ CHR ''/'' # name) (entry_line (full_path bs) (full_path ts)) PATH_SIZE = full_path ts"
proof (cases "make_relative_path (full_path bs) (full_path ts) PATH_SIZE")
  case None
  have "foldl normalize_step [] (path_tokens (full_path ts)) = ts"
    using ts(1) foldl_normal[of ts "[]"] tokens_full'[of ts] by (auto simp: normal_def)
  then have "normalize_path (full_path ts) PATH_SIZE = full_path ts"
    using ts at_ptr_full[of ts "[]"] by (intro normalize_tokens) simp_all
  then show ?thesis using None ts at_ptr_full[of ts "[]"] by (simp add: entry_line_def playlist_files_resolve_path_def snprintf_s_def PATH_SIZE_def)
next
  case (Some rel)
  define c where "c = common_parts bs ts"
  note rel = make_relative_line[OF bs ts(1,3) Some, folded c_def]
  let ?s = "full_path bs @ CHR ''/'' # rel"
  have line: "entry_line (full_path bs) (full_path ts) = rel" using Some by (simp add: entry_line_def)
  have cb: "take c bs = take c ts" "c \<le> length bs" "c \<le> length ts" using common_parts_take[of bs ts] by (simp_all add: c_def)
  have "path_tokens ?s = bs @ replicate (length bs - c) ''..'' @ drop c ts"
    using bs(1) rel(2) by (simp add: tokens_full normal_def)
  moreover have "foldl normalize_step [] bs = bs" using bs(1) foldl_normal[of bs "[]"] by (simp add: normal_def)
  moreover have "foldl normalize_step bs (replicate (length bs - c) ''..'') = take c bs"
    using bs(1) cb(2) foldl_up[of bs "length bs - c"] by (simp add: normal_def)
  moreover have "foldl normalize_step (take c ts) (drop c ts) = ts"
  proof -
    have "length (take c ts) + length (drop c ts) \<le> 64" using ts(1) cb(3) by (simp add: normal_def)
    moreover have "\<forall>p \<in> set (drop c ts). p \<noteq> ''..''" using ts(1) by (auto simp: normal_def dest: in_set_dropD)
    ultimately show ?thesis using foldl_normal[of "drop c ts" "take c ts"] by simp
  qed
  ultimately have f: "foldl normalize_step [] (path_tokens ?s) = ts" using cb(1) by simp
  have "bs \<noteq> []" using rel(1) cb(2) by auto
  then have "normalize_path ?s PATH_SIZE = full_path ts"
    using ts at_ptr_full[of bs] f len line by (intro normalize_tokens) simp_all
  moreover have "snprintf_s PATH_SIZE ?s = ?s" using len line by (simp add: snprintf_s_def PATH_SIZE_def)
  ultimately show ?thesis
    using rel(3) name bs(2) by (simp add: line playlist_files_resolve_path_def dir_of_full)
qed

section \<open>Lines\<close>

lemma newline_neq: "newline \<noteq> NUL" "newline \<noteq> carriage_return" "newline \<noteq> CHR ''#''" "carriage_return \<noteq> CHR ''#''"
  by (simp_all add: newline_def carriage_return_def NUL_def char_of_def)

lemma concat_getlines [simp]: "concat (getlines s) = s"
  by (induction s) (auto split: list.splits)

lemma getlines_Nil_iff [simp]: "getlines s = [] \<longleftrightarrow> s = []"
  by (cases s) (auto split: list.splits)

lemma getlines_nonempty: "l \<in> set (getlines s) \<Longrightarrow> l \<noteq> []"
  by (induction s) (auto split: list.splits if_splits)

lemma getlines_append: "s = [] \<or> last s = newline \<Longrightarrow> getlines (s @ t) = getlines s @ getlines t"
proof (induction s)
  case (Cons c s)
  show ?case
  proof (cases "s = []")
    case True
    then show ?thesis using Cons.prems by simp
  next
    case False
    then have "getlines (s @ t) = getlines s @ getlines t" "getlines s \<noteq> []" using Cons by simp_all
    then show ?thesis by (auto split: list.splits)
  qed
qed simp

lemma getlines_line: "newline \<notin> set l \<Longrightarrow> getlines (l @ [newline]) = [l @ [newline]]"
  by (induction l) auto

lemma getlines_last: "s \<noteq> [] \<Longrightarrow> last s \<noteq> newline \<Longrightarrow> getlines (s @ [newline]) = butlast (getlines s) @ [last (getlines s) @ [newline]]"
proof (induction s)
  case (Cons c s)
  show ?case
  proof (cases "s = []")
    case False
    then have e: "getlines (s @ [newline]) = butlast (getlines s) @ [last (getlines s) @ [newline]]" using Cons by simp
    obtain l ls where l: "getlines s = l # ls" using False by (cases "getlines s") auto
    then show ?thesis using e by (cases ls) auto
  qed (use Cons.prems in simp)
qed simp

lemma trim_line [simp]: "library_trim_eol (l @ [newline]) = library_trim_eol l" "library_trim_eol [] = []"
  by (simp_all add: library_trim_eol_def)

lemma trim_plain: "l = [] \<or> last l \<noteq> newline \<and> last l \<noteq> carriage_return \<Longrightarrow> library_trim_eol l = l"
  by (cases l rule: rev_cases) (simp_all add: library_trim_eol_def)

lemma trim_Cons: "c \<noteq> newline \<Longrightarrow> c \<noteq> carriage_return \<Longrightarrow> library_trim_eol (c # l) = c # library_trim_eol l"
  by (simp add: library_trim_eol_def dropWhile_append)

lemma skip_bom_newline: "skip_bom (l @ [newline]) = skip_bom l @ [newline]"
proof -
  have nb: "newline \<notin> set utf8_bom" by (simp add: newline_def utf8_bom_def)
  have "take 3 (l @ [newline]) = utf8_bom \<longleftrightarrow> take 3 l = utf8_bom"
  proof (cases "3 \<le> length l")
    case False
    have "length utf8_bom = 3" by (simp add: utf8_bom_def)
    moreover have "take 3 (l @ [newline]) = l @ [newline]" "take 3 l = l" using False by simp_all
    moreover have "l @ [newline] \<noteq> utf8_bom" using nb by (metis in_set_conv_decomp)
    moreover have "l \<noteq> utf8_bom" using False calculation(1) by auto
    ultimately show ?thesis by simp
  qed simp
  moreover have "take 3 l = utf8_bom \<Longrightarrow> 3 \<le> length l" by (auto simp: utf8_bom_def dest: arg_cong[of _ _ length])
  ultimately show ?thesis by (auto simp: skip_bom_def library_utf8_bom_skip_def)
qed

lemma read_lines_append:
  "read_lines alloc path first (xs @ ys) acc =
     (case read_lines alloc path first xs acc of Inl e \<Rightarrow> Inl e | Inr acc' \<Rightarrow> read_lines alloc path (first \<and> xs = []) ys acc')"
proof (induction xs arbitrary: first acc)
  case (Cons x xs)
  have "read_lines alloc path False (xs @ ys) acc =
     (case read_lines alloc path False xs acc of Inl e \<Rightarrow> Inl e | Inr acc' \<Rightarrow> read_lines alloc path False ys acc')" for acc
    using Cons[of False] unfolding simp_thms by simp
  moreover have f: "(first \<and> x # xs = []) = False" by simp
  ultimately show ?case unfolding f by (simp add: Let_def)
qed simp

lemma read_lines_newline: "read_lines alloc path first [l @ [newline]] acc = read_lines alloc path first [l] acc"
  using newline_neq(1) by (simp add: skip_bom_newline)

lemma read_lines_terminated: "read_lines alloc path first (getlines (s @ ends_line s)) acc = read_lines alloc path first (getlines s) acc"
proof (cases "s \<noteq> [] \<and> last s \<noteq> newline")
  case True
  then have ne: "getlines s \<noteq> []" by simp
  have "read_lines alloc path first (getlines (s @ [newline])) acc =
      read_lines alloc path first (butlast (getlines s) @ [last (getlines s) @ [newline]]) acc" using True getlines_last[of s] by simp
  also have "\<dots> = read_lines alloc path first (butlast (getlines s) @ [last (getlines s)]) acc"
    unfolding read_lines_append read_lines_newline by (rule refl)
  finally show ?thesis using True ne by (simp add: ends_line_def)
qed (auto simp: ends_line_def)

text \<open>An entry that can be read back.\<close>

definition entry_ok :: "string \<Rightarrow> string \<Rightarrow> bool" where
  "entry_ok path line \<longleftrightarrow> line \<noteq> [] \<and> hd line \<noteq> CHR ''#'' \<and> NUL \<notin> set line \<and> newline \<notin> set line \<and> carriage_return \<notin> set line \<and>
     length line + (if hd line = CHR ''/'' then 0 else length (dir_of path PATH_SIZE) + 1) < PATH_SIZE \<and> library_utf8_bom_skip line = 0"

lemma read_entry_ok:
  assumes "entry_ok path line"
  shows "read_lines (\<lambda>_. True) path first [line @ [newline]] acc = Inr (acc @ [playlist_files_resolve_path path line PATH_SIZE])"
proof -
  have "skip_bom line = line" using assms by (simp add: skip_bom_def entry_ok_def)
  moreover have "library_trim_eol line = line" using assms unfolding entry_ok_def by (intro trim_plain) (metis last_in_set)
  ultimately show ?thesis unfolding read_lines_newline using assms by (simp add: entry_ok_def)
qed

lemma append_text_reads:
  assumes "read_lines (\<lambda>_. True) path True (getlines s) [] = Inr ps" and "entry_ok path line"
  shows "read_lines (\<lambda>_. True) path True (getlines (append_text s line)) [] = Inr (ps @ [playlist_files_resolve_path path line PATH_SIZE])"
proof -
  have "s @ ends_line s = [] \<or> last (s @ ends_line s) = newline" by (auto simp: ends_line_def)
  then have "getlines (append_text s line) = getlines (s @ ends_line s) @ [line @ [newline]]"
    using getlines_append[of "s @ ends_line s" "line @ [newline]"] getlines_line[of line] assms(2) by (simp add: append_text_def entry_ok_def)
  then show ?thesis using assms(1) read_entry_ok[OF assms(2)] by (simp add: read_lines_append read_lines_terminated)
qed

section \<open>Appending and creating\<close>

lemma publish_True:
  assumes "publish io ok temp path new fs = (True, fs')"
  shows "fs' = fs(temp \<mapsto> take (pl_space io) new, path \<mapsto> new, temp := None)" "ok"
  using assms by (auto simp: publish_def Let_def split: if_splits)

lemma write_temp_True:
  assumes "write_temp io ok dir path new fs = (True, fs')" and "pl_temp io \<noteq> path"
  shows "fs' path = Some new" "ok"
  using assms publish_True[of io ok "pl_temp io" path new fs fs'] by (auto simp: write_temp_def split: if_splits)

lemma read_ex_Inr: "read_lines alloc path True (getlines s) [] = Inr ps \<Longrightarrow>
    playlist_files_read alloc False path (Some s) = (True, ps)"
  by (simp add: playlist_files_read_def playlist_files_read_ex_def)

lemma read_ex_Inr_iff: "playlist_files_read alloc False path (Some s) = (True, ps) \<Longrightarrow>
    read_lines alloc path True (getlines s) [] = Inr ps"
proof -
  assume r: "playlist_files_read alloc False path (Some s) = (True, ps)"
  have "read_lines alloc path first ls acc \<noteq> Inl PLAYLIST_READ_OK \<and> read_lines alloc path first ls acc \<noteq> Inl PLAYLIST_READ_EMPTY" for first ls acc
    by (induction ls arbitrary: first acc) (simp_all add: Let_def)
  then show ?thesis using r by (auto simp: playlist_files_read_def playlist_files_read_ex_def split: sum.splits)
qed

text \<open>
  C35: a song that was appended to a playlist is read back behind the songs it had.  The song and the folder
  of the playlist are absolute paths of at most 64 components without dots, so that the relative line
  that is written leads back to the song; the line must fit and must not look like a comment.
\<close>

theorem playlist_append_reads_back:
  assumes "normal bs" and "length (full_path bs) < 4096" and "CHR ''/'' \<notin> set name" and "normal ts" and "ts \<noteq> []" and "length (full_path ts) < 4096"
    and "path = full_path bs @ CHR ''/'' # name" and "song = full_path ts"
    and "entry_ok path (entry_line (full_path bs) song)" and "length (full_path bs) + 1 + length (entry_line (full_path bs) song) < 4096"
    and "pl_temp io \<noteq> path" and "playlist_files_append io path song fs = (True, fs')"
    and "fs path = None \<and> old = [] \<or> playlist_files_read (\<lambda>_. True) False path (fs path) = (True, old)"
  shows "playlist_files_read (\<lambda>_. True) False path (fs' path) = (True, old @ [song])"
proof -
  let ?line = "entry_line (full_path bs) song"
  define s where "s = (case fs path of None \<Rightarrow> [] | Some s \<Rightarrow> s)"
  have "dir_of path PATH_SIZE = full_path bs" using assms(2,3,7) dir_of_full by simp
  then have "write_temp io (pl_read_ok io) (full_path bs) path (append_text s ?line) fs = (True, fs')"
    using assms(12) by (simp add: playlist_files_append_def Let_def s_def split: if_splits)
  then have new: "fs' path = Some (append_text s ?line)" using write_temp_True assms(11) by blast
  have "read_lines (\<lambda>_. True) path True (getlines s) [] = Inr old"
    using assms(13) read_ex_Inr_iff by (cases "fs path") (auto simp: s_def playlist_files_read_def playlist_files_read_ex_def)
  then have "read_lines (\<lambda>_. True) path True (getlines (append_text s ?line)) [] = Inr (old @ [playlist_files_resolve_path path ?line PATH_SIZE])"
    by (rule append_text_reads[OF _ assms(9)])
  moreover have "playlist_files_resolve_path path ?line PATH_SIZE = song"
    unfolding assms(7,8) by (rule entry_resolves) (use assms in simp_all)
  ultimately show ?thesis using new read_ex_Inr by simp
qed

lemma song_lines_read:
  assumes "song_lines f (map Some songs) = Some t" and "\<forall>s \<in> set songs. entry_ok path (f s)"
  shows "read_lines (\<lambda>_. True) path False (getlines t) acc = Inr (acc @ map (\<lambda>s. playlist_files_resolve_path path (f s) PATH_SIZE) songs)"
  using assms
proof (induction songs arbitrary: t acc)
  case (Cons s songs)
  then obtain u where u: "song_lines f (map Some songs) = Some u" "t = (f s @ [newline]) @ u" by (auto split: if_splits)
  have g: "getlines t = [f s @ [newline]] @ getlines u"
    unfolding u(2) using getlines_append[of "f s @ [newline]" u] getlines_line[of "f s"] Cons.prems(2) by (simp add: entry_ok_def)
  have lo: "entry_ok path (f s)" using Cons.prems(2) by simp
  have "read_lines (\<lambda>_. True) path False (getlines t) acc =
      read_lines (\<lambda>_. True) path False (getlines u) (acc @ [playlist_files_resolve_path path (f s) PATH_SIZE])"
    unfolding g read_lines_append read_entry_ok[OF lo] by simp
  then show ?case using Cons.IH[OF u(1)] Cons.prems(2) by simp
qed simp

lemma read_extm3u: "read_lines alloc path True (getlines ((if bom then utf8_bom else []) @ extm3u @ t)) [] = read_lines alloc path False (getlines t) []"
proof -
  let ?h = "(if bom then utf8_bom else []) @ ''#EXTM3U''"
  have chars: "newline \<notin> set ''#EXTM3U''" "NUL \<notin> set ''#EXTM3U''" "newline \<notin> set utf8_bom" "NUL \<notin> set utf8_bom"
    by (simp_all add: newline_def NUL_def char_of_def utf8_bom_def)
  then have "newline \<notin> set ?h" by auto
  then have "getlines ((if bom then utf8_bom else []) @ extm3u @ t) = [?h @ [newline]] @ getlines t"
    using getlines_append[of "?h @ [newline]" t] getlines_line[of ?h] by (simp add: extm3u_def)
  moreover have "read_lines alloc path True [?h @ [newline]] [] = Inr []"
  proof -
    have "skip_bom ?h = ''#EXTM3U''" by (simp add: skip_bom_def library_utf8_bom_skip_def utf8_bom_def char_of_def)
    moreover have "library_trim_eol ''#EXTM3U'' = ''#EXTM3U''" by (rule trim_plain) (simp add: newline_def carriage_return_def char_of_def)
    moreover have "NUL \<notin> set ?h" using chars by auto
    ultimately show ?thesis unfolding read_lines_newline by simp
  qed
  ultimately show ?thesis by (simp only: read_lines_append) simp
qed

section \<open>Moving and deleting entries\<close>

definition entry_of :: "string \<Rightarrow> string \<Rightarrow> string list" where
  "entry_of path l = (let e = library_trim_eol l in
     if e = [] \<or> hd e = CHR ''#'' then [] else [playlist_files_resolve_path path e PATH_SIZE])"

definition valid_line :: "string \<Rightarrow> string \<Rightarrow> bool" where
  "valid_line path l \<longleftrightarrow> NUL \<notin> set l \<and> (let e = library_trim_eol l in
     e = [] \<or> hd e = CHR ''#'' \<or> length e + (if hd e = CHR ''/'' then 0 else length (dir_of path PATH_SIZE) + 1) < PATH_SIZE)"

lemma read_lines_entries:
  "read_lines (\<lambda>_. True) path False ls acc = Inr ps \<longleftrightarrow> (\<forall>l \<in> set ls. valid_line path l) \<and> ps = acc @ concat (map (entry_of path) ls)"
proof (induction ls arbitrary: acc)
  case (Cons l ls)
  then show ?case by (auto simp: Let_def valid_line_def entry_of_def not_le)
qed auto

lemma NUL_skip_bom: "NUL \<in> set (skip_bom l) \<longleftrightarrow> NUL \<in> set l"
proof (cases "take 3 l = utf8_bom")
  case True
  have "set l = set (take 3 l) \<union> set (drop 3 l)" by (metis append_take_drop_id set_append)
  moreover have "NUL \<notin> set utf8_bom" by (simp add: utf8_bom_def NUL_def)
  ultimately show ?thesis using True by (simp add: skip_bom_def library_utf8_bom_skip_def)
qed (simp add: skip_bom_def library_utf8_bom_skip_def)

lemma read_first: "read_lines alloc path True (l # ls) acc = read_lines alloc path False (skip_bom l # ls) acc"
  by (simp add: NUL_skip_bom)

primrec scan_blocks :: "string list \<Rightarrow> string list \<Rightarrow> string \<Rightarrow> string list \<times> string" where
  "scan_blocks [] blocks pending = (blocks, pending)"
| "scan_blocks (s # ls) blocks pending =
     (if take 7 s = ''#EXTM3U'' then scan_blocks ls blocks pending
      else if s = [] \<or> hd s = CHR ''#'' \<or> hd s = carriage_return \<or> hd s = newline then scan_blocks ls blocks (pending @ s)
      else scan_blocks ls (blocks @ [pending @ s]) [])"

lemma c_string_id: "NUL \<notin> set l \<Longrightarrow> c_string l = l"
  by (simp add: c_string_def takeWhile_eq_all_conv) metis

lemma edit_scan_plain:
  "\<forall>l \<in> set ls. NUL \<notin> set l \<and> library_utf8_bom_skip l = 0 \<Longrightarrow> edit_scan ls bom blocks pending = (bom, scan_blocks ls blocks pending)"
  by (induction ls arbitrary: blocks pending) (simp_all add: c_string_id Let_def)

lemma edit_scan_first:
  assumes "\<forall>l \<in> set (l # ls). NUL \<notin> set l" and "\<forall>l \<in> set ls. library_utf8_bom_skip l = 0"
  shows "edit_scan (l # ls) False [] [] = (library_utf8_bom_skip l = 3, scan_blocks (skip_bom l # ls) [] [])"
  using assms edit_scan_plain[of ls] by (simp add: c_string_id skip_bom_def Let_def)

lemma entry_of_terminated [simp]: "entry_of path (l @ ends_line l) = entry_of path l" "valid_line path (l @ ends_line l) = valid_line path l"
  using newline_neq(1) by (auto simp: entry_of_def valid_line_def ends_line_def)

definition well_lines :: "string list \<Rightarrow> bool" where
  "well_lines ls \<longleftrightarrow> (\<forall>l \<in> set ls. newline \<notin> set (butlast l)) \<and> (\<forall>l \<in> set (butlast ls). l \<noteq> [] \<and> last l = newline)"

lemma well_lines_getlines: "well_lines (getlines s)"
proof (induction s)
  case (Cons c s)
  show ?case
  proof (cases "c = newline")
    case True
    then show ?thesis using Cons by (cases "getlines s") (auto simp: well_lines_def)
  next
    case False
    show ?thesis
    proof (cases "getlines s")
      case Nil
      then show ?thesis using False by (simp add: well_lines_def)
    next
      case (Cons l ls)
      have "l \<noteq> []" using Cons concat_getlines[of s] by (metis getlines_nonempty list.set_intros(1))
      then show ?thesis using Cons.IH False Cons by (auto simp: well_lines_def split: if_splits)
    qed
  qed
qed (simp add: well_lines_def)

text \<open>A block holds one entry behind comments; what is pending are comments only.\<close>

definition block_entry :: "string \<Rightarrow> string \<Rightarrow> string \<Rightarrow> bool" where
  "block_entry path b e \<longleftrightarrow> (\<forall>l \<in> set (getlines (b @ ends_line b)). valid_line path l) \<and>
     concat (map (entry_of path) (getlines (b @ ends_line b))) = [e]"

definition pending_ok :: "string \<Rightarrow> string \<Rightarrow> bool" where
  "pending_ok path p \<longleftrightarrow> (\<forall>l \<in> set (getlines p). valid_line path l) \<and> concat (map (entry_of path) (getlines p)) = []"

lemma getlines_single: "l \<noteq> [] \<Longrightarrow> newline \<notin> set (butlast l) \<Longrightarrow> getlines l = [l]"
proof (induction l)
  case (Cons c l)
  then show ?case by (cases "l = []") auto
qed simp

lemma entry_of_comment: "s = [] \<or> hd s = CHR ''#'' \<Longrightarrow> entry_of path s = []"
  using newline_neq(3,4) trim_Cons[of "hd s" "tl s"] by (cases s) (auto simp: entry_of_def)

lemma entry_of_entry:
  assumes "s \<noteq> []" and "hd s \<noteq> CHR ''#''" and "hd s \<noteq> carriage_return" and "hd s \<noteq> newline"
  shows "\<exists>e. entry_of path s = [e]"
  using assms trim_Cons[of "hd s" "tl s"] by (cases s) (simp_all add: entry_of_def)

lemma scan_blocks_ok:
  assumes "well_lines ls" and "\<forall>l \<in> set ls. valid_line path l \<and> (at_ptr l = carriage_return \<longrightarrow> library_trim_eol l = [])"
    and "list_all2 (block_entry path) blocks es" and "pending_ok path pending" and "ls \<noteq> [] \<Longrightarrow> pending = [] \<or> last pending = newline"
    and "scan_blocks ls blocks pending = (blocks', pending')"
  shows "list_all2 (block_entry path) blocks' (es @ concat (map (entry_of path) ls)) \<and> pending_ok path pending'"
  using assms
proof (induction ls arbitrary: blocks pending es)
  case (Cons s ls)
  have well: "well_lines ls" "newline \<notin> set (butlast s)" using Cons.prems(1) by (auto simp: well_lines_def split: if_splits)
  have more: "s \<noteq> [] \<and> last s = newline" if "ls \<noteq> []" using Cons.prems(1) that by (simp add: well_lines_def)
  have val: "\<forall>l \<in> set ls. valid_line path l \<and> (at_ptr l = carriage_return \<longrightarrow> library_trim_eol l = [])" "valid_line path s" using Cons.prems(2) by simp_all
  have ended: "pending = [] \<or> last pending = newline" using Cons.prems(5) by simp
  show ?case
  proof (cases "take 7 s = ''#EXTM3U''")
    case True
    then have "hd s = CHR ''#''" by (cases s) simp_all
    then have "entry_of path s = []" by (simp add: entry_of_comment)
    moreover have "scan_blocks ls blocks pending = (blocks', pending')" using Cons.prems(6) True by simp
    ultimately show ?thesis using Cons.IH[OF well(1) val(1) Cons.prems(3,4)] ended by simp
  next
    case not_ext: False
    show ?thesis
    proof (cases "s = [] \<or> hd s = CHR ''#'' \<or> hd s = carriage_return \<or> hd s = newline")
      case True
      have e: "entry_of path s = []"
      proof (cases "s \<noteq> [] \<and> hd s \<noteq> CHR ''#''")
        case sub: True
        have "library_trim_eol s = []"
        proof (cases "hd s = newline")
          case True
          then have "s = [newline]" using sub well(2) by (cases s) (auto split: if_splits)
          then show ?thesis by (simp add: library_trim_eol_def)
        next
          case False
          then show ?thesis using True sub Cons.prems(2) by (cases s) (auto simp: at_ptr_def)
        qed
        then show ?thesis by (simp add: entry_of_def)
      qed (auto intro: entry_of_comment)
      have "getlines (pending @ s) = getlines pending @ (if s = [] then [] else [s])"
        using getlines_append[OF ended, of s] getlines_single[of s] well(2) by simp
      then have p: "pending_ok path (pending @ s)" using Cons.prems(4) val(2) e by (auto simp: pending_ok_def)
      have t: "ls \<noteq> [] \<Longrightarrow> pending @ s = [] \<or> last (pending @ s) = newline" using more by simp
      have "scan_blocks ls blocks (pending @ s) = (blocks', pending')" using Cons.prems(6) not_ext True by simp
      then show ?thesis using Cons.IH[OF well(1) val(1) Cons.prems(3) p t] e by simp
    next
      case False
      then obtain e where e: "entry_of path s = [e]" using entry_of_entry[of s path] by auto
      have s: "s \<noteq> []" using False by simp
      have tl: "ends_line (pending @ s) = ends_line s" using s by (simp add: ends_line_def)
      have "getlines ((pending @ s) @ ends_line (pending @ s)) = getlines pending @ getlines (s @ ends_line s)"
        unfolding tl using getlines_append[OF ended, of "s @ ends_line s"] by simp
      moreover have "getlines (s @ ends_line s) = [s @ ends_line s]"
      proof (rule getlines_single)
        show "newline \<notin> set (butlast (s @ ends_line s))"
        proof (cases "last s = newline")
          case True
          then show ?thesis using well(2) by (simp add: ends_line_def)
        next
          case False
          have "set s = insert (last s) (set (butlast s))" using s by (metis append_butlast_last_id insert_is_Un list.simps(15) set_append sup_commute empty_set)
          then show ?thesis using s well(2) False by (auto simp: ends_line_def butlast_append)
        qed
      qed (use s in simp)
      ultimately have "block_entry path (pending @ s) e" using Cons.prems(4) val(2) e by (auto simp: block_entry_def pending_ok_def)
      then have b: "list_all2 (block_entry path) (blocks @ [pending @ s]) (es @ [e])" using Cons.prems(3) by (simp add: list_all2_appendI)
      have sc: "scan_blocks ls (blocks @ [pending @ s]) [] = (blocks', pending')" using Cons.prems(6) not_ext False by simp
      have p0: "pending_ok path []" "ls \<noteq> [] \<Longrightarrow> [] = [] \<or> last [] = newline" by (simp_all add: pending_ok_def)
      show ?thesis using Cons.IH[OF well(1) val(1) b p0 sc] e by simp
    qed
  qed
qed auto

lemma getlines_concat:
  "\<forall>b \<in> set bs. b = [] \<or> last b = newline \<Longrightarrow> getlines (concat bs @ t) = concat (map getlines bs) @ getlines t"
  by (induction bs) (simp_all add: getlines_append)

lemma edit_text_reads:
  assumes "list_all2 (block_entry path) blocks es" and "pending_ok path pending"
  shows "read_lines (\<lambda>_. True) path True (getlines (edit_text bom blocks pending)) [] = Inr es"
proof -
  let ?bs = "map (\<lambda>b. b @ ends_line b) blocks"
  have "\<forall>b \<in> set ?bs. b = [] \<or> last b = newline" by (auto simp: ends_line_def)
  then have g: "getlines (concat ?bs @ pending) = concat (map getlines ?bs) @ getlines pending" by (rule getlines_concat)
  have "(\<forall>l \<in> set (concat (map getlines ?bs)). valid_line path l) \<and> concat (map (entry_of path) (concat (map getlines ?bs))) = es"
    using assms(1) by (induction rule: list_all2_induct) (auto simp: block_entry_def)
  then have "read_lines (\<lambda>_. True) path False (getlines (concat ?bs @ pending)) [] = Inr es"
    unfolding g read_lines_entries using assms(2) by (auto simp: pending_ok_def)
  then show ?thesis unfolding edit_text_def read_extm3u by simp
qed

definition moved :: "nat \<Rightarrow> int \<Rightarrow> 'b list \<Rightarrow> 'b list" where
  "moved from to xs = (let r = take from xs @ drop (Suc from) xs in
     if to < 0 then r else take (nat to) r @ xs ! from # drop (nat to) r)"

lemma edit_blocks_eq:
  assumes "0 \<le> from" and "from < int (length xs)" and "to < int (length xs)"
  shows "edit_blocks xs from to = Some (moved (nat from) to xs)"
proof -
  define f where "f = nat from"
  define r where "r = take f xs @ drop (Suc f) xs"
  have f: "from = int f" "f < length xs" using assms by (simp_all add: f_def)
  have lr: "length xs = Suc (length r)" using f by (simp add: r_def)
  obtain z where z: "drop (length xs - 1) xs = [z]" using f(2) by (cases xs rule: rev_cases) auto
  have m1: "memmove xs from (from + 1) (int (length xs) - from - 1) = Some (r @ [z])"
  proof -
    have "nat (int (length xs) - from - 1) = length xs - Suc f" "nat (from + (int (length xs) - from - 1)) = length xs - 1" "nat (from + 1) = Suc f"
      using f by auto
    then show ?thesis using f z by (simp add: memmove_def r_def)
  qed
  show ?thesis
  proof (cases "to < 0")
    case True
    have "nat (int (length xs) - 1) = length r" using f lr by simp
    then show ?thesis using True f m1 by (simp add: edit_blocks_def aget_def moved_def r_def[symmetric] Let_def)
  next
    case False
    define t where "t = nat to"
    have t: "to = int t" "t < length xs" using False assms(3) by (simp_all add: t_def)
    have tr: "t \<le> length r" using t lr by simp
    have m2: "memmove (r @ [z]) (to + 1) to (int (length xs) - to - 1) = Some (take (Suc t) (r @ [z]) @ drop t r)"
    proof -
      have "nat (int (length xs) - to - 1) = length r - t" "nat (to + 1 + (int (length xs) - to - 1)) = length xs" "nat (to + 1) = Suc t" "nat to = t"
        using t lr by auto
      then show ?thesis using t lr tr by (simp add: memmove_def)
    qed
    have "(take (Suc t) (r @ [z]) @ drop t r)[t := xs ! f] = take t r @ xs ! f # drop t r"
      using tr by (simp add: take_Suc_conv_app_nth[of t "r @ [z]"] list_update_append del: take_append) (simp add: take_append)
    then show ?thesis using False f t lr m1 m2 tr by (simp add: edit_blocks_def aget_def aset_def moved_def r_def[symmetric] Let_def)
  qed
qed

lemma list_all2_moved: "list_all2 P xs ys \<Longrightarrow> from < length xs \<Longrightarrow> list_all2 P (moved from to xs) (moved from to ys)"
  by (auto simp: moved_def Let_def list_all2_lengthD list_all2_nthD intro!: list_all2_appendI list_all2_takeI list_all2_dropI)

lemma well_lines_skip_bom: "well_lines (l # ls) \<Longrightarrow> well_lines (skip_bom l # ls)"
proof (cases "take 3 l = utf8_bom")
  case True
  assume w: "well_lines (l # ls)"
  have l: "l = utf8_bom @ drop 3 l" using True append_take_drop_id[of 3 l] by simp
  have nb: "newline \<notin> set utf8_bom" "utf8_bom \<noteq> []" by (simp_all add: newline_def utf8_bom_def)
  have "newline \<notin> set (butlast (drop 3 l))" using w by (auto simp: well_lines_def butlast_drop dest: in_set_dropD)
  moreover have "drop 3 l \<noteq> [] \<and> last (drop 3 l) = newline" if "ls \<noteq> []"
  proof -
    have last: "last l = newline" using w that by (simp add: well_lines_def)
    have "drop 3 l \<noteq> []"
    proof
      assume "drop 3 l = []"
      then have "l = utf8_bom" using l by simp
      then show False using last nb last_in_set[of utf8_bom] by simp
    qed
    moreover from this have "last l = last (drop 3 l)" using l by (metis last_appendR)
    ultimately show ?thesis using last by simp
  qed
  ultimately show ?thesis using w True by (auto simp: well_lines_def skip_bom_def library_utf8_bom_skip_def)
qed (simp add: skip_bom_def library_utf8_bom_skip_def)


section \<open>Failures\<close>

definition keeps_others :: "string \<Rightarrow> string \<Rightarrow> file_system \<Rightarrow> bool \<times> file_system \<Rightarrow> bool" where
  "keeps_others path temp fs r \<longleftrightarrow> (fst r \<or> snd r path = fs path) \<and> (\<forall>q. q = path \<or> q = temp \<or> snd r q = fs q)"

lemma publish_keeps: "temp \<noteq> path \<Longrightarrow> keeps_others path temp fs (publish io ok temp path new fs)"
  by (auto simp: keeps_others_def publish_def unlink_file_def Let_def)

lemma write_temp_keeps: "pl_temp io \<noteq> path \<Longrightarrow> keeps_others path (pl_temp io) fs (write_temp io ok dir path new fs)"
  using publish_keeps[of "pl_temp io" path fs io ok new] by (simp add: write_temp_def) (auto simp: keeps_others_def unlink_file_def)


text \<open>
  The migration to relative paths does not look at the results of its writes: on a full card it reports
  success and replaces the playlist by an empty file.
\<close>

lemma migrate_full_card_empties:
  assumes "fs path = Some s" and "pl_space io = 0" and "pl_open_ok io" and "pl_fdopen_ok io" and "pl_read_ok io" and "pl_rename_ok io"
  shows "\<exists>fs'. migrate_one_file io path fs = (True, fs') \<and> fs' path = Some []"
  using assms by (simp add: migrate_one_file_def Let_def)

section \<open>New playlists\<close>

text \<open>A song whose line in a playlist of the folder leads back to it.\<close>

definition listable :: "string list \<Rightarrow> string \<Rightarrow> string \<Rightarrow> bool" where
  "listable bs path song \<longleftrightarrow> (let ts = path_tokens song; line = entry_line (full_path bs) song in
     normal ts \<and> ts \<noteq> [] \<and> song = full_path ts \<and> length song < 4096 \<and> entry_ok path line \<and> length (full_path bs) + 1 + length line < 4096)"

lemma listable_resolves:
  assumes "normal bs" and "length (full_path bs) < 4096" and "CHR ''/'' \<notin> set name" and "listable bs path song"
    and "path = full_path bs @ CHR ''/'' # name"
  shows "playlist_files_resolve_path path (entry_line (full_path bs) song) PATH_SIZE = song"
proof -
  define ts where "ts = path_tokens song"
  have song: "song = full_path ts" and ts: "normal ts" "ts \<noteq> []"
    and len: "length (full_path ts) < 4096" "length (full_path bs) + 1 + length (entry_line (full_path bs) (full_path ts)) < 4096"
    using assms(4) unfolding listable_def ts_def[symmetric] Let_def by auto
  show ?thesis unfolding assms(5) song by (rule entry_resolves) (use assms(1-3) ts len in simp_all)
qed

lemma new_stream_True:
  assumes "playlist_files_write_new_stream io dir name songs out_size fs = (True, fs')" and "pl_temp io \<noteq> new_path dir name"
  obtains t where "song_lines (entry_line dir) songs = Some t" and "fs (new_path dir name) = None" and "valid_playlist_name name"
    and "fs' (new_path dir name) = Some (extm3u @ t)"
proof -
  let ?path = "new_path dir name"
  have g: "valid_playlist_name name" "fs ?path = None"
    using assms(1) by (auto simp: playlist_files_write_new_stream_def Let_def split: if_splits)
  obtain ok fs1 where w: "write_temp io (song_lines (entry_line dir) songs \<noteq> None) dir ?path
      (extm3u @ (case song_lines (entry_line dir) songs of None \<Rightarrow> [] | Some t \<Rightarrow> t)) (fs(?path \<mapsto> [])) = (ok, fs1)"
    by (metis surj_pair)
  then have ok: "ok" "fs' = fs1" using assms(1) by (auto simp: playlist_files_write_new_stream_def Let_def split: if_splits)
  then obtain t where t: "song_lines (entry_line dir) songs = Some t"
    using w by (auto simp: write_temp_def publish_def Let_def split: if_splits)
  have "fs' ?path = Some (extm3u @ t)" using write_temp_True(1)[OF w[unfolded t, simplified ok] assms(2)] ok t by simp
  then show thesis using that t g by blast
qed

text \<open>
  C37: a playlist is only created under a name that no file has, and what is read from it are the songs it was
  created with, in their order, duplicates included.
\<close>

theorem playlist_new_reads_back:
  assumes "normal bs" and "length (full_path bs) < 4096" and "path = new_path (full_path bs) name" and "\<forall>s \<in> set songs. listable bs path s"
    and "pl_temp io \<noteq> path" and "playlist_files_write_new_stream io (full_path bs) name (map Some songs) out_size fs = (True, fs')"
  shows "fs path = None \<and> playlist_files_read (\<lambda>_. True) False path (fs' path) = (True, songs)"
proof -
  obtain t where t: "song_lines (entry_line (full_path bs)) (map Some songs) = Some t" and old: "fs path = None"
    and name: "valid_playlist_name name" and new: "fs' path = Some (extm3u @ t)"
    using new_stream_True[OF assms(6)] assms(3,5) by metis
  define leaf where "leaf = name @ (if library_is_m3u_file name then '''' else ''.m3u'')"
  have leaf: "CHR ''/'' \<notin> set leaf" "path = full_path bs @ CHR ''/'' # leaf"
    using name assms(3) by (auto simp: leaf_def valid_playlist_name_def new_path_def)
  have "read_lines (\<lambda>_. True) path True (getlines (extm3u @ t)) [] =
      Inr (map (\<lambda>s. playlist_files_resolve_path path (entry_line (full_path bs) s) PATH_SIZE) songs)"
    using read_extm3u[of "\<lambda>_. True" path False t] song_lines_read[OF t, of path "[]"] assms(4) by (simp add: listable_def Let_def)
  also have "map (\<lambda>s. playlist_files_resolve_path path (entry_line (full_path bs) s) PATH_SIZE) songs = songs"
    using listable_resolves[OF assms(1,2) leaf(1) _ leaf(2)] assms(4) by (intro map_idI) simp
  finally show ?thesis using old new read_ex_Inr by simp
qed

section \<open>Examples\<close>

text \<open>A card with space for 1000 bytes on which every step succeeds, a playlist of two songs and a new one.\<close>

definition sample_pl_io :: pl_io where
  "sample_pl_io = \<lparr> pl_alloc_ok = True, pl_open_ok = True, pl_read_ok = True, pl_temp = ''/m/.playlist-a'', pl_mkstemp_ok = True,
     pl_fdopen_ok = True, pl_space = 1000, pl_flush_ok = True, pl_close_ok = True, pl_rename_ok = True, pl_unlink_ok = True \<rparr>"

lemma sample_pl_io_simps [simp]:
  "pl_alloc_ok sample_pl_io" "pl_open_ok sample_pl_io" "pl_read_ok sample_pl_io" "pl_temp sample_pl_io = ''/m/.playlist-a''" "pl_mkstemp_ok sample_pl_io"
  "pl_fdopen_ok sample_pl_io" "pl_space sample_pl_io = 1000" "pl_flush_ok sample_pl_io" "pl_close_ok sample_pl_io" "pl_rename_ok sample_pl_io"
  by (simp_all add: sample_pl_io_def)

lemma char_literals: "newline = CHR 0x0A" "carriage_return = CHR 0x0D" "NUL = CHR 0x00" "utf8_bom = [CHR 0xEF, CHR 0xBB, CHR 0xBF]"
  by code_simp+

lemma sample_dir: "dir_of ''/m/p.m3u'' PATH_SIZE = ''/m''"
  using dir_of_full[of "''p.m3u''" "''/m''"] by simp

lemma sample_paths: "full_path [''m''] = ''/m''" "full_path [''m'', ''s.mp3''] = ''/m/s.mp3''"
  by (simp_all add: full_path_def)

lemma sample_song:
  "path_tokens ''/m/s.mp3'' = [''m'', ''s.mp3'']" "path_tokens ''/m'' = [''m'']"
  using tokens_full'[of "[''m'', ''s.mp3'']"] tokens_full'[of "[''m'']"] unfolding sample_paths by (simp_all add: clean_def)

lemma sample_normal: "normal [''m'']" "normal [''m'', ''s.mp3'']"
  by (simp_all add: normal_def clean_def)

lemma sample_line: "entry_line ''/m'' ''/m/s.mp3'' = ''s.mp3''"
proof -
  have s: "snprintf_s PATH_SIZE ''/m'' = ''/m''" "snprintf_s PATH_SIZE ''/m/s.mp3'' = ''/m/s.mp3''"
    by (simp_all add: snprintf_s_def PATH_SIZE_def)
  show ?thesis unfolding entry_line_def make_relative_path_def s sample_song
    by (simp add: PATH_SIZE_def MAKE_RELATIVE_MAX_COMPONENTS_def part_text_def)
qed

lemma sample_entry_ok: "entry_ok ''/m/p.m3u'' ''s.mp3''"
  unfolding entry_ok_def sample_dir by (simp add: PATH_SIZE_def char_literals library_utf8_bom_skip_def)

lemma sample_append:
  "playlist_files_append sample_pl_io ''/m/p.m3u'' ''/m/s.mp3'' (\<lambda>_. None) = (True, [''/m/p.m3u'' \<mapsto> ''s.mp3'' @ [newline]])"
  unfolding playlist_files_append_def sample_dir Let_def sample_line
  by (auto simp: char_literals write_temp_def publish_def temp_template_def PATH_SIZE_def append_text_def ends_line_def Let_def)

theorem playlist_append_reads_back_witness:
  "playlist_files_read (\<lambda>_. True) False ''/m/p.m3u'' (Some (''s.mp3'' @ [newline])) = (True, [''/m/s.mp3''])"
proof -
  have "playlist_files_read (\<lambda>_. True) False ''/m/p.m3u'' ([''/m/p.m3u'' \<mapsto> ''s.mp3'' @ [newline]] ''/m/p.m3u'') = (True, [] @ [''/m/s.mp3''])"
    by (rule playlist_append_reads_back[of "[''m'']" "''p.m3u''" "[''m'', ''s.mp3'']" _ _ sample_pl_io "\<lambda>_. None"
        "[''/m/p.m3u'' \<mapsto> ''s.mp3'' @ [newline]]" "[]", unfolded sample_paths sample_line])
      (simp_all add: sample_normal sample_line sample_entry_ok sample_append)
  then show ?thesis by (simp only: fun_upd_same append_Nil)
qed

text \<open>Moving the first of two songs behind the second.\<close>

definition sample_list :: string where
  "sample_list = ''/a'' @ newline # ''/b'' @ [newline]"

definition sample_card :: file_system where
  "sample_card = [''/m/p.m3u'' \<mapsto> sample_list]"

lemma sample_list_lines: "getlines sample_list = [''/a'' @ [newline], ''/b'' @ [newline]]"
  by (simp add: sample_list_def char_literals)

lemma sample_absolute: "playlist_files_resolve_path ''/m/p.m3u'' ''/a'' PATH_SIZE = ''/a''" "playlist_files_resolve_path ''/m/p.m3u'' ''/b'' PATH_SIZE = ''/b''"
proof -
  have t: "path_tokens ''/a'' = [''a'']" "path_tokens ''/b'' = [''b'']"
    using tokens_full'[of "[''a'']"] tokens_full'[of "[''b'']"] by (simp_all add: full_path_def clean_def)
  have s: "snprintf_s PATH_SIZE ''/a'' = ''/a''" "snprintf_s PATH_SIZE ''/b'' = ''/b''" by (simp_all add: snprintf_s_def PATH_SIZE_def)
  show "playlist_files_resolve_path ''/m/p.m3u'' ''/a'' PATH_SIZE = ''/a''" "playlist_files_resolve_path ''/m/p.m3u'' ''/b'' PATH_SIZE = ''/b''"
    unfolding playlist_files_resolve_path_def normalize_path_def s Let_def t
    by (simp_all add: at_ptr_def normalize_step_def NORMALIZE_MAX_COMPONENTS_def part_text_def PATH_SIZE_def)
qed

lemma sample_read: "playlist_files_read (\<lambda>_. True) False ''/m/p.m3u'' (Some sample_list) = (True, [''/a'', ''/b''])"
proof -
  have ok: "entry_ok ''/m/p.m3u'' ''/a''" "entry_ok ''/m/p.m3u'' ''/b''"
    unfolding entry_ok_def sample_dir by (simp_all add: PATH_SIZE_def char_literals library_utf8_bom_skip_def)
  have "read_lines (\<lambda>_. True) ''/m/p.m3u'' True ([''/a'' @ [newline]] @ [''/b'' @ [newline]]) [] = Inr [''/a'', ''/b'']"
    unfolding read_lines_append read_entry_ok[OF ok(1)] sample_absolute sum.case read_entry_ok[OF ok(2)] by simp
  then show ?thesis using read_ex_Inr sample_list_lines by simp
qed

lemma sample_scan: "edit_scan (getlines sample_list) False [] [] = (False, [''/a'' @ [newline], ''/b'' @ [newline]], [])"
  unfolding sample_list_lines by (simp add: c_string_def char_literals library_utf8_bom_skip_def)

lemma sample_edit:
  "playlist_files_edit_entry sample_pl_io ''/m/p.m3u'' 0 1 sample_card =
     Some (True, [''/m/p.m3u'' \<mapsto> extm3u @ ''/b'' @ newline # ''/a'' @ [newline]])"
proof -
  have "edit_blocks [''/a'' @ [newline], ''/b'' @ [newline]] 0 1 = Some [''/b'' @ [newline], ''/a'' @ [newline]]"
    using edit_blocks_eq[of 0 "[''/a'' @ [newline], ''/b'' @ [newline]]" 1] by (simp add: moved_def)
  then show ?thesis unfolding playlist_files_edit_entry_def sample_dir
    by (simp add: sample_card_def sample_scan)
      (auto simp: write_temp_def publish_def temp_template_def PATH_SIZE_def edit_text_def ends_line_def extm3u_def)
qed



text \<open>A new playlist that has one song twice.\<close>

lemma sample_new:
  "playlist_files_write_new_stream sample_pl_io ''/m'' ''p.m3u'' (map Some [''/m/s.mp3'', ''/m/s.mp3'']) 4096 (\<lambda>_. None) =
     (True, [''/m/p.m3u'' \<mapsto> extm3u @ ''s.mp3'' @ newline # ''s.mp3'' @ [newline]])"
proof -
  have "library_is_m3u_file ''p.m3u''" "valid_playlist_name ''p.m3u''" by code_simp+
  then show ?thesis unfolding playlist_files_write_new_stream_def
    by (auto simp: Let_def new_path_def sample_line newline_neq PATH_SIZE_def temp_template_def write_temp_def publish_def extm3u_def char_literals)
qed

theorem playlist_new_reads_back_witness:
  "playlist_files_read (\<lambda>_. True) False ''/m/p.m3u'' (Some (extm3u @ ''s.mp3'' @ newline # ''s.mp3'' @ [newline])) =
     (True, [''/m/s.mp3'', ''/m/s.mp3''])"
proof -
  have path: "''/m/p.m3u'' = new_path ''/m'' ''p.m3u''"
  proof -
    have "library_is_m3u_file ''p.m3u''" by code_simp
    then show ?thesis by (simp add: new_path_def)
  qed
  have l: "\<forall>s \<in> set [''/m/s.mp3'', ''/m/s.mp3'']. listable [''m''] ''/m/p.m3u'' s"
    unfolding listable_def sample_paths list.set by (simp only: sample_song sample_paths sample_line sample_entry_ok sample_normal Let_def ball_simps) simp
  have "pl_temp sample_pl_io \<noteq> ''/m/p.m3u''" "length (full_path [''m'']) < 4096" by (simp_all add: sample_paths)
  from playlist_new_reads_back[OF sample_normal(1) this(2) path[folded sample_paths] l this(1) sample_new[folded sample_paths(1)]]
  show ?thesis by (simp only: fun_upd_same simp_thms)
qed

end
