(* ===== verification/Playlist_Scan.thy ===== *)
theory Playlist_Scan
  imports Playlist_Props Stable_Sort
begin

text \<open>
  Finding playlists (\<^verbatim>\<open>src/src/library/playlist_files.c\<close>): the walk through the directories, the update of the cached
  list, and the migration of all playlists to relative paths.

  What the walk sees is a tree, in the order in which \<^verbatim>\<open>readdir\<close> delivers it.  \<open>qsort\<close> is a parameter, since the
  C library leaves the order of equal elements open; \<open>alloc k\<close> says whether memory for the \<open>k\<close>-th path can be
  had.  The cached list belongs to the path cache, which is not part of the model; here it is a list of paths.
\<close>

section \<open>Walking the directories\<close>

text \<open>
  \<open>Lost\<close> is an entry whose \<^verbatim>\<open>lstat\<close> fails; a directory tells whether it can be opened, its entries, and whether
  \<^verbatim>\<open>readdir\<close> reaches its end without an error.
\<close>

datatype dir_node = Regular | Special | Lost | Directory bool "(string \<times> dir_node) list" bool

definition MAX_DEPTH :: nat where "MAX_DEPTH = 32"

definition child_path :: "string \<Rightarrow> string \<Rightarrow> string" where
  "child_path dir name = dir @ CHR ''/'' # name"

fun scan_dir :: "(nat \<Rightarrow> bool) \<Rightarrow> nat \<Rightarrow> string \<Rightarrow> dir_node \<Rightarrow> string list \<Rightarrow> bool \<times> string list"
  and scan_entries :: "(nat \<Rightarrow> bool) \<Rightarrow> nat \<Rightarrow> string \<Rightarrow> bool \<Rightarrow> (string \<times> dir_node) list \<Rightarrow> string list \<Rightarrow> bool \<times> string list"
where
  "scan_dir alloc depth dir (Directory opened es complete) paths =
     (if MAX_DEPTH < depth \<or> \<not> opened then (False, paths) else scan_entries alloc depth dir complete es paths)"
| "scan_dir alloc depth dir node paths = (False, paths)"
| "scan_entries alloc depth dir complete [] paths = (complete, paths)"
| "scan_entries alloc depth dir complete ((name, e) # es) paths =
     (if at_ptr name = CHR ''.'' then scan_entries alloc depth dir complete es paths
      else if PATH_SIZE \<le> length (child_path dir name) then (False, paths)
      else case e of
          Lost \<Rightarrow> (False, paths)
        | Directory _ _ _ \<Rightarrow>
            (case scan_dir alloc (depth + 1) (child_path dir name) e paths of
               (ok, paths) \<Rightarrow> if \<not> ok then (False, paths) else scan_entries alloc depth dir complete es paths)
        | Special \<Rightarrow> scan_entries alloc depth dir complete es paths
        | Regular \<Rightarrow>
            if \<not> library_is_m3u_file name then scan_entries alloc depth dir complete es paths
            else if \<not> alloc (length paths) then (False, paths)
            else scan_entries alloc depth dir complete es (paths @ [child_path dir name]))"

fun strcasecmp :: "string \<Rightarrow> string \<Rightarrow> int" where
  "strcasecmp [] [] = 0"
| "strcasecmp [] (b # bs) = of_char NUL - of_char (tolower b)"
| "strcasecmp (a # as) [] = of_char (tolower a) - of_char NUL"
| "strcasecmp (a # as) (b # bs) =
     (if tolower a = tolower b then if a = NUL then 0 else strcasecmp as bs
      else of_char (tolower a) - of_char (tolower b))"

definition compare_paths :: "string \<Rightarrow> string \<Rightarrow> int" where
  "compare_paths a b = strcasecmp a b"

definition playlist_files_scan_complete ::
  "(string list \<Rightarrow> string list) \<Rightarrow> (nat \<Rightarrow> bool) \<Rightarrow> string \<Rightarrow> dir_node \<Rightarrow> string list option" where
  "playlist_files_scan_complete qsort alloc root node =
     (case scan_dir alloc 0 root node [] of
        (ok, paths) \<Rightarrow> if \<not> ok then None else Some (if 1 < length paths then qsort paths else paths))"

definition playlist_files_scan ::
  "(string list \<Rightarrow> string list) \<Rightarrow> (nat \<Rightarrow> bool) \<Rightarrow> string \<Rightarrow> dir_node \<Rightarrow> string list option" where
  "playlist_files_scan qsort alloc root node =
     (case playlist_files_scan_complete qsort alloc root node of
        None \<Rightarrow> None | Some paths \<Rightarrow> if 0 < length paths then Some paths else None)"

section \<open>The cached list\<close>

definition prune_missing_playlists :: "(string \<Rightarrow> bool) \<Rightarrow> string list \<Rightarrow> string list" where
  "prune_missing_playlists gone old = filter (\<lambda>p. \<not> gone p) old"

definition playlist_files_reconcile ::
  "(string list \<Rightarrow> string list) \<Rightarrow> (nat \<Rightarrow> bool) \<Rightarrow> (string \<Rightarrow> bool) \<Rightarrow> string \<Rightarrow> dir_node \<Rightarrow> bool \<Rightarrow> string list \<Rightarrow> bool \<times> string list" where
  "playlist_files_reconcile qsort alloc gone root node prune_missing old =
     (case playlist_files_scan_complete qsort alloc root node of
        Some paths \<Rightarrow>
          (let changed = (length old \<noteq> length paths \<or> (\<exists>i \<in> {0..<length paths}. old ! i \<noteq> paths ! i))
           in (True, if changed then paths else old))
      | None \<Rightarrow> (False, if prune_missing then prune_missing_playlists gone old else old))"

section \<open>Migrating all playlists\<close>

definition PLAYLIST_MIGRATION_MARKER_NAME :: string where
  "PLAYLIST_MIGRATION_MARKER_NAME = ''.relative_paths_migrated''"

primrec migrate_files :: "(string \<Rightarrow> pl_io) \<Rightarrow> string list \<Rightarrow> bool \<Rightarrow> file_system \<Rightarrow> bool \<times> file_system" where
  "migrate_files io [] all_ok fs = (all_ok, fs)"
| "migrate_files io (p # ps) all_ok fs =
     (case migrate_one_file (io p) p fs of (ok, fs) \<Rightarrow> migrate_files io ps (all_ok \<and> ok) fs)"

definition playlist_files_migrate_to_relative ::
  "(string \<Rightarrow> pl_io) \<Rightarrow> bool \<Rightarrow> (string list \<Rightarrow> string list) \<Rightarrow> (nat \<Rightarrow> bool) \<Rightarrow> string \<Rightarrow> dir_node \<Rightarrow> file_system \<Rightarrow> file_system" where
  "playlist_files_migrate_to_relative io marker_ok qsort alloc dir node fs =
     (let marker_path = snprintf_s PATH_SIZE (dir @ ''/'' @ PLAYLIST_MIGRATION_MARKER_NAME) in
      if fs marker_path \<noteq> None then fs
      else let (all_ok, fs) =
             (case playlist_files_scan qsort alloc dir node of None \<Rightarrow> (True, fs) | Some paths \<Rightarrow> migrate_files io paths True fs)
        in if all_ok \<and> marker_ok then fs(marker_path \<mapsto> []) else fs)"

section \<open>The order of the paths\<close>

definition char_code :: "char \<Rightarrow> int" where
  "char_code c = of_char (tolower c)"

lemma of_char_NUL: "(of_char NUL :: int) = 0"
  by code_simp

lemma char_code_eq_iff: "char_code a = char_code b \<longleftrightarrow> tolower a = tolower b"
  by (simp add: char_code_def)

lemma char_code_nonneg: "0 \<le> char_code c"
  by (simp add: char_code_def of_char_def)

lemma char_code_NUL_iff: "char_code c = 0 \<longleftrightarrow> c = NUL"
proof -
  have "tolower c = NUL \<longleftrightarrow> c = NUL"
  proof
    assume t: "tolower c = NUL"
    show "c = NUL"
    proof (cases "65 \<le> (of_char c :: nat) \<and> (of_char c :: nat) \<le> 90")
      case True
      then have "of_char (tolower c) = (of_char c + 32 :: nat)" by (simp add: tolower_def Let_def)
      then show ?thesis using t by (simp add: NUL_def)
    qed (use t in \<open>auto simp: tolower_def Let_def\<close>)
  next
    have "tolower NUL = NUL" by code_simp
    then show "c = NUL \<Longrightarrow> tolower c = NUL" by simp
  qed
  moreover have "(of_char (tolower c) :: int) = of_char NUL \<longleftrightarrow> tolower c = NUL" by simp
  ultimately show ?thesis by (simp add: char_code_def of_char_NUL)
qed

lemma strcasecmp_codes [simp]:
  "strcasecmp [] (b # bs) = - char_code b" "strcasecmp (a # as) [] = char_code a"
  "strcasecmp (a # as) (b # bs) = (if char_code a = char_code b then if char_code a = 0 then 0 else strcasecmp as bs else char_code a - char_code b)"
  by (simp_all add: char_code_eq_iff char_code_NUL_iff of_char_NUL) (simp_all add: char_code_def)

declare strcasecmp.simps(2-4) [simp del]

lemma strcasecmp_swap: "strcasecmp y x = - strcasecmp x y"
  by (induction x y rule: strcasecmp.induct) (auto simp: char_code_eq_iff[symmetric] char_code_NUL_iff[symmetric])

lemma strcasecmp_trans: "strcasecmp x y \<le> 0 \<Longrightarrow> strcasecmp y z \<le> 0 \<Longrightarrow> strcasecmp x z \<le> 0"
proof (induction x y arbitrary: z rule: strcasecmp.induct)
  case (1 z)
  then show ?case by simp
next
  case (2 b bs z)
  then show ?case using char_code_nonneg by (cases z) auto
next
  case (3 a as z)
  then show ?case using char_code_nonneg[of a] char_code_nonneg[of "hd z"] by (cases z) auto
next
  case (4 a as b bs z)
  have ih: "strcasecmp as zs \<le> 0" if "char_code a = char_code b" "char_code a \<noteq> 0" "strcasecmp as bs \<le> 0" "strcasecmp bs zs \<le> 0" for zs
    using that 4(1)[of zs] by (simp add: char_code_eq_iff char_code_NUL_iff)
  show ?case
  proof (cases z)
    case Nil
    then show ?thesis using 4(2,3) char_code_nonneg[of a] by (simp split: if_splits)
  next
    case (Cons c zs)
    show ?thesis using 4(2,3) ih[of zs] unfolding Cons by (simp split: if_splits)
  qed
qed

interpretation paths: record_order compare_paths
proof unfold_locales
  show "compare_paths x y < 0 \<longleftrightarrow> 0 < compare_paths y x" for x y using strcasecmp_swap[of x y] by (simp add: compare_paths_def)
  show "compare_paths x z \<le> 0" if "compare_paths x y \<le> 0" "compare_paths y z \<le> 0" for x y z
    using that strcasecmp_trans[of x y z] by (simp add: compare_paths_def)
qed

section \<open>What a scan finds\<close>

text \<open>All playlists below a directory, and what must be readable to find them.\<close>

fun listing :: "string \<Rightarrow> dir_node \<Rightarrow> string list"
  and listing_entries :: "string \<Rightarrow> (string \<times> dir_node) list \<Rightarrow> string list"
where
  "listing dir (Directory opened es complete) = listing_entries dir es"
| "listing dir node = []"
| "listing_entries dir [] = []"
| "listing_entries dir ((name, e) # es) =
     (if at_ptr name = CHR ''.'' then []
      else if e = Regular \<and> library_is_m3u_file name then [child_path dir name] else listing (child_path dir name) e) @ listing_entries dir es"

fun readable :: "nat \<Rightarrow> string \<Rightarrow> dir_node \<Rightarrow> bool"
  and readable_entries :: "nat \<Rightarrow> string \<Rightarrow> (string \<times> dir_node) list \<Rightarrow> bool"
where
  "readable depth dir (Directory opened es complete) \<longleftrightarrow> depth \<le> MAX_DEPTH \<and> opened \<and> complete \<and> readable_entries depth dir es"
| "readable depth dir node \<longleftrightarrow> node \<noteq> Lost"
| "readable_entries depth dir [] \<longleftrightarrow> True"
| "readable_entries depth dir ((name, e) # es) \<longleftrightarrow>
     (at_ptr name = CHR ''.'' \<or> length (child_path dir name) < PATH_SIZE \<and> readable (depth + 1) (child_path dir name) e) \<and> readable_entries depth dir es"

lemma scan_sound:
  "scan_dir alloc depth dir node paths = (True, ps) \<Longrightarrow> readable depth dir node \<and> ps = paths @ listing dir node"
  "scan_entries alloc depth dir complete es paths = (True, ps) \<Longrightarrow> complete \<and> readable_entries depth dir es \<and> ps = paths @ listing_entries dir es"
proof (induction alloc depth dir node paths and alloc depth dir complete es paths arbitrary: ps and ps rule: scan_dir_scan_entries.induct)
  case (4 alloc depth dir complete name e es paths)
  show ?case using 4 by (cases e) (auto split: if_splits prod.splits)
qed (auto split: if_splits)

lemma scan_total:
  "alloc = (\<lambda>_. True) \<Longrightarrow> readable depth dir node \<Longrightarrow> \<exists>b es c. node = Directory b es c \<Longrightarrow> fst (scan_dir alloc depth dir node paths)"
  "alloc = (\<lambda>_. True) \<Longrightarrow> readable_entries depth dir es \<Longrightarrow> complete \<Longrightarrow> fst (scan_entries alloc depth dir complete es paths)"
proof (induction alloc depth dir node paths and alloc depth dir complete es paths rule: scan_dir_scan_entries.induct)
  case (4 alloc depth dir complete name e es paths)
  show ?case
  proof (cases e)
    case (Directory b ds c)
    obtain ok qs where q: "scan_dir alloc (depth + 1) (child_path dir name) e paths = (ok, qs)" by (metis surj_pair)
    show ?thesis
    proof (cases "at_ptr name = CHR ''.''")
      case False
      then have len: "\<not> PATH_SIZE \<le> length (child_path dir name)" and r: "readable (depth + 1) (child_path dir name) e"
        using "4.prems"(2) by simp_all
      have ok using "4.IH"(5)[OF False len Directory "4.prems"(1) r] Directory q by simp
      then show ?thesis using False len Directory q "4.IH"(6)[OF False len Directory q[symmetric]] "4.prems" by simp
    qed (use 4 in simp)
  qed (use 4 in \<open>auto split: if_splits\<close>)
qed auto

section \<open>Properties\<close>

text \<open>The contract of \<open>qsort\<close>.\<close>

definition sorts_paths :: "(string list \<Rightarrow> string list) \<Rightarrow> bool" where
  "sorts_paths qsort \<longleftrightarrow> (\<forall>xs. mset (qsort xs) = mset xs \<and> in_order compare_paths (qsort xs))"

lemma scan_complete_Some:
  assumes "sorts_paths qsort" and "playlist_files_scan_complete qsort alloc root node = Some ps"
  shows "readable 0 root node \<and> mset ps = mset (listing root node) \<and> in_order compare_paths ps"
proof -
  obtain qs where qs: "scan_dir alloc 0 root node [] = (True, qs)" "ps = (if 1 < length qs then qsort qs else qs)"
    using assms(2) by (auto simp: playlist_files_scan_complete_def split: prod.splits if_splits)
  have "in_order compare_paths qs" if "\<not> 1 < length qs"
    using that by (cases qs; cases "tl qs") (auto simp: in_order_def)
  then show ?thesis using scan_sound(1)[OF qs(1)] qs(2) assms(1) by (simp add: sorts_paths_def)
qed


lemma file_ext_append: "CHR ''.'' \<in> set b \<Longrightarrow> file_ext (a @ b) = file_ext b"
  by (simp add: file_ext_def takeWhile_append1)

lemma is_m3u_child: "library_is_m3u_file name \<Longrightarrow> library_is_m3u_file (child_path dir name)"
proof -
  assume m: "library_is_m3u_file name"
  then have "CHR ''.'' \<in> set name" by (auto simp: library_is_m3u_file_def file_ext_def split: if_splits)
  then show ?thesis using m file_ext_append[of name "dir @ ''/''"] by (simp add: library_is_m3u_file_def child_path_def)
qed

lemma listing_m3u:
  "p \<in> set (listing dir node) \<Longrightarrow> library_is_m3u_file p"
  "p \<in> set (listing_entries dir es) \<Longrightarrow> library_is_m3u_file p"
  by (induction dir node and dir es rule: listing_listing_entries.induct) (auto simp: is_m3u_child split: if_splits)

lemma not_m3u: "\<not> library_is_m3u_file (p @ ''.tmp'')" "\<not> library_is_m3u_file (dir @ ''/'' @ PLAYLIST_MIGRATION_MARKER_NAME)"
proof -
  have "file_ext (p @ ''.tmp'') = Some ''.tmp''" using file_ext_append[of "''.tmp''" p] by (simp add: file_ext_def)
  moreover have "map tolower ''.tmp'' \<noteq> ''.m3u''" "map tolower ''.tmp'' \<noteq> ''.m3u8''" by code_simp+
  ultimately show "\<not> library_is_m3u_file (p @ ''.tmp'')" by (simp add: library_is_m3u_file_def)
  have "file_ext (dir @ ''/'' @ PLAYLIST_MIGRATION_MARKER_NAME) = Some PLAYLIST_MIGRATION_MARKER_NAME"
    using file_ext_append[of PLAYLIST_MIGRATION_MARKER_NAME "dir @ ''/''"] by (simp add: file_ext_def PLAYLIST_MIGRATION_MARKER_NAME_def)
  moreover have "map tolower PLAYLIST_MIGRATION_MARKER_NAME \<noteq> ''.m3u''" "map tolower PLAYLIST_MIGRATION_MARKER_NAME \<noteq> ''.m3u8''" by code_simp+
  ultimately show "\<not> library_is_m3u_file (dir @ ''/'' @ PLAYLIST_MIGRATION_MARKER_NAME)" by (simp add: library_is_m3u_file_def)
qed

text \<open>A card on which files can be opened, read and renamed, but nothing can be written.\<close>

definition full_card :: "pl_io \<Rightarrow> bool" where
  "full_card io \<longleftrightarrow> pl_space io = 0 \<and> pl_open_ok io \<and> pl_fdopen_ok io \<and> pl_read_ok io \<and> pl_rename_ok io"

lemma migrate_full: "full_card io \<Longrightarrow> fs p \<noteq> None \<Longrightarrow> migrate_one_file io p fs = (True, fs(p \<mapsto> [], p @ ''.tmp'' := None))"
  by (auto simp: migrate_one_file_def full_card_def Let_def)

lemma migrate_files_full:
  assumes "\<forall>p. full_card (io p)" and "\<forall>p \<in> set ps. library_is_m3u_file p \<and> fs p \<noteq> None"
  shows "\<exists>fs'. migrate_files io ps ok fs = (ok, fs') \<and> (\<forall>p. library_is_m3u_file p \<longrightarrow> fs' p = (if p \<in> set ps then Some [] else fs p))"
  using assms(2)
proof (induction ps arbitrary: fs)
  case (Cons p ps)
  define g where "g = fs(p \<mapsto> [], p @ ''.tmp'' := None)"
  have keep: "g q = (if q = p then Some [] else fs q)" if "library_is_m3u_file q" for q
    using that not_m3u(1)[of p] by (auto simp: g_def)
  have "\<forall>q \<in> set ps. library_is_m3u_file q \<and> g q \<noteq> None" using Cons.prems keep by simp
  from Cons.IH[OF this] obtain fs' where "migrate_files io ps ok g = (ok, fs')" "\<forall>q. library_is_m3u_file q \<longrightarrow> fs' q = (if q \<in> set ps then Some [] else g q)"
    by blast
  moreover have "migrate_one_file (io p) p fs = (True, g)" using migrate_full[of "io p" fs p] assms(1) Cons.prems by (simp add: g_def)
  ultimately show ?case using keep by auto
qed simp

text \<open>
  C40: the migration to relative paths does not look at the results of its writes: on a full card every playlist
  that it finds becomes an empty file, and the marker it leaves keeps later starts from trying again.
\<close>

theorem migration_on_full_card_empties:
  assumes "sorts_paths qsort" and "playlist_files_scan qsort alloc dir node = Some ps" and "\<forall>p \<in> set ps. fs p \<noteq> None"
    and "\<forall>p. full_card (io p)" and "length dir < 4000" and "fs (dir @ ''/.relative_paths_migrated'') = None"
    and "fs' = playlist_files_migrate_to_relative io True qsort alloc dir node fs"
  shows "(\<forall>p \<in> set ps. fs' p = Some []) \<and> playlist_files_migrate_to_relative io' ok' qsort' alloc' dir node' fs' = fs'"
proof -
  let ?marker = "dir @ ''/'' @ PLAYLIST_MIGRATION_MARKER_NAME"
  have marker: "snprintf_s PATH_SIZE ?marker = ?marker"
    using assms(5) by (simp add: snprintf_s_def PATH_SIZE_def PLAYLIST_MIGRATION_MARKER_NAME_def)
  have none: "fs ?marker = None" using assms(6) by (simp add: PLAYLIST_MIGRATION_MARKER_NAME_def)
  have "playlist_files_scan_complete qsort alloc dir node = Some ps"
    using assms(2) by (auto simp: playlist_files_scan_def split: option.splits if_splits)
  then have m3u: "\<forall>p \<in> set ps. library_is_m3u_file p"
    using scan_complete_Some[OF assms(1)] listing_m3u(1) mset_eq_setD by blast
  obtain fs1 where fs1: "migrate_files io ps True fs = (True, fs1)" "\<forall>p \<in> set ps. fs1 p = Some []"
    using migrate_files_full[OF assms(4), of ps fs True] assms(3) m3u by auto
  have fs': "fs' = fs1(?marker \<mapsto> [])"
    unfolding assms(7) playlist_files_migrate_to_relative_def marker Let_def none using fs1(1) assms(2) by simp
  have "?marker \<notin> set ps" using m3u not_m3u(2) by blast
  then have "\<forall>p \<in> set ps. fs' p = Some []" using fs1(2) unfolding fs' by auto
  moreover have "playlist_files_migrate_to_relative io' ok' qsort' alloc' dir node' fs' = fs'"
    unfolding playlist_files_migrate_to_relative_def marker Let_def fs' by simp
  ultimately show ?thesis by blast
qed

text \<open>A scan that fails leaves the marker as well, so that the migration is never done.\<close>

lemma migration_unscanned_marked:
  assumes "playlist_files_scan qsort alloc dir node = None" and "fs (snprintf_s PATH_SIZE (dir @ ''/'' @ PLAYLIST_MIGRATION_MARKER_NAME)) = None"
  shows "playlist_files_migrate_to_relative io True qsort alloc dir node fs = fs(snprintf_s PATH_SIZE (dir @ ''/'' @ PLAYLIST_MIGRATION_MARKER_NAME) \<mapsto> [])"
  using assms by (simp add: playlist_files_migrate_to_relative_def Let_def)

text \<open>The cached list is what a complete scan found; an incomplete one only takes lost playlists out.\<close>

lemma reconcile_result:
  "playlist_files_reconcile qsort alloc gone root node prune old =
     (case playlist_files_scan_complete qsort alloc root node of
        Some ps \<Rightarrow> (True, ps) | None \<Rightarrow> (False, if prune then filter (\<lambda>p. \<not> gone p) old else old))"
  by (auto simp: playlist_files_reconcile_def prune_missing_playlists_def Let_def nth_equalityI split: option.splits)

section \<open>Examples\<close>

definition sample_tree :: dir_node where
  "sample_tree = Directory True [(''t.mp3'', Regular), (''.x.m3u'', Lost), (''s'', Directory True [(''b.m3u'', Regular)] True), (''p.m3u'', Regular)] True"

lemma sorts_paths_ssort: "sorts_paths (ssort compare_paths)"
  using paths.in_order_ssort by (simp add: sorts_paths_def)

lemma sample_scan_dir: "scan_dir (\<lambda>_. True) 0 ''/m'' sample_tree [] = (True, [''/m/s/b.m3u'', ''/m/p.m3u''])"
proof -
  have "library_is_m3u_file ''b.m3u''" "library_is_m3u_file ''p.m3u''" "\<not> library_is_m3u_file ''t.mp3''" by code_simp+
  then show ?thesis by (simp add: sample_tree_def MAX_DEPTH_def PATH_SIZE_def child_path_def at_ptr_def)
qed

lemma sample_scan_complete:
  "playlist_files_scan_complete (ssort compare_paths) (\<lambda>_. True) ''/m'' sample_tree = Some [''/m/p.m3u'', ''/m/s/b.m3u'']"
proof -
  have "ssort compare_paths [''/m/s/b.m3u'', ''/m/p.m3u''] = [''/m/p.m3u'', ''/m/s/b.m3u'']" by code_simp
  then show ?thesis by (simp add: playlist_files_scan_complete_def sample_scan_dir)
qed


definition sample_full_card :: "string \<Rightarrow> pl_io" where
  "sample_full_card p = sample_pl_io\<lparr>pl_space := 0\<rparr>"

theorem migration_on_full_card_empties_witness:
  "playlist_files_migrate_to_relative sample_full_card True (ssort compare_paths) (\<lambda>_. True) ''/m'' sample_tree
     (sample_card(''/m/s/b.m3u'' \<mapsto> ''a'')) ''/m/p.m3u'' = Some []"
proof -
  have scan: "playlist_files_scan (ssort compare_paths) (\<lambda>_. True) ''/m'' sample_tree = Some [''/m/p.m3u'', ''/m/s/b.m3u'']"
    by (simp add: playlist_files_scan_def sample_scan_complete)
  have "\<forall>p \<in> set [''/m/p.m3u'', ''/m/s/b.m3u'']. (sample_card(''/m/s/b.m3u'' \<mapsto> ''a'')) p \<noteq> None" "\<forall>p. full_card (sample_full_card p)"
    "length ''/m'' < 4000" "(sample_card(''/m/s/b.m3u'' \<mapsto> ''a'')) (''/m'' @ ''/.relative_paths_migrated'') = None"
    by (simp_all add: sample_card_def full_card_def sample_full_card_def)
  from migration_on_full_card_empties[OF sorts_paths_ssort scan this refl, of sample_full_card True "ssort compare_paths" "\<lambda>_. True" sample_tree]
  show ?thesis by (blast intro: list.set_intros)
qed

end
