(* ===== verification/Spec2Isabelle.thy ===== *)
theory Spec2Isabelle
  imports Queue_Checkpoint Utf8 Ogg_Props Charge_Limiter_Props Sd_Ready_Props Cue_Parser_Props Lyrics_Props
    Mp4_Props Tagcache_Props Playlist_Scan
begin

text \<open>
  Verification of a portable music player.

  \<^bold>\<open>The program.\<close>  The player is a C program for small MIPS devices.  A touch interface
  (\<^verbatim>\<open>src/src/ui\<close>) owns the play queue and drives an audio engine (\<^verbatim>\<open>src/src/audio\<close>) that runs in its own
  thread and reads files through demuxers and decoders; the library (\<^verbatim>\<open>src/src/library\<close>) knows the files
  on the card, cue sheets, lyrics and the saved queue; \<^verbatim>\<open>src/src/hardware\<close> and \<^verbatim>\<open>src/src/bootloader\<close> look after
  charging and the card at boot; \<^verbatim>\<open>src/src/core\<close> holds strings and settings.

  \<^bold>\<open>Conventions.\<close>  An array is the list of its elements; \<open>aget\<close>, \<open>aset\<close>, \<open>memmove\<close> (theory \<open>Prelude\<close>) and
  \<open>buf_get\<close>, \<open>buf_put\<close> (\<open>Ogg_Demux\<close>) are its accesses, \<open>None\<close> outside of it, so that a result
  \<open>Some\<close> says that no access left a buffer.  A loop whose end is not evident is a
  \<open>partial_function\<close> in the option type, \<open>None\<close> when it does not end; no fuel is used.
  Sizes and indices are \<open>int\<close> or \<open>nat\<close> where the code keeps them far from overflow, and words where
  wrap-around matters (file formats, registers, checksums).  What the program does not decide is a
  parameter: the outcome of the \<open>k\<close>-th allocation, the answer of the \<open>k\<close>-th probe or bus transfer, the
  random numbers of the shuffle, the bytes of a file, the steps of a write that fail, \<^verbatim>\<open>qsort\<close>.

  \<^bold>\<open>The player\<close> (\<^verbatim>\<open>ui/gui_player.c\<close>, \<^verbatim>\<open>library/playback_order.h\<close>, \<^verbatim>\<open>audio/audio_helpers.h\<close>, the mailbox of
  \<^verbatim>\<open>audio/audio.c\<close>).
  \<^item> \<open>Playback_Order\<close>: insertion into and removal from the shuffle bag, resequencing; the locale
    \<open>bag_store\<close> states what the queue needs of a bag and is interpreted on the code's functions.
  \<^item> \<open>Audio_Helpers\<close>: byte readers, end-of-file tolerance, the planner that skips undecodable tracks.
  \<^item> \<open>Player_State\<close>: the record \<open>player\<close> with the static variables of \<^verbatim>\<open>gui_player.c\<close> and the audio engine's
    mailbox; \<open>Player_Shuffle\<close>: the bag; \<open>Player_Advance\<close>: previews, commits, manual steps, error
    handling; \<open>Player_Queue\<close>: adding, removing, editing, clearing; \<open>Player_Session\<close>: selecting files
    and installing playlists.
  \<^item> \<open>Player_Advance_Inv\<close>, \<open>Player_Handlers_Inv\<close>, \<open>Player_Queue_Inv\<close>, \<open>Player_Edit_Inv\<close>: every operation keeps
    \<open>player_inv\<close> and stays inside the arrays.
  \<^item> \<open>Player_Trace\<close>: commands and reachable states; the locale \<open>safe_machine\<close> of \<open>Prelude\<close> (invariant,
    progress, all reachable states) is interpreted on them.  \<open>Player_Props\<close>: the properties, among
    them three situations in which the code breaks its own invariant.

  \<^bold>\<open>The saved queue\<close> (\<^verbatim>\<open>library/queue_resume.c\<close>, \<^verbatim>\<open>ui/gui_player.c\<close>).  \<open>Queue_Resume\<close>: the file format, the
  atomic write and the reader, with round trip and exactness; \<open>Queue_Checkpoint\<close>: what is captured
  from the player and what a restart installs.

  \<^bold>\<open>Strings\<close> (\<^verbatim>\<open>core/utf8_util.c\<close>).  \<open>Utf8\<close>: the sanitizer yields well-formed UTF-8 and leaves well-formed
  text alone, truncation keeps whole characters.  \<open>Bytes\<close> and \<open>C_Text\<close>: byte sequences and the parts of
  the C library that read and print numbers.

  \<^bold>\<open>The Ogg demuxer\<close> (\<^verbatim>\<open>audio/ogg_demux.c\<close>).  \<open>Ogg_Demux\<close>: pages, segments, packets, the Opus headers, the
  page index, seeking.  \<open>Ogg_Demux_Inv\<close>: buffers and termination for arbitrary bytes;
  \<open>Ogg_Demux_Stream\<close>: a reference multiplexer whose packets the demuxer delivers; \<open>Ogg_Crc\<close>: the checksum
  is the polynomial division and detects a changed byte; \<open>Ogg_Props\<close>: the properties.

  \<^bold>\<open>The MP4 demuxer\<close> (\<^verbatim>\<open>audio/mp4_demux.c\<close>).  \<open>Mp4_Demux\<close>: boxes, the search for the audio track, the codec
  configuration, the sample tables and reading a sample.  \<open>Mp4_Props\<close>: the two ways to find a sample
  agree, opening returns except for one kind of codec box, for which it runs for ever, and sequential
  reading in compact mode does not consult the chunk table.

  \<^bold>\<open>The charge limiter\<close> (\<^verbatim>\<open>hardware/charge_limiter.c\<close>).  \<open>Charge_Limiter\<close>: registers behind a bus that may
  fail, the baseline file and the two polls; \<open>Charge_Limiter_Props\<close>: what a confirmed poll means, that
  the current cap only lowers, and that switching it off restores the chips.

  \<^bold>\<open>The wait for the card\<close> (\<^verbatim>\<open>bootloader/sd_ready.c\<close>).  \<open>Sd_Ready\<close>: the polling state machine over probes;
  \<open>Sd_Ready_Props\<close>: its result reports what was seen, it ends, and without a card it gives up at the
  first deadline.

  \<^bold>\<open>Cue sheets and lyrics\<close> (\<^verbatim>\<open>library/cue_parser.c\<close>, \<^verbatim>\<open>library/lyrics.c\<close>).  \<open>Cue_Parser\<close>, \<open>Cue_Parser_Props\<close>: the
  parser is safe for every file, orders the tracks, and reads back what a reference writer prints;
  \<open>Lyrics\<close>, \<open>Lyrics_Props\<close>: accepted documents are sorted and bounded, the search finds the current
  line.

  \<^bold>\<open>The sort of the tag database\<close> (\<^verbatim>\<open>library/tagcache_sort.h\<close>).  \<open>Tagcache_Sort\<close>: the external merge sort with its
  buffers, readers, heap and passes.  \<open>Stable_Sort\<close>: the reference sort, the locale \<open>record_order\<close> of comparisons and
  the locale \<open>heap_order\<close> of heaps.  \<open>Tagcache_Sort_Inv\<close>, \<open>Tagcache_Merge_Inv\<close>: the parts compute the reference;
  \<open>record_order\<close> is a sublocale of \<open>heap_order\<close> for the current records of the readers.  \<open>Tagcache_Props\<close>: the sort is
  total, stable and correct, succeeds without failures, and its buffers fit; \<open>record_order\<close> is interpreted on the
  comparison of the query index.

  \<^bold>\<open>Playlist files\<close> (\<^verbatim>\<open>library/playlist_files.c\<close>).  \<open>Playlist_Files\<close>: relative paths, reading, and the operations
  that append to, edit, create, rename and delete a playlist, over a file system whose steps may fail.
  \<open>Playlist_Props\<close>: appended, moved and newly listed songs are read back, and failures keep the playlist.
  \<open>Playlist_Scan\<close>: the scan, the cached list and the migration; a scan gives all playlists or nothing, and its
  comparison is a second interpretation of \<open>record_order\<close>.

  \<^bold>\<open>Bounds.\<close>  Every theorem holds for inputs of any size, except where a premise states a limit of
  the format (for instance 512 bytes of a file name, seven digits of a time field).  Concrete inputs
  appear only in the witnesses and in the counterexamples.

  \<^bold>\<open>Not modelled.\<close>  Drawing and touch handling of the interface; the network services (HTTP,
  Subsonic, DLNA, AirPlay, Bluetooth, Wi-Fi); the metadata database and its scanner; decoders, the
  mixing loop of the audio thread and the APE and ASF demuxers; plugins; settings, clock and
  update; the thread that refreshes the playlists; the remaining hardware and boot code.  They consist mainly of calls of libraries and
  of the operating system.  Floating-point rounding is not modelled; threads meet the model at the
  audio mailbox, whose operations are atomic under its lock.
\<close>

end
